(* ===== verification/Prelude.thy ===== *)
theory Prelude
  imports Main "HOL-Library.Word" "HOL-Library.Char_ord" "HOL-Library.List_Lexorder"
    "HOL-Library.Product_Lexorder" "HOL-Library.Multiset"
begin

text \<open>
  Shared vocabulary of the development: byte strings, machine words, the exceptions of the
  C++ code as values, the result type that carries them, loops that may throw, the
  object representation of \<open>uint64_t\<close>, and the generic lemmas the components use.

  A \<open>std::string\<close> or \<open>std::string_view\<close> is a \<open>string\<close>: a list of 8-bit characters.  The order of
  the library theories Char_ord and List_Lexorder on it is the order of
  \<open>std::string::operator<\<close>, which compares the bytes as unsigned values.
\<close>

section \<open>Types and collections of rules\<close>

type_synonym bytes = string
type_synonym u8 = "8 word"
type_synonym u16 = "16 word"
type_synonym u32 = "32 word"
type_synonym u64 = "64 word"

abbreviation MAX_U64 :: u64 where
  "MAX_U64 \<equiv> - 1"

named_theorems wf_intros \<open>introduction rules for the well-formedness predicates\<close>
named_theorems packed_simps \<open>reading the fields of a packed event\<close>
named_theorems store_simps \<open>the effect of a storage operation on the tables\<close>

section \<open>Exceptions as values\<close>

text \<open>
  \<open>Herr\<close> is \<open>herr(..)\<close> or \<open>hoytech::error(..)\<close> with its message; the other constructors are the
  exceptions of the standard library, of the JSON library and of the storage layer that the
  code can meet.  An index outside of a \<open>std::vector\<close> and an integer division by zero are undefined
  in C++; they are errors here, so that a theorem that excludes errors excludes them.  \<open>what\<close> is the text the handlers put into replies; for the exceptions of
  third-party libraries the text is theirs and only a tag is kept.
\<close>

datatype exn =
    Herr string
  | OutOfRange
  | InvalidArgument
  | BadVariant
  | DivisionByZero
  | UseAfterFree
  | StorageError string

fun what :: "exn \<Rightarrow> string" where
  "what (Herr m) = m"
| "what OutOfRange = ''out of range''"
| "what InvalidArgument = ''invalid argument''"
| "what UseAfterFree = ''use after free''"
| "what BadVariant = ''bad variant access''"
| "what DivisionByZero = ''division by zero''"
| "what (StorageError m) = m"

type_synonym 'a result = "exn + 'a"

definition rbind :: "'a result \<Rightarrow> ('a \<Rightarrow> 'b result) \<Rightarrow> 'b result" where
  "rbind m f = (case m of Inl e \<Rightarrow> Inl e | Inr x \<Rightarrow> f x)"

lemma rbind_simps [simp]:
  "rbind (Inl e) f = Inl e"
  "rbind (Inr x) f = f x"
  by (simp_all add: rbind_def)

lemma rbind_if [simp]: "rbind (if b then m else m') f = (if b then rbind m f else rbind m' f)"
  by simp

lemma rbind_eq_Inr [simp]: "rbind m f = Inr y \<longleftrightarrow> (\<exists>x. m = Inr x \<and> f x = Inr y)"
  by (cases m) auto

lemma rbind_eq_Inl: "rbind m f = Inl e \<longleftrightarrow> m = Inl e \<or> (\<exists>x. m = Inr x \<and> f x = Inl e)"
  by (cases m) auto

lemma rbind_assoc: "rbind (rbind m f) g = rbind m (\<lambda>x. rbind (f x) g)"
  by (cases m) auto

lemma rbind_cong [fundef_cong]:
  "m = m' \<Longrightarrow> (\<And>x. m' = Inr x \<Longrightarrow> f x = f' x) \<Longrightarrow> rbind m f = rbind m' f'"
  by (cases m') auto

text \<open>A loop whose body may throw: the first exception ends it.\<close>

fun rfold :: "('a \<Rightarrow> 's \<Rightarrow> 's result) \<Rightarrow> 'a list \<Rightarrow> 's \<Rightarrow> 's result" where
  "rfold f [] s = Inr s"
| "rfold f (x # xs) s = rbind (f x s) (rfold f xs)"

fun rmap :: "('a \<Rightarrow> 'b result) \<Rightarrow> 'a list \<Rightarrow> 'b list result" where
  "rmap f [] = Inr []"
| "rmap f (x # xs) = rbind (f x) (\<lambda>y. rbind (rmap f xs) (\<lambda>ys. Inr (y # ys)))"

lemma map_of_filter_key: "map_of (filter (\<lambda>x. fst x \<noteq> k) m) k' = (if k' = k then None else map_of m k')"
  by (induction m) auto

lemma rfold_append: "rfold f (xs @ ys) s = rbind (rfold f xs s) (rfold f ys)"
  by (induction xs arbitrary: s) (auto simp: rbind_assoc intro: rbind_cong)

lemma rfold_invariant:
  assumes "rfold f xs s = Inr s'" and "P s"
    and "\<And>x s s'. x \<in> set xs \<Longrightarrow> P s \<Longrightarrow> f x s = Inr s' \<Longrightarrow> P s'"
  shows "P s'"
  using assms
proof (induction xs arbitrary: s)
  case Nil
  then show ?case by simp
next
  case (Cons x xs)
  from Cons.prems(1) obtain s1 where s1: "f x s = Inr s1" "rfold f xs s1 = Inr s'"
    by auto
  have "P s1"
    using Cons.prems(2,3) s1(1) by (meson list.set_intros(1))
  with s1(2) show ?case
    by (rule Cons.IH) (meson Cons.prems(3) list.set_intros(2))
qed

lemma rfold_pure:
  "(\<And>x s. x \<in> set xs \<Longrightarrow> f x s = Inr (g x s)) \<Longrightarrow> rfold f xs s = Inr (fold g xs s)"
  by (induction xs arbitrary: s) auto

lemma rmap_eq_Inr: "rmap f xs = Inr ys \<longleftrightarrow> list_all2 (\<lambda>x y. f x = Inr y) xs ys"
  by (induction xs arbitrary: ys) (auto simp: list_all2_Cons1)

lemma rmap_length: "rmap f xs = Inr ys \<Longrightarrow> length ys = length xs"
  by (auto simp: rmap_eq_Inr dest: list_all2_lengthD)

section \<open>Bytes of an integer\<close>

text \<open>
  \<open>lmdb::to_sv<uint64_t>\<close> and \<open>lmdb::from_sv<uint64_t>\<close> reinterpret the object representation
  of an integer as bytes.  The target is little-endian.
\<close>

fun le_bytes :: "nat \<Rightarrow> nat \<Rightarrow> bytes" where
  "le_bytes 0 n = []"
| "le_bytes (Suc k) n = char_of (n mod 256) # le_bytes k (n div 256)"

fun le_value :: "bytes \<Rightarrow> nat" where
  "le_value [] = 0"
| "le_value (c # cs) = of_char c + 256 * le_value cs"

definition to_sv64 :: "u64 \<Rightarrow> bytes" where
  "to_sv64 w = le_bytes 8 (unat w)"

definition from_sv64 :: "bytes \<Rightarrow> u64" where
  "from_sv64 s = of_nat (le_value s)"

lemma length_le_bytes [simp]: "length (le_bytes k n) = k"
  by (induction k arbitrary: n) auto

lemma length_to_sv64 [simp]: "length (to_sv64 w) = 8"
  by (simp add: to_sv64_def)

lemma le_value_le_bytes: "le_value (le_bytes k n) = n mod 256 ^ k"
proof (induction k arbitrary: n)
  case 0
  then show ?case by simp
next
  case (Suc k)
  have "n mod 256 + 256 * (n div 256 mod 256 ^ k) = n mod (256 * 256 ^ k)"
    by (simp add: mod_mult2_eq)
  with Suc.IH show ?case by simp
qed

lemma of_char_less [simp]: "of_char c < (256 :: nat)"
  by (metis nat_of_char_less_256)

lemma le_value_less: "le_value s < 256 ^ length s"
proof (induction s)
  case Nil
  then show ?case by simp
next
  case (Cons c s)
  have "of_char c + 256 * le_value s < 256 + 256 * le_value s"
    by simp
  also have "\<dots> = 256 * Suc (le_value s)"
    by simp
  also have "\<dots> \<le> 256 * 256 ^ length s"
    using Cons.IH by simp
  finally show ?case by simp
qed

lemma le_bytes_le_value: "le_bytes (length s) (le_value s) = s"
proof (induction s)
  case Nil
  then show ?case by simp
next
  case (Cons c s)
  have "(of_char c + 256 * le_value s) mod 256 = (of_char c :: nat)"
    and "(of_char c + 256 * le_value s) div 256 = le_value s"
    using of_char_less [of c] by simp_all
  with Cons.IH show ?case by simp
qed

lemma from_to_sv64 [simp]: "from_sv64 (to_sv64 w) = w"
proof -
  have "unat w < 256 ^ 8"
    using unsigned_less [of w] by simp
  then show ?thesis
    by (simp add: from_sv64_def to_sv64_def le_value_le_bytes)
qed

lemma to_from_sv64: "length s = 8 \<Longrightarrow> to_sv64 (from_sv64 s) = s"
proof -
  assume 8: "length s = 8"
  have "le_value s < 2 ^ 64"
    using le_value_less [of s] 8 by simp
  then have "unat (of_nat (le_value s) :: u64) = le_value s"
    by (simp add: unat_of_nat)
  then show ?thesis
    using le_bytes_le_value [of s] 8 by (simp add: to_sv64_def from_sv64_def)
qed

lemma to_sv64_inject [simp]: "to_sv64 a = to_sv64 b \<longleftrightarrow> a = b"
  by (metis from_to_sv64)

section \<open>Decimal rendering\<close>

fun dec :: "nat \<Rightarrow> string" where
  "dec n = (if n < 10 then [char_of (48 + n)] else dec (n div 10) @ [char_of (48 + n mod 10)])"

declare dec.simps [simp del]

section \<open>Lists\<close>

definition starts_with :: "'a list \<Rightarrow> 'a list \<Rightarrow> bool" where
  "starts_with s p \<longleftrightarrow> take (length p) s = p"

definition ends_with :: "'a list \<Rightarrow> 'a list \<Rightarrow> bool" where
  "ends_with s p \<longleftrightarrow> length p \<le> length s \<and> drop (length s - length p) s = p"

lemma starts_with_append [simp]: "starts_with (p @ s) p"
  by (simp add: starts_with_def)

lemma starts_with_iff: "starts_with s p \<longleftrightarrow> (\<exists>t. s = p @ t)"
  unfolding starts_with_def by (metis append_eq_conv_conj append_take_drop_id)

lemma starts_with_same_length:
  "length p = length q \<Longrightarrow> starts_with (p @ s) q \<longleftrightarrow> p = q"
  by (simp add: starts_with_def)

text \<open>\<open>std::unique\<close> after \<open>std::sort\<close>: an element equal to the one before it is dropped.\<close>

fun unique_from :: "'a option \<Rightarrow> 'a list \<Rightarrow> 'a list" where
  "unique_from prev [] = []"
| "unique_from prev (x # xs) =
     (if prev = Some x then unique_from (Some x) xs else x # unique_from (Some x) xs)"

lemma unique_from_Some:
  "sorted (x # xs) \<Longrightarrow>
   sorted_wrt (<) (x # unique_from (Some x) xs) \<and> insert x (set (unique_from (Some x) xs)) = insert x (set xs)"
  for x :: "'a :: linorder"
proof (induction xs arbitrary: x)
  case Nil
  then show ?case by simp
next
  case (Cons y ys)
  then have IH: "sorted_wrt (<) (y # unique_from (Some y) ys)"
    "insert y (set (unique_from (Some y) ys)) = insert y (set ys)"
    by simp_all
  show ?case
  proof (cases "x = y")
    case True
    with IH show ?thesis by auto
  next
    case False
    then have "x < y" using Cons.prems by auto
    with IH False show ?thesis by (auto intro: less_trans)
  qed
qed

lemma unique_sort:
  "sorted_wrt (<) (unique_from None (sort xs))"
  "set (unique_from None (sort xs)) = set xs"
  for xs :: "'a :: linorder list"
proof -
  have "sorted_wrt (<) (unique_from None ys) \<and> set (unique_from None ys) = set ys"
    if "sorted ys" for ys :: "'a list"
    using that unique_from_Some by (cases ys) auto
  from this [OF sorted_sort] show "sorted_wrt (<) (unique_from None (sort xs))"
    and "set (unique_from None (sort xs)) = set xs"
    by auto
qed

section \<open>Bisection\<close>

text \<open>
  The loop of \<open>std::lower_bound\<close> and \<open>std::upper_bound\<close>: the first position in
  \<open>[first, first + cnt)\<close> at which a predicate stops to hold, when it holds on a prefix.
\<close>

function bisect :: "(nat \<Rightarrow> bool) \<Rightarrow> nat \<Rightarrow> nat \<Rightarrow> nat" where
  "bisect p first cnt =
     (if cnt > 0 then
        let step = cnt div 2; cur = first + step in
        if p cur then bisect p (cur + 1) (cnt - (step + 1)) else bisect p first step
      else first)"
  by pat_completeness auto
termination
  by (relation "measure (\<lambda>(p, first, cnt). cnt)") auto

declare bisect.simps [simp del]

lemma bisect_partition:
  assumes "\<And>i j. i \<le> j \<Longrightarrow> j < first + cnt \<Longrightarrow> p j \<Longrightarrow> p i"
  shows "first \<le> bisect p first cnt \<and> bisect p first cnt \<le> first + cnt \<and>
    (\<forall>i. first \<le> i \<and> i < first + cnt \<longrightarrow> (p i \<longleftrightarrow> i < bisect p first cnt))"
  using assms
proof (induction p first cnt rule: bisect.induct)
  case (1 p first cnt)
  let ?step = "cnt div 2" and ?cur = "first + cnt div 2"
  show ?case
  proof (cases "cnt > 0")
    case False
    then show ?thesis by (auto simp: bisect.simps [of p first 0])
  next
    case pos: True
    show ?thesis
    proof (cases "p ?cur")
      case True
      have eq: "bisect p first cnt = bisect p (?cur + 1) (cnt - (?step + 1))"
        using pos True by (subst bisect.simps) (simp add: Let_def)
      have bnd: "(?cur + 1) + (cnt - (?step + 1)) = first + cnt"
        using pos by (simp add: div_less_dividend)
      have *: "?cur + 1 \<le> bisect p (?cur + 1) (cnt - (?step + 1)) \<and>
        bisect p (?cur + 1) (cnt - (?step + 1)) \<le> first + cnt \<and>
        (\<forall>i. ?cur + 1 \<le> i \<and> i < first + cnt \<longrightarrow>
          (p i \<longleftrightarrow> i < bisect p (?cur + 1) (cnt - (?step + 1))))"
        using "1.IH"(1) [OF pos refl refl True] "1.prems" unfolding bnd by blast
      note *
      moreover have "p i" if "i \<le> ?cur" for i
        using "1.prems" [of i ?cur] True that pos by (simp add: div_less_dividend)
      ultimately have "p i \<longleftrightarrow> i < bisect p first cnt" if "first \<le> i \<and> i < first + cnt" for i
        unfolding eq using that by (cases "i \<le> ?cur") auto
      with * show ?thesis
        unfolding eq by auto
    next
      case False
      have eq: "bisect p first cnt = bisect p first ?step"
        using pos False by (subst bisect.simps) (simp add: Let_def)
      have IH: "first \<le> bisect p first ?step \<and> bisect p first ?step \<le> first + ?step \<and>
        (\<forall>i. first \<le> i \<and> i < first + ?step \<longrightarrow> (p i \<longleftrightarrow> i < bisect p first ?step))"
        using "1.IH"(2) [OF pos refl refl False] "1.prems" pos by (simp add: div_less_dividend)
      moreover have "\<not> p i" if "?cur \<le> i" "i < first + cnt" for i
        using "1.prems" [of ?cur i] False that by blast
      ultimately have "p i \<longleftrightarrow> i < bisect p first cnt" if "first \<le> i \<and> i < first + cnt" for i
        unfolding eq using that by (cases "i < ?cur") auto
      with IH show ?thesis
        unfolding eq using div_le_dividend [of cnt 2] by auto
    qed
  qed
qed

section \<open>Loops that may not end\<close>

text \<open>
  A loop whose body says how to go on: with a new state, or out of the loop with a result.  \<open>None\<close>
  is a loop that does not end; \<open>while_flow_rule\<close> shows that it does, from an invariant and a measure.
\<close>

datatype ('s, 'r) flow = Next 's | Done 'r

partial_function (option) while_flow :: "('s \<Rightarrow> ('s, 'r) flow option) \<Rightarrow> 's \<Rightarrow> 'r option" where
  "while_flow body s = Option.bind (body s) (\<lambda>f. case f of Done r \<Rightarrow> Some r | Next s' \<Rightarrow> while_flow body s')"

lemma while_flow_rule:
  assumes "I s" and step: "\<And>s. I s \<Longrightarrow> \<exists>f. body s = Some f \<and> (case f of Done r \<Rightarrow> Q r | Next s' \<Rightarrow> I s' \<and> m s' < (m s :: nat))"
  shows "\<exists>r. while_flow body s = Some r \<and> Q r"
  using assms(1)
proof (induction "m s" arbitrary: s rule: less_induct)
  case less
  obtain f where f: "body s = Some f" "case f of Done r \<Rightarrow> Q r | Next s' \<Rightarrow> I s' \<and> m s' < m s"
    using step [OF less.prems] by blast
  then show ?case
    using less.hyps by (cases f) (auto simp: while_flow.simps [of body s])
qed

lemma while_flow_partial:
  assumes "while_flow body s = Some r" and "I s"
    and "\<And>s f. I s \<Longrightarrow> body s = Some f \<Longrightarrow> case f of Done r \<Rightarrow> Q r | Next s' \<Rightarrow> I s'"
  shows "Q r"
proof -
  have "I s \<longrightarrow> (\<forall>s f. I s \<longrightarrow> body s = Some f \<longrightarrow> (case f of Done r \<Rightarrow> Q r | Next s' \<Rightarrow> I s')) \<longrightarrow> Q r"
    using assms(1)
  proof (rule while_flow.raw_induct [rotated], intro impI)
    fix wf and b :: "'b \<Rightarrow> ('b, 'a) flow option" and s r
    assume IH: "\<And>b s r. wf b s = Some r \<Longrightarrow> I s \<longrightarrow> (\<forall>s f. I s \<longrightarrow> b s = Some f \<longrightarrow> (case f of Done r \<Rightarrow> Q r | Next s' \<Rightarrow> I s')) \<longrightarrow> Q r"
      and run: "Option.bind (b s) (\<lambda>f. case f of Done r \<Rightarrow> Some r | Next s' \<Rightarrow> wf b s') = Some r"
      and I: "I s" and step: "\<forall>s f. I s \<longrightarrow> b s = Some f \<longrightarrow> (case f of Done r \<Rightarrow> Q r | Next s' \<Rightarrow> I s')"
    from run obtain f where f: "b s = Some f" "(case f of Done r \<Rightarrow> Some r | Next s' \<Rightarrow> wf b s') = Some r" by (auto simp: bind_eq_Some_conv)
    then show "Q r" using step [rule_format, OF I f(1)] IH step by (cases f) auto
  qed
  then show ?thesis using assms(2,3) by blast
qed

end
