(* ===== verification/Json.thy ===== *)
theory Json
  imports Prelude
begin

text \<open>
  The values of the JSON library as the code sees them, and the accessors of
  \<open>src/jsonParseUtils.h\<close>.  An object is the list of its members in the order in which the
  library's \<open>std::map\<close> iterates over them.  Text is parsed and printed by the library:
  parsing and printing are parameters of the definitions that use them.
\<close>

section \<open>Values\<close>

datatype json =
    JNull
  | JBool bool
  | JSigned int
  | JUnsigned u64
  | JDouble string
  | JString string
  | JArray "json list"
  | JObject "(string \<times> json) list"

fun is_object :: "json \<Rightarrow> bool" where
  "is_object (JObject _) = True"
| "is_object _ = False"

fun is_array :: "json \<Rightarrow> bool" where
  "is_array (JArray _) = True"
| "is_array _ = False"

fun is_string :: "json \<Rightarrow> bool" where
  "is_string (JString _) = True"
| "is_string _ = False"

fun is_integer :: "json \<Rightarrow> bool" where
  "is_integer (JUnsigned _) = True"
| "is_integer (JSigned _) = True"
| "is_integer _ = False"

fun is_null :: "json \<Rightarrow> bool" where
  "is_null JNull = True"
| "is_null _ = False"

text \<open>The typed accessors throw when the value has another type.\<close>

fun get_string :: "json \<Rightarrow> string result" where
  "get_string (JString s) = Inr s"
| "get_string _ = Inl BadVariant"

fun get_unsigned :: "json \<Rightarrow> u64 result" where
  "get_unsigned (JUnsigned n) = Inr n"
| "get_unsigned _ = Inl BadVariant"

fun get_array :: "json \<Rightarrow> json list result" where
  "get_array (JArray xs) = Inr xs"
| "get_array _ = Inl BadVariant"

fun get_object :: "json \<Rightarrow> (string \<times> json) list result" where
  "get_object (JObject ms) = Inr ms"
| "get_object _ = Inl BadVariant"

fun get_boolean :: "json \<Rightarrow> bool result" where
  "get_boolean (JBool b) = Inr b"
| "get_boolean _ = Inl BadVariant"

text \<open>\<open>v.at(key)\<close> throws on a missing member, \<open>v.find(key)\<close> returns a null pointer.\<close>

fun json_find :: "json \<Rightarrow> string \<Rightarrow> json option" where
  "json_find (JObject ms) k = map_of ms k"
| "json_find _ k = None"

fun json_at :: "json \<Rightarrow> string \<Rightarrow> json result" where
  "json_at (JObject ms) k = (case map_of ms k of None \<Rightarrow> Inl OutOfRange | Some v \<Rightarrow> Inr v)"
| "json_at _ k = Inl BadVariant"

definition arr_at :: "'a list \<Rightarrow> nat \<Rightarrow> 'a result" where
  "arr_at xs i = (if i < length xs then Inr (xs ! i) else Inl OutOfRange)"

section \<open>Accessors with a message\<close>

definition jsonGetString :: "json \<Rightarrow> string \<Rightarrow> string result" where
  "jsonGetString v errMsg = (if is_string v then get_string v else Inl (Herr errMsg))"

definition jsonGetUnsigned :: "json \<Rightarrow> string \<Rightarrow> u64 result" where
  "jsonGetUnsigned v errMsg =
     (case v of JUnsigned n \<Rightarrow> get_unsigned v | _ \<Rightarrow> Inl (Herr errMsg))"

definition jsonGetArray :: "json \<Rightarrow> string \<Rightarrow> json list result" where
  "jsonGetArray v errMsg = (if is_array v then get_array v else Inl (Herr errMsg))"

lemma jsonGetString_eq_Inr [simp]: "jsonGetString v m = Inr s \<longleftrightarrow> v = JString s"
  by (cases v) (auto simp: jsonGetString_def)

lemma jsonGetUnsigned_eq_Inr [simp]: "jsonGetUnsigned v m = Inr n \<longleftrightarrow> v = JUnsigned n"
  by (cases v) (auto simp: jsonGetUnsigned_def)

lemma jsonGetArray_eq_Inr [simp]: "jsonGetArray v m = Inr xs \<longleftrightarrow> v = JArray xs"
  by (cases v) (auto simp: jsonGetArray_def)

lemma get_string_eq_Inr [simp]: "get_string v = Inr s \<longleftrightarrow> v = JString s"
  by (cases v) auto

lemma get_unsigned_eq_Inr [simp]: "get_unsigned v = Inr n \<longleftrightarrow> v = JUnsigned n"
  by (cases v) auto

lemma get_array_eq_Inr [simp]: "get_array v = Inr xs \<longleftrightarrow> v = JArray xs"
  by (cases v) auto

lemma json_at_eq_Inr [simp]:
  "json_at v k = Inr w \<longleftrightarrow> (\<exists>ms. v = JObject ms \<and> map_of ms k = Some w)"
  by (cases v) (auto split: option.splits)

lemma case_lookup_eq_Inr [simp]:
  "(case m of None \<Rightarrow> Inl x | Some v \<Rightarrow> Inr v) = Inr w \<longleftrightarrow> m = Some w"
  by (cases m) auto

section \<open>Parsed values\<close>

text \<open>The objects of the JSON library are maps: no two members have the same name.\<close>

fun json_wf :: "json \<Rightarrow> bool" where
  "json_wf (JArray xs) = (\<forall>x \<in> set xs. json_wf x)"
| "json_wf (JObject ms) = (distinct (map fst ms) \<and> (\<forall>m \<in> set ms. json_wf (snd m)))"
| "json_wf _ = True"

end
