(* ===== verification/PackedEvent.thy ===== *)
theory PackedEvent
  imports Prelude
begin

text \<open>
  \<open>src/PackedEvent.h\<close> and \<open>src/Bytes32.h\<close>: the binary summary of an event that the database
  indexes.  \<open>event\<close> is the abstract contents of a summary, \<open>pack\<close> its encoding as
  \<open>PackedEventBuilder\<close> lays it out; the accessors read a byte string at the offsets of the
  code.  The lemmas show that the accessors and the tag iteration of the code recover exactly
  what was packed.
\<close>

section \<open>32-byte values\<close>

datatype Bytes32 = Bytes32 (sv: bytes)

definition mkBytes32 :: "bytes \<Rightarrow> Bytes32 result" where
  "mkBytes32 s = (if length s \<noteq> 32 then Inl (Herr ''invalid length for Bytes32'') else Inr (Bytes32 s))"

text \<open>\<open>operator<=>\<close> is \<open>memcmp\<close>: the order of the byte strings.\<close>

instantiation Bytes32 :: linorder
begin

definition less_eq_Bytes32 :: "Bytes32 \<Rightarrow> Bytes32 \<Rightarrow> bool" where
  "less_eq_Bytes32 a b \<longleftrightarrow> sv a \<le> sv b"

definition less_Bytes32 :: "Bytes32 \<Rightarrow> Bytes32 \<Rightarrow> bool" where
  "less_Bytes32 a b \<longleftrightarrow> sv a < sv b"

instance
  by standard (auto simp: less_eq_Bytes32_def less_Bytes32_def Bytes32.expand)

end

lemma mkBytes32_eq_Inr [simp]: "mkBytes32 s = Inr b \<longleftrightarrow> length s = 32 \<and> b = Bytes32 s"
  by (auto simp: mkBytes32_def)

section \<open>Reading a packed event\<close>

definition PackedEventView :: "bytes \<Rightarrow> bytes result" where
  "PackedEventView s = (if length s < 88 then Inl (Herr ''PackedEventView too short'') else Inr s)"

definition pv_id :: "bytes \<Rightarrow> bytes" where
  "pv_id buf = take 32 buf"

definition pv_pubkey :: "bytes \<Rightarrow> bytes" where
  "pv_pubkey buf = take 32 (drop 32 buf)"

definition pv_created_at :: "bytes \<Rightarrow> u64" where
  "pv_created_at buf = from_sv64 (take 8 (drop 64 buf))"

definition pv_kind :: "bytes \<Rightarrow> u64" where
  "pv_kind buf = from_sv64 (take 8 (drop 72 buf))"

definition pv_expiration :: "bytes \<Rightarrow> u64" where
  "pv_expiration buf = from_sv64 (take 8 (drop 80 buf))"

text \<open>
  \<open>foreachTag\<close> walks over the tag records.  The callback gets the state it captures, and
  returns it with the flag that says whether to go on; it may throw.  A record cut short makes
  the next \<open>substr\<close> throw \<open>std::out_of_range\<close>.
\<close>

function tag_loop ::
  "bytes \<Rightarrow> (char \<Rightarrow> bytes \<Rightarrow> 's \<Rightarrow> ('s \<times> bool) result) \<Rightarrow> 's \<Rightarrow> 's result" where
  "tag_loop [] cb s = Inr s"
| "tag_loop [c] cb s = Inl OutOfRange"
| "tag_loop (tagName # l # rest) cb s =
     rbind (cb tagName (take (of_char l) rest) s) (\<lambda>(s', ret).
       if \<not> ret then Inr s'
       else if length rest < of_char l then Inl OutOfRange
       else tag_loop (drop (of_char l) rest) cb s')"
  by pat_completeness auto
termination
  by (relation "measure (\<lambda>(b, cb, s). length b)") auto

definition foreachTag ::
  "bytes \<Rightarrow> (char \<Rightarrow> bytes \<Rightarrow> 's \<Rightarrow> ('s \<times> bool) result) \<Rightarrow> 's \<Rightarrow> 's result" where
  "foreachTag buf cb s = tag_loop (drop 88 buf) cb s"

section \<open>Building a packed event\<close>

definition tag_add :: "bytes \<Rightarrow> char \<Rightarrow> bytes \<Rightarrow> bytes result" where
  "tag_add buf tagKey tagVal =
     (if length tagVal > 255 then Inl (Herr ''tagVal too long'')
      else Inr (buf @ [tagKey] @ [char_of (length tagVal)] @ tagVal))"

definition PackedEventBuilder ::
  "bytes \<Rightarrow> bytes \<Rightarrow> u64 \<Rightarrow> u64 \<Rightarrow> u64 \<Rightarrow> bytes \<Rightarrow> bytes result" where
  "PackedEventBuilder eid pubkey created_at kind expiration tagBuf =
     (if length eid \<noteq> 32 then Inl (Herr ''unexpected id size'')
      else if length pubkey \<noteq> 32 then Inl (Herr ''unexpected pubkey size'')
      else Inr (eid @ pubkey @ to_sv64 created_at @ to_sv64 kind @ to_sv64 expiration @ tagBuf))"

section \<open>The abstract contents\<close>

record event =
  ev_id :: bytes
  ev_pubkey :: bytes
  ev_created_at :: u64
  ev_kind :: u64
  ev_expiration :: u64
  ev_tags :: "(char \<times> bytes) list"

definition wf_event :: "event \<Rightarrow> bool" where
  "wf_event e \<longleftrightarrow> length (ev_id e) = 32 \<and> length (ev_pubkey e) = 32 \<and>
     (\<forall>(n, v) \<in> set (ev_tags e). length v \<le> 255)"

definition enc_tag :: "char \<times> bytes \<Rightarrow> bytes" where
  "enc_tag t = fst t # char_of (length (snd t)) # snd t"

definition enc_tags :: "(char \<times> bytes) list \<Rightarrow> bytes" where
  "enc_tags ts = concat (map enc_tag ts)"

definition pack :: "event \<Rightarrow> bytes" where
  "pack e = ev_id e @ ev_pubkey e @ to_sv64 (ev_created_at e) @ to_sv64 (ev_kind e) @
     to_sv64 (ev_expiration e) @ enc_tags (ev_tags e)"

definition wf_packed :: "bytes \<Rightarrow> bool" where
  "wf_packed p \<longleftrightarrow> (\<exists>e. wf_event e \<and> p = pack e)"

text \<open>The iteration of the callback over the abstract tags.\<close>

fun iter_tags ::
  "(char \<times> bytes) list \<Rightarrow> (char \<Rightarrow> bytes \<Rightarrow> 's \<Rightarrow> ('s \<times> bool) result) \<Rightarrow> 's \<Rightarrow> 's result" where
  "iter_tags [] cb s = Inr s"
| "iter_tags ((n, v) # ts) cb s =
     rbind (cb n v s) (\<lambda>(s', ret). if \<not> ret then Inr s' else iter_tags ts cb s')"

section \<open>Encoding and decoding agree\<close>

lemma enc_tags_Nil [simp]: "enc_tags [] = []"
  by (simp add: enc_tags_def)

lemma enc_tags_Cons [simp]: "enc_tags (t # ts) = fst t # char_of (length (snd t)) # snd t @ enc_tags ts"
  by (simp add: enc_tags_def enc_tag_def)

lemma enc_tags_append [simp]: "enc_tags (ts @ us) = enc_tags ts @ enc_tags us"
  by (simp add: enc_tags_def)

lemma tag_add_eq_Inr:
  "tag_add (enc_tags ts) n v = Inr b \<longleftrightarrow> length v \<le> 255 \<and> b = enc_tags (ts @ [(n, v)])"
  by (auto simp: tag_add_def)

lemma of_char_char_of_le [simp]: "n \<le> 255 \<Longrightarrow> of_char (char_of n :: char) = (n :: nat)"
  by simp

lemma tag_loop_enc_tags:
  "(\<forall>(n, v) \<in> set ts. length v \<le> 255) \<Longrightarrow> tag_loop (enc_tags ts) cb s = iter_tags ts cb s"
proof (induction ts arbitrary: s)
  case Nil
  then show ?case by simp
next
  case (Cons t ts)
  obtain n v where t: "t = (n, v)" by (cases t)
  with Cons show ?case
    by (auto intro!: rbind_cong simp del: of_char_of)
qed

lemma pack_accessors [packed_simps]:
  assumes "wf_event e"
  shows "pv_id (pack e) = ev_id e"
    and "pv_pubkey (pack e) = ev_pubkey e"
    and "pv_created_at (pack e) = ev_created_at e"
    and "pv_kind (pack e) = ev_kind e"
    and "pv_expiration (pack e) = ev_expiration e"
  using assms
  by (simp_all add: wf_event_def pack_def pv_id_def pv_pubkey_def pv_created_at_def pv_kind_def
      pv_expiration_def)

lemma drop_pack: "wf_event e \<Longrightarrow> drop 88 (pack e) = enc_tags (ev_tags e)"
  by (simp add: wf_event_def pack_def)

lemma foreachTag_pack [packed_simps]:
  "wf_event e \<Longrightarrow> foreachTag (pack e) cb s = iter_tags (ev_tags e) cb s"
  by (simp add: foreachTag_def drop_pack tag_loop_enc_tags wf_event_def)

lemma length_pack: "wf_event e \<Longrightarrow> 88 \<le> length (pack e)"
  by (simp add: wf_event_def pack_def)

lemma PackedEventView_pack [packed_simps]: "wf_event e \<Longrightarrow> PackedEventView (pack e) = Inr (pack e)"
  using length_pack [of e] by (simp add: PackedEventView_def)

lemma PackedEventBuilder_pack:
  "wf_event e \<Longrightarrow>
   PackedEventBuilder (ev_id e) (ev_pubkey e) (ev_created_at e) (ev_kind e) (ev_expiration e)
     (enc_tags (ev_tags e)) = Inr (pack e)"
  by (simp add: PackedEventBuilder_def wf_event_def pack_def)

lemma enc_tags_inject:
  assumes "\<forall>(n, v) \<in> set ts. length v \<le> 255" and "\<forall>(n, v) \<in> set us. length v \<le> 255"
    and "enc_tags ts = enc_tags us"
  shows "ts = us"
  using assms
proof (induction ts arbitrary: us)
  case Nil
  then show ?case by (cases us) auto
next
  case (Cons t ts)
  from Cons.prems(3) obtain u us' where us: "us = u # us'"
    by (cases us) auto
  have lt: "length (snd t) \<le> 255" and lu: "length (snd u) \<le> 255"
    using Cons.prems(1,2) us by auto
  have "char_of (length (snd t)) = (char_of (length (snd u)) :: char)"
    using Cons.prems(3) us by simp
  then have "of_char (char_of (length (snd t)) :: char) = (of_char (char_of (length (snd u)) :: char) :: nat)"
    by simp
  then have "length (snd t) = length (snd u)"
    using lt lu by (simp del: of_char_of)
  then show ?case
    using Cons us by (auto simp: prod_eq_iff)
qed

lemma pack_inject: "wf_event d \<Longrightarrow> wf_event e \<Longrightarrow> pack d = pack e \<longleftrightarrow> d = e"
proof
  assume wf: "wf_event d" "wf_event e" and eq: "pack d = pack e"
  have "enc_tags (ev_tags d) = enc_tags (ev_tags e)"
    using drop_pack [OF wf(1)] drop_pack [OF wf(2)] eq by simp
  then have "ev_tags d = ev_tags e"
    using wf by (intro enc_tags_inject) (auto simp: wf_event_def)
  then show "d = e"
    using eq pack_accessors [OF wf(1)] pack_accessors [OF wf(2)]
    by (intro event.equality) simp_all
qed simp

definition unpack :: "bytes \<Rightarrow> event" where
  "unpack p = \<lparr>ev_id = pv_id p, ev_pubkey = pv_pubkey p, ev_created_at = pv_created_at p,
     ev_kind = pv_kind p, ev_expiration = pv_expiration p,
     ev_tags = (case foreachTag p (\<lambda>n v acc. Inr (acc @ [(n, v)], True)) [] of
       Inl _ \<Rightarrow> [] | Inr ts \<Rightarrow> ts)\<rparr>"

lemma iter_tags_collect:
  "iter_tags ts (\<lambda>n v acc. Inr (acc @ [(n, v)], True)) acc = Inr (acc @ ts)"
  by (induction ts arbitrary: acc) auto

lemma unpack_pack [simp]: "wf_event e \<Longrightarrow> unpack (pack e) = e"
  by (simp add: unpack_def packed_simps iter_tags_collect)

lemma wf_packed_unpack: "wf_packed p \<Longrightarrow> wf_event (unpack p) \<and> pack (unpack p) = p"
  by (auto simp: wf_packed_def)

lemma wf_packed_pack [wf_intros]: "wf_event e \<Longrightarrow> wf_packed (pack e)"
  by (auto simp: wf_packed_def)

lemma wf_packedE:
  assumes "wf_packed p"
  obtains e where "wf_event e" and "p = pack e"
  using assms by (auto simp: wf_packed_def)

section \<open>Properties\<close>

text \<open>What is packed can be read back: the view of a packed event yields the id, author, time, kind
  and expiration it was built with, and the iteration over its tags visits the tags that were
  added, in order.\<close>

theorem packed_roundtrip:
  assumes "rfold (\<lambda>(n, v) buf. tag_add buf n v) ts [] = Inr buf"
    and "PackedEventBuilder i pk c k x buf = Inr p"
  shows "PackedEventView p = Inr p \<and> pv_id p = i \<and> pv_pubkey p = pk \<and> pv_created_at p = c \<and> pv_kind p = k \<and>
    pv_expiration p = x \<and> foreachTag p (\<lambda>n v acc. Inr (acc @ [(n, v)], True)) [] = Inr ts"
proof -
  have "buf = enc_tags (us @ ts) \<and> (\<forall>(n, v) \<in> set ts. length v \<le> 255)"
    if "rfold (\<lambda>(n, v) buf. tag_add buf n v) ts (enc_tags us) = Inr buf" for us
    using that
  proof (induction ts arbitrary: us)
    case (Cons t ts)
    then show ?case by (cases t) (fastforce simp: tag_add_eq_Inr simp del: enc_tags_append)
  qed simp
  from this [of "[]"] assms(1) have buf: "buf = enc_tags ts" "\<forall>(n, v) \<in> set ts. length v \<le> 255"
    by simp_all
  let ?e = "\<lparr>ev_id = i, ev_pubkey = pk, ev_created_at = c, ev_kind = k, ev_expiration = x, ev_tags = ts\<rparr>"
  have wf: "wf_event ?e" and p: "p = pack ?e"
    using assms(2) buf by (auto simp: PackedEventBuilder_def wf_event_def pack_def split: if_splits)
  show ?thesis
    unfolding p PackedEventView_pack [OF wf] pack_accessors [OF wf] foreachTag_pack [OF wf]
    by (simp add: iter_tags_collect)
qed

theorem packed_roundtrip_witness:
  "\<exists>buf p. rfold (\<lambda>(n, v) buf. tag_add buf n v) [(CHR ''t'', ''x'')] [] = Inr buf \<and>
     PackedEventBuilder (replicate 32 (CHR ''a'')) (replicate 32 (CHR ''b'')) 5 1 0 buf = Inr p \<and>
     foreachTag p (\<lambda>n v acc. Inr (acc @ [(n, v)], True)) [] = Inr [(CHR ''t'', ''x'')]"
proof -
  obtain buf where buf: "rfold (\<lambda>(n, v) buf. tag_add buf n v) [(CHR ''t'', ''x'')] [] = Inr buf"
    by (simp add: tag_add_def)
  obtain p where p: "PackedEventBuilder (replicate 32 (CHR ''a'')) (replicate 32 (CHR ''b'')) 5 1 0 buf = Inr p"
    by (simp add: PackedEventBuilder_def)
  from packed_roundtrip [OF buf p] buf p show ?thesis by blast
qed

end
