(* ===== verification/Filters.thy ===== *)
theory Filters
  imports Json PackedEvent
begin

text \<open>
  \<open>src/filters.h\<close>: the sets of byte strings and integers a filter holds, the filter built from
  its JSON object, the group of filters of a request, and matching an event against them.
  \<open>from_hex\<close> is the hex decoder of the support library and a parameter of the constructors.

  The locale \<open>filter_set\<close> is what the users of the two set types rely on: membership by
  \<open>doesMatch\<close>, and enumeration by \<open>size\<close> and \<open>at\<close>.  It is interpreted on both types.
\<close>

section \<open>Sets of byte strings\<close>

record Item =
  it_offset :: u16
  it_size :: u8
  it_firstByte :: u8

record FilterSetBytes =
  fsb_items :: "Item list"
  fsb_buf :: bytes

definition MAX_INDEXED_TAG_VAL_SIZE :: nat where
  "MAX_INDEXED_TAG_VAL_SIZE = 255"

definition byte :: "char \<Rightarrow> u8" where
  "byte c = of_nat (of_char c)"

text \<open>\<open>item[0]\<close> of an empty \<open>std::string\<close> is the terminating zero byte.\<close>

definition first_byte :: "bytes \<Rightarrow> u8" where
  "first_byte item = (case item of [] \<Rightarrow> 0 | c # _ \<Rightarrow> byte c)"

fun fsb_fill :: "bytes option \<Rightarrow> bytes list \<Rightarrow> FilterSetBytes \<Rightarrow> FilterSetBytes" where
  "fsb_fill prev [] fs = fs"
| "fsb_fill prev (item # rest) fs =
     (if prev = Some item then fsb_fill (Some item) rest fs
      else fsb_fill (Some item) rest
        (fs\<lparr>fsb_items := fsb_items fs @
              [\<lparr>it_offset = of_nat (length (fsb_buf fs)), it_size = of_nat (length item),
                it_firstByte = first_byte item\<rparr>],
            fsb_buf := fsb_buf fs @ item\<rparr>))"

definition fsb_item ::
  "(string \<Rightarrow> bytes result) \<Rightarrow> bool \<Rightarrow> nat \<Rightarrow> nat \<Rightarrow> json \<Rightarrow> bytes result" where
  "fsb_item from_hex hexDecode minSize maxSize i =
     rbind (get_string i) (\<lambda>s.
     rbind (if hexDecode then from_hex s else Inr s) (\<lambda>v.
       if length v < minSize then Inl (Herr ''filter item too small'')
       else if length v > maxSize then Inl (Herr ''filter item too large'')
       else Inr v))"

definition mkFilterSetBytes ::
  "(string \<Rightarrow> bytes result) \<Rightarrow> json \<Rightarrow> bool \<Rightarrow> nat \<Rightarrow> nat \<Rightarrow> FilterSetBytes result" where
  "mkFilterSetBytes from_hex arrHex hexDecode minSize maxSize =
     (if maxSize > MAX_INDEXED_TAG_VAL_SIZE then Inl (Herr ''maxSize bigger than max indexed tag size'')
      else rbind (get_array arrHex) (\<lambda>xs.
        rbind (rmap (fsb_item from_hex hexDecode minSize maxSize) xs) (\<lambda>arr.
          let fs = fsb_fill None (sort arr) \<lparr>fsb_items = [], fsb_buf = []\<rparr> in
          if length (fsb_buf fs) > 65535 then Inl (Herr ''total filter items too large'')
          else Inr fs)))"

definition item_sv :: "FilterSetBytes \<Rightarrow> Item \<Rightarrow> bytes" where
  "item_sv fs it = take (unat (it_size it)) (drop (unat (it_offset it)) (fsb_buf fs))"

definition fsb_at :: "FilterSetBytes \<Rightarrow> nat \<Rightarrow> bytes result" where
  "fsb_at fs n =
     (if n \<ge> length (fsb_items fs) then Inl (Herr ''FilterSetBytes access out of bounds'')
      else Inr (item_sv fs (fsb_items fs ! n)))"

definition fsb_size :: "FilterSetBytes \<Rightarrow> nat" where
  "fsb_size fs = length (fsb_items fs)"

text \<open>The comparison of the binary search looks at the first bytes before the whole strings.\<close>

definition fsb_comp :: "FilterSetBytes \<Rightarrow> bytes \<Rightarrow> nat \<Rightarrow> bool" where
  "fsb_comp fs candidate cur =
     (let it = fsb_items fs ! cur in
      if candidate \<noteq> [] \<and> it_size it \<noteq> 0 \<and> byte (candidate ! 0) \<noteq> it_firstByte it
      then byte (candidate ! 0) < it_firstByte it
      else candidate < item_sv fs it)"

function fsb_upper :: "FilterSetBytes \<Rightarrow> bytes \<Rightarrow> nat \<Rightarrow> nat \<Rightarrow> nat" where
  "fsb_upper fs candidate first cnt =
     (if cnt > 0 then
        let step = cnt div 2; cur = first + step in
        if \<not> fsb_comp fs candidate cur
        then fsb_upper fs candidate (cur + 1) (cnt - (step + 1))
        else fsb_upper fs candidate first step
      else first)"
  by pat_completeness auto
termination
  by (relation "measure (\<lambda>(fs, candidate, first, cnt). cnt)") auto

declare fsb_upper.simps [simp del]

definition fsb_doesMatch :: "FilterSetBytes \<Rightarrow> bytes \<Rightarrow> bool" where
  "fsb_doesMatch fs candidate =
     (let first = fsb_upper fs candidate 0 (length (fsb_items fs)) in
      if first = 0 then False
      else candidate = item_sv fs (fsb_items fs ! (first - 1)))"

section \<open>Sets of integers\<close>

record FilterSetUint =
  fsu_items :: "u64 list"

definition mkFilterSetUint :: "json \<Rightarrow> FilterSetUint result" where
  "mkFilterSetUint arr =
     rbind (get_array arr) (\<lambda>xs.
     rbind (rmap get_unsigned xs) (\<lambda>items.
       Inr \<lparr>fsu_items = unique_from None (sort items)\<rparr>))"

definition fsu_at :: "FilterSetUint \<Rightarrow> nat \<Rightarrow> u64 result" where
  "fsu_at fs n =
     (if n \<ge> length (fsu_items fs) then Inl (Herr ''FilterSetBytes access out of bounds'')
      else Inr (fsu_items fs ! n))"

definition fsu_size :: "FilterSetUint \<Rightarrow> nat" where
  "fsu_size fs = length (fsu_items fs)"

text \<open>\<open>std::binary_search\<close>: a lower bound, then one comparison.\<close>

definition fsu_doesMatch :: "FilterSetUint \<Rightarrow> u64 \<Rightarrow> bool" where
  "fsu_doesMatch fs candidate =
     (let i = bisect (\<lambda>i. fsu_items fs ! i < candidate) 0 (length (fsu_items fs)) in
      i < length (fsu_items fs) \<and> \<not> candidate < fsu_items fs ! i)"

section \<open>What the users of a set rely on\<close>

locale filter_set =
  fixes doesMatch :: "'s \<Rightarrow> 'a \<Rightarrow> bool"
    and at :: "'s \<Rightarrow> nat \<Rightarrow> 'a result"
    and sz :: "'s \<Rightarrow> nat"
    and elems :: "'s \<Rightarrow> 'a list"
    and wf :: "'s \<Rightarrow> bool"
  assumes doesMatch_iff: "wf s \<Longrightarrow> doesMatch s x \<longleftrightarrow> x \<in> set (elems s)"
    and at_elems: "n < sz s \<Longrightarrow> at s n = Inr (elems s ! n)"
    and sz_elems: "sz s = length (elems s)"
    and distinct_elems: "wf s \<Longrightarrow> distinct (elems s)"
begin

text \<open>The loop \<open>for (i = 0; i < s.size(); i++) { .. s.at(i) .. }\<close> visits every element once.\<close>

lemma indexed_loop:
  "rfold (\<lambda>i. \<lambda>st. rbind (at s i) (\<lambda>x. body x st)) [0..<sz s] st = rfold body (elems s) st"
proof -
  have "rfold (\<lambda>i. \<lambda>st. rbind (at s i) (\<lambda>x. body x st)) is st = rfold body (map ((!) (elems s)) is) st"
    if "\<forall>i \<in> set is. i < sz s" for "is" st
    using that by (induction "is" arbitrary: st) (auto simp: at_elems intro!: rbind_cong)
  from this [of "[0..<sz s]"] show ?thesis
    by (simp add: sz_elems map_nth)
qed

lemma rmap_at: "rmap (at s) [0..<sz s] = Inr (elems s)"
  by (simp add: rmap_eq_Inr list_all2_conv_all_nth sz_elems at_elems)

lemma doesMatch_ex_at: "wf s \<Longrightarrow> doesMatch s x \<longleftrightarrow> (\<exists>i < sz s. at s i = Inr x)"
  by (auto simp: doesMatch_iff in_set_conv_nth at_elems sz_elems)

end

section \<open>The byte sets meet the contract\<close>

definition fsb_vals :: "FilterSetBytes \<Rightarrow> bytes list" where
  "fsb_vals fs = map (item_sv fs) (fsb_items fs)"

definition wf_item :: "FilterSetBytes \<Rightarrow> Item \<Rightarrow> bool" where
  "wf_item fs it \<longleftrightarrow> unat (it_offset it) + unat (it_size it) \<le> length (fsb_buf fs) \<and>
     it_firstByte it = first_byte (item_sv fs it)"

definition wf_fsb :: "FilterSetBytes \<Rightarrow> bool" where
  "wf_fsb fs \<longleftrightarrow> (\<forall>it \<in> set (fsb_items fs). wf_item fs it) \<and> sorted_wrt (<) (fsb_vals fs) \<and>
     (\<forall>v \<in> set (fsb_vals fs). length v \<le> MAX_INDEXED_TAG_VAL_SIZE)"

lemma byte_less_iff [simp]: "byte c < byte d \<longleftrightarrow> c < d"
  by (simp add: byte_def word_less_nat_alt unat_of_nat less_char_def)

lemma byte_eq_iff [simp]: "byte c = byte d \<longleftrightarrow> c = d"
  by (metis byte_less_iff not_less_iff_gr_or_eq)

lemma item_sv_mono:
  "wf_item fs it \<Longrightarrow> fsb_buf fs' = fsb_buf fs @ ext \<Longrightarrow> item_sv fs' it = item_sv fs it \<and> wf_item fs' it"
  by (simp add: wf_item_def item_sv_def)

lemma fsb_fill_spec:
  assumes "\<forall>it \<in> set (fsb_items fs). wf_item fs it"
    and "\<forall>v \<in> set xs. length v \<le> 255"
    and "length (fsb_buf (fsb_fill prev xs fs)) \<le> 65535"
  shows "(\<forall>it \<in> set (fsb_items (fsb_fill prev xs fs)). wf_item (fsb_fill prev xs fs) it) \<and>
    fsb_vals (fsb_fill prev xs fs) = fsb_vals fs @ unique_from prev xs \<and>
    length (fsb_buf fs) \<le> length (fsb_buf (fsb_fill prev xs fs))"
  using assms
proof (induction prev xs fs rule: fsb_fill.induct)
  case (1 prev fs)
  then show ?case by simp
next
  case (2 prev item rest fs)
  show ?case
  proof (cases "prev = Some item")
    case True
    with 2 show ?thesis by simp
  next
    case False
    let ?it = "\<lparr>it_offset = of_nat (length (fsb_buf fs)), it_size = of_nat (length item),
                it_firstByte = first_byte item\<rparr> :: Item"
    let ?fs = "fs\<lparr>fsb_items := fsb_items fs @ [?it], fsb_buf := fsb_buf fs @ item\<rparr>"
    let ?res = "fsb_fill (Some item) rest ?fs"
    have grow: "length (fsb_buf gs) \<le> length (fsb_buf (fsb_fill p ys gs))" for p ys gs
      by (induction p ys gs rule: fsb_fill.induct) auto
    have "length (fsb_buf ?fs) \<le> 65535"
      using grow [of ?fs "Some item" rest] "2.prems"(3) False by simp
    then have off: "unat (of_nat (length (fsb_buf fs)) :: u16) = length (fsb_buf fs)"
      and sz: "unat (of_nat (length item) :: u8) = length item"
      using "2.prems"(2) by (simp_all add: unat_of_nat)
    then have new: "item_sv ?fs ?it = item" and new_wf: "wf_item ?fs ?it"
      by (simp_all add: wf_item_def item_sv_def)
    have old: "item_sv ?fs it = item_sv fs it" "wf_item ?fs it" if "it \<in> set (fsb_items fs)" for it
      using item_sv_mono [of fs it ?fs item] that "2.prems"(1) by auto
    have IH: "(\<forall>it \<in> set (fsb_items ?res). wf_item ?res it) \<and>
      fsb_vals ?res = fsb_vals ?fs @ unique_from (Some item) rest \<and>
      length (fsb_buf ?fs) \<le> length (fsb_buf ?res)"
      using "2.IH"(2) [OF False] "2.prems"(2,3) False new_wf old by auto
    moreover have "fsb_vals ?fs = fsb_vals fs @ [item]"
      using old new by (simp add: fsb_vals_def)
    ultimately show ?thesis
      using False by simp
  qed
qed

lemma fsb_item_eq_Inr:
  "fsb_item from_hex h lo hi i = Inr v \<longleftrightarrow>
   (\<exists>s. i = JString s \<and> (if h then from_hex s = Inr v else s = v) \<and> lo \<le> length v \<and> length v \<le> hi)"
  by (cases h) (auto simp: fsb_item_def not_less split: if_splits)

text \<open>The values of a byte set built from a JSON array: the decoded strings of the array.\<close>

definition json_bytes :: "(string \<Rightarrow> bytes result) \<Rightarrow> bool \<Rightarrow> json \<Rightarrow> bytes set" where
  "json_bytes from_hex h v =
     {b. \<exists>xs s. v = JArray xs \<and> JString s \<in> set xs \<and> (if h then from_hex s = Inr b else s = b)}"

lemma mkFilterSetBytes_spec:
  assumes "mkFilterSetBytes from_hex arrHex h lo hi = Inr fs"
  shows "wf_fsb fs" and "set (fsb_vals fs) = json_bytes from_hex h arrHex"
    and "\<forall>v \<in> set (fsb_vals fs). lo \<le> length v \<and> length v \<le> hi"
proof -
  from assms obtain xs arr where hi: "hi \<le> 255" and xs: "arrHex = JArray xs"
    and arr: "rmap (fsb_item from_hex h lo hi) xs = Inr arr"
    and fs: "fs = fsb_fill None (sort arr) \<lparr>fsb_items = [], fsb_buf = []\<rparr>"
    and len: "length (fsb_buf fs) \<le> 65535"
    by (auto simp: mkFilterSetBytes_def Let_def MAX_INDEXED_TAG_VAL_SIZE_def split: if_splits)
  have two: "list_all2 (\<lambda>i v. \<exists>s. i = JString s \<and> (if h then from_hex s = Inr v else s = v) \<and>
      lo \<le> length v \<and> length v \<le> hi) xs arr"
    using arr by (simp add: rmap_eq_Inr fsb_item_eq_Inr)
  then have bound: "\<forall>v \<in> set arr. lo \<le> length v \<and> length v \<le> hi"
    by (auto simp: list_all2_conv_all_nth in_set_conv_nth)
  have "set arr = json_bytes from_hex h arrHex"
  proof (intro equalityI subsetI)
    fix v assume "v \<in> set arr"
    with two show "v \<in> json_bytes from_hex h arrHex"
      by (fastforce simp: json_bytes_def xs list_all2_conv_all_nth in_set_conv_nth)
  next
    fix v assume "v \<in> json_bytes from_hex h arrHex"
    then obtain i s where "i < length xs" "xs ! i = JString s" "if h then from_hex s = Inr v else s = v"
      by (auto simp: json_bytes_def xs in_set_conv_nth)
    with two show "v \<in> set arr"
      by (auto simp: list_all2_conv_all_nth in_set_conv_nth split: if_splits intro!: exI [of _ i])
  qed
  moreover have "\<forall>v \<in> set (sort arr). length v \<le> 255"
    using bound hi by fastforce
  then have spec: "(\<forall>it \<in> set (fsb_items fs). wf_item fs it) \<and> fsb_vals fs = unique_from None (sort arr)"
    using fsb_fill_spec [of "\<lparr>fsb_items = [], fsb_buf = []\<rparr>" "sort arr" None] len
    unfolding fs [symmetric] by (simp add: fsb_vals_def)
  ultimately show "set (fsb_vals fs) = json_bytes from_hex h arrHex"
    and "\<forall>v \<in> set (fsb_vals fs). lo \<le> length v \<and> length v \<le> hi"
    using bound by (simp_all add: unique_sort)
  then show "wf_fsb fs"
    using spec hi by (auto simp: wf_fsb_def unique_sort MAX_INDEXED_TAG_VAL_SIZE_def)
qed

lemma fsb_comp_eq:
  assumes "wf_fsb fs" and "cur < length (fsb_items fs)"
  shows "fsb_comp fs candidate cur \<longleftrightarrow> candidate < fsb_vals fs ! cur"
proof -
  let ?it = "fsb_items fs ! cur"
  have wf: "wf_item fs ?it"
    using assms by (auto simp: wf_fsb_def)
  have val: "fsb_vals fs ! cur = item_sv fs ?it"
    using assms by (simp add: fsb_vals_def)
  have len: "length (item_sv fs ?it) = unat (it_size ?it)"
    using wf by (auto simp: wf_item_def item_sv_def min_def)
  show ?thesis
  proof (cases "candidate \<noteq> [] \<and> it_size ?it \<noteq> 0")
    case True
    then obtain c cs where cand: "candidate = c # cs"
      by (cases candidate) auto
    have "item_sv fs ?it \<noteq> []"
      using True len by (metis length_0_conv unat_eq_0)
    then obtain d ds where item: "item_sv fs ?it = d # ds"
      by (cases "item_sv fs ?it") auto
    have "it_firstByte ?it = byte d"
      using wf item by (simp add: wf_item_def first_byte_def)
    then show ?thesis
      using True by (auto simp: fsb_comp_def Let_def cand item val)
  next
    case False
    then show ?thesis
      by (auto simp: fsb_comp_def Let_def val)
  qed
qed

lemma fsb_upper_bisect: "fsb_upper fs c first cnt = bisect (\<lambda>i. \<not> fsb_comp fs c i) first cnt"
proof (induction fs c first cnt rule: fsb_upper.induct)
  case (1 fs c first cnt)
  then show ?case
    by (subst fsb_upper.simps, subst bisect.simps) (simp add: Let_def)
qed

lemma fsb_doesMatch_iff:
  assumes "wf_fsb fs"
  shows "fsb_doesMatch fs candidate \<longleftrightarrow> candidate \<in> set (fsb_vals fs)"
proof -
  let ?n = "length (fsb_items fs)" and ?vs = "fsb_vals fs"
  let ?p = "\<lambda>i. \<not> fsb_comp fs candidate i"
  have n: "length ?vs = ?n" by (simp add: fsb_vals_def)
  have sorted: "sorted_wrt (<) ?vs" using assms by (simp add: wf_fsb_def)
  have p: "?p i \<longleftrightarrow> ?vs ! i \<le> candidate" if "i < ?n" for i
    using that assms by (auto simp: fsb_comp_eq)
  have mono: "?p i" if "i \<le> j" "j < 0 + ?n" "?p j" for i j
  proof (cases "i = j")
    case False
    with that have "?vs ! i < ?vs ! j"
      using sorted n by (simp add: sorted_wrt_iff_nth_less)
    with that p [of i] p [of j] show ?thesis by auto
  qed (use that in simp)
  define r where "r = bisect ?p 0 ?n"
  have r: "r \<le> ?n" "\<And>i. i < ?n \<Longrightarrow> (?vs ! i \<le> candidate \<longleftrightarrow> i < r)"
    using bisect_partition [of 0 ?n ?p] mono p by (auto simp: r_def)
  have "candidate \<in> set ?vs \<longleftrightarrow> r > 0 \<and> candidate = ?vs ! (r - 1)"
  proof
    assume "candidate \<in> set ?vs"
    then obtain i where i: "i < ?n" "?vs ! i = candidate"
      by (auto simp: in_set_conv_nth n)
    with r(2) [of i] have "i < r" by simp
    moreover have "\<not> i < r - 1"
    proof
      assume "i < r - 1"
      with r have "?vs ! i < ?vs ! (r - 1)" "?vs ! (r - 1) \<le> candidate"
        using sorted n by (auto simp: sorted_wrt_iff_nth_less)
      with i show False by simp
    qed
    ultimately show "r > 0 \<and> candidate = ?vs ! (r - 1)"
      using i by (cases "i = r - 1") auto
  next
    assume "r > 0 \<and> candidate = ?vs ! (r - 1)"
    with r(1) show "candidate \<in> set ?vs"
      by (auto simp: in_set_conv_nth n intro!: exI [of _ "r - 1"])
  qed
  moreover have "?vs ! (r - 1) = item_sv fs (fsb_items fs ! (r - 1))" if "r > 0"
    using that r(1) by (simp add: fsb_vals_def)
  ultimately show ?thesis
    by (auto simp: fsb_doesMatch_def fsb_upper_bisect r_def [symmetric] Let_def)
qed

interpretation fsb: filter_set fsb_doesMatch fsb_at fsb_size fsb_vals wf_fsb
proof unfold_locales
  show "wf_fsb s \<Longrightarrow> fsb_doesMatch s x = (x \<in> set (fsb_vals s))" for s x
    by (rule fsb_doesMatch_iff)
  show "n < fsb_size s \<Longrightarrow> fsb_at s n = Inr (fsb_vals s ! n)" for n s
    by (simp add: fsb_at_def fsb_size_def fsb_vals_def)
  show "fsb_size s = length (fsb_vals s)" for s
    by (simp add: fsb_size_def fsb_vals_def)
  show "wf_fsb s \<Longrightarrow> distinct (fsb_vals s)" for s
    by (simp add: wf_fsb_def strict_sorted_iff)
qed

section \<open>The integer sets meet the contract\<close>

definition wf_fsu :: "FilterSetUint \<Rightarrow> bool" where
  "wf_fsu fs \<longleftrightarrow> sorted_wrt (<) (fsu_items fs)"

lemma fsu_doesMatch_iff:
  assumes "wf_fsu fs"
  shows "fsu_doesMatch fs x \<longleftrightarrow> x \<in> set (fsu_items fs)"
proof -
  let ?xs = "fsu_items fs" and ?n = "length (fsu_items fs)"
  have sorted: "sorted_wrt (<) ?xs"
    using assms by (simp add: wf_fsu_def)
  have mono: "?xs ! i < x" if "i \<le> j" "j < 0 + ?n" "?xs ! j < x" for i j
  proof (cases "i = j")
    case False
    with that have "?xs ! i < ?xs ! j"
      using sorted by (simp add: sorted_wrt_iff_nth_less)
    with that show ?thesis by simp
  qed (use that in simp)
  define r where "r = bisect (\<lambda>i. ?xs ! i < x) 0 ?n"
  have r: "r \<le> ?n" "\<And>i. i < ?n \<Longrightarrow> (?xs ! i < x \<longleftrightarrow> i < r)"
    using bisect_partition [of 0 ?n "\<lambda>i. ?xs ! i < x"] mono by (auto simp: r_def)
  have "x \<in> set ?xs \<longleftrightarrow> r < ?n \<and> \<not> x < ?xs ! r"
  proof
    assume "x \<in> set ?xs"
    then obtain i where i: "i < ?n" "?xs ! i = x"
      by (auto simp: in_set_conv_nth)
    then have "\<not> i < r" using r(2) [of i] by simp
    moreover have "\<not> r < i"
    proof
      assume "r < i"
      with i sorted have "?xs ! r < x" by (auto simp: sorted_wrt_iff_nth_less)
      with r(2) [of r] \<open>r < i\<close> i show False by simp
    qed
    ultimately show "r < ?n \<and> \<not> x < ?xs ! r" using i by (cases "i = r") auto
  next
    assume "r < ?n \<and> \<not> x < ?xs ! r"
    with r(2) [of r] have "?xs ! r = x" by auto
    with \<open>r < ?n \<and> _\<close> show "x \<in> set ?xs" by auto
  qed
  then show ?thesis
    by (simp add: fsu_doesMatch_def r_def [symmetric] Let_def)
qed

interpretation fsu: filter_set fsu_doesMatch fsu_at fsu_size fsu_items wf_fsu
  by unfold_locales
    (auto simp: fsu_doesMatch_iff fsu_at_def fsu_size_def wf_fsu_def strict_sorted_iff)

lemma mkFilterSetUint_spec:
  assumes "mkFilterSetUint arr = Inr fs"
  shows "wf_fsu fs" and "set (fsu_items fs) = {n. \<exists>xs. arr = JArray xs \<and> JUnsigned n \<in> set xs}"
proof -
  from assms obtain xs items where xs: "arr = JArray xs" and items: "rmap get_unsigned xs = Inr items"
    and fs: "fs = \<lparr>fsu_items = unique_from None (sort items)\<rparr>"
    by (auto simp: mkFilterSetUint_def)
  have "xs = map JUnsigned items"
    using items by (auto simp: rmap_eq_Inr list_all2_conv_all_nth intro!: nth_equalityI)
  then show "wf_fsu fs" and "set (fsu_items fs) = {n. \<exists>xs. arr = JArray xs \<and> JUnsigned n \<in> set xs}"
    by (auto simp: fs wf_fsu_def unique_sort xs)
qed

section \<open>Properties\<close>

text \<open>C30: A byte set built from a JSON array contains exactly the decoded strings of the array: the packed
  buffer with its 16-bit offsets, the removal of duplicates and the binary search on the first
  byte lose and invent nothing, and the elements can be read by index.\<close>

theorem filter_set_bytes_exact:
  assumes "mkFilterSetBytes fh arr h lo hi = Inr fs"
  shows "(fsb_doesMatch fs x \<longleftrightarrow> x \<in> json_bytes fh h arr) \<and>
    (fsb_doesMatch fs x \<longleftrightarrow> (\<exists>i < fsb_size fs. fsb_at fs i = Inr x)) \<and>
    fsb_size fs = card (json_bytes fh h arr)"
proof -
  note spec = mkFilterSetBytes_spec [OF assms]
  have "fsb_size fs = card (set (fsb_vals fs))"
    using fsb.sz_elems fsb.distinct_elems [OF spec(1)] by (simp add: distinct_card)
  then show ?thesis
    using spec fsb.doesMatch_iff [OF spec(1), of x] fsb.doesMatch_ex_at [OF spec(1), of x] by simp
qed

theorem filter_set_bytes_exact_witness:
  "\<exists>fs. mkFilterSetBytes Inr (JArray [JString ''b'', JString ''a'', JString ''b'']) False 1 255 = Inr fs \<and>
     fsb_doesMatch fs ''a'' \<and> \<not> fsb_doesMatch fs ''c''"
proof -
  let ?arr = "JArray [JString ''b'', JString ''a'', JString ''b'']"
  obtain fs where fs: "mkFilterSetBytes Inr ?arr False 1 255 = Inr fs"
    by (simp add: mkFilterSetBytes_def fsb_item_def MAX_INDEXED_TAG_VAL_SIZE_def Let_def)
  with filter_set_bytes_exact [OF fs, of "''a''"] filter_set_bytes_exact [OF fs, of "''c''"] show ?thesis
    by (auto simp: json_bytes_def)
qed

end
