(* ===== verification/NostrFilter.thy ===== *)
theory NostrFilter
  imports Filters
begin

text \<open>
  \<open>NostrFilter\<close> and \<open>NostrFilterGroup\<close> of \<open>src/filters.h\<close>: building a filter from its JSON object
  and matching packed events against it.  \<open>matches\<close> is the specification over abstract events,
  \<open>json_matches\<close> the meaning of a filter object itself; the code refines both.

  The \<open>flat_hash_map\<close> of tag sets is the list of its entries in the order of insertion; no
  result below depends on the order in which the entries are visited.
\<close>

section \<open>Filters\<close>

record NostrFilter =
  nf_ids :: "FilterSetBytes option"
  nf_authors :: "FilterSetBytes option"
  nf_kinds :: "FilterSetUint option"
  nf_tags :: "(char \<times> FilterSetBytes) list"
  nf_since :: u64
  nf_until :: u64
  nf_limit :: u64
  nf_neverMatch :: bool
  nf_indexOnlyScans :: bool

definition empty_filter :: NostrFilter where
  "empty_filter = \<lparr>nf_ids = None, nf_authors = None, nf_kinds = None, nf_tags = [], nf_since = 0,
     nf_until = MAX_U64, nf_limit = MAX_U64, nf_neverMatch = False, nf_indexOnlyScans = False\<rparr>"

text \<open>\<open>tags.emplace(tag, ..)\<close> leaves an entry that is already there.\<close>

definition tags_emplace ::
  "char \<Rightarrow> FilterSetBytes \<Rightarrow> (char \<times> FilterSetBytes) list \<Rightarrow> (char \<times> FilterSetBytes) list" where
  "tags_emplace tag fs ts = (if tag \<in> fst ` set ts then ts else ts @ [(tag, fs)])"

text \<open>The body of the loop over the members; the counter is \<open>numMajorFields\<close>.\<close>

definition nf_member ::
  "(string \<Rightarrow> bytes result) \<Rightarrow> string \<times> json \<Rightarrow> NostrFilter \<times> nat \<Rightarrow> (NostrFilter \<times> nat) result" where
  "nf_member from_hex = (\<lambda>(k, v) (f, num).
     if v = JArray [] then Inr (f\<lparr>nf_neverMatch := True\<rparr>, num)
     else if k = ''ids'' then
       rbind (mkFilterSetBytes from_hex v True 32 32) (\<lambda>s. Inr (f\<lparr>nf_ids := Some s\<rparr>, num + 1))
     else if k = ''authors'' then
       rbind (mkFilterSetBytes from_hex v True 32 32) (\<lambda>s. Inr (f\<lparr>nf_authors := Some s\<rparr>, num + 1))
     else if k = ''kinds'' then
       rbind (mkFilterSetUint v) (\<lambda>s. Inr (f\<lparr>nf_kinds := Some s\<rparr>, num + 1))
     else if starts_with k ''#'' then
       (if length k = 2 then
          let tag = k ! 1 in
          rbind (if tag = CHR ''p'' \<or> tag = CHR ''e'' then mkFilterSetBytes from_hex v True 32 32
                 else mkFilterSetBytes from_hex v False 0 MAX_INDEXED_TAG_VAL_SIZE)
            (\<lambda>s. Inr (f\<lparr>nf_tags := tags_emplace tag s (nf_tags f)\<rparr>, num + 1))
        else Inl (Herr ''unindexed tag filter''))
     else if k = ''since'' then rbind (get_unsigned v) (\<lambda>n. Inr (f\<lparr>nf_since := n\<rparr>, num))
     else if k = ''until'' then rbind (get_unsigned v) (\<lambda>n. Inr (f\<lparr>nf_until := n\<rparr>, num))
     else if k = ''limit'' then rbind (get_unsigned v) (\<lambda>n. Inr (f\<lparr>nf_limit := n\<rparr>, num))
     else Inl (Herr ''unrecognised filter item''))"

definition mkNostrFilter :: "(string \<Rightarrow> bytes result) \<Rightarrow> json \<Rightarrow> u64 \<Rightarrow> NostrFilter result" where
  "mkNostrFilter from_hex filterObj maxFilterLimit =
     (if \<not> is_object filterObj then Inl (Herr ''provided filter is not an object'')
      else rbind (get_object filterObj) (\<lambda>ms.
        rbind (rfold (nf_member from_hex) ms (empty_filter, 0)) (\<lambda>(f, num).
          if length (nf_tags f) > 3 then Inl (Herr ''too many tags in filter'')
          else
            let f = (if nf_limit f > maxFilterLimit then f\<lparr>nf_limit := maxFilterLimit\<rparr> else f) in
            Inr (f\<lparr>nf_indexOnlyScans :=
              num \<le> 1 \<or> num = 2 \<and> nf_authors f \<noteq> None \<and> nf_kinds f \<noteq> None\<rparr>))))"

definition nf_doesMatchTimes :: "NostrFilter \<Rightarrow> u64 \<Rightarrow> bool" where
  "nf_doesMatchTimes f created =
     (if created < nf_since f then False else if created > nf_until f then False else True)"

text \<open>One entry of the tag map: some tag of the event has the name and a value of the set.\<close>

definition nf_tagMatch :: "bytes \<Rightarrow> char \<Rightarrow> FilterSetBytes \<Rightarrow> bool result" where
  "nf_tagMatch ev tag filt =
     foreachTag ev (\<lambda>tagName tagVal foundMatch.
       if tagName = tag \<and> fsb_doesMatch filt tagVal then Inr (True, False)
       else Inr (foundMatch, True)) False"

fun nf_tagsMatch :: "bytes \<Rightarrow> (char \<times> FilterSetBytes) list \<Rightarrow> bool result" where
  "nf_tagsMatch ev [] = Inr True"
| "nf_tagsMatch ev ((tag, filt) # rest) =
     rbind (nf_tagMatch ev tag filt) (\<lambda>foundMatch.
       if \<not> foundMatch then Inr False else nf_tagsMatch ev rest)"

definition nf_doesMatch :: "NostrFilter \<Rightarrow> bytes \<Rightarrow> bool result" where
  "nf_doesMatch f ev =
     (if nf_neverMatch f then Inr False
      else if \<not> nf_doesMatchTimes f (pv_created_at ev) then Inr False
      else if (case nf_ids f of None \<Rightarrow> False | Some s \<Rightarrow> \<not> fsb_doesMatch s (pv_id ev)) then Inr False
      else if (case nf_authors f of None \<Rightarrow> False | Some s \<Rightarrow> \<not> fsb_doesMatch s (pv_pubkey ev)) then Inr False
      else if (case nf_kinds f of None \<Rightarrow> False | Some s \<Rightarrow> \<not> fsu_doesMatch s (pv_kind ev)) then Inr False
      else nf_tagsMatch ev (nf_tags f))"

definition nf_isFullDbQuery :: "NostrFilter \<Rightarrow> bool" where
  "nf_isFullDbQuery f \<longleftrightarrow> nf_ids f = None \<and> nf_authors f = None \<and> nf_kinds f = None \<and> length (nf_tags f) = 0"

section \<open>Groups of filters\<close>

record NostrFilterGroup =
  fg_filters :: "NostrFilter list"

fun fg_fill ::
  "(string \<Rightarrow> bytes result) \<Rightarrow> u64 \<Rightarrow> json list \<Rightarrow> NostrFilter list \<Rightarrow> NostrFilter list result" where
  "fg_fill from_hex maxFilterLimit [] fs = Inr fs"
| "fg_fill from_hex maxFilterLimit (v # rest) fs =
     rbind (mkNostrFilter from_hex v maxFilterLimit) (\<lambda>f.
       fg_fill from_hex maxFilterLimit rest (if nf_neverMatch f then fs else fs @ [f]))"

definition mkNostrFilterGroup ::
  "(string \<Rightarrow> bytes result) \<Rightarrow> json \<Rightarrow> u64 \<Rightarrow> NostrFilterGroup result" where
  "mkNostrFilterGroup from_hex req maxFilterLimit =
     rbind (get_array req) (\<lambda>arr.
       if length arr < 3 then Inl (Herr ''too small'')
       else rbind (fg_fill from_hex maxFilterLimit (drop 2 arr) []) (\<lambda>fs. Inr \<lparr>fg_filters = fs\<rparr>))"

definition fg_unwrapped ::
  "(string \<Rightarrow> bytes result) \<Rightarrow> json \<Rightarrow> u64 \<Rightarrow> NostrFilterGroup result" where
  "fg_unwrapped from_hex filter0 maxFilterLimit =
     (let filter1 = (if \<not> is_array filter0 then JArray [filter0] else filter0) in
      rbind (get_array filter1) (\<lambda>es.
        mkNostrFilterGroup from_hex (JArray ([JString ''REQ'', JString ''junkSub''] @ es)) maxFilterLimit))"

fun fg_any :: "NostrFilter list \<Rightarrow> bytes \<Rightarrow> bool result" where
  "fg_any [] ev = Inr False"
| "fg_any (f # fs) ev = rbind (nf_doesMatch f ev) (\<lambda>m. if m then Inr True else fg_any fs ev)"

definition fg_doesMatch :: "NostrFilterGroup \<Rightarrow> bytes \<Rightarrow> bool result" where
  "fg_doesMatch g ev = fg_any (fg_filters g) ev"

definition fg_size :: "NostrFilterGroup \<Rightarrow> nat" where
  "fg_size g = length (fg_filters g)"

definition fg_isFullDbQuery :: "NostrFilterGroup \<Rightarrow> bool" where
  "fg_isFullDbQuery g \<longleftrightarrow> fg_size g = 1 \<and> nf_isFullDbQuery (fg_filters g ! 0)"

section \<open>The specification of matching\<close>

definition wf_filter :: "NostrFilter \<Rightarrow> bool" where
  "wf_filter f \<longleftrightarrow>
     (\<forall>s. nf_ids f = Some s \<longrightarrow> wf_fsb s \<and> (\<forall>v \<in> set (fsb_vals s). length v = 32)) \<and>
     (\<forall>s. nf_authors f = Some s \<longrightarrow> wf_fsb s \<and> (\<forall>v \<in> set (fsb_vals s). length v = 32)) \<and>
     (\<forall>s. nf_kinds f = Some s \<longrightarrow> wf_fsu s) \<and>
     (\<forall>(t, s) \<in> set (nf_tags f). wf_fsb s) \<and> distinct (map fst (nf_tags f))"

definition tag_in :: "event \<Rightarrow> char \<Rightarrow> bytes set \<Rightarrow> bool" where
  "tag_in e t vs \<longleftrightarrow> (\<exists>v \<in> vs. (t, v) \<in> set (ev_tags e))"

definition matches :: "NostrFilter \<Rightarrow> event \<Rightarrow> bool" where
  "matches f e \<longleftrightarrow> \<not> nf_neverMatch f \<and> nf_since f \<le> ev_created_at e \<and> ev_created_at e \<le> nf_until f \<and>
     (\<forall>s. nf_ids f = Some s \<longrightarrow> ev_id e \<in> set (fsb_vals s)) \<and>
     (\<forall>s. nf_authors f = Some s \<longrightarrow> ev_pubkey e \<in> set (fsb_vals s)) \<and>
     (\<forall>s. nf_kinds f = Some s \<longrightarrow> ev_kind e \<in> set (fsu_items s)) \<and>
     (\<forall>(t, s) \<in> set (nf_tags f). tag_in e t (set (fsb_vals s)))"

lemma iter_tags_find:
  "iter_tags ts (\<lambda>n v found. if n = t \<and> P v then Inr (True, False) else Inr (found, True)) b =
   Inr (b \<or> (\<exists>v. (t, v) \<in> set ts \<and> P v))"
  by (induction ts arbitrary: b) auto

lemma nf_tagMatch_pack:
  assumes "wf_event e" and "wf_fsb s"
  shows "nf_tagMatch (pack e) t s = Inr (tag_in e t (set (fsb_vals s)))"
  using assms by (auto simp: nf_tagMatch_def packed_simps iter_tags_find tag_in_def fsb.doesMatch_iff)

lemma nf_tagsMatch_pack:
  assumes "wf_event e" and "\<forall>(t, s) \<in> set ts. wf_fsb s"
  shows "nf_tagsMatch (pack e) ts = Inr (\<forall>(t, s) \<in> set ts. tag_in e t (set (fsb_vals s)))"
  using assms(2) by (induction ts) (auto simp: nf_tagMatch_pack [OF assms(1)])

lemma nf_doesMatch_pack:
  assumes "wf_filter f" and "wf_event e"
  shows "nf_doesMatch f (pack e) = Inr (matches f e)"
proof -
  have tags: "nf_tagsMatch (pack e) (nf_tags f) =
      Inr (\<forall>(t, s) \<in> set (nf_tags f). tag_in e t (set (fsb_vals s)))"
    using assms by (intro nf_tagsMatch_pack) (auto simp: wf_filter_def)
  show ?thesis
    using assms unfolding nf_doesMatch_def tags
    by (auto simp: packed_simps matches_def nf_doesMatchTimes_def wf_filter_def not_less not_le
        fsb.doesMatch_iff fsu.doesMatch_iff split: option.splits)
qed

lemma nf_doesMatch_wf_packed:
  "wf_filter f \<Longrightarrow> wf_packed p \<Longrightarrow> nf_doesMatch f p = Inr (matches f (unpack p))"
  by (metis nf_doesMatch_pack wf_packed_unpack)

lemma fg_any_pack:
  "\<forall>f \<in> set fs. wf_filter f \<Longrightarrow> wf_event e \<Longrightarrow> fg_any fs (pack e) = Inr (\<exists>f \<in> set fs. matches f e)"
  by (induction fs) (auto simp: nf_doesMatch_pack)

section \<open>The meaning of a filter object\<close>

text \<open>
  What a member of a filter object asks of an event, as NIP-01 has it: the id, the author or the
  kind is listed; for \<open>#x\<close> some tag named \<open>x\<close> has a listed value; the time bounds hold; an empty
  list matches nothing.
\<close>

definition member_matches :: "(string \<Rightarrow> bytes result) \<Rightarrow> event \<Rightarrow> string \<times> json \<Rightarrow> bool" where
  "member_matches from_hex e = (\<lambda>(k, v).
     if v = JArray [] then False
     else if k = ''ids'' then ev_id e \<in> json_bytes from_hex True v
     else if k = ''authors'' then ev_pubkey e \<in> json_bytes from_hex True v
     else if k = ''kinds'' then (\<exists>xs. v = JArray xs \<and> JUnsigned (ev_kind e) \<in> set xs)
     else if starts_with k ''#'' then
       tag_in e (k ! 1) (json_bytes from_hex (k ! 1 = CHR ''p'' \<or> k ! 1 = CHR ''e'') v)
     else if k = ''since'' then (\<exists>n. v = JUnsigned n \<and> n \<le> ev_created_at e)
     else if k = ''until'' then (\<exists>n. v = JUnsigned n \<and> ev_created_at e \<le> n)
     else True)"

definition json_matches :: "(string \<Rightarrow> bytes result) \<Rightarrow> (string \<times> json) list \<Rightarrow> event \<Rightarrow> bool" where
  "json_matches from_hex ms e \<longleftrightarrow> (\<forall>m \<in> set ms. member_matches from_hex e m)"

text \<open>
  Which members may still come: the fields that a member of that name fills are still in their
  initial state.
\<close>

definition unset :: "string \<Rightarrow> NostrFilter \<Rightarrow> bool" where
  "unset k f \<longleftrightarrow> (k = ''ids'' \<longrightarrow> nf_ids f = None) \<and> (k = ''authors'' \<longrightarrow> nf_authors f = None) \<and>
     (k = ''kinds'' \<longrightarrow> nf_kinds f = None) \<and> (k = ''since'' \<longrightarrow> nf_since f = 0) \<and>
     (k = ''until'' \<longrightarrow> nf_until f = MAX_U64) \<and>
     (\<forall>t. k = [CHR ''#'', t] \<longrightarrow> t \<notin> fst ` set (nf_tags f))"

lemma starts_hash: "starts_with k ''#'' \<longleftrightarrow> (\<exists>r. k = CHR ''#'' # r)"
  by (cases k) (auto simp: starts_with_def)

lemma tag_member_step:
  assumes "nf_member from_hex (CHR ''#'' # r, v) (f, n) = Inr (f', n')" and "wf_filter f"
    and "unset (CHR ''#'' # r) f" and "v \<noteq> JArray []"
  shows "wf_filter f' \<and>
    (matches f' e \<longleftrightarrow> matches f e \<and> member_matches from_hex e (CHR ''#'' # r, v)) \<and>
    (k' \<noteq> CHR ''#'' # r \<longrightarrow> unset k' f \<longrightarrow> unset k' f')"
proof -
  obtain t s h lo hi where r: "r = [t]" and h: "h = (t = CHR ''p'' \<or> t = CHR ''e'')"
    and s: "mkFilterSetBytes from_hex v h lo hi = Inr s" "f' = f\<lparr>nf_tags := tags_emplace t s (nf_tags f)\<rparr>"
  proof -
    have "length r = 1" and "\<exists>s. rbind (if r ! 0 = CHR ''p'' \<or> r ! 0 = CHR ''e''
          then mkFilterSetBytes from_hex v True 32 32
          else mkFilterSetBytes from_hex v False 0 MAX_INDEXED_TAG_VAL_SIZE) Inr = Inr s \<and>
        f' = f\<lparr>nf_tags := tags_emplace (r ! 0) s (nf_tags f)\<rparr>"
      using assms(1,4) by (auto simp: nf_member_def Let_def starts_with_def split: if_splits)
    then show ?thesis
      using that by (cases r) (auto split: if_splits)
  qed
  have fresh: "t \<notin> fst ` set (nf_tags f)"
    using assms(3) r by (simp add: unset_def)
  then have f': "f' = f\<lparr>nf_tags := nf_tags f @ [(t, s)]\<rparr>"
    by (simp add: s tags_emplace_def)
  have "member_matches from_hex e (CHR ''#'' # r, v) \<longleftrightarrow> tag_in e t (set (fsb_vals s))"
    using assms(4) r h mkFilterSetBytes_spec(2) [OF s(1)] by (simp add: member_matches_def starts_with_def)
  moreover have "wf_filter f'"
    using assms(2) fresh mkFilterSetBytes_spec(1) [OF s(1)] by (auto simp: wf_filter_def f')
  moreover have "unset k' f'" if "k' \<noteq> CHR ''#'' # r" "unset k' f"
    using that r by (auto simp: unset_def f')
  ultimately show ?thesis
    by (auto simp: matches_def f')
qed

lemma nf_member_step:
  assumes "nf_member from_hex (k, v) (f, n) = Inr (f', n')" and "wf_filter f" and "unset k f"
  shows "wf_filter f'"
    and "matches f' e \<longleftrightarrow> matches f e \<and> member_matches from_hex e (k, v)"
    and "k' \<noteq> k \<Longrightarrow> unset k' f \<Longrightarrow> unset k' f'"
proof -
  have "wf_filter f' \<and> (matches f' e \<longleftrightarrow> matches f e \<and> member_matches from_hex e (k, v)) \<and>
      (k' \<noteq> k \<longrightarrow> unset k' f \<longrightarrow> unset k' f')"
  proof (cases "v = JArray []")
    case True
    then have "f' = f\<lparr>nf_neverMatch := True\<rparr>"
      using assms(1) by (simp add: nf_member_def)
    with True assms(2) show ?thesis
      by (simp add: wf_filter_def matches_def member_matches_def unset_def)
  next
    case nonempty: False
    consider (ids) "k = ''ids''" | (authors) "k = ''authors''" | (kinds) "k = ''kinds''"
      | (tag) r where "k = CHR ''#'' # r" | (since) "k = ''since''" | (until) "k = ''until''"
      | (rest) "k \<notin> {''ids'', ''authors'', ''kinds'', ''since'', ''until''}" "\<not> starts_with k ''#''"
      by (auto simp: starts_hash)
    then show ?thesis
    proof cases
      case ids
      then obtain s where s: "mkFilterSetBytes from_hex v True 32 32 = Inr s" "f' = f\<lparr>nf_ids := Some s\<rparr>"
        using assms(1) nonempty by (auto simp: nf_member_def)
      with assms(2,3) ids nonempty mkFilterSetBytes_spec [OF s(1)] show ?thesis
        by (auto simp: wf_filter_def matches_def member_matches_def unset_def)
    next
      case authors
      then obtain s where s: "mkFilterSetBytes from_hex v True 32 32 = Inr s" "f' = f\<lparr>nf_authors := Some s\<rparr>"
        using assms(1) nonempty by (auto simp: nf_member_def)
      with assms(2,3) authors nonempty mkFilterSetBytes_spec [OF s(1)] show ?thesis
        by (auto simp: wf_filter_def matches_def member_matches_def unset_def)
    next
      case kinds
      then obtain s where s: "mkFilterSetUint v = Inr s" "f' = f\<lparr>nf_kinds := Some s\<rparr>"
        using assms(1) nonempty by (auto simp: nf_member_def)
      with assms(2,3) kinds nonempty mkFilterSetUint_spec [OF s(1)] show ?thesis
        by (auto simp: wf_filter_def matches_def member_matches_def unset_def)
    next
      case tag
      then show ?thesis
        using tag_member_step [OF _ assms(2)] assms(1,3) nonempty by blast
    next
      case since
      then obtain m where "v = JUnsigned m" "f' = f\<lparr>nf_since := m\<rparr>"
        using assms(1) nonempty by (auto simp: nf_member_def starts_with_def)
      with assms(2,3) since show ?thesis
        by (auto simp: wf_filter_def matches_def member_matches_def unset_def starts_with_def)
    next
      case until
      then obtain m where "v = JUnsigned m" "f' = f\<lparr>nf_until := m\<rparr>"
        using assms(1) nonempty by (auto simp: nf_member_def starts_with_def)
      with assms(2,3) until show ?thesis
        by (auto simp: wf_filter_def matches_def member_matches_def unset_def starts_with_def)
    next
      case rest
      then obtain m where "k = ''limit''" "v = JUnsigned m" "f' = f\<lparr>nf_limit := m\<rparr>"
        using assms(1) nonempty by (auto simp: nf_member_def split: if_splits)
      with assms(2) show ?thesis
        by (auto simp: wf_filter_def matches_def member_matches_def unset_def starts_with_def)
    qed
  qed
  then show "wf_filter f'" and "matches f' e \<longleftrightarrow> matches f e \<and> member_matches from_hex e (k, v)"
    and "k' \<noteq> k \<Longrightarrow> unset k' f \<Longrightarrow> unset k' f'"
    by auto
qed

lemma nf_fold:
  assumes "rfold (nf_member from_hex) ms (f, n) = Inr (f', n')" and "wf_filter f"
    and "distinct (map fst ms)" and "\<forall>k \<in> fst ` set ms. unset k f"
  shows "wf_filter f' \<and> (matches f' e \<longleftrightarrow> matches f e \<and> json_matches from_hex ms e)"
  using assms
proof (induction ms arbitrary: f n)
  case Nil
  then show ?case by (simp add: json_matches_def)
next
  case (Cons m ms)
  obtain k v where m: "m = (k, v)" by (cases m)
  from Cons.prems(1) m obtain f1 n1 where 1: "nf_member from_hex (k, v) (f, n) = Inr (f1, n1)"
    and rest: "rfold (nf_member from_hex) ms (f1, n1) = Inr (f', n')"
    by auto
  have unset: "unset k f" using Cons.prems(4) m by simp
  note step = nf_member_step [OF 1 Cons.prems(2) unset]
  have "\<forall>k' \<in> fst ` set ms. unset k' f1"
    using step(3) Cons.prems(3,4) m by (metis distinct.simps(2) fst_conv image_eqI image_set list.simps(9) list.set_intros(2))
  then have "wf_filter f' \<and> (matches f' e \<longleftrightarrow> matches f1 e \<and> json_matches from_hex ms e)"
    using Cons.IH [OF rest step(1)] Cons.prems(3) by simp
  with step(2) show ?case
    by (auto simp: json_matches_def m)
qed

lemma empty_filter_matches [simp]: "matches empty_filter e" "wf_filter empty_filter" "unset k empty_filter"
  by (simp_all add: empty_filter_def matches_def wf_filter_def unset_def)

lemma mkNostrFilter_spec:
  assumes "mkNostrFilter from_hex (JObject ms) lim = Inr f" and "distinct (map fst ms)"
  shows "wf_filter f" and "matches f e \<longleftrightarrow> json_matches from_hex ms e"
    and "nf_limit f \<le> lim" and "length (nf_tags f) \<le> 3"
proof -
  from assms(1) obtain g n where g: "rfold (nf_member from_hex) ms (empty_filter, 0) = Inr (g, n)"
    and tags: "length (nf_tags g) \<le> 3"
    and f: "f = (if nf_limit g > lim then g\<lparr>nf_limit := lim\<rparr> else g)\<lparr>nf_indexOnlyScans :=
       n \<le> 1 \<or> n = 2 \<and> nf_authors g \<noteq> None \<and> nf_kinds g \<noteq> None\<rparr>"
    by (auto simp: mkNostrFilter_def Let_def split: if_splits)
  have "wf_filter g \<and> (matches g e \<longleftrightarrow> json_matches from_hex ms e)"
    using nf_fold [OF g _ assms(2)] by simp
  then show "wf_filter f" and "matches f e \<longleftrightarrow> json_matches from_hex ms e"
    by (auto simp: f wf_filter_def matches_def)
  show "nf_limit f \<le> lim" and "length (nf_tags f) \<le> 3"
    using tags by (simp_all add: f not_less)
qed

lemma nf_neverMatch_matches: "nf_neverMatch f \<Longrightarrow> \<not> matches f e"
  by (simp add: matches_def)

text \<open>JSON objects have distinct member names.\<close>

definition obj_distinct :: "json \<Rightarrow> bool" where
  "obj_distinct v = (case v of JObject ms \<Rightarrow> distinct (map fst ms) | _ \<Rightarrow> True)"

definition some_json_matches :: "(string \<Rightarrow> bytes result) \<Rightarrow> json list \<Rightarrow> event \<Rightarrow> bool" where
  "some_json_matches from_hex vs e \<longleftrightarrow> (\<exists>ms. JObject ms \<in> set vs \<and> json_matches from_hex ms e)"

lemma fg_fill_spec:
  assumes "fg_fill from_hex lim vs fs = Inr gs" and "\<forall>v \<in> set vs. obj_distinct v"
    and "\<forall>f \<in> set fs. wf_filter f \<and> nf_limit f \<le> lim \<and> \<not> nf_neverMatch f"
  shows "(\<forall>f \<in> set gs. wf_filter f \<and> nf_limit f \<le> lim \<and> \<not> nf_neverMatch f) \<and>
    ((\<exists>f \<in> set gs. matches f e) \<longleftrightarrow> (\<exists>f \<in> set fs. matches f e) \<or> some_json_matches from_hex vs e)"
  using assms
proof (induction vs arbitrary: fs)
  case Nil
  then show ?case by (simp add: some_json_matches_def)
next
  case (Cons v vs)
  from Cons.prems(1) obtain f where f: "mkNostrFilter from_hex v lim = Inr f"
    and rest: "fg_fill from_hex lim vs (if nf_neverMatch f then fs else fs @ [f]) = Inr gs"
    by auto
  from f obtain ms where v: "v = JObject ms"
    by (cases v) (auto simp: mkNostrFilter_def)
  have "distinct (map fst ms)" using Cons.prems(2) v by (simp add: obj_distinct_def)
  note spec = mkNostrFilter_spec [OF f [unfolded v] this]
  have "(\<forall>f \<in> set gs. wf_filter f \<and> nf_limit f \<le> lim \<and> \<not> nf_neverMatch f) \<and> ((\<exists>f \<in> set gs. matches f e) \<longleftrightarrow>
      (\<exists>g \<in> set (if nf_neverMatch f then fs else fs @ [f]). matches g e) \<or> some_json_matches from_hex vs e)"
    by (rule Cons.IH [OF rest]) (use Cons.prems(2,3) spec(1,3) in auto)
  moreover have "(\<exists>g \<in> set (if nf_neverMatch f then fs else fs @ [f]). matches g e) \<longleftrightarrow>
      (\<exists>g \<in> set fs. matches g e) \<or> json_matches from_hex ms e"
    using spec(2) nf_neverMatch_matches by auto
  ultimately show ?case
    by (auto simp: some_json_matches_def v)
qed

definition wf_group :: "NostrFilterGroup \<Rightarrow> bool" where
  "wf_group g \<longleftrightarrow> (\<forall>f \<in> set (fg_filters g). wf_filter f)"

lemma fg_doesMatch_pack:
  "wf_group g \<Longrightarrow> wf_event e \<Longrightarrow> fg_doesMatch g (pack e) = Inr (\<exists>f \<in> set (fg_filters g). matches f e)"
  by (simp add: fg_doesMatch_def wf_group_def fg_any_pack)

lemma mkNostrFilterGroup_spec:
  assumes "mkNostrFilterGroup from_hex (JArray arr) lim = Inr g" and "\<forall>v \<in> set (drop 2 arr). obj_distinct v"
  shows "wf_group g" and "\<forall>f \<in> set (fg_filters g). nf_limit f \<le> lim \<and> \<not> nf_neverMatch f"
    and "(\<exists>f \<in> set (fg_filters g). matches f e) \<longleftrightarrow> some_json_matches from_hex (drop 2 arr) e"
proof -
  from assms(1) obtain fs where fs: "fg_fill from_hex lim (drop 2 arr) [] = Inr fs" and g: "g = \<lparr>fg_filters = fs\<rparr>"
    by (auto simp: mkNostrFilterGroup_def split: if_splits)
  from fg_fill_spec [OF fs assms(2)]
  show "wf_group g" and "\<forall>f \<in> set (fg_filters g). nf_limit f \<le> lim \<and> \<not> nf_neverMatch f"
    and "(\<exists>f \<in> set (fg_filters g). matches f e) \<longleftrightarrow> some_json_matches from_hex (drop 2 arr) e"
    by (auto simp: g wf_group_def)
qed

section \<open>Properties\<close>

text \<open>A sample event, for the witnesses of this and the later theories.\<close>

definition sample_event :: event where
  "sample_event = \<lparr>ev_id = replicate 32 (CHR ''a''), ev_pubkey = replicate 32 (CHR ''b''),
     ev_created_at = 1000, ev_kind = 1, ev_expiration = 0,
     ev_tags = [(CHR ''t'', ''nostr''), (CHR ''e'', replicate 32 (CHR ''c''))]\<rparr>"

lemma wf_sample_event [simp]: "wf_event sample_event"
  by (simp add: wf_event_def sample_event_def)

text \<open>C7: A filter built from a JSON object matches a stored event exactly when every member of
  the object allows it: the optimised sets and the binary search implement the meaning of the
  object, the time bounds included.\<close>

theorem filter_matches_json:
  assumes "mkNostrFilter from_hex (JObject ms) lim = Inr f" and "distinct (map fst ms)"
    and "wf_event e"
  shows "nf_doesMatch f (pack e) = Inr (json_matches from_hex ms e)"
  using mkNostrFilter_spec [OF assms(1,2)] nf_doesMatch_pack [of f e] assms(3) by simp

theorem filter_matches_json_witness:
  "\<exists>f. mkNostrFilter Inr (JObject [(''#t'', JArray [JString ''nostr'']), (''kinds'', JArray [JUnsigned 1])]) 500 = Inr f \<and>
     nf_doesMatch f (pack sample_event) = Inr True"
proof -
  let ?ms = "[(''#t'', JArray [JString ''nostr'']), (''kinds'', JArray [JUnsigned 1])]"
  obtain f where f: "mkNostrFilter Inr (JObject ?ms) 500 = Inr f"
    by (auto simp: mkNostrFilter_def nf_member_def starts_with_def mkFilterSetBytes_def fsb_item_def
        mkFilterSetUint_def MAX_INDEXED_TAG_VAL_SIZE_def Let_def empty_filter_def tags_emplace_def)
  have "json_matches Inr ?ms sample_event"
    by (auto simp: json_matches_def member_matches_def starts_with_def json_bytes_def tag_in_def
        sample_event_def)
  with f filter_matches_json [OF f, of sample_event] show ?thesis
    by simp
qed

text \<open>The filters of a REQ match an event exactly when one of its filter objects does, although
  filters that can never match are dropped; each limit is capped by the configured maximum.\<close>

theorem group_matches_json:
  assumes "mkNostrFilterGroup fh (JArray arr) lim = Inr g" and "json_wf (JArray arr)" and "wf_event e"
  shows "fg_doesMatch g (pack e) = Inr (some_json_matches fh (drop 2 arr) e) \<and>
    (\<forall>f \<in> set (fg_filters g). nf_limit f \<le> lim)"
proof -
  have "obj_distinct v" if "v \<in> set (drop 2 arr)" for v
    using assms(2) in_set_dropD [OF that] by (cases v) (auto simp: obj_distinct_def)
  then show ?thesis
    using mkNostrFilterGroup_spec [OF assms(1)] fg_doesMatch_pack [OF _ assms(3)] by simp
qed

theorem group_matches_json_witness:
  "\<exists>g. mkNostrFilterGroup Inr (JArray [JString ''REQ'', JString ''s'', JObject [(''kinds'', JArray [])],
       JObject [(''kinds'', JArray [JUnsigned 1])]]) 500 = Inr g \<and> fg_doesMatch g (pack sample_event) = Inr True"
proof -
  let ?arr = "[JString ''REQ'', JString ''s'', JObject [(''kinds'', JArray [])], JObject [(''kinds'', JArray [JUnsigned 1])]]"
  have "\<exists>f. mkNostrFilter Inr (JObject [(''kinds'', JArray [])]) 500 = Inr f"
    by (simp add: mkNostrFilter_def nf_member_def empty_filter_def Let_def)
  moreover have "\<exists>f. mkNostrFilter Inr (JObject [(''kinds'', JArray [JUnsigned 1])]) 500 = Inr f"
    by (simp add: mkNostrFilter_def nf_member_def empty_filter_def mkFilterSetUint_def Let_def)
  ultimately obtain g where g: "mkNostrFilterGroup Inr (JArray ?arr) 500 = Inr g"
    by (auto simp: mkNostrFilterGroup_def)
  have "some_json_matches Inr (drop 2 ?arr) sample_event"
    unfolding some_json_matches_def
    by (rule exI [of _ "[(''kinds'', JArray [JUnsigned 1])]"])
      (simp add: json_matches_def member_matches_def sample_event_def)
  with g group_matches_json [OF g, of sample_event] show ?thesis by auto
qed

end
