(* ===== verification/Store.thy ===== *)
theory Store
  imports PackedEvent
begin

text \<open>
  The database as the code uses it.  The tables and the code that computes the index keys are
  those of \<open>golpe.yaml\<close>; the operations are generated from it by a tool that is not part of the
  repository, so they are a parameter: a record \<open>env\<close> of the operations, over any type of
  transactions.  The locale \<open>golpe_env\<close> states what the code relies on, in terms of the contents
  of the tables (\<open>view\<close>): what a lookup returns, what an update changes, and in which order an
  index is visited.  Every operation that writes may throw.

  \<open>mem_env\<close> is an executable implementation of the contract, on which the locale is interpreted.
\<close>

section \<open>Tables and indices\<close>

record Meta =
  dbVersion :: u64
  endianness :: u64
  negentropyModificationCounter :: u64

record tables =
  t_events :: "(u64 \<times> bytes) list"
  t_payload :: "u64 \<Rightarrow> bytes option"
  t_meta :: "Meta option"
  t_negFilters :: "(u64 \<times> string) list"
  t_trees :: "u64 \<Rightarrow> (u64 \<times> bytes) set"

datatype dbi =
    Event_created_at | Event_id | Event_pubkey | Event_kind | Event_pubkeyKind | Event_tag
  | Event_deletion | Event_expiration | Event_replace

type_synonym View_Event = "u64 \<times> bytes"

text \<open>The layout of a composite key: the string followed by the integers.\<close>

definition key_SU :: "bytes \<Rightarrow> u64 \<Rightarrow> bytes" where
  "key_SU s n = s @ to_sv64 n"

text \<open>The \<open>indexPrelude\<close> of the table \<open>Event\<close>.\<close>

definition index_tag ::
  "bytes \<Rightarrow> char \<Rightarrow> bytes \<Rightarrow> bytes list \<times> bytes list \<times> bytes list \<Rightarrow>
   ((bytes list \<times> bytes list \<times> bytes list) \<times> bool) result" where
  "index_tag packed tagName tagVal = (\<lambda>(tag, replace, deletion).
     let tag = tag @ [key_SU ([tagName] @ tagVal) (pv_created_at packed)] in
     if tagName = CHR ''d'' \<and> length replace = 0 then
       Inr ((tag, replace @ [key_SU (pv_pubkey packed @ tagVal) (pv_kind packed)], deletion), True)
     else if tagName = CHR ''e'' \<and> pv_kind packed = 5 then
       Inr ((tag, replace, deletion @ [tagVal @ pv_pubkey packed]), True)
     else Inr ((tag, replace, deletion), True))"

definition indexPrelude :: "bytes \<Rightarrow> (dbi \<Rightarrow> bytes list) result" where
  "indexPrelude buf =
     rbind (PackedEventView buf) (\<lambda>packed.
     let indexTime = pv_created_at packed in
     rbind (foreachTag packed (index_tag packed) ([], [], [])) (\<lambda>(tag, replace, deletion).
       Inr (\<lambda>d. case d of
           Event_created_at \<Rightarrow> [to_sv64 indexTime]
         | Event_id \<Rightarrow> [key_SU (pv_id packed) indexTime]
         | Event_pubkey \<Rightarrow> [key_SU (pv_pubkey packed) indexTime]
         | Event_kind \<Rightarrow> [to_sv64 (pv_kind packed) @ to_sv64 indexTime]
         | Event_pubkeyKind \<Rightarrow> [pv_pubkey packed @ to_sv64 (pv_kind packed) @ to_sv64 indexTime]
         | Event_tag \<Rightarrow> tag
         | Event_deletion \<Rightarrow> deletion
         | Event_expiration \<Rightarrow> (if pv_expiration packed \<noteq> 0 then [to_sv64 (pv_expiration packed)] else [])
         | Event_replace \<Rightarrow> replace)))"

definition index_keys :: "dbi \<Rightarrow> bytes \<Rightarrow> bytes list" where
  "index_keys d p = (case indexPrelude p of Inl _ \<Rightarrow> [] | Inr ix \<Rightarrow> ix d)"

text \<open>
  The order of an index: integer keys by value, composite keys by string and then by the
  integers, the others byte by byte; entries with equal keys by their value.
\<close>

definition rank :: "dbi \<Rightarrow> bytes \<Rightarrow> bytes \<times> nat \<times> nat" where
  "rank d k = (case d of
       Event_created_at \<Rightarrow> ([], unat (from_sv64 k), 0)
     | Event_expiration \<Rightarrow> ([], unat (from_sv64 k), 0)
     | Event_kind \<Rightarrow> ([], unat (from_sv64 (take 8 k)), unat (from_sv64 (drop 8 k)))
     | Event_pubkeyKind \<Rightarrow> (take (length k - 16) k,
         unat (from_sv64 (take 8 (drop (length k - 16) k))), unat (from_sv64 (drop (length k - 8) k)))
     | Event_deletion \<Rightarrow> (k, 0, 0)
     | Event_replace \<Rightarrow> (k, 0, 0)
     | _ \<Rightarrow> (take (length k - 8) k, unat (from_sv64 (drop (length k - 8) k)), 0))"

definition pos :: "dbi \<Rightarrow> bytes \<times> u64 \<Rightarrow> (bytes \<times> nat \<times> nat) \<times> nat" where
  "pos d x = (rank d (fst x), unat (snd x))"

definition entries :: "dbi \<Rightarrow> tables \<Rightarrow> (bytes \<times> u64) list" where
  "entries d T = concat (map (\<lambda>(l, p). map (\<lambda>k. (k, l)) (index_keys d p)) (t_events T))"

definition tables_ok :: "tables \<Rightarrow> bool" where
  "tables_ok T \<longleftrightarrow> sorted_wrt (<) (map fst (t_events T)) \<and> 0 \<notin> fst ` set (t_events T)"

section \<open>The operations and their contract\<close>

record 't env =
  lookup_Event :: "'t \<Rightarrow> u64 \<Rightarrow> bytes option"
  insert_Event :: "'t \<Rightarrow> bytes \<Rightarrow> (u64 \<times> 't) result"
  delete_Event :: "'t \<Rightarrow> u64 \<Rightarrow> 't result"
  foreach_Event :: "'t \<Rightarrow> bool \<Rightarrow> u64 option \<Rightarrow> View_Event list"
  generic_foreachFull :: "'t \<Rightarrow> dbi \<Rightarrow> bytes \<Rightarrow> u64 \<Rightarrow> bool \<Rightarrow> (bytes \<times> u64) list"
  lookup_Event_deletion :: "'t \<Rightarrow> bytes \<Rightarrow> bool"
  EventPayload_get :: "'t \<Rightarrow> u64 \<Rightarrow> bytes option"
  EventPayload_put :: "'t \<Rightarrow> u64 \<Rightarrow> bytes \<Rightarrow> 't result"
  EventPayload_del :: "'t \<Rightarrow> u64 \<Rightarrow> (bool \<times> 't) result"
  lookup_Meta :: "'t \<Rightarrow> Meta option"
  foreach_NegentropyFilter :: "'t \<Rightarrow> (u64 \<times> string) list"
  BTree_insert :: "'t \<Rightarrow> u64 \<Rightarrow> u64 \<Rightarrow> bytes \<Rightarrow> 't result"
  BTree_erase :: "'t \<Rightarrow> u64 \<Rightarrow> u64 \<Rightarrow> bytes \<Rightarrow> 't result"
  makeKey_StringUint64 :: "bytes \<Rightarrow> u64 \<Rightarrow> bytes"
  parsedKey_StringUint64 :: "bytes \<Rightarrow> bytes \<times> u64"
  parsedKey_Uint64Uint64 :: "bytes \<Rightarrow> u64 \<times> u64"

definition storage_only :: "'a result \<Rightarrow> bool" where
  "storage_only r \<longleftrightarrow> (\<forall>e. r = Inl e \<longrightarrow> (\<exists>m. e = StorageError m))"

locale golpe_env =
  fixes E :: "'t env"
    and view :: "'t \<Rightarrow> tables"
  assumes lookup_Event: "tables_ok (view t) \<Longrightarrow> lookup_Event E t l = map_of (t_events (view t)) l"
    and insert_Event: "tables_ok (view t) \<Longrightarrow> insert_Event E t p = Inr (l, t') \<Longrightarrow>
      view t' = (view t)\<lparr>t_events := t_events (view t) @ [(l, p)]\<rparr> \<and>
      0 < l \<and> (\<forall>l' \<in> fst ` set (t_events (view t)). l' < l)"
    and insert_Event_throws: "insert_Event E t p = Inl x \<Longrightarrow> (\<exists>m. x = StorageError m) \<or> indexPrelude p = Inl x"
    and delete_Event: "tables_ok (view t) \<Longrightarrow> delete_Event E t l = Inr t' \<Longrightarrow>
      view t' = (view t)\<lparr>t_events := filter (\<lambda>x. fst x \<noteq> l) (t_events (view t))\<rparr>"
    and foreach_Event_fwd: "tables_ok (view t) \<Longrightarrow> foreach_Event E t False start =
      filter (\<lambda>x. case start of None \<Rightarrow> True | Some s \<Rightarrow> s \<le> fst x) (t_events (view t))"
    and foreach_Event_rev: "tables_ok (view t) \<Longrightarrow> foreach_Event E t True start =
      rev (filter (\<lambda>x. case start of None \<Rightarrow> True | Some s \<Rightarrow> fst x \<le> s) (t_events (view t)))"
    and foreachFull_fwd: "tables_ok (view t) \<Longrightarrow>
      sorted (map (pos d) (generic_foreachFull E t d k v False)) \<and>
      distinct (generic_foreachFull E t d k v False) \<and>
      set (generic_foreachFull E t d k v False) = {x \<in> set (entries d (view t)). pos d (k, v) \<le> pos d x}"
    and foreachFull_rev: "tables_ok (view t) \<Longrightarrow>
      sorted (rev (map (pos d) (generic_foreachFull E t d k v True))) \<and>
      distinct (generic_foreachFull E t d k v True) \<and>
      set (generic_foreachFull E t d k v True) = {x \<in> set (entries d (view t)). pos d x \<le> pos d (k, v)}"
    and lookup_deletion: "tables_ok (view t) \<Longrightarrow> lookup_Event_deletion E t k \<longleftrightarrow>
      k \<in> fst ` set (entries Event_deletion (view t))"
    and payload_get: "EventPayload_get E t l = t_payload (view t) l"
    and payload_put: "EventPayload_put E t l b = Inr t' \<Longrightarrow>
      view t' = (view t)\<lparr>t_payload := (t_payload (view t))(l \<mapsto> b)\<rparr>"
    and payload_del: "EventPayload_del E t l = Inr (found, t') \<Longrightarrow>
      view t' = (view t)\<lparr>t_payload := (t_payload (view t))(l := None)\<rparr> \<and>
      (found \<longleftrightarrow> t_payload (view t) l \<noteq> None)"
    and lookup_Meta: "lookup_Meta E t = t_meta (view t)"
    and foreach_NegentropyFilter: "foreach_NegentropyFilter E t = t_negFilters (view t)"
    and BTree_insert: "BTree_insert E t tid c i = Inr t' \<Longrightarrow>
      view t' = (view t)\<lparr>t_trees := (t_trees (view t))(tid := insert (c, i) (t_trees (view t) tid))\<rparr>"
    and BTree_erase: "BTree_erase E t tid c i = Inr t' \<Longrightarrow>
      view t' = (view t)\<lparr>t_trees := (t_trees (view t))(tid := t_trees (view t) tid - {(c, i)})\<rparr>"
    and writes_throw: "storage_only (delete_Event E t l)" "storage_only (EventPayload_put E t l b)"
      "storage_only (EventPayload_del E t l)" "storage_only (BTree_insert E t tid c i)"
      "storage_only (BTree_erase E t tid c i)"
    and makeKey: "makeKey_StringUint64 E s n = s @ to_sv64 n"
    and parsedKey: "parsedKey_StringUint64 E (s @ to_sv64 n) = (s, n)"
    and parsedKey_UU: "parsedKey_Uint64Uint64 E (to_sv64 n1 @ to_sv64 n2) = (n1, n2)"

text \<open>What a transaction promises: beginning and committing do not change the contents.\<close>

definition txn_ok :: "('t \<Rightarrow> tables) \<Rightarrow> ('t \<Rightarrow> 't result) \<Rightarrow> bool" where
  "txn_ok view f \<longleftrightarrow> (\<forall>t t'. f t = Inr t' \<longrightarrow> view t' = view t)"

section \<open>The keys of a well-formed event\<close>

definition d_tags :: "event \<Rightarrow> bytes list" where
  "d_tags e = map snd (filter (\<lambda>(n, v). n = CHR ''d'') (ev_tags e))"

lemma iter_tags_index:
  "iter_tags ts (index_tag p) (tag, replace, deletion) =
   Inr (tag @ map (\<lambda>(n, v). key_SU (n # v) (pv_created_at p)) ts,
        (if replace = [] then
           (case filter (\<lambda>(n, v). n = CHR ''d'') ts of [] \<Rightarrow> []
            | x # _ \<Rightarrow> [key_SU (pv_pubkey p @ snd x) (pv_kind p)])
         else replace),
        deletion @ (if pv_kind p = 5 then
           map (\<lambda>(n, v). v @ pv_pubkey p) (filter (\<lambda>(n, v). n = CHR ''e'') ts) else []))"
  by (induction ts arbitrary: tag replace deletion)
    (auto simp: index_tag_def Let_def split: list.splits)

lemma indexPrelude_pack_Inr: "wf_event e \<Longrightarrow> \<exists>ix. indexPrelude (pack e) = Inr ix"
  by (simp add: indexPrelude_def packed_simps iter_tags_index Let_def)

lemma index_keys_pack [packed_simps]:
  assumes "wf_event e"
  shows "index_keys Event_created_at (pack e) = [to_sv64 (ev_created_at e)]"
    and "index_keys Event_id (pack e) = [ev_id e @ to_sv64 (ev_created_at e)]"
    and "index_keys Event_pubkey (pack e) = [ev_pubkey e @ to_sv64 (ev_created_at e)]"
    and "index_keys Event_kind (pack e) = [to_sv64 (ev_kind e) @ to_sv64 (ev_created_at e)]"
    and "index_keys Event_pubkeyKind (pack e) = [ev_pubkey e @ to_sv64 (ev_kind e) @ to_sv64 (ev_created_at e)]"
    and "index_keys Event_tag (pack e) = map (\<lambda>(n, v). (n # v) @ to_sv64 (ev_created_at e)) (ev_tags e)"
    and "index_keys Event_deletion (pack e) = (if ev_kind e = 5 then
      map (\<lambda>(n, v). v @ ev_pubkey e) (filter (\<lambda>(n, v). n = CHR ''e'') (ev_tags e)) else [])"
    and "index_keys Event_expiration (pack e) = (if ev_expiration e \<noteq> 0 then [to_sv64 (ev_expiration e)] else [])"
    and "index_keys Event_replace (pack e) = (case d_tags e of [] \<Rightarrow> []
      | d # _ \<Rightarrow> [(ev_pubkey e @ d) @ to_sv64 (ev_kind e)])"
  using assms
  by (simp_all add: index_keys_def indexPrelude_def packed_simps iter_tags_index Let_def key_SU_def
      d_tags_def split: list.splits)

lemma entries_iff: "(k, l) \<in> set (entries d T) \<longleftrightarrow> (\<exists>p. (l, p) \<in> set (t_events T) \<and> k \<in> set (index_keys d p))"
  by (auto simp: entries_def)

section \<open>Tables\<close>

lemma tables_ok_distinct: "tables_ok T \<Longrightarrow> distinct (map fst (t_events T))"
  by (simp add: tables_ok_def strict_sorted_iff)

lemma map_of_events: "tables_ok T \<Longrightarrow> map_of (t_events T) l = Some p \<longleftrightarrow> (l, p) \<in> set (t_events T)"
  by (simp add: tables_ok_distinct)

lemma tables_ok_append:
  "tables_ok T \<Longrightarrow> 0 < l \<Longrightarrow> \<forall>l' \<in> fst ` set (t_events T). l' < l \<Longrightarrow>
   tables_ok (T\<lparr>t_events := t_events T @ [(l, p)]\<rparr>)"
  by (auto simp: tables_ok_def sorted_wrt_append)

lemma sorted_wrt_map_filter: "sorted_wrt P (map f xs) \<Longrightarrow> sorted_wrt P (map f (filter Q xs))"
  by (induction xs) auto

lemma tables_ok_filter: "tables_ok T \<Longrightarrow> tables_ok (T\<lparr>t_events := filter P (t_events T)\<rparr>)"
  by (auto simp: tables_ok_def sorted_wrt_map_filter)

lemma tables_ok_frame [simp]:
  "tables_ok (T\<lparr>t_payload := pl\<rparr>) = tables_ok T" "tables_ok (T\<lparr>t_trees := tr\<rparr>) = tables_ok T"
  "tables_ok (T\<lparr>t_meta := m\<rparr>) = tables_ok T" "tables_ok (T\<lparr>t_negFilters := nf\<rparr>) = tables_ok T"
  by (simp_all add: tables_ok_def)

section \<open>An implementation in memory\<close>

definition mem_foreachFull :: "tables \<Rightarrow> dbi \<Rightarrow> bytes \<Rightarrow> u64 \<Rightarrow> bool \<Rightarrow> (bytes \<times> u64) list" where
  "mem_foreachFull T d k v reverse =
     (let xs = sort_key (pos d) (remdups (entries d T)) in
      if reverse then rev (filter (\<lambda>x. pos d x \<le> pos d (k, v)) xs)
      else filter (\<lambda>x. pos d (k, v) \<le> pos d x) xs)"

definition mem_insert_Event :: "tables \<Rightarrow> bytes \<Rightarrow> (u64 \<times> tables) result" where
  "mem_insert_Event T p =
     rbind (indexPrelude p) (\<lambda>_.
       let l = (if t_events T = [] then 1 else fst (last (t_events T)) + 1) in
       if l = 0 then Inl (StorageError ''key space exhausted'')
       else Inr (l, T\<lparr>t_events := t_events T @ [(l, p)]\<rparr>))"

definition mem_env :: "tables env" where
  "mem_env = \<lparr>
     lookup_Event = (\<lambda>T l. map_of (t_events T) l),
     insert_Event = mem_insert_Event,
     delete_Event = (\<lambda>T l. Inr (T\<lparr>t_events := filter (\<lambda>x. fst x \<noteq> l) (t_events T)\<rparr>)),
     foreach_Event = (\<lambda>T reverse start.
       if reverse then rev (filter (\<lambda>x. case start of None \<Rightarrow> True | Some s \<Rightarrow> fst x \<le> s) (t_events T))
       else filter (\<lambda>x. case start of None \<Rightarrow> True | Some s \<Rightarrow> s \<le> fst x) (t_events T)),
     generic_foreachFull = mem_foreachFull,
     lookup_Event_deletion = (\<lambda>T k. k \<in> fst ` set (entries Event_deletion T)),
     EventPayload_get = (\<lambda>T l. t_payload T l),
     EventPayload_put = (\<lambda>T l b. Inr (T\<lparr>t_payload := (t_payload T)(l \<mapsto> b)\<rparr>)),
     EventPayload_del = (\<lambda>T l. Inr (t_payload T l \<noteq> None, T\<lparr>t_payload := (t_payload T)(l := None)\<rparr>)),
     lookup_Meta = t_meta,
     foreach_NegentropyFilter = t_negFilters,
     BTree_insert = (\<lambda>T tid c i. Inr (T\<lparr>t_trees := (t_trees T)(tid := insert (c, i) (t_trees T tid))\<rparr>)),
     BTree_erase = (\<lambda>T tid c i. Inr (T\<lparr>t_trees := (t_trees T)(tid := t_trees T tid - {(c, i)})\<rparr>)),
     makeKey_StringUint64 = (\<lambda>s n. s @ to_sv64 n),
     parsedKey_StringUint64 = (\<lambda>k. (take (length k - 8) k, from_sv64 (drop (length k - 8) k))),
     parsedKey_Uint64Uint64 = (\<lambda>k. (from_sv64 (take 8 k), from_sv64 (drop 8 k)))\<rparr>"

lemma sorted_filter_key: "sorted (map f xs) \<Longrightarrow> sorted (map f (filter P xs))"
  by (rule sorted_filter)

lemma last_is_max:
  assumes "tables_ok T" and "t_events T \<noteq> []" and "l' \<in> fst ` set (t_events T)"
  shows "l' \<le> fst (last (t_events T))"
proof -
  let ?xs = "map fst (t_events T)"
  obtain i where i: "i < length ?xs" "?xs ! i = l'"
    using assms(3) by (metis in_set_conv_nth set_map)
  have s: "sorted_wrt (<) ?xs" using assms(1) by (simp add: tables_ok_def)
  have "last ?xs = fst (last (t_events T))" using assms(2) by (simp add: last_map)
  moreover have "l' \<le> last ?xs"
  proof (cases "i = length ?xs - 1")
    case True
    with i assms(2) show ?thesis by (simp add: last_conv_nth)
  next
    case False
    with i have "?xs ! i < ?xs ! (length ?xs - 1)"
      using s by (auto simp: sorted_wrt_iff_nth_less)
    with i assms(2) show ?thesis by (simp add: last_conv_nth)
  qed
  ultimately show ?thesis by simp
qed

lemma mem_insert_fresh:
  assumes "tables_ok T" and "mem_insert_Event T p = Inr (l, T')"
  shows "T' = T\<lparr>t_events := t_events T @ [(l, p)]\<rparr> \<and> 0 < l \<and> (\<forall>l' \<in> fst ` set (t_events T). l' < l)"
proof -
  from assms(2) have l: "l = (if t_events T = [] then 1 else fst (last (t_events T)) + 1)" "l \<noteq> 0"
    and T': "T' = T\<lparr>t_events := t_events T @ [(l, p)]\<rparr>"
    by (auto simp: mem_insert_Event_def Let_def split: if_splits)
  have "l' < l" if "l' \<in> fst ` set (t_events T)" for l'
  proof -
    have "t_events T \<noteq> []" using that by auto
    moreover have "l' \<le> fst (last (t_events T))"
      using last_is_max [OF assms(1) calculation that] .
    moreover have "fst (last (t_events T)) < l"
      using l calculation by (simp add: word_less_nat_alt unatSuc add.commute)
    ultimately show ?thesis by simp
  qed
  with l T' show ?thesis
    by (auto simp: word_gt_0)
qed

interpretation mem: golpe_env mem_env "\<lambda>T. T"
proof unfold_locales
  show "tables_ok T \<Longrightarrow> insert_Event mem_env T p = Inr (l, T') \<Longrightarrow>
      T' = T\<lparr>t_events := t_events T @ [(l, p)]\<rparr> \<and> 0 < l \<and> (\<forall>l' \<in> fst ` set (t_events T). l' < l)" for T p l T'
    using mem_insert_fresh by (simp add: mem_env_def)
  show "insert_Event mem_env T p = Inl x \<Longrightarrow> (\<exists>m. x = StorageError m) \<or> indexPrelude p = Inl x" for T p x
    by (auto simp: mem_env_def mem_insert_Event_def rbind_eq_Inl Let_def split: if_splits)
  show "sorted (map (pos d) (generic_foreachFull mem_env T d k v False)) \<and>
      distinct (generic_foreachFull mem_env T d k v False) \<and>
      set (generic_foreachFull mem_env T d k v False) = {x \<in> set (entries d T). pos d (k, v) \<le> pos d x}" for T d k v
    by (auto simp: mem_env_def mem_foreachFull_def Let_def sorted_filter_key)
  show "sorted (rev (map (pos d) (generic_foreachFull mem_env T d k v True))) \<and>
      distinct (generic_foreachFull mem_env T d k v True) \<and>
      set (generic_foreachFull mem_env T d k v True) = {x \<in> set (entries d T). pos d x \<le> pos d (k, v)}" for T d k v
    by (auto simp: mem_env_def mem_foreachFull_def Let_def sorted_filter_key rev_map [symmetric])
qed (auto simp: mem_env_def storage_only_def)

end
