(* ===== verification/EventsDb.thy ===== *)
theory EventsDb
  imports Store
begin

text \<open>
  \<open>src/events_db.cpp\<close>: finding events in the database and decoding their payload.  The
  decompressor is a parameter (a dictionary id and the compressed bytes to the text).  The
  lemmas give each lookup its meaning on a database whose events are well formed.
\<close>

section \<open>Lookups\<close>

text \<open>The callback stops after the first entry it sees.\<close>

definition lookupEventById :: "'t env \<Rightarrow> 't \<Rightarrow> bytes \<Rightarrow> View_Event option" where
  "lookupEventById E txn eid =
     (case generic_foreachFull E txn Event_id (makeKey_StringUint64 E eid 0) 0 False of
        [] \<Rightarrow> None
      | (k, v) # _ \<Rightarrow>
          if starts_with k eid then map_option (\<lambda>buf. (v, buf)) (lookup_Event E txn v) else None)"

definition eventExistsById :: "'t env \<Rightarrow> 't \<Rightarrow> bytes \<Rightarrow> bool" where
  "eventExistsById E txn eid \<longleftrightarrow> lookupEventById E txn eid \<noteq> None"

definition lookupEventByLevId :: "'t env \<Rightarrow> 't \<Rightarrow> u64 \<Rightarrow> View_Event result" where
  "lookupEventByLevId E txn levId =
     (case lookup_Event E txn levId of
        None \<Rightarrow> Inl (Herr ''unable to lookup event by levId'')
      | Some buf \<Rightarrow> Inr (levId, buf))"

definition getMostRecentLevId :: "'t env \<Rightarrow> 't \<Rightarrow> u64" where
  "getMostRecentLevId E txn = (case foreach_Event E txn True None of [] \<Rightarrow> 0 | (l, _) # _ \<Rightarrow> l)"

section \<open>Payloads\<close>

text \<open>
  The first byte of a payload says how it is stored: 0 for plain text, 1 for a dictionary id of
  four bytes and compressed text.  Beside the text the code reports the dictionary id and the
  compressed size.
\<close>

definition decodeEventPayload ::
  "(u32 \<Rightarrow> bytes \<Rightarrow> bytes result) \<Rightarrow> bytes \<Rightarrow> (bytes \<times> u32 \<times> nat option) result" where
  "decodeEventPayload decompress raw =
     (case raw of
        [] \<Rightarrow> Inl (Herr ''empty event in EventPayload'')
      | c # rest \<Rightarrow>
          if c = CHR 0x00 then Inr (rest, 0, None)
          else if c = CHR 0x01 then
            (if length rest < 4 then Inl (Herr ''EventPayload record too short to read dictId'')
             else
               let dictId = of_nat (le_value (take 4 rest)); comp = drop 4 rest in
               rbind (decompress dictId comp) (\<lambda>buf. Inr (buf, dictId, Some (length comp))))
          else Inl (Herr ''Unexpected first byte in EventPayload''))"

definition getEventJson ::
  "'t env \<Rightarrow> (u32 \<Rightarrow> bytes \<Rightarrow> bytes result) \<Rightarrow> 't \<Rightarrow> u64 \<Rightarrow> bytes result" where
  "getEventJson E decompress txn levId =
     (case EventPayload_get E txn levId of
        None \<Rightarrow> Inl (Herr ''couldn't find event in EventPayload'')
      | Some eventPayload \<Rightarrow> rbind (decodeEventPayload decompress eventPayload) (\<lambda>(buf, _). Inr buf))"

section \<open>Well-formed databases\<close>

text \<open>The events of the table, decoded.\<close>

definition events_of :: "tables \<Rightarrow> (u64 \<times> event) list" where
  "events_of T = map (\<lambda>(l, p). (l, unpack p)) (t_events T)"

definition wf_store :: "tables \<Rightarrow> bool" where
  "wf_store T \<longleftrightarrow> tables_ok T \<and> (\<forall>(l, p) \<in> set (t_events T). wf_packed p)"

definition unique_ids :: "(u64 \<times> event) list \<Rightarrow> bool" where
  "unique_ids es \<longleftrightarrow> distinct (map (\<lambda>(l, e). ev_id e) es)"

lemma wf_store_ok [simp]: "wf_store T \<Longrightarrow> tables_ok T"
  by (simp add: wf_store_def)

lemma events_of_packed:
  "wf_store T \<Longrightarrow> (l, p) \<in> set (t_events T) \<Longrightarrow>
   wf_event (unpack p) \<and> p = pack (unpack p) \<and> (l, unpack p) \<in> set (events_of T)"
  using wf_packed_unpack by (force simp: wf_store_def events_of_def)

lemma events_ofE:
  assumes "wf_store T" and "(l, e) \<in> set (events_of T)"
  shows "wf_event e \<and> (l, pack e) \<in> set (t_events T)"
  using assms wf_packed_unpack by (fastforce simp: wf_store_def events_of_def)

lemma events_of_levIds [simp]: "map fst (events_of T) = map fst (t_events T)"
  by (simp add: events_of_def case_prod_beta)

lemma events_of_same_levId:
  "tables_ok T \<Longrightarrow> (l, d) \<in> set (events_of T) \<Longrightarrow> (l, e) \<in> set (events_of T) \<Longrightarrow> d = e"
  using tables_ok_distinct [of T] by (metis events_of_levIds eq_key_imp_eq_value)

lemma entries_events_of:
  assumes "wf_store T"
  shows "(k, l) \<in> set (entries d T) \<longleftrightarrow> (\<exists>e. (l, e) \<in> set (events_of T) \<and> k \<in> set (index_keys d (pack e)))"
  using assms events_of_packed [OF assms] events_ofE [OF assms] by (metis entries_iff)

lemma rank_SU:
  "d \<in> {Event_id, Event_pubkey, Event_tag} \<Longrightarrow> rank d (s @ to_sv64 n) = (s, unat n, 0)"
  by (auto simp: rank_def)

lemma rank_replace [simp]: "rank Event_replace k = (k, 0, 0)" "rank Event_deletion k = (k, 0, 0)"
  by (simp_all add: rank_def)

text \<open>The text of a stored event.\<close>

definition stored_json :: "(u32 \<Rightarrow> bytes \<Rightarrow> bytes result) \<Rightarrow> tables \<Rightarrow> u64 \<Rightarrow> string option" where
  "stored_json decomp T l =
     (case t_payload T l of None \<Rightarrow> None | Some b \<Rightarrow> (case decodeEventPayload decomp b of Inl _ \<Rightarrow> None | Inr (j, _) \<Rightarrow> Some j))"

definition payloads_ok :: "(u32 \<Rightarrow> bytes \<Rightarrow> bytes result) \<Rightarrow> tables \<Rightarrow> bool" where
  "payloads_ok decomp T \<longleftrightarrow>
     (\<forall>l. if l \<in> fst ` set (t_events T) then stored_json decomp T l \<noteq> None else t_payload T l = None)"

lemma payloads_okD: "payloads_ok decomp T \<Longrightarrow> t_payload T l = Some b \<Longrightarrow> \<exists>j x. decodeEventPayload decomp b = Inr (j, x) \<and> stored_json decomp T l = Some j"
  unfolding payloads_ok_def by (drule spec [of _ l]) (auto simp: stored_json_def split: if_split_asm sum.split_asm)

lemma payloads_ok_json:
  assumes "payloads_ok decomp T" and "l \<in> fst ` set (t_events T)"
  shows "\<exists>j. stored_json decomp T l = Some j"
  using assms unfolding payloads_ok_def by (metis not_None_eq)

section \<open>The meaning of the lookups\<close>

context golpe_env
begin

lemma getEventJson_stored:
  assumes "payloads_ok decomp (view txn)" and "l \<in> fst ` set (t_events (view txn))"
  shows "getEventJson E decomp txn l = Inr (the (stored_json decomp (view txn) l))"
proof -
  obtain j where j: "stored_json decomp (view txn) l = Some j" using payloads_ok_json [OF assms] by blast
  then obtain b where b: "t_payload (view txn) l = Some b" by (auto simp: stored_json_def split: option.splits)
  from payloads_okD [OF assms(1) this] show ?thesis by (auto simp: getEventJson_def payload_get b)
qed

lemma newer_events:
  assumes "wf_store (view t)" and "l \<noteq> MAX_U64"
  shows "foreach_Event E t False (Some (l + 1)) = filter (\<lambda>ev. l < fst ev) (t_events (view t))"
  using foreach_Event_fwd [of t] assms by (simp add: inc_less_eq_iff)

lemma lookup_Event_Some:
  assumes "wf_store (view t)"
  shows "lookup_Event E t l = Some p \<longleftrightarrow> (\<exists>e. (l, e) \<in> set (events_of (view t)) \<and> p = pack e)"
  using assms events_of_packed [OF assms] events_ofE [OF assms]
  by (metis lookup_Event map_of_events wf_store_ok)

lemma lookupEventByLevId_wf:
  "wf_store (view t) \<Longrightarrow> (l, e) \<in> set (events_of (view t)) \<Longrightarrow> lookupEventByLevId E t l = Inr (l, pack e)"
  using lookup_Event_Some [of t l "pack e"] by (auto simp: lookupEventByLevId_def)

lemma lookupEventById_Some:
  assumes wf: "wf_store (view t)" and len: "length eid = 32"
    and found: "lookupEventById E t eid = Some (l, p)"
  shows "\<exists>e. (l, e) \<in> set (events_of (view t)) \<and> ev_id e = eid \<and> p = pack e"
proof -
  let ?xs = "generic_foreachFull E t Event_id (makeKey_StringUint64 E eid 0) 0 False"
  from found obtain k rest where xs: "?xs = (k, l) # rest" and st: "starts_with k eid"
    and p: "lookup_Event E t l = Some p"
    by (auto simp: lookupEventById_def split: list.splits if_splits)
  have "(k, l) \<in> set ?xs" unfolding xs by simp
  then have "(k, l) \<in> set (entries Event_id (view t))"
    using foreachFull_fwd wf wf_store_ok by blast
  then obtain e where e: "(l, e) \<in> set (events_of (view t))" "k \<in> set (index_keys Event_id (pack e))"
    using entries_events_of [OF wf] by blast
  have "wf_event e" using events_ofE [OF wf e(1)] by simp
  then have "ev_id e = eid"
    using e(2) st len by (auto simp: packed_simps wf_event_def starts_with_same_length)
  moreover have "p = pack e"
    using p e(1) lookup_Event_Some [OF wf] events_of_same_levId [of "view t"] wf
    by (metis wf_store_ok)
  ultimately show ?thesis using e(1) by blast
qed

lemma lookupEventById_exists:
  assumes wf: "wf_store (view t)" and len: "length eid = 32"
    and e: "(l, e) \<in> set (events_of (view t))" "ev_id e = eid"
  shows "lookupEventById E t eid \<noteq> None"
proof -
  let ?start = "makeKey_StringUint64 E eid 0"
  let ?xs = "generic_foreachFull E t Event_id ?start 0 False"
  note fwd = foreachFull_fwd [OF wf_store_ok [OF wf], of Event_id ?start 0]
  have wfe: "wf_event e" using events_ofE [OF wf e(1)] by simp
  let ?k = "ev_id e @ to_sv64 (ev_created_at e)"
  have start: "pos Event_id (?start, 0) = ((eid, 0, 0), 0)"
    by (simp add: pos_def makeKey rank_SU)
  have "(?k, l) \<in> set (entries Event_id (view t))"
    using entries_events_of [OF wf] e(1) wfe by (force simp: packed_simps)
  moreover have k: "pos Event_id (?k, l) = ((eid, unat (ev_created_at e), 0), unat l)"
    using e(2) by (simp add: pos_def rank_SU)
  ultimately have "(?k, l) \<in> set ?xs"
    using fwd start by (auto simp: less_eq_prod_def)
  then obtain k0 l0 rest where xs: "?xs = (k0, l0) # rest"
    by (cases ?xs) auto
  have "(k0, l0) \<in> set ?xs" unfolding xs by simp
  then have low: "((eid, 0, 0), 0) \<le> pos Event_id (k0, l0)" and "(k0, l0) \<in> set (entries Event_id (view t))"
    using fwd start by auto
  then obtain e0 where e0: "(l0, e0) \<in> set (events_of (view t))" "k0 \<in> set (index_keys Event_id (pack e0))"
    using entries_events_of [OF wf] by blast
  have k0: "k0 = ev_id e0 @ to_sv64 (ev_created_at e0)"
    using e0 events_ofE [OF wf e0(1)] by (simp add: packed_simps)
  have "pos Event_id (k0, l0) \<le> pos Event_id (?k, l)"
    using fwd \<open>(?k, l) \<in> set ?xs\<close> unfolding xs by auto
  with low have "eid \<le> ev_id e0" and "ev_id e0 \<le> eid"
    unfolding k by (auto simp: k0 pos_def rank_SU less_eq_prod_def)
  then have "ev_id e0 = eid" by simp
  moreover have "lookup_Event E t l0 = Some (pack e0)"
    using lookup_Event_Some [OF wf] e0(1) by blast
  ultimately show ?thesis
    by (simp add: lookupEventById_def xs k0 starts_with_def)
qed

text \<open>With unique ids the lookup by id is the partial function from ids to events.\<close>

lemma lookupEventById_wf:
  assumes "wf_store (view t)" and "length eid = 32" and "unique_ids (events_of (view t))"
  shows "lookupEventById E t eid = Some (l, p) \<longleftrightarrow>
    (\<exists>e. (l, e) \<in> set (events_of (view t)) \<and> ev_id e = eid \<and> p = pack e)"
proof
  assume "\<exists>e. (l, e) \<in> set (events_of (view t)) \<and> ev_id e = eid \<and> p = pack e"
  then obtain e where e: "(l, e) \<in> set (events_of (view t))" "ev_id e = eid" "p = pack e"
    by blast
  obtain l' p' where r: "lookupEventById E t eid = Some (l', p')"
    using lookupEventById_exists [OF assms(1,2) e(1,2)] by auto
  obtain e' where e': "(l', e') \<in> set (events_of (view t))" "ev_id e' = eid" "p' = pack e'"
    using lookupEventById_Some [OF assms(1,2) r] by blast
  have "(l', e') = (l, e)"
    using assms(3) e(1,2) e'(1,2) unfolding unique_ids_def distinct_map inj_on_def by fastforce
  with r e e' show "lookupEventById E t eid = Some (l, p)" by simp
qed (rule lookupEventById_Some [OF assms(1,2)])

lemma eventExistsById_wf:
  assumes "wf_store (view t)" and "length eid = 32"
  shows "eventExistsById E t eid \<longleftrightarrow> (\<exists>(l, e) \<in> set (events_of (view t)). ev_id e = eid)"
  unfolding eventExistsById_def
  using lookupEventById_exists [OF assms] lookupEventById_Some [OF assms] by fastforce

lemma getMostRecentLevId_ok:
  assumes "tables_ok (view t)"
  shows "getMostRecentLevId E t = (if t_events (view t) = [] then 0 else fst (last (t_events (view t))))"
  using assms
  by (cases "t_events (view t)" rule: rev_cases)
    (auto simp: getMostRecentLevId_def foreach_Event_rev)

lemma getMostRecentLevId_max:
  assumes "tables_ok (view t)" and "(l, p) \<in> set (t_events (view t))"
  shows "l \<le> getMostRecentLevId E t"
  using last_is_max [OF assms(1), of l] assms(2)
  by (force simp: getMostRecentLevId_ok [OF assms(1)])

end

section \<open>Properties\<close>

text \<open>Looking an event up by its id finds it exactly when it is stored: the prefix search in the id
  index is the partial function from ids to events.\<close>

theorem lookup_by_id:
  assumes "golpe_env E view" and "wf_store (view t)" and "unique_ids (events_of (view t))" and "length eid = 32"
  shows "(lookupEventById E t eid = Some (l, p) \<longleftrightarrow> (\<exists>e. (l, e) \<in> set (events_of (view t)) \<and> ev_id e = eid \<and> p = pack e)) \<and>
    (eventExistsById E t eid \<longleftrightarrow> eid \<in> (\<lambda>(l, e). ev_id e) ` set (events_of (view t)))"
  using golpe_env.lookupEventById_wf [OF assms(1,2,4,3), of l p] golpe_env.eventExistsById_wf [OF assms(1,2,4)]
  by (force simp: image_iff)

theorem lookup_by_id_witness:
  "let e = \<lparr>ev_id = replicate 32 (CHR ''a''), ev_pubkey = replicate 32 (CHR ''b''), ev_created_at = 5, ev_kind = 1,
       ev_expiration = 0, ev_tags = []\<rparr>;
       T = \<lparr>t_events = [(3, pack e)], t_payload = Map.empty, t_meta = None, t_negFilters = [], t_trees = (\<lambda>_. {})\<rparr>
   in lookupEventById mem_env T (ev_id e) = Some (3, pack e)"
proof -
  define e where "e = \<lparr>ev_id = replicate 32 (CHR ''a''), ev_pubkey = replicate 32 (CHR ''b''), ev_created_at = 5, ev_kind = 1,
       ev_expiration = 0, ev_tags = []\<rparr>"
  define T where "T = \<lparr>t_events = [(3, pack e)], t_payload = Map.empty, t_meta = None, t_negFilters = [], t_trees = (\<lambda>_. {})\<rparr>"
  have wfe: "wf_event e" by (simp add: e_def wf_event_def)
  have ev: "events_of T = [(3, e)]" using wfe by (simp add: events_of_def T_def)
  have "wf_store T" using wfe by (simp add: wf_store_def tables_ok_def T_def wf_packed_pack)
  moreover have "unique_ids (events_of T)" by (simp add: ev unique_ids_def)
  moreover have "length (ev_id e) = 32" by (simp add: e_def)
  ultimately have "lookupEventById mem_env T (ev_id e) = Some (3, pack e)"
    using lookup_by_id [OF mem.golpe_env_axioms, of T "ev_id e" 3 "pack e"] by (simp add: ev)
  then show ?thesis by (simp add: e_def T_def)
qed

end
