(* ===== verification/Config.thy ===== *)
theory Config
  imports Json
begin

text \<open>
  The configuration parameters (\<open>golpe.yaml\<close>, \<open>src/apps/relay/golpe.yaml\<close>) the modelled code
  reads through \<open>cfg()\<close>, and the third-party functions it calls: hex coding, the JSON text
  format, SHA-256 and the Schnorr signature library.  Both are parameters of the definitions.
\<close>

record cfg =
  events_maxEventSize :: u64
  events_rejectEventsNewerThanSeconds :: u64
  events_rejectEventsOlderThanSeconds :: u64
  events_rejectEphemeralEventsOlderThanSeconds :: u64
  events_ephemeralEventsLifetimeSeconds :: u64
  events_maxNumTags :: u64
  events_maxTagValSize :: u64
  relay_maxReqFilterSize :: u64
  relay_queryTimesliceBudgetMicroseconds :: u64
  relay_maxFilterLimit :: u64
  relay_maxFilterLimitCount :: u64
  relay_maxSubsPerConnection :: u64
  relay_negentropy_enabled :: bool
  relay_negentropy_maxSyncEvents :: u64
  relay_writePolicy_plugin :: string

text \<open>The defaults of the two files.\<close>

definition default_cfg :: cfg where
  "default_cfg = \<lparr>
     events_maxEventSize = 65536,
     events_rejectEventsNewerThanSeconds = 900,
     events_rejectEventsOlderThanSeconds = 94608000,
     events_rejectEphemeralEventsOlderThanSeconds = 60,
     events_ephemeralEventsLifetimeSeconds = 300,
     events_maxNumTags = 2000,
     events_maxTagValSize = 1024,
     relay_maxReqFilterSize = 200,
     relay_queryTimesliceBudgetMicroseconds = 10000,
     relay_maxFilterLimit = 500,
     relay_maxFilterLimitCount = 1000000,
     relay_maxSubsPerConnection = 200,
     relay_negentropy_enabled = True,
     relay_negentropy_maxSyncEvents = 1000000,
     relay_writePolicy_plugin = ''''\<rparr>"

record libs =
  from_hex :: "string \<Rightarrow> bytes result"
  to_hex :: "bytes \<Rightarrow> string"
  json_from_string :: "string \<Rightarrow> json result"
  json_to_string :: "json \<Rightarrow> string"
  SHA256 :: "bytes \<Rightarrow> bytes"
  xonly_pubkey_parse :: "bytes \<Rightarrow> bool"
  schnorrsig_verify :: "bytes \<Rightarrow> bytes \<Rightarrow> bytes \<Rightarrow> bool"

text \<open>A size of type \<open>size_t\<close> compared with a 64-bit parameter.\<close>

abbreviation exceeds :: "nat \<Rightarrow> u64 \<Rightarrow> bool" where
  "exceeds n limit \<equiv> unat limit < n"

text \<open>What the JSON parser returns is a value of the library.\<close>

definition json_ok :: "libs \<Rightarrow> bool" where
  "json_ok L \<longleftrightarrow> (\<forall>s v. json_from_string L s = Inr v \<longrightarrow> json_wf v)"

end
