(* ===== verification/NegentropyFilterCache.thy ===== *)
theory NegentropyFilterCache
  imports NostrFilter EventsDb Config
begin

text \<open>
  \<open>src/NegentropyFilterCache.h\<close>: the filters that have a negentropy tree, and the index by kind
  that says which of them an event has to be tried against.  The lemmas show that the index loses
  nothing: an update reaches exactly the trees whose filter matches the event.
\<close>

section \<open>The cache\<close>

record FilterInfo =
  fi_f :: NostrFilter
  fi_treeId :: u64

record NegentropyFilterCache =
  nc_filters :: "FilterInfo list"
  modificationCounter :: u64
  kindToFilterIdx :: "u64 \<Rightarrow> nat list option"
  noKindFilterIdxs :: "nat list"

definition new_NegentropyFilterCache :: NegentropyFilterCache where
  "new_NegentropyFilterCache = \<lparr>nc_filters = [], modificationCounter = 0, kindToFilterIdx = Map.empty, noKindFilterIdxs = []\<rparr>"

text \<open>\<open>kindToFilterIdx[k].push_back(i)\<close>: the entry is created when it is missing.\<close>

definition push_kind :: "nat \<Rightarrow> u64 \<Rightarrow> (u64 \<Rightarrow> nat list option) \<Rightarrow> u64 \<Rightarrow> nat list option" where
  "push_kind i k m = m(k \<mapsto> (case m k of None \<Rightarrow> [] | Some is \<Rightarrow> is) @ [i])"

definition index_filter ::
  "FilterInfo list \<Rightarrow> nat \<Rightarrow> (u64 \<Rightarrow> nat list option) \<times> nat list \<Rightarrow> ((u64 \<Rightarrow> nat list option) \<times> nat list) result" where
  "index_filter filters i = (\<lambda>(byKind, noKind).
     case nf_kinds (fi_f (filters ! i)) of
       Some kinds \<Rightarrow>
         rbind (rfold (\<lambda>j m. rbind (fsu_at kinds j) (\<lambda>k. Inr (push_kind i k m))) [0..<fsu_size kinds] byKind)
           (\<lambda>byKind. Inr (byKind, noKind))
     | None \<Rightarrow> Inr (byKind, noKind @ [i]))"

text \<open>
  The code dereferences the \<open>Meta\<close> record without a check; a database has one from its creation.  When it throws, the code has
  already cleared its lists; as the counter is set at the end only, the next call builds them anew, and the model keeps the old ones.
\<close>

definition freshenCache ::
  "'t env \<Rightarrow> libs \<Rightarrow> 't \<Rightarrow> NegentropyFilterCache \<Rightarrow> NegentropyFilterCache result" where
  "freshenCache E L txn cache =
     (case lookup_Meta E txn of
        None \<Rightarrow> Inl BadVariant
      | Some m \<Rightarrow>
          let cur = negentropyModificationCounter m in
          if cur \<noteq> modificationCounter cache then
            rbind (rmap (\<lambda>(treeId, filter).
                rbind (json_from_string L filter) (\<lambda>v.
                rbind (mkNostrFilter (from_hex L) v MAX_U64) (\<lambda>f. Inr \<lparr>fi_f = f, fi_treeId = treeId\<rparr>)))
              (foreach_NegentropyFilter E txn)) (\<lambda>filters.
            rbind (rfold (index_filter filters) [0..<length filters] (Map.empty, [])) (\<lambda>(byKind, noKind).
              Inr \<lparr>nc_filters = filters, modificationCounter = cur, kindToFilterIdx = byKind, noKindFilterIdxs = noKind\<rparr>))
          else Inr cache)"

text \<open>The function that \<open>ctx\<close> passes to its callback.\<close>

definition tryFilter ::
  "'t env \<Rightarrow> NegentropyFilterCache \<Rightarrow> bytes \<Rightarrow> bool \<Rightarrow> nat \<Rightarrow> 't \<Rightarrow> 't result" where
  "tryFilter E cache ev ins i txn =
     (let fi = nc_filters cache ! i in
      rbind (nf_doesMatch (fi_f fi) ev) (\<lambda>m.
        if \<not> m then Inr txn
        else if ins then BTree_insert E txn (fi_treeId fi) (pv_created_at ev) (pv_id ev)
        else BTree_erase E txn (fi_treeId fi) (pv_created_at ev) (pv_id ev)))"

definition updateNegentropy ::
  "'t env \<Rightarrow> NegentropyFilterCache \<Rightarrow> bytes \<Rightarrow> bool \<Rightarrow> 't \<Rightarrow> 't result" where
  "updateNegentropy E cache ev ins txn =
     rbind (case kindToFilterIdx cache (pv_kind ev) of
              Some idxs \<Rightarrow> rfold (tryFilter E cache ev ins) idxs txn
            | None \<Rightarrow> Inr txn) (\<lambda>txn.
     rfold (tryFilter E cache ev ins) (noKindFilterIdxs cache) txn)"

definition ctx ::
  "'t env \<Rightarrow> libs \<Rightarrow> 't \<Rightarrow> NegentropyFilterCache \<Rightarrow>
   ((bytes \<Rightarrow> bool \<Rightarrow> 't \<Rightarrow> 't result) \<Rightarrow> 'a result) \<Rightarrow> (NegentropyFilterCache \<times> 'a) result" where
  "ctx E L txn cache cb =
     rbind (freshenCache E L txn cache) (\<lambda>cache.
     rbind (cb (updateNegentropy E cache)) (\<lambda>r. Inr (cache, r)))"

section \<open>The dispatch index is complete\<close>

definition kind_idxs :: "(u64 \<Rightarrow> nat list option) \<Rightarrow> u64 \<Rightarrow> nat list" where
  "kind_idxs m k = (case m k of None \<Rightarrow> [] | Some is \<Rightarrow> is)"

definition indexed :: "FilterInfo list \<Rightarrow> nat set \<Rightarrow> (u64 \<Rightarrow> nat list option) \<Rightarrow> nat list \<Rightarrow> bool" where
  "indexed fs I byKind noKind \<longleftrightarrow>
     (\<forall>k. set (kind_idxs byKind k) =
       {i \<in> I. \<exists>s. nf_kinds (fi_f (fs ! i)) = Some s \<and> k \<in> set (fsu_items s)}) \<and>
     set noKind = {i \<in> I. nf_kinds (fi_f (fs ! i)) = None}"

definition wf_cache :: "NegentropyFilterCache \<Rightarrow> bool" where
  "wf_cache c \<longleftrightarrow> (\<forall>fi \<in> set (nc_filters c). wf_filter (fi_f fi)) \<and>
     indexed (nc_filters c) {0..<length (nc_filters c)} (kindToFilterIdx c) (noKindFilterIdxs c)"

lemma kind_idxs_push: "set (kind_idxs (push_kind i k m) k') = set (kind_idxs m k') \<union> (if k' = k then {i} else {})"
  by (auto simp: kind_idxs_def push_kind_def split: option.splits)

lemma push_all:
  "set (kind_idxs (fold (push_kind i) ks m) k) = set (kind_idxs m k) \<union> (if k \<in> set ks then {i} else {})"
  by (induction ks arbitrary: m) (auto simp: kind_idxs_push)

lemma index_filter_step:
  assumes "index_filter fs i (byKind, noKind) = Inr (byKind', noKind')" and "indexed fs I byKind noKind"
  shows "indexed fs (insert i I) byKind' noKind'"
proof (cases "nf_kinds (fi_f (fs ! i))")
  case None
  then show ?thesis
    using assms by (auto simp: index_filter_def indexed_def)
next
  case (Some s)
  then have "byKind' = fold (push_kind i) (fsu_items s) byKind" and "noKind' = noKind"
    using assms(1) by (simp_all add: index_filter_def fsu.indexed_loop rfold_pure [where g = "push_kind i"])
  then show ?thesis
    using assms(2) Some by (auto simp: indexed_def push_all)
qed

lemma index_filters:
  assumes "rfold (index_filter fs) is (byKind, noKind) = Inr (byKind', noKind')" and "indexed fs I byKind noKind"
  shows "indexed fs (I \<union> set is) byKind' noKind'"
  using assms
proof (induction "is" arbitrary: I byKind noKind)
  case (Cons i "is")
  then obtain byKind1 noKind1 where step: "index_filter fs i (byKind, noKind) = Inr (byKind1, noKind1)"
    and rest: "rfold (index_filter fs) is (byKind1, noKind1) = Inr (byKind', noKind')"
    by auto
  show ?case
    using Cons.IH [OF rest index_filter_step [OF step Cons.prems(2)]] by simp
qed simp

lemma index_filter_total: "\<exists>st'. index_filter fs i st = Inr st'"
  by (cases st) (auto simp: index_filter_def fsu.indexed_loop rfold_pure [where g = "push_kind i"] split: option.splits)

lemma index_filters_total: "\<exists>st'. rfold (index_filter fs) is st = Inr st'"
proof (induction "is" arbitrary: st)
  case (Cons i "is")
  obtain st1 where "index_filter fs i st = Inr st1" using index_filter_total by blast
  with Cons.IH show ?case by simp
qed simp

section \<open>The meaning of an update\<close>

text \<open>The item of an event goes into, or out of, every tree whose filter matches the event.\<close>

definition tree_upd :: "bool \<Rightarrow> u64 \<times> bytes \<Rightarrow> (u64 \<times> bytes) set \<Rightarrow> (u64 \<times> bytes) set" where
  "tree_upd ins x S = (if ins then insert x S else S - {x})"

definition neg_apply :: "FilterInfo set \<Rightarrow> event \<Rightarrow> bool \<Rightarrow> tables \<Rightarrow> tables" where
  "neg_apply F e ins T = T\<lparr>t_trees := \<lambda>tid.
     if \<exists>fi \<in> F. fi_treeId fi = tid \<and> matches (fi_f fi) e
     then tree_upd ins (ev_created_at e, ev_id e) (t_trees T tid) else t_trees T tid\<rparr>"

lemma neg_apply_frame [simp]:
  "t_events (neg_apply F e ins T) = t_events T" "t_payload (neg_apply F e ins T) = t_payload T"
  "t_meta (neg_apply F e ins T) = t_meta T" "t_negFilters (neg_apply F e ins T) = t_negFilters T"
  by (simp_all add: neg_apply_def)

lemma neg_apply_empty [simp]: "neg_apply {} e ins T = T"
  by (simp add: neg_apply_def)

lemma neg_apply_union: "neg_apply G e ins (neg_apply F e ins T) = neg_apply (F \<union> G) e ins T"
  by (rule tables.equality) (auto simp: neg_apply_def tree_upd_def fun_eq_iff)

lemma neg_apply_tree:
  "t_trees (neg_apply F e ins T) tid =
   (if \<exists>fi \<in> F. fi_treeId fi = tid \<and> matches (fi_f fi) e
    then tree_upd ins (ev_created_at e, ev_id e) (t_trees T tid) else t_trees T tid)"
  by (simp add: neg_apply_def)

text \<open>Only the filters that match count.\<close>

lemma neg_apply_cong:
  "{fi \<in> F. matches (fi_f fi) e} = {fi \<in> G. matches (fi_f fi) e} \<Longrightarrow> neg_apply F e ins T = neg_apply G e ins T"
proof -
  assume "{fi \<in> F. matches (fi_f fi) e} = {fi \<in> G. matches (fi_f fi) e}"
  then have "(\<exists>fi \<in> F. fi_treeId fi = tid \<and> matches (fi_f fi) e) \<longleftrightarrow>
      (\<exists>fi \<in> G. fi_treeId fi = tid \<and> matches (fi_f fi) e)" for tid
    by blast
  then show ?thesis by (simp add: neg_apply_def)
qed

lemma dispatch_complete:
  assumes "wf_cache c"
  shows "{fi \<in> (\<lambda>i. nc_filters c ! i) ` (set (kind_idxs (kindToFilterIdx c) (ev_kind e)) \<union> set (noKindFilterIdxs c)).
      matches (fi_f fi) e} = {fi \<in> set (nc_filters c). matches (fi_f fi) e}"
proof -
  let ?fs = "nc_filters c"
  have kinds: "set (kind_idxs (kindToFilterIdx c) (ev_kind e)) = {i. i < length ?fs \<and>
      (\<exists>s. nf_kinds (fi_f (?fs ! i)) = Some s \<and> ev_kind e \<in> set (fsu_items s))}"
    and noKind: "set (noKindFilterIdxs c) = {i. i < length ?fs \<and> nf_kinds (fi_f (?fs ! i)) = None}"
    using assms by (auto simp: wf_cache_def indexed_def)
  let ?I = "set (kind_idxs (kindToFilterIdx c) (ev_kind e)) \<union> set (noKindFilterIdxs c)"
  have "i < length ?fs" if "i \<in> ?I" for i
    using that unfolding kinds noKind by auto
  moreover have "i \<in> ?I" if "i < length ?fs" "matches (fi_f (?fs ! i)) e" for i
    using that unfolding kinds noKind by (cases "nf_kinds (fi_f (?fs ! i))") (auto simp: matches_def)
  ultimately show ?thesis
    unfolding set_conv_nth [of ?fs] by blast
qed

context golpe_env
begin

lemma tryFilter_wf:
  assumes "wf_filter (fi_f (nc_filters c ! i))" and "wf_event e"
  shows "tryFilter E c (pack e) ins i t = Inr t' \<Longrightarrow> view t' = neg_apply {nc_filters c ! i} e ins (view t)"
    and "storage_only (tryFilter E c (pack e) ins i t)"
  using assms BTree_insert BTree_erase writes_throw
  by (auto simp: tryFilter_def nf_doesMatch_pack packed_simps Let_def neg_apply_def tree_upd_def fun_eq_iff
      storage_only_def split: if_splits)

lemma tryFilters_wf:
  assumes "\<forall>i \<in> set is. wf_filter (fi_f (nc_filters c ! i))" and "wf_event e"
    and "rfold (tryFilter E c (pack e) ins) is t = Inr t'"
  shows "view t' = neg_apply ((\<lambda>i. nc_filters c ! i) ` set is) e ins (view t)"
  using assms(1,3)
proof (induction "is" arbitrary: t)
  case (Cons i "is")
  then obtain t1 where t1: "tryFilter E c (pack e) ins i t = Inr t1"
    and rest: "rfold (tryFilter E c (pack e) ins) is t1 = Inr t'"
    by auto
  have "view t1 = neg_apply {nc_filters c ! i} e ins (view t)"
    using Cons.prems(1) by (intro tryFilter_wf(1) [OF _ assms(2) t1]) simp
  then show ?case
    using Cons.IH [OF _ rest] Cons.prems(1) by (simp add: neg_apply_union)
qed simp

lemma tryFilters_storage_only:
  assumes "\<forall>i \<in> set is. wf_filter (fi_f (nc_filters c ! i))" and "wf_event e"
  shows "storage_only (rfold (tryFilter E c (pack e) ins) is t)"
  using assms(1)
proof (induction "is" arbitrary: t)
  case (Cons i "is")
  then show ?case
    using tryFilter_wf(2) [OF _ assms(2), of c i ins t]
    by (cases "tryFilter E c (pack e) ins i t") (auto simp: storage_only_def)
qed (simp add: storage_only_def)

lemma idxs_wf:
  assumes "wf_cache c"
  shows "i \<in> set (kind_idxs (kindToFilterIdx c) k) \<union> set (noKindFilterIdxs c) \<Longrightarrow> wf_filter (fi_f (nc_filters c ! i))"
  using assms by (auto simp: wf_cache_def indexed_def)

text \<open>Trying the filters that the index names has the effect of trying all of them.\<close>

lemma updateNegentropy_wf:
  assumes c: "wf_cache c" and e: "wf_event e" and u: "updateNegentropy E c (pack e) ins t = Inr t'"
  shows "view t' = neg_apply (set (nc_filters c)) e ins (view t)"
proof -
  let ?ks = "kind_idxs (kindToFilterIdx c) (ev_kind e)" and ?nk = "noKindFilterIdxs c"
  have "rfold (tryFilter E c (pack e) ins) (?ks @ ?nk) t = Inr t'"
    using u e by (simp add: updateNegentropy_def rfold_append packed_simps kind_idxs_def split: option.splits)
  then have "view t' = neg_apply ((\<lambda>i. nc_filters c ! i) ` set (?ks @ ?nk)) e ins (view t)"
    using idxs_wf [OF c] by (intro tryFilters_wf [OF _ e]) auto
  then show ?thesis
    using neg_apply_cong [OF dispatch_complete [OF c]] by simp
qed

lemma updateNegentropy_storage_only:
  assumes c: "wf_cache c" and e: "wf_event e"
  shows "storage_only (updateNegentropy E c (pack e) ins t)"
proof -
  let ?ks = "kind_idxs (kindToFilterIdx c) (ev_kind e)" and ?nk = "noKindFilterIdxs c"
  have "updateNegentropy E c (pack e) ins t = rfold (tryFilter E c (pack e) ins) (?ks @ ?nk) t"
    using e by (simp add: updateNegentropy_def rfold_append packed_simps kind_idxs_def split: option.splits)
  then show ?thesis
    using idxs_wf [OF c] tryFilters_storage_only [OF _ e, of "?ks @ ?nk" c] by auto
qed

end

section \<open>Fresh caches and synchronised trees\<close>

text \<open>The filters of the table \<open>NegentropyFilter\<close>, parsed.\<close>

definition neg_infos :: "libs \<Rightarrow> tables \<Rightarrow> FilterInfo set" where
  "neg_infos L T = {fi. \<exists>s v. (fi_treeId fi, s) \<in> set (t_negFilters T) \<and> json_from_string L s = Inr v \<and>
     mkNostrFilter (from_hex L) v MAX_U64 = Inr (fi_f fi)}"

text \<open>What holds of a cache between calls: when its counter is current, so are its filters.\<close>

definition cache_inv :: "libs \<Rightarrow> NegentropyFilterCache \<Rightarrow> tables \<Rightarrow> bool" where
  "cache_inv L c T \<longleftrightarrow> wf_cache c \<and> (\<forall>m. t_meta T = Some m \<and> negentropyModificationCounter m = modificationCounter c \<longrightarrow>
     set (nc_filters c) = neg_infos L T)"

definition items :: "NostrFilter \<Rightarrow> tables \<Rightarrow> (u64 \<times> bytes) set" where
  "items f T = (\<lambda>(l, e). (ev_created_at e, ev_id e)) ` {x \<in> set (events_of T). matches f (snd x)}"

definition trees_ok :: "FilterInfo set \<Rightarrow> tables \<Rightarrow> bool" where
  "trees_ok F T \<longleftrightarrow> inj_on fi_treeId F \<and> (\<forall>fi \<in> F. t_trees T (fi_treeId fi) = items (fi_f fi) T)"

lemma mkNostrFilter_wf:
  assumes "mkNostrFilter h v lim = Inr f" and "json_wf v"
  shows "wf_filter f"
proof -
  obtain ms where "v = JObject ms"
    using assms(1) by (cases v) (auto simp: mkNostrFilter_def)
  then show ?thesis
    using mkNostrFilter_spec(1) [of h ms lim f] assms by simp
qed

lemma neg_infos_wf: "json_ok L \<Longrightarrow> fi \<in> neg_infos L T \<Longrightarrow> wf_filter (fi_f fi)"
  by (auto simp: neg_infos_def json_ok_def intro: mkNostrFilter_wf)

lemma neg_infos_inj: "distinct (map fst (t_negFilters T)) \<Longrightarrow> inj_on fi_treeId (neg_infos L T)"
proof (rule inj_onI)
  fix x y assume "distinct (map fst (t_negFilters T))" "x \<in> neg_infos L T" "y \<in> neg_infos L T"
    and "fi_treeId x = fi_treeId y"
  then obtain s v s' v' where "(fi_treeId x, s) \<in> set (t_negFilters T)" "json_from_string L s = Inr v"
    "mkNostrFilter (from_hex L) v MAX_U64 = Inr (fi_f x)" "(fi_treeId x, s') \<in> set (t_negFilters T)"
    "json_from_string L s' = Inr v'" "mkNostrFilter (from_hex L) v' MAX_U64 = Inr (fi_f y)"
    by (auto simp: neg_infos_def)
  moreover from this have "s = s'"
    using \<open>distinct (map fst (t_negFilters T))\<close> eq_key_imp_eq_value by fast
  ultimately have "fi_f x = fi_f y" by simp
  with \<open>fi_treeId x = fi_treeId y\<close> show "x = y" by simp
qed

lemma neg_infos_frame [simp]:
  "neg_infos L (T\<lparr>t_events := x\<rparr>) = neg_infos L T" "neg_infos L (T\<lparr>t_payload := y\<rparr>) = neg_infos L T"
  "neg_infos L (neg_apply F e ins T) = neg_infos L T"
  by (simp_all add: neg_infos_def)

lemma set_rmap: "rmap f xs = Inr ys \<Longrightarrow> set ys = {y. \<exists>x \<in> set xs. f x = Inr y}"
proof (induction xs arbitrary: ys)
  case (Cons x xs)
  then obtain y zs where "f x = Inr y" "rmap f xs = Inr zs" "ys = y # zs" by auto
  then show ?case using Cons.IH [of zs] by auto
qed simp

lemma wf_new_cache [simp]: "wf_cache new_NegentropyFilterCache"
  by (simp add: new_NegentropyFilterCache_def wf_cache_def indexed_def kind_idxs_def)

context golpe_env
begin

lemma freshenCache_wf:
  assumes inv: "cache_inv L c (view t)" and L: "json_ok L" and r: "freshenCache E L t c = Inr c'"
  shows "wf_cache c' \<and> set (nc_filters c') = neg_infos L (view t) \<and> cache_inv L c' (view t)"
proof -
  from r obtain m where m: "t_meta (view t) = Some m"
    by (auto simp: freshenCache_def lookup_Meta split: option.splits)
  show ?thesis
  proof (cases "negentropyModificationCounter m = modificationCounter c")
    case True
    then show ?thesis
      using r m inv by (auto simp: freshenCache_def lookup_Meta Let_def cache_inv_def)
  next
    case False
    let ?p = "\<lambda>(treeId, filter). rbind (json_from_string L filter) (\<lambda>v.
       rbind (mkNostrFilter (from_hex L) v MAX_U64) (\<lambda>f. Inr \<lparr>fi_f = f, fi_treeId = treeId\<rparr>))"
    from r m False obtain fs byKind noKind where fs: "rmap ?p (t_negFilters (view t)) = Inr fs"
      and ix: "rfold (index_filter fs) [0..<length fs] (Map.empty, []) = Inr (byKind, noKind)"
      and c': "c' = \<lparr>nc_filters = fs, modificationCounter = negentropyModificationCounter m,
        kindToFilterIdx = byKind, noKindFilterIdxs = noKind\<rparr>"
      by (auto simp: freshenCache_def lookup_Meta foreach_NegentropyFilter Let_def)
    have set: "set fs = neg_infos L (view t)"
      unfolding set_rmap [OF fs] neg_infos_def by force
    moreover have "indexed fs ({} \<union> set [0..<length fs]) byKind noKind"
      by (rule index_filters [OF ix]) (simp add: indexed_def kind_idxs_def)
    ultimately have "wf_cache c'"
      using neg_infos_wf [OF L] by (auto simp: c' wf_cache_def)
    then show ?thesis
      by (simp add: c' set cache_inv_def)
  qed
qed

end

section \<open>Writing and deleting keep the trees synchronised\<close>

lemma events_of_append: "events_of (T\<lparr>t_events := t_events T @ [(l, p)]\<rparr>) = events_of T @ [(l, unpack p)]"
  by (simp add: events_of_def)

lemma events_of_filter:
  "events_of (T\<lparr>t_events := filter (\<lambda>x. P (fst x)) (t_events T)\<rparr>) = filter (\<lambda>x. P (fst x)) (events_of T)"
  by (simp add: events_of_def filter_map o_def case_prod_beta)

lemma events_of_frame [simp]:
  "events_of (T\<lparr>t_payload := x\<rparr>) = events_of T" "events_of (neg_apply F e ins T) = events_of T"
  by (simp_all add: events_of_def)

lemma items_iff:
  "x \<in> items f T \<longleftrightarrow> (\<exists>l d. (l, d) \<in> set (events_of T) \<and> matches f d \<and> x = (ev_created_at d, ev_id d))"
  by (force simp: items_def)

lemma trees_ok_insert:
  assumes "trees_ok F T" and "wf_event e" and "events_of T' = events_of T @ [(l, e)]"
    and "t_trees T' = t_trees (neg_apply F e True T)"
  shows "trees_ok F T'"
proof -
  have "(\<exists>gi \<in> F. fi_treeId gi = fi_treeId fi \<and> matches (fi_f gi) e) \<longleftrightarrow> matches (fi_f fi) e" if "fi \<in> F" for fi
    using assms(1) that by (auto simp: trees_ok_def inj_on_def)
  then show ?thesis
    using assms by (auto simp: trees_ok_def neg_apply_tree tree_upd_def items_def)
qed

lemma trees_ok_erase:
  assumes "trees_ok F T" and "unique_ids (events_of T)" and e: "(l, e) \<in> set (events_of T)"
    and "distinct (map fst (events_of T))"
    and T': "events_of T' = filter (\<lambda>x. fst x \<noteq> l) (events_of T)"
    and "t_trees T' = t_trees (neg_apply F e False T)"
  shows "trees_ok F T'"
proof -
  have iff: "(\<exists>gi \<in> F. fi_treeId gi = fi_treeId fi \<and> matches (fi_f gi) e) \<longleftrightarrow> matches (fi_f fi) e" if "fi \<in> F" for fi
    using assms(1) that by (auto simp: trees_ok_def inj_on_def)
  have other: "ev_id d \<noteq> ev_id e" if "(l', d) \<in> set (events_of T)" "l' \<noteq> l" for l' d
    using assms(2) e that by (fastforce simp: unique_ids_def distinct_map inj_on_def)
  have same: "d = e" if "(l, d) \<in> set (events_of T)" for d
    using assms(4) e that by (metis eq_key_imp_eq_value)
  have "x \<in> items f T' \<longleftrightarrow> x \<in> items f T \<and> \<not> (matches f e \<and> x = (ev_created_at e, ev_id e))" for f x
  proof
    assume "x \<in> items f T'"
    then obtain l' d where d: "(l', d) \<in> set (events_of T)" "l' \<noteq> l" "matches f d" "x = (ev_created_at d, ev_id d)"
      by (auto simp: items_iff T')
    then show "x \<in> items f T \<and> \<not> (matches f e \<and> x = (ev_created_at e, ev_id e))"
      using other [OF d(1,2)] by (auto simp: items_iff)
  next
    assume x: "x \<in> items f T \<and> \<not> (matches f e \<and> x = (ev_created_at e, ev_id e))"
    then obtain l' d where d: "(l', d) \<in> set (events_of T)" "matches f d" "x = (ev_created_at d, ev_id d)"
      by (auto simp: items_iff)
    moreover have "l' \<noteq> l" using d x same by blast
    ultimately show "x \<in> items f T'" by (auto simp: items_iff T')
  qed
  then have "items f T' = (if matches f e then items f T - {(ev_created_at e, ev_id e)} else items f T)" for f
    by auto
  then show ?thesis
    using assms(1,6) iff by (auto simp: trees_ok_def neg_apply_tree tree_upd_def)
qed

end
