(* ===== verification/EventsParse.thy ===== *)
theory EventsParse
  imports Config PackedEvent
begin

text \<open>
  \<open>src/events_parse.cpp\<close>, the event kinds of \<open>src/events.h\<close> and \<open>parseUint64\<close> of \<open>src/misc.cpp\<close>:
  turning the JSON of an event into its packed form, and checking id, signature and timestamp.
  The lemmas describe the packed event in terms of the JSON, and the time window in terms of
  unbounded arithmetic.
\<close>

section \<open>Event kinds\<close>

definition isReplaceable :: "u64 \<Rightarrow> bool" where
  "isReplaceable k \<longleftrightarrow> k = 0 \<or> k = 3 \<or> k = 41 \<or> (k \<ge> 10000 \<and> k < 20000)"

definition isParamReplaceable :: "u64 \<Rightarrow> bool" where
  "isParamReplaceable k \<longleftrightarrow> k \<ge> 30000 \<and> k < 40000"

definition isEphemeral :: "u64 \<Rightarrow> bool" where
  "isEphemeral k \<longleftrightarrow> k \<ge> 20000 \<and> k < 30000"

definition isDeletion :: "u64 \<Rightarrow> bool" where
  "isDeletion k \<longleftrightarrow> k = 5"

section \<open>Decimal numbers\<close>

definition digitChar :: "char \<Rightarrow> bool" where
  "digitChar c \<longleftrightarrow> CHR ''0'' \<le> c \<and> c \<le> CHR ''9''"

definition digits_value :: "string \<Rightarrow> nat" where
  "digits_value s = foldl (\<lambda>n c. 10 * n + (of_char c - 48)) 0 s"

text \<open>\<open>std::stoull\<close> on digits throws on the empty string and on values of more than 64 bits.\<close>

definition parseUint64 :: "string \<Rightarrow> u64 result" where
  "parseUint64 s =
     (if \<not> list_all digitChar s then Inl (Herr ''non-digit character'')
      else if s = [] then Inl InvalidArgument
      else if digits_value s \<ge> 2 ^ 64 then Inl OutOfRange
      else Inr (of_nat (digits_value s)))"

section \<open>From JSON to the packed form\<close>

text \<open>The name and the value of a tag; then what the loop body does with them.\<close>

definition tag_fields :: "json \<Rightarrow> (string \<times> string) result" where
  "tag_fields tagArr =
     rbind (jsonGetArray tagArr ''tag in tags field was not an array'') (\<lambda>tag.
     if length tag < 1 then Inl (Herr ''too few fields in tag'') else
     rbind (jsonGetString (tag ! 0) ''tag name was not a string'') (\<lambda>tagName.
     rbind (if length tag \<ge> 2 then jsonGetString (tag ! 1) ''tag val was not a string'' else Inr '''') (\<lambda>tagVal.
       Inr (tagName, tagVal))))"

definition add_tag ::
  "libs \<Rightarrow> cfg \<Rightarrow> string \<Rightarrow> string \<Rightarrow> bytes \<times> u64 \<Rightarrow> (bytes \<times> u64) result" where
  "add_tag L cfg tagName tagVal = (\<lambda>(buf, expiration).
     if tagName = ''e'' \<or> tagName = ''p'' then
       (if length tagVal \<noteq> 64 then Inl (Herr (''unexpected size for fixed-size tag: '' @ tagName))
        else rbind (from_hex L tagVal) (\<lambda>tagVal.
          rbind (tag_add buf (tagName ! 0) tagVal) (\<lambda>buf. Inr (buf, expiration))))
     else if tagName = ''expiration'' then
       (if expiration = 0 then
          rbind (parseUint64 tagVal) (\<lambda>expiration.
            if expiration < 100 then Inl (Herr ''invalid expiration'') else Inr (buf, expiration))
        else Inr (buf, expiration))
     else if length tagName = 1 then
       (if exceeds (length tagVal) (events_maxTagValSize cfg)
        then Inl (Herr (''tag val too large: '' @ dec (length tagVal)))
        else if length tagVal \<le> 255 then
          rbind (tag_add buf (tagName ! 0) tagVal) (\<lambda>buf. Inr (buf, expiration))
        else Inr (buf, expiration))
     else Inr (buf, expiration))"

definition parse_tag :: "libs \<Rightarrow> cfg \<Rightarrow> json \<Rightarrow> bytes \<times> u64 \<Rightarrow> (bytes \<times> u64) result" where
  "parse_tag L cfg tagArr st = rbind (tag_fields tagArr) (\<lambda>(tagName, tagVal). add_tag L cfg tagName tagVal st)"

text \<open>The fixed fields, in the order in which the code reads them.\<close>

definition event_fields :: "libs \<Rightarrow> json \<Rightarrow> (bytes \<times> bytes \<times> u64 \<times> u64) result" where
  "event_fields L v =
     rbind (json_at v ''id'') (\<lambda>jid.
     rbind (jsonGetString jid ''event id field was not a string'') (\<lambda>ids.
     rbind (from_hex L ids) (\<lambda>eid.
     rbind (json_at v ''pubkey'') (\<lambda>jpk.
     rbind (jsonGetString jpk ''event pubkey field was not a string'') (\<lambda>pks.
     rbind (from_hex L pks) (\<lambda>pubkey.
     rbind (json_at v ''created_at'') (\<lambda>jca.
     rbind (jsonGetUnsigned jca ''event created_at field was not an integer'') (\<lambda>created_at.
     rbind (json_at v ''kind'') (\<lambda>jk.
     rbind (jsonGetUnsigned jk ''event kind field was not an integer'') (\<lambda>kind.
     if length eid \<noteq> 32 then Inl (Herr ''unexpected id size'')
     else if length pubkey \<noteq> 32 then Inl (Herr ''unexpected pubkey size'')
     else
     rbind (json_at v ''content'') (\<lambda>jc.
     rbind (jsonGetString jc ''event content field was not a string'') (\<lambda>_.
       Inr (eid, pubkey, created_at, kind)))))))))))))"

text \<open>The tag bytes and the expiration.\<close>

definition event_tags :: "libs \<Rightarrow> cfg \<Rightarrow> json \<Rightarrow> u64 \<Rightarrow> (bytes \<times> u64) result" where
  "event_tags L cfg v kind =
     rbind (if isReplaceable kind then tag_add [] (CHR ''d'') '''' else Inr []) (\<lambda>buf.
     rbind (json_at v ''tags'') (\<lambda>jt.
     rbind (jsonGetArray jt ''tags field not an array'') (\<lambda>tags.
     if exceeds (length tags) (events_maxNumTags cfg)
     then Inl (Herr (''too many tags: '' @ dec (length tags)))
     else
     rbind (rfold (parse_tag L cfg) tags (buf, 0)) (\<lambda>(buf, expiration).
     rbind (if isParamReplaceable kind then tag_add buf (CHR ''d'') '''' else Inr buf) (\<lambda>buf.
       Inr (buf, if isEphemeral kind then 1 else expiration))))))"

definition nostrJsonToPackedEvent :: "libs \<Rightarrow> cfg \<Rightarrow> json \<Rightarrow> bytes result" where
  "nostrJsonToPackedEvent L cfg v =
     rbind (event_fields L v) (\<lambda>(eid, pubkey, created_at, kind).
     rbind (event_tags L cfg v kind) (\<lambda>(buf, expiration).
       PackedEventBuilder eid pubkey created_at kind expiration buf))"

section \<open>Verification\<close>

definition nostrHash :: "libs \<Rightarrow> json \<Rightarrow> Bytes32 result" where
  "nostrHash L origJson =
     rbind (json_at origJson ''pubkey'') (\<lambda>pubkey.
     rbind (json_at origJson ''created_at'') (\<lambda>created_at.
     rbind (json_at origJson ''kind'') (\<lambda>kind.
     rbind (json_at origJson ''tags'') (\<lambda>tags.
     rbind (json_at origJson ''content'') (\<lambda>content.
       mkBytes32 (SHA256 L (json_to_string L
         (JArray [JUnsigned 0, pubkey, created_at, kind, tags, content]))))))))"

definition verifySig :: "libs \<Rightarrow> bytes \<Rightarrow> bytes \<Rightarrow> bytes \<Rightarrow> bool result" where
  "verifySig L sig hash pubkey =
     (if length sig \<noteq> 64 \<or> length hash \<noteq> 32 \<or> length pubkey \<noteq> 32
      then Inl (Herr ''verify sig: bad input size'')
      else if \<not> xonly_pubkey_parse L pubkey then Inl (Herr ''verify sig: bad pubkey'')
      else Inr (schnorrsig_verify L sig hash pubkey))"

definition verifyNostrEvent :: "libs \<Rightarrow> bytes \<Rightarrow> json \<Rightarrow> unit result" where
  "verifyNostrEvent L packed origJson =
     rbind (nostrHash L origJson) (\<lambda>hash.
     rbind (mkBytes32 (pv_id packed)) (\<lambda>eid.
     if hash \<noteq> eid then Inl (Herr ''bad event id'') else
     rbind (json_at origJson ''sig'') (\<lambda>jsig.
     rbind (jsonGetString jsig ''event sig was not a string'') (\<lambda>sigs.
     rbind (from_hex L sigs) (\<lambda>sig.
     rbind (verifySig L sig (pv_id packed) (pv_pubkey packed)) (\<lambda>valid.
       if \<not> valid then Inl (Herr ''bad signature'') else Inr ()))))))"

definition verifyNostrEventJsonSize :: "cfg \<Rightarrow> string \<Rightarrow> unit result" where
  "verifyNostrEventJsonSize cfg jsonStr =
     (if exceeds (length jsonStr) (events_maxEventSize cfg)
      then Inl (Herr (''event too large: '' @ dec (length jsonStr))) else Inr ())"

text \<open>\<open>now\<close> is the clock in seconds.  The sums and differences are those of \<open>uint64_t\<close>.\<close>

definition verifyEventTimestamp :: "cfg \<Rightarrow> u64 \<Rightarrow> bytes \<Rightarrow> unit result" where
  "verifyEventTimestamp cfg now packed =
     (let ts = pv_created_at packed;
          isEph = (pv_expiration packed = 1);
          earliest = now - (if isEph then events_rejectEphemeralEventsOlderThanSeconds cfg
                            else events_rejectEventsOlderThanSeconds cfg);
          latest = now + events_rejectEventsNewerThanSeconds cfg;
          earliest = (if earliest > now then 0 else earliest);
          latest = (if latest < now then MAX_U64 - 1 else latest)
      in if ts < earliest then Inl (Herr (if isEph then ''ephemeral event expired'' else ''created_at too early''))
         else if ts > latest then Inl (Herr ''created_at too late'')
         else if pv_expiration packed > 1 \<and> pv_expiration packed \<le> now then Inl (Herr ''event expired'')
         else Inr ())"

definition parseAndVerifyEvent ::
  "libs \<Rightarrow> cfg \<Rightarrow> u64 \<Rightarrow> json \<Rightarrow> bool \<Rightarrow> bool \<Rightarrow> (bytes \<times> string) result" where
  "parseAndVerifyEvent L cfg now origJson verifyMsg verifyTime =
     (if \<not> is_object origJson then Inl (Herr ''event is not an object'') else
      rbind (nostrJsonToPackedEvent L cfg origJson) (\<lambda>packedStr.
      rbind (PackedEventView packedStr) (\<lambda>packed.
      rbind (if verifyTime then verifyEventTimestamp cfg now packed else Inr ()) (\<lambda>_.
      rbind (if verifyMsg then verifyNostrEvent L packed origJson else Inr ()) (\<lambda>_.
      rbind (rmap (\<lambda>k. rbind (json_at origJson k) (\<lambda>v. Inr (k, v)))
          [''content'', ''created_at'', ''id'', ''kind'', ''pubkey'', ''sig'', ''tags'']) (\<lambda>ms.
      let jsonStr = json_to_string L (JObject ms) in
      rbind (if verifyMsg then verifyNostrEventJsonSize cfg jsonStr else Inr ()) (\<lambda>_.
        Inr (packedStr, jsonStr))))))))"

section \<open>What is packed\<close>

text \<open>The name and the value of a JSON tag, and the tag it leaves in the packed event.\<close>

fun json_tag :: "json \<Rightarrow> (string \<times> string) option" where
  "json_tag (JArray (JString n # JString v # _)) = Some (n, v)"
| "json_tag (JArray [JString n]) = Some (n, '''')"
| "json_tag _ = None"

definition packed_tag :: "libs \<Rightarrow> string \<Rightarrow> string \<Rightarrow> (char \<times> bytes) list" where
  "packed_tag L n v =
     (if n = ''e'' \<or> n = ''p'' then (case from_hex L v of Inl _ \<Rightarrow> [] | Inr b \<Rightarrow> [(n ! 0, b)])
      else if length n = 1 \<and> length v \<le> 255 then [(n ! 0, v)] else [])"

definition packed_tags :: "libs \<Rightarrow> json \<Rightarrow> (char \<times> bytes) list" where
  "packed_tags L t = (case json_tag t of None \<Rightarrow> [] | Some (n, v) \<Rightarrow> packed_tag L n v)"

definition fixed_tags :: "(char \<times> bytes) list \<Rightarrow> bool" where
  "fixed_tags ts \<longleftrightarrow> (\<forall>(n, v) \<in> set ts. n \<in> {CHR ''e'', CHR ''p''} \<longrightarrow> length v = 32)"

text \<open>The documented behaviour of the hex decoder: two digits for a byte.\<close>

definition hex_ok :: "libs \<Rightarrow> bool" where
  "hex_ok L \<longleftrightarrow> (\<forall>s b. from_hex L s = Inr b \<longrightarrow> length s = 2 * length b)"

text \<open>The values of the \<open>expiration\<close> tags, in order.\<close>

fun expirations :: "json list \<Rightarrow> u64 list" where
  "expirations [] = []"
| "expirations (t # ts) =
     (case json_tag t of
        None \<Rightarrow> expirations ts
      | Some (n, v) \<Rightarrow>
          (if n = ''expiration'' then [of_nat (digits_value v)] else []) @ expirations ts)"

definition first_or_zero :: "u64 list \<Rightarrow> u64" where
  "first_or_zero xs = (case xs of [] \<Rightarrow> 0 | x # _ \<Rightarrow> x)"

lemma tag_fields_Inr: "tag_fields t = Inr (n, v) \<Longrightarrow> json_tag t = Some (n, v)"
proof -
  assume "tag_fields t = Inr (n, v)"
  then obtain tag where t: "t = JArray tag" "tag \<noteq> []" "tag ! 0 = JString n"
    and v: "if length tag \<ge> 2 then tag ! 1 = JString v else v = ''''"
    by (auto simp: tag_fields_def split: if_splits)
  then obtain rest where "tag = JString n # rest"
    by (cases tag) auto
  with v show ?thesis
    by (cases rest) (auto simp: t)
qed

lemma single_fixed: "length n = 1 \<Longrightarrow> n \<noteq> ''e'' \<Longrightarrow> n \<noteq> ''p'' \<Longrightarrow> n ! 0 \<notin> {CHR ''e'', CHR ''p''}"
  by (cases n) auto

lemma add_tag_Inr:
  assumes "add_tag L cfg n v (enc_tags ts, x) = Inr (buf, y)"
  shows "buf = enc_tags (ts @ packed_tag L n v) \<and> (\<forall>(n, v) \<in> set (packed_tag L n v). length v \<le> 255) \<and>
    (if n = ''expiration'' \<and> x = 0 then parseUint64 v = Inr y \<and> 100 \<le> y else y = x) \<and>
    (hex_ok L \<longrightarrow> fixed_tags (packed_tag L n v))"
proof -
  consider (fixed) "n = ''e'' \<or> n = ''p''" | (exp) "n = ''expiration''"
    | (single) "n \<noteq> ''e''" "n \<noteq> ''p''" "length n = 1"
    | (other) "n \<noteq> ''e''" "n \<noteq> ''p''" "n \<noteq> ''expiration''" "length n \<noteq> 1"
    by blast
  then show ?thesis
  proof cases
    case fixed
    then obtain b where b: "from_hex L v = Inr b" "length v = 64" "tag_add (enc_tags ts) (n ! 0) b = Inr buf" "y = x"
      using assms by (auto simp: add_tag_def split: if_splits)
    have "hex_ok L \<Longrightarrow> length b = 32"
      using b(1,2) by (fastforce simp: hex_ok_def)
    with fixed b show ?thesis
      by (auto simp: packed_tag_def tag_add_eq_Inr fixed_tags_def)
  next
    case exp
    then show ?thesis
      using assms by (auto simp: add_tag_def packed_tag_def fixed_tags_def not_less split: if_splits)
  next
    case single
    then have "n \<noteq> ''expiration''" by auto
    with single assms have "y = x"
      and "(if length v \<le> 255 then tag_add (enc_tags ts) (n ! 0) v = Inr buf else buf = enc_tags ts)"
      by (simp_all add: add_tag_def split: if_splits)
    with single \<open>n \<noteq> ''expiration''\<close> single_fixed [of n] show ?thesis
      by (auto simp: packed_tag_def tag_add_eq_Inr fixed_tags_def)
  next
    case other
    then show ?thesis
      using assms by (simp add: add_tag_def packed_tag_def fixed_tags_def)
  qed
qed

lemma parseUint64_Inr: "parseUint64 s = Inr y \<longleftrightarrow>
  list_all digitChar s \<and> s \<noteq> [] \<and> digits_value s < 2 ^ 64 \<and> y = of_nat (digits_value s)"
  by (auto simp: parseUint64_def)

lemma parse_tags_fold:
  assumes "rfold (parse_tag L cfg) jts (enc_tags ts, x) = Inr (buf, y)"
  shows "buf = enc_tags (ts @ concat (map (packed_tags L) jts)) \<and>
    (\<forall>(n, v) \<in> set (concat (map (packed_tags L) jts)). length v \<le> 255) \<and>
    y = (if x = 0 then first_or_zero (expirations jts) else x) \<and> (y = x \<or> 100 \<le> y) \<and>
    (hex_ok L \<longrightarrow> fixed_tags (concat (map (packed_tags L) jts)))"
  using assms
proof (induction jts arbitrary: ts x)
  case Nil
  then show ?case by (simp add: first_or_zero_def fixed_tags_def)
next
  case (Cons t jts)
  from Cons.prems obtain n v b1 x1 where t: "tag_fields t = Inr (n, v)"
    and 1: "add_tag L cfg n v (enc_tags ts, x) = Inr (b1, x1)"
    and rest: "rfold (parse_tag L cfg) jts (b1, x1) = Inr (buf, y)"
    by (auto simp: parse_tag_def [of L cfg t])
  note jt = tag_fields_Inr [OF t]
  note step = add_tag_Inr [OF 1]
  have pt: "packed_tags L t = packed_tag L n v"
    by (simp add: packed_tags_def jt)
  have ex: "expirations (t # jts) = (if n = ''expiration'' then [of_nat (digits_value v)] else []) @ expirations jts"
    by (simp add: jt)
  have IH: "buf = enc_tags ((ts @ packed_tag L n v) @ concat (map (packed_tags L) jts)) \<and>
      (\<forall>(n, v) \<in> set (concat (map (packed_tags L) jts)). length v \<le> 255) \<and>
      y = (if x1 = 0 then first_or_zero (expirations jts) else x1) \<and> (y = x1 \<or> 100 \<le> y) \<and>
      (hex_ok L \<longrightarrow> fixed_tags (concat (map (packed_tags L) jts)))"
    by (rule Cons.IH) (use rest step in simp)
  have "(100 :: u64) \<le> x1 \<Longrightarrow> x1 \<noteq> 0" by auto
  with IH step show ?case
    unfolding ex by (auto simp: pt parseUint64_Inr first_or_zero_def fixed_tags_def split: if_splits)
qed

text \<open>The indexed tags of an event of a kind: its own, with the virtual \<open>d\<close> tags.\<close>

definition all_tags :: "libs \<Rightarrow> u64 \<Rightarrow> json list \<Rightarrow> (char \<times> bytes) list" where
  "all_tags L kind tags = (if isReplaceable kind then [(CHR ''d'', '''')] else []) @
     concat (map (packed_tags L) tags) @ (if isParamReplaceable kind then [(CHR ''d'', '''')] else [])"

lemma tag_add_d: "tag_add (enc_tags ts) (CHR ''d'') '''' = Inr (enc_tags (ts @ [(CHR ''d'', '''')]))"
  by (simp add: tag_add_eq_Inr)

lemma event_fields_Inr:
  "event_fields L (JObject ms) = Inr (eid, pubkey, created, kind) \<Longrightarrow>
   length eid = 32 \<and> length pubkey = 32 \<and>
   (\<exists>ids. map_of ms ''id'' = Some (JString ids) \<and> from_hex L ids = Inr eid) \<and>
   (\<exists>pks. map_of ms ''pubkey'' = Some (JString pks) \<and> from_hex L pks = Inr pubkey) \<and>
   map_of ms ''created_at'' = Some (JUnsigned created) \<and> map_of ms ''kind'' = Some (JUnsigned kind)"
  by (auto simp: event_fields_def split: if_splits)

lemma event_tags_Inr:
  assumes "event_tags L cfg (JObject ms) kind = Inr (buf, x)"
  obtains tags where "map_of ms ''tags'' = Some (JArray tags)" and "length tags \<le> unat (events_maxNumTags cfg)"
    and "buf = enc_tags (all_tags L kind tags)" and "\<forall>(n, v) \<in> set (all_tags L kind tags). length v \<le> 255"
    and "x = (if isEphemeral kind then 1 else first_or_zero (expirations tags))"
    and "x \<in> {0, 1} \<or> 100 \<le> x" and "hex_ok L \<longrightarrow> fixed_tags (all_tags L kind tags)"
proof -
  from assms obtain tags buf0 buf1 y
    where tags: "map_of ms ''tags'' = Some (JArray tags)" "\<not> exceeds (length tags) (events_maxNumTags cfg)"
      and b0: "(if isReplaceable kind then tag_add [] (CHR ''d'') '''' else Inr []) = Inr buf0"
      and b1: "rfold (parse_tag L cfg) tags (buf0, 0) = Inr (buf1, y)"
      and b2: "(if isParamReplaceable kind then tag_add buf1 (CHR ''d'') '''' else Inr buf1) = Inr buf"
      and x: "x = (if isEphemeral kind then 1 else y)"
    unfolding event_tags_def by (auto simp del: rbind_if split: if_split_asm prod.splits)
  let ?ts = "concat (map (packed_tags L) tags)"
  let ?pre = "if isReplaceable kind then [(CHR ''d'', '''')] else []"
  have buf0: "buf0 = enc_tags ?pre"
    using b0 tag_add_d [of "[]"] by (auto split: if_splits)
  note fold = parse_tags_fold [OF b1 [unfolded buf0]]
  have "buf = enc_tags (all_tags L kind tags)"
    using fold b2 tag_add_d [of "?pre @ ?ts"] by (auto simp: all_tags_def split: if_splits)
  moreover have "\<forall>(n, v) \<in> set (all_tags L kind tags). length v \<le> 255"
    and "hex_ok L \<longrightarrow> fixed_tags (all_tags L kind tags)"
    using fold by (auto simp: all_tags_def fixed_tags_def)
  ultimately show ?thesis
    using that tags x fold by (auto simp: not_less)
qed

lemma nostrJsonToPackedEvent_object: "nostrJsonToPackedEvent L cfg v = Inr p \<Longrightarrow> \<exists>ms. v = JObject ms"
  by (auto simp: nostrJsonToPackedEvent_def event_fields_def)

text \<open>The packed event \<open>e\<close> is what the members \<open>ms\<close> of the JSON object say.\<close>

definition packed_from :: "libs \<Rightarrow> (string \<times> json) list \<Rightarrow> event \<Rightarrow> bool" where
  "packed_from L ms e \<longleftrightarrow>
     (\<exists>ids. map_of ms ''id'' = Some (JString ids) \<and> from_hex L ids = Inr (ev_id e)) \<and>
     (\<exists>pks. map_of ms ''pubkey'' = Some (JString pks) \<and> from_hex L pks = Inr (ev_pubkey e)) \<and>
     map_of ms ''created_at'' = Some (JUnsigned (ev_created_at e)) \<and>
     map_of ms ''kind'' = Some (JUnsigned (ev_kind e)) \<and>
     (\<exists>tags. map_of ms ''tags'' = Some (JArray tags) \<and> ev_tags e = all_tags L (ev_kind e) tags \<and>
       ev_expiration e = (if isEphemeral (ev_kind e) then 1 else first_or_zero (expirations tags)))"

lemma nostrJsonToPackedEvent_Inr:
  assumes "nostrJsonToPackedEvent L cfg (JObject ms) = Inr p"
  shows "\<exists>e. wf_event e \<and> p = pack e \<and> packed_from L ms e \<and> (hex_ok L \<longrightarrow> fixed_tags (ev_tags e)) \<and>
    (ev_expiration e \<in> {0, 1} \<or> 100 \<le> ev_expiration e)"
proof -
  from assms obtain eid pubkey created kind buf x
    where f: "event_fields L (JObject ms) = Inr (eid, pubkey, created, kind)"
      and t: "event_tags L cfg (JObject ms) kind = Inr (buf, x)"
      and p: "PackedEventBuilder eid pubkey created kind x buf = Inr p"
    by (auto simp: nostrJsonToPackedEvent_def)
  note fields = event_fields_Inr [OF f]
  from event_tags_Inr [OF t] obtain tags where tags: "map_of ms ''tags'' = Some (JArray tags)"
    "buf = enc_tags (all_tags L kind tags)" "\<forall>(n, v) \<in> set (all_tags L kind tags). length v \<le> 255"
    "x = (if isEphemeral kind then 1 else first_or_zero (expirations tags))"
    "x \<in> {0, 1} \<or> 100 \<le> x" "hex_ok L \<longrightarrow> fixed_tags (all_tags L kind tags)"
    by metis
  let ?e = "\<lparr>ev_id = eid, ev_pubkey = pubkey, ev_created_at = created, ev_kind = kind,
    ev_expiration = x, ev_tags = all_tags L kind tags\<rparr>"
  have "wf_event ?e" using fields tags(3) by (simp add: wf_event_def)
  moreover have "p = pack ?e"
    using p fields tags(2) by (simp add: PackedEventBuilder_def pack_def)
  moreover have "packed_from L ms ?e"
    using fields tags(1,4) by (simp add: packed_from_def)
  ultimately show ?thesis
    using tags(5,6) by (intro exI [of _ ?e]) simp
qed

lemma parseAndVerifyEvent_Inr:
  assumes "parseAndVerifyEvent L cfg now v verifyMsg verifyTime = Inr (p, j)"
  shows "nostrJsonToPackedEvent L cfg v = Inr p" and "verifyTime \<Longrightarrow> verifyEventTimestamp cfg now p = Inr ()"
    and "verifyMsg \<Longrightarrow> verifyNostrEvent L p v = Inr ()"
    and "verifyMsg \<Longrightarrow> length j \<le> unat (events_maxEventSize cfg)"
  using assms
  by (auto simp: parseAndVerifyEvent_def PackedEventView_def verifyNostrEventJsonSize_def Let_def split: if_splits)

section \<open>The time window\<close>

lemma earliest_unat:
  "unat (if (now :: u64) - d > now then 0 else now - d) = unat now - unat d"
proof (cases "d \<le> now")
  case True
  then have "unat (now - d) = unat now - unat d" by (rule unat_sub)
  with True show ?thesis by (simp add: word_less_nat_alt)
next
  case False
  then have "unat now < unat d" by (simp add: word_less_nat_alt not_le)
  moreover have "now - d > now"
    using False by (metis not_le not_less_iff_gr_or_eq diff_add_cancel word_sub_le_iff add_cancel_right_left)
  ultimately show ?thesis by simp
qed

lemma latest_overflow: "(now :: u64) + d < now \<longleftrightarrow> 2 ^ 64 \<le> unat now + unat d"
proof -
  have "unat (now + d) = (if unat now + unat d < 2 ^ 64 then unat now + unat d else unat now + unat d - 2 ^ 64)"
    by (simp add: unat_plus_if')
  moreover have "unat d < 2 ^ 64" using unsigned_less [of d] by simp
  moreover have "unat now < 2 ^ 64" using unsigned_less [of now] by simp
  ultimately show ?thesis by (auto simp: word_less_nat_alt)
qed

lemma latest_unat: "\<not> (now :: u64) + d < now \<Longrightarrow> unat (now + d) = unat now + unat d"
  unfolding latest_overflow by (simp add: unat_plus_if')

lemma not_above_max1: "\<not> MAX_U64 - 1 < (ts :: u64) \<longleftrightarrow> ts \<noteq> MAX_U64"
proof -
  have "unat (MAX_U64 - 1 :: u64) = 18446744073709551614" "unat (MAX_U64 :: u64) = 18446744073709551615"
    by (simp_all add: unsigned_minus_1_eq_mask mask_eq_exp_minus_1)
  moreover have "unat ts < 2 ^ 64" using unsigned_less [of ts] by simp
  ultimately show ?thesis unfolding word_less_nat_alt word_unat_eq_iff by auto
qed

text \<open>The window an event has to fall into, in unbounded arithmetic.\<close>

definition in_window :: "cfg \<Rightarrow> nat \<Rightarrow> event \<Rightarrow> bool" where
  "in_window cfg now e \<longleftrightarrow>
     (let old = unat (if ev_expiration e = 1 then events_rejectEphemeralEventsOlderThanSeconds cfg
                      else events_rejectEventsOlderThanSeconds cfg);
          new = unat (events_rejectEventsNewerThanSeconds cfg)
      in now \<le> unat (ev_created_at e) + old \<and> unat (ev_created_at e) \<le> now + new \<and>
         (2 ^ 64 \<le> now + new \<longrightarrow> ev_created_at e \<noteq> MAX_U64) \<and>
         \<not> (1 < unat (ev_expiration e) \<and> unat (ev_expiration e) \<le> now))"

lemma verifyEventTimestamp_pack:
  assumes "wf_event e"
  shows "verifyEventTimestamp cfg now (pack e) = Inr () \<longleftrightarrow> in_window cfg (unat now) e"
proof -
  let ?d = "if ev_expiration e = 1 then events_rejectEphemeralEventsOlderThanSeconds cfg
     else events_rejectEventsOlderThanSeconds cfg"
  let ?n = "events_rejectEventsNewerThanSeconds cfg" and ?ts = "ev_created_at e"
  let ?earliest = "if now - ?d > now then 0 else now - ?d"
  let ?latest = "if now + ?n < now then MAX_U64 - 1 else now + ?n"
  have low: "\<not> ?ts < ?earliest \<longleftrightarrow> unat now \<le> unat ?ts + unat ?d"
    unfolding word_less_nat_alt [of ?ts] earliest_unat by auto
  have high: "\<not> ?ts > ?latest \<longleftrightarrow>
      unat ?ts \<le> unat now + unat ?n \<and> (2 ^ 64 \<le> unat now + unat ?n \<longrightarrow> ?ts \<noteq> MAX_U64)"
  proof (cases "now + ?n < now")
    case True
    have "unat ?ts < 2 ^ 64" using unsigned_less [of ?ts] by simp
    moreover note not_above_max1 [of ?ts]
    ultimately show ?thesis
      using True latest_overflow [of now ?n] by auto
  next
    case False
    then show ?thesis
      using latest_overflow [of now ?n] latest_unat [OF False] by (auto simp: word_less_nat_alt)
  qed
  have exp: "ev_expiration e > 1 \<and> ev_expiration e \<le> now \<longleftrightarrow>
      1 < unat (ev_expiration e) \<and> unat (ev_expiration e) \<le> unat now"
    by (simp add: word_less_nat_alt word_le_nat_alt)
  have "verifyEventTimestamp cfg now (pack e) = Inr () \<longleftrightarrow>
      \<not> ?ts < ?earliest \<and> \<not> ?ts > ?latest \<and> \<not> (ev_expiration e > 1 \<and> ev_expiration e \<le> now)"
    using assms by (simp add: verifyEventTimestamp_def packed_simps Let_def)
  then show ?thesis
    unfolding low high exp by (simp add: in_window_def Let_def)
qed

section \<open>Properties\<close>

text \<open>Library functions for the witnesses: a hex decoder, and a hash and a signature scheme that
  accept one fixed id.\<close>

definition hex_digit :: "char \<Rightarrow> nat result" where
  "hex_digit c =
     (if CHR ''0'' \<le> c \<and> c \<le> CHR ''9'' then Inr (of_char c - 48)
      else if CHR ''a'' \<le> c \<and> c \<le> CHR ''f'' then Inr (of_char c - 87)
      else Inl (Herr ''unexpected character in from_hex''))"

fun hex_decode :: "string \<Rightarrow> bytes result" where
  "hex_decode [] = Inr []"
| "hex_decode [c] = Inl (Herr ''odd length to from_hex'')"
| "hex_decode (a # b # cs) =
     rbind (hex_digit a) (\<lambda>h. rbind (hex_digit b) (\<lambda>l.
       rbind (hex_decode cs) (\<lambda>bs. Inr (char_of (16 * h + l) # bs))))"

definition hex_char :: "nat \<Rightarrow> char" where
  "hex_char n = char_of (if n < 10 then 48 + n else 87 + n)"

definition hex_encode :: "bytes \<Rightarrow> string" where
  "hex_encode s = concat (map (\<lambda>c. [hex_char (of_char c div 16), hex_char (of_char c mod 16)]) s)"

definition sample_libs :: libs where
  "sample_libs = \<lparr>from_hex = hex_decode, to_hex = hex_encode,
     json_from_string = (\<lambda>s. if s = ''{}'' then Inr (JObject []) else Inl (Herr ''parse error'')),
     json_to_string = (\<lambda>_. ''{}''), SHA256 = (\<lambda>_. replicate 32 (CHR 0x00)),
     xonly_pubkey_parse = (\<lambda>_. True), schnorrsig_verify = (\<lambda>_ _ _. True)\<rparr>"

lemma hex_decode_length: "hex_decode s = Inr b \<Longrightarrow> length s = 2 * length b"
  by (induction s arbitrary: b rule: hex_decode.induct) auto

lemma hex_ok_sample [simp]: "hex_ok sample_libs"
  by (simp add: hex_ok_def sample_libs_def hex_decode_length)

definition sample_json :: json where
  "sample_json = JObject [(''content'', JString ''hello''), (''created_at'', JUnsigned 1000),
     (''id'', JString (replicate 64 (CHR ''0''))), (''kind'', JUnsigned 30001),
     (''pubkey'', JString (replicate 64 (CHR ''1''))), (''sig'', JString (replicate 128 (CHR ''2''))),
     (''tags'', JArray [JArray [JString ''d'', JString ''x''], JArray [JString ''expiration'', JString ''5000'']])]"


lemma sample_hex:
  "hex_decode (replicate 64 (CHR ''0'')) = Inr (replicate 32 (CHR 0x00))"
  "hex_decode (replicate 64 (CHR ''1'')) = Inr (replicate 32 (CHR 0x11))"
  "hex_decode (replicate 128 (CHR ''2'')) = Inr (replicate 64 (CHR 0x22))"
  by code_simp+

lemma sample_number: "parseUint64 ''5000'' = Inr 5000"
  by (simp add: parseUint64_def digits_value_def digitChar_def)

definition sample_ev :: event where
  "sample_ev = \<lparr>ev_id = replicate 32 (CHR 0x00), ev_pubkey = replicate 32 (CHR 0x11),
     ev_created_at = 1000, ev_kind = 30001, ev_expiration = 5000, ev_tags = [(CHR ''d'', ''x''), (CHR ''d'', '''')]\<rparr>"

definition sample_packed :: bytes where
  "sample_packed = pack sample_ev"

lemma sample_fields: "event_fields sample_libs sample_json = Inr (replicate 32 (CHR 0x00), replicate 32 (CHR 0x11), 1000, 30001)"
  by (simp add: event_fields_def sample_libs_def sample_json_def sample_hex jsonGetString_def jsonGetUnsigned_def jsonGetArray_def )

lemma sample_tags: "event_tags sample_libs default_cfg sample_json 30001 = Inr (enc_tags [(CHR ''d'', ''x''), (CHR ''d'', '''')], 5000)"
  by (simp add: event_tags_def sample_libs_def sample_json_def default_cfg_def sample_number parse_tag_def tag_fields_def add_tag_def
   isReplaceable_def isParamReplaceable_def isEphemeral_def jsonGetString_def jsonGetUnsigned_def jsonGetArray_def
   tag_add_def)

lemma sample_wf: "wf_event sample_ev"
  by (simp add: wf_event_def sample_ev_def)

lemma sample_packs: "nostrJsonToPackedEvent sample_libs default_cfg sample_json = Inr sample_packed"
  by (simp add: nostrJsonToPackedEvent_def sample_fields sample_tags PackedEventBuilder_def sample_packed_def sample_ev_def pack_def)

lemma sample_time: "verifyEventTimestamp default_cfg 1010 sample_packed = Inr ()"
  unfolding sample_packed_def verifyEventTimestamp_pack [OF sample_wf]
  by (simp add: in_window_def default_cfg_def sample_ev_def)

lemma sample_accessors: "pv_id sample_packed = replicate 32 (CHR 0x00)" "pv_pubkey sample_packed = replicate 32 (CHR 0x11)"
  unfolding sample_packed_def packed_simps [OF sample_wf] by (simp_all add: sample_ev_def)

lemma sample_verifies: "verifyNostrEvent sample_libs sample_packed sample_json = Inr ()"
  by (simp add: verifyNostrEvent_def sample_accessors sample_hex nostrHash_def sample_libs_def
     sample_json_def mkBytes32_def verifySig_def jsonGetString_def)

lemma sample_parses:
  "parseAndVerifyEvent sample_libs default_cfg 1010 sample_json True True = Inr (sample_packed, ''{}'')"
proof -
  have "PackedEventView sample_packed = Inr sample_packed"
    unfolding sample_packed_def by (rule PackedEventView_pack [OF sample_wf])
  then show ?thesis
    by (simp add: parseAndVerifyEvent_def sample_packs sample_time sample_verifies)
      (simp add: sample_json_def sample_libs_def verifyNostrEventJsonSize_def default_cfg_def)
qed

text \<open>C24: The packed form of an accepted event is a well-formed record of what the JSON says: id,
  author, time and kind are the decoded fields, the tags are the indexable tags of the event with
  the virtual \<open>d\<close> tag of its kind, and the expiration is 1 for an ephemeral kind and the first
  expiration tag otherwise.\<close>

theorem parse_packs_fields:
  assumes "parseAndVerifyEvent L cfg now v verifyMsg verifyTime = Inr (p, j)"
  shows "\<exists>ms e. v = JObject ms \<and> wf_event e \<and> p = pack e \<and> packed_from L ms e"
proof -
  have p: "nostrJsonToPackedEvent L cfg v = Inr p"
    by (rule parseAndVerifyEvent_Inr(1) [OF assms])
  then obtain ms where "v = JObject ms"
    using nostrJsonToPackedEvent_object by blast
  with nostrJsonToPackedEvent_Inr [of L cfg ms p] p show ?thesis
    by blast
qed

theorem parse_packs_fields_witness:
  "\<exists>p j ms e. parseAndVerifyEvent sample_libs default_cfg 1010 sample_json True True = Inr (p, j) \<and>
     sample_json = JObject ms \<and> wf_event e \<and> p = pack e \<and> packed_from sample_libs ms e"
  using sample_parses parse_packs_fields by blast

text \<open>C29: The timestamp check accepts an event exactly when it lies in the configured window
  around the clock and has not expired; the wrap-around of the 64-bit sums never moves the
  window.\<close>

theorem timestamp_window:
  "verifyEventTimestamp cfg now (pack e) = Inr () \<longleftrightarrow> in_window cfg (unat now) e" if "wf_event e"
  using that by (rule verifyEventTimestamp_pack)

theorem timestamp_window_witness:
  "wf_event \<lparr>ev_id = replicate 32 (CHR ''a''), ev_pubkey = replicate 32 (CHR ''b''), ev_created_at = 5,
      ev_kind = 1, ev_expiration = 0, ev_tags = []\<rparr> \<and>
   verifyEventTimestamp default_cfg 10 (pack \<lparr>ev_id = replicate 32 (CHR ''a''), ev_pubkey = replicate 32 (CHR ''b''),
      ev_created_at = 5, ev_kind = 1, ev_expiration = 0, ev_tags = []\<rparr>) = Inr ()"
proof -
  let ?e = "\<lparr>ev_id = replicate 32 (CHR ''a''), ev_pubkey = replicate 32 (CHR ''b''), ev_created_at = 5,
      ev_kind = 1, ev_expiration = 0, ev_tags = []\<rparr>"
  have wf: "wf_event ?e" by (simp add: wf_event_def)
  have "in_window default_cfg (unat (10 :: u64)) ?e"
    by (simp add: in_window_def default_cfg_def)
  with wf timestamp_window [OF wf, of default_cfg 10] show ?thesis by simp
qed

text \<open>C6: An event that passes verification has the SHA-256 hash of its canonical serialisation as
  its id and a valid signature of that id by its author, and its normalised JSON is within the
  size limit.\<close>

theorem verified_event_authentic:
  assumes "parseAndVerifyEvent L cfg now (JObject ms) True verifyTime = Inr (p, j)"
  shows "\<exists>pubkey created_at kind tags content sigs sig.
    map_of ms ''pubkey'' = Some pubkey \<and> map_of ms ''created_at'' = Some created_at \<and>
    map_of ms ''kind'' = Some kind \<and> map_of ms ''tags'' = Some tags \<and> map_of ms ''content'' = Some content \<and>
    pv_id p = SHA256 L (json_to_string L (JArray [JUnsigned 0, pubkey, created_at, kind, tags, content])) \<and>
    map_of ms ''sig'' = Some (JString sigs) \<and> from_hex L sigs = Inr sig \<and> length sig = 64 \<and>
    xonly_pubkey_parse L (pv_pubkey p) \<and> schnorrsig_verify L sig (pv_id p) (pv_pubkey p) \<and>
    length j \<le> unat (events_maxEventSize cfg)"
  using parseAndVerifyEvent_Inr(3) [OF assms] parseAndVerifyEvent_Inr(4) [OF assms]
  by (auto simp: verifyNostrEvent_def nostrHash_def verifySig_def split: if_splits)

theorem verified_event_authentic_witness:
  "\<exists>p j ms. sample_json = JObject ms \<and>
     parseAndVerifyEvent sample_libs default_cfg 1010 (JObject ms) True True = Inr (p, j) \<and>
     length j \<le> unat (events_maxEventSize default_cfg)"
proof -
  obtain ms where ms: "sample_json = JObject ms" by (simp add: sample_json_def)
  obtain p j where pj: "parseAndVerifyEvent sample_libs default_cfg 1010 (JObject ms) True True = Inr (p, j)"
    using sample_parses ms by auto
  from verified_event_authentic [OF this] ms pj show ?thesis by blast
qed

end
