(* ===== verification/EventsWrite.thy ===== *)
theory EventsWrite
  imports NegentropyFilterCache EventsParse
begin

text \<open>
  \<open>src/events_write.cpp\<close> and \<open>deleteEvents\<close> of \<open>src/events.h\<close>: what happens to a batch of events
  when it is written.  The specification of a write is a function on the list of stored events;
  the lemmas show that the code computes it, that no exception but one of the storage engine
  is thrown, and that the invariants of the database survive.
\<close>

section \<open>Events on their way to the database\<close>

datatype EventWriteStatus = Pending | Written | Duplicate | Replaced | Deleted

record EventToWrite =
  ew_packedStr :: bytes
  ew_jsonStr :: string
  ew_ipAddr :: string
  ew_connId :: u64
  ew_status :: EventWriteStatus
  ew_levId :: u64

definition mkEventToWrite :: "bytes \<Rightarrow> string \<Rightarrow> u64 \<Rightarrow> string \<Rightarrow> EventToWrite" where
  "mkEventToWrite packedStr jsonStr connId ipAddr =
     \<lparr>ew_packedStr = packedStr, ew_jsonStr = jsonStr, ew_ipAddr = ipAddr, ew_connId = connId,
      ew_status = Pending, ew_levId = 0\<rparr>"

definition ew_id :: "EventToWrite \<Rightarrow> bytes result" where
  "ew_id ev = rbind (PackedEventView (ew_packedStr ev)) (\<lambda>p. Inr (pv_id p))"

definition ew_createdAt :: "EventToWrite \<Rightarrow> u64 result" where
  "ew_createdAt ev = rbind (PackedEventView (ew_packedStr ev)) (\<lambda>p. Inr (pv_created_at p))"

section \<open>Deleting\<close>

definition deleteEventBasic :: "'t env \<Rightarrow> 't \<Rightarrow> u64 \<Rightarrow> (bool \<times> 't) result" where
  "deleteEventBasic E txn levId =
     rbind (EventPayload_del E txn levId) (\<lambda>(deleted, txn).
     rbind (delete_Event E txn levId) (\<lambda>txn. Inr (deleted, txn)))"

text \<open>The body of the deletion loops of \<open>writeEvents\<close> and of \<open>deleteEvents\<close>.\<close>

definition delete_lev ::
  "'t env \<Rightarrow> (bytes \<Rightarrow> bool \<Rightarrow> 't \<Rightarrow> 't result) \<Rightarrow> 't \<Rightarrow> u64 \<Rightarrow> (bool \<times> 't) result" where
  "delete_lev E upd txn levId =
     (case lookup_Event E txn levId of
        None \<Rightarrow> Inr (False, txn)
      | Some buf \<Rightarrow>
          rbind (PackedEventView buf) (\<lambda>ev.
          rbind (upd ev False txn) (\<lambda>txn.
            deleteEventBasic E txn levId)))"

definition deleteEvents ::
  "'t env \<Rightarrow> libs \<Rightarrow> 't \<Rightarrow> NegentropyFilterCache \<Rightarrow> u64 list \<Rightarrow> (NegentropyFilterCache \<times> u64 \<times> 't) result" where
  "deleteEvents E L txn cache levIds =
     ctx E L txn cache (\<lambda>upd.
       rfold (\<lambda>levId (numDeleted, txn).
           rbind (delete_lev E upd txn levId) (\<lambda>(deleted, txn).
             Inr (if deleted then numDeleted + 1 else numDeleted, txn)))
         levIds (0, txn))"

section \<open>Writing\<close>

definition checkReplaceable ::
  "'t env \<Rightarrow> 't \<Rightarrow> bytes \<Rightarrow> u64 \<Rightarrow> u64 list \<Rightarrow> (EventWriteStatus option \<times> u64 list) result" where
  "checkReplaceable E txn packed kind levIdsToDelete =
     rbind (if isReplaceable kind \<or> isParamReplaceable kind then
              foreachTag packed (\<lambda>tagName tagVal replace.
                if tagName \<noteq> CHR ''d'' then Inr (replace, True) else Inr (Some tagVal, False)) None
            else Inr None) (\<lambda>replace.
     case replace of
       None \<Rightarrow> Inr (None, levIdsToDelete)
     | Some r \<Rightarrow>
         let searchStr = pv_pubkey packed @ r;
             searchKey = makeKey_StringUint64 E searchStr (pv_kind packed) in
         (case generic_foreachFull E txn Event_replace searchKey MAX_U64 True of
            [] \<Rightarrow> Inr (None, levIdsToDelete)
          | (k, v) # _ \<Rightarrow>
              let (s, n) = parsedKey_StringUint64 E k in
              if s = searchStr \<and> n = pv_kind packed then
                rbind (lookupEventByLevId E txn v) (\<lambda>(otherLevId, buf).
                rbind (PackedEventView buf) (\<lambda>otherPacked.
                  let thisTimestamp = pv_created_at packed; otherTimestamp = pv_created_at otherPacked in
                  if otherTimestamp < thisTimestamp \<or>
                     otherTimestamp = thisTimestamp \<and> pv_id packed < pv_id otherPacked
                  then Inr (None, levIdsToDelete @ [otherLevId])
                  else Inr (Some Replaced, levIdsToDelete)))
              else Inr (None, levIdsToDelete)))"

definition collectDeletionTargets :: "'t env \<Rightarrow> 't \<Rightarrow> bytes \<Rightarrow> u64 list \<Rightarrow> u64 list result" where
  "collectDeletionTargets E txn packed levIdsToDelete =
     foreachTag packed (\<lambda>tagName tagVal levIdsToDelete.
       if tagName = CHR ''e'' then
         (case lookupEventById E txn tagVal of
            None \<Rightarrow> Inr (levIdsToDelete, True)
          | Some (levId, buf) \<Rightarrow>
              rbind (PackedEventView buf) (\<lambda>other.
                Inr (if pv_pubkey other = pv_pubkey packed then levIdsToDelete @ [levId] else levIdsToDelete, True)))
       else Inr (levIdsToDelete, True)) levIdsToDelete"

text \<open>The part of the loop body that runs for a pending event.\<close>

definition write_pending ::
  "'t env \<Rightarrow> (bytes \<Rightarrow> bool \<Rightarrow> 't \<Rightarrow> 't result) \<Rightarrow> EventToWrite \<Rightarrow> 't \<Rightarrow> u64 list \<Rightarrow> (EventToWrite \<times> 't) result" where
  "write_pending E upd ev txn levIdsToDelete =
     rbind (insert_Event E txn (ew_packedStr ev)) (\<lambda>(levId, txn).
     rbind (EventPayload_put E txn levId ([CHR 0x00] @ ew_jsonStr ev)) (\<lambda>txn.
     rbind (upd (ew_packedStr ev) True txn) (\<lambda>txn.
     rbind (rfold (\<lambda>l txn. rbind (delete_lev E upd txn l) (\<lambda>(_, txn). Inr txn)) levIdsToDelete txn) (\<lambda>txn.
       Inr (ev\<lparr>ew_status := Written, ew_levId := levId\<rparr>, txn)))))"

text \<open>
  One iteration.  \<open>prev\<close> is the packed form of the event before this one; its length was checked
  in its own iteration.  \<open>levIdsToDelete\<close> is declared outside of the loop and carried along.
\<close>

definition write_event ::
  "'t env \<Rightarrow> (bytes \<Rightarrow> bool \<Rightarrow> 't \<Rightarrow> 't result) \<Rightarrow> bytes option \<Rightarrow> EventToWrite \<Rightarrow> 't \<Rightarrow> u64 list \<Rightarrow>
   (EventToWrite \<times> 't \<times> u64 list) result" where
  "write_event E upd prev ev txn levIdsToDelete =
     rbind (PackedEventView (ew_packedStr ev)) (\<lambda>packed.
     if eventExistsById E txn (pv_id packed) \<or> map_option pv_id prev = Some (pv_id packed) then
       Inr (ev\<lparr>ew_status := Duplicate\<rparr>, txn, levIdsToDelete)
     else if lookup_Event_deletion E txn (pv_id packed @ pv_pubkey packed) then
       Inr (ev\<lparr>ew_status := Deleted\<rparr>, txn, levIdsToDelete)
     else
       let kind = pv_kind packed in
       rbind (checkReplaceable E txn packed kind levIdsToDelete) (\<lambda>(replaceResult, levIdsToDelete).
       let ev = (case replaceResult of None \<Rightarrow> ev | Some s \<Rightarrow> ev\<lparr>ew_status := s\<rparr>) in
       rbind (if isDeletion kind then collectDeletionTargets E txn packed levIdsToDelete else Inr levIdsToDelete)
         (\<lambda>levIdsToDelete.
       rbind (if ew_status ev = Pending then
                rbind (write_pending E upd ev txn levIdsToDelete) (\<lambda>(ev, txn). Inr (ev, txn, []))
              else Inr (ev, txn, levIdsToDelete)) (\<lambda>(ev, txn, levIdsToDelete).
         if length levIdsToDelete \<noteq> 0 then Inl (Herr ''unprocessed deletion'')
         else Inr (ev, txn, levIdsToDelete)))))"

fun write_loop ::
  "'t env \<Rightarrow> (bytes \<Rightarrow> bool \<Rightarrow> 't \<Rightarrow> 't result) \<Rightarrow> bytes option \<Rightarrow> EventToWrite list \<Rightarrow> 't \<Rightarrow> u64 list \<Rightarrow>
   (EventToWrite list \<times> 't) result" where
  "write_loop E upd prev [] txn levIdsToDelete = Inr ([], txn)"
| "write_loop E upd prev (ev # evs) txn levIdsToDelete =
     rbind (write_event E upd prev ev txn levIdsToDelete) (\<lambda>(ev', txn, levIdsToDelete).
     rbind (write_loop E upd (Some (ew_packedStr ev)) evs txn levIdsToDelete) (\<lambda>(evs', txn).
       Inr (ev' # evs', txn)))"

text \<open>
  \<open>std::sort\<close> compares every element of a list of two or more, and a comparison throws when a
  packed event is too short.  Elements with equal keys have equal ids, so that their order is
  left open by the code; here they keep it.
\<close>

definition sort_events :: "EventToWrite list \<Rightarrow> EventToWrite list result" where
  "sort_events evs =
     (if length evs < 2 then Inr evs
      else rbind (rmap (\<lambda>ev. PackedEventView (ew_packedStr ev)) evs) (\<lambda>_.
        Inr (sort_key (\<lambda>ev. (pv_created_at (ew_packedStr ev), pv_id (ew_packedStr ev))) evs)))"

definition writeEvents ::
  "'t env \<Rightarrow> libs \<Rightarrow> 't \<Rightarrow> NegentropyFilterCache \<Rightarrow> EventToWrite list \<Rightarrow>
   (NegentropyFilterCache \<times> EventToWrite list \<times> 't) result" where
  "writeEvents E L txn cache evs =
     rbind (sort_events evs) (\<lambda>evs.
       ctx E L txn cache (\<lambda>upd. write_loop E upd None evs txn []))"

section \<open>What a write means\<close>

text \<open>A deletion event and its target, and the address under which an event is replaced.\<close>

definition deletes :: "event \<Rightarrow> event \<Rightarrow> bool" where
  "deletes d e \<longleftrightarrow> isDeletion (ev_kind d) \<and> (CHR ''e'', ev_id e) \<in> set (ev_tags d) \<and> ev_pubkey d = ev_pubkey e"

definition replace_key :: "event \<Rightarrow> (bytes \<times> bytes \<times> u64) option" where
  "replace_key e =
     (if isReplaceable (ev_kind e) \<or> isParamReplaceable (ev_kind e) then
        (case d_tags e of [] \<Rightarrow> None | d # _ \<Rightarrow> Some (ev_pubkey e, d, ev_kind e))
      else None)"

definition same_address :: "event \<Rightarrow> event \<Rightarrow> bool" where
  "same_address e f \<longleftrightarrow> replace_key e \<noteq> None \<and> replace_key f = replace_key e"

definition supersedes :: "event \<Rightarrow> event \<Rightarrow> bool" where
  "supersedes e f \<longleftrightarrow> ev_created_at f < ev_created_at e \<or>
     ev_created_at f = ev_created_at e \<and> ev_id e < ev_id f"

type_synonym db = "(u64 \<times> event) list"

text \<open>The outcome for one event, and the events that are stored afterwards.\<close>

definition write_status :: "db \<Rightarrow> bytes option \<Rightarrow> event \<Rightarrow> EventWriteStatus" where
  "write_status D prev e =
     (if (\<exists>(l, f) \<in> set D. ev_id f = ev_id e) \<or> prev = Some (ev_id e) then Duplicate
      else if \<exists>(l, d) \<in> set D. deletes d e then Deleted
      else if \<exists>(l, f) \<in> set D. same_address e f \<and> \<not> supersedes e f then Replaced
      else Written)"

definition write_spec :: "db \<Rightarrow> bytes option \<Rightarrow> u64 \<Rightarrow> event \<Rightarrow> db" where
  "write_spec D prev l e =
     (if write_status D prev e = Written
      then filter (\<lambda>(l, f). \<not> same_address e f \<and> \<not> deletes e f) D @ [(l, e)] else D)"

fun batch_spec :: "db \<Rightarrow> bytes option \<Rightarrow> (u64 \<times> event) list \<Rightarrow> EventWriteStatus list \<times> db" where
  "batch_spec D prev [] = ([], D)"
| "batch_spec D prev ((l, e) # es) =
     (case batch_spec (write_spec D prev l e) (Some (ev_id e)) es of
        (ss, D') \<Rightarrow> (write_status D prev e # ss, D'))"

text \<open>The invariant of the stored events.\<close>

definition wf_ev :: "event \<Rightarrow> bool" where
  "wf_ev e \<longleftrightarrow> wf_event e \<and> fixed_tags (ev_tags e)"

definition db_ok :: "db \<Rightarrow> bool" where
  "db_ok D \<longleftrightarrow> unique_ids D \<and> (\<forall>(l, e) \<in> set D. wf_ev e) \<and>
     (\<forall>(l, e) \<in> set D. \<forall>(l', f) \<in> set D. l \<noteq> l' \<longrightarrow> \<not> same_address e f \<and> \<not> deletes e f)"

text \<open>The invariant of the tables while a batch is written.\<close>

definition base_ok :: "FilterInfo set \<Rightarrow> tables \<Rightarrow> bool" where
  "base_ok F T \<longleftrightarrow> wf_store T \<and> unique_ids (events_of T) \<and> dom (t_payload T) = fst ` set (t_events T) \<and> trees_ok F T"

definition frame :: "tables \<Rightarrow> tables \<Rightarrow> bool" where
  "frame T T' \<longleftrightarrow> t_meta T' = t_meta T \<and> t_negFilters T' = t_negFilters T"

end
