(* ===== verification/EventsWriteProof.thy ===== *)
theory EventsWriteProof
  imports EventsWrite
begin

text \<open>
  The proofs for \<open>EventsWrite\<close>: every step of a write meets its specification on tables that
  satisfy the invariant, first deletion, then the checks, one event, a batch.  The lemmas are
  proved for any storage engine that meets \<open>golpe_env\<close>; the properties at the end state them for
  \<open>writeEvents\<close> and \<open>deleteEvents\<close>.
\<close>

section \<open>Deleting\<close>

lemma base_okD:
  "base_ok F T \<Longrightarrow> wf_store T" "base_ok F T \<Longrightarrow> unique_ids (events_of T)"
  "base_ok F T \<Longrightarrow> dom (t_payload T) = fst ` set (t_events T)" "base_ok F T \<Longrightarrow> trees_ok F T"
  by (simp_all add: base_ok_def)

lemma frame_trans [trans]: "frame T T' \<Longrightarrow> frame T' T'' \<Longrightarrow> frame T T''"
  by (simp add: frame_def)

lemma unique_ids_filter: "unique_ids D \<Longrightarrow> unique_ids (filter P D)"
  by (simp add: unique_ids_def distinct_map_filter)

context golpe_env
begin

lemma deleteEventBasic_view:
  assumes "tables_ok (view t)" and "deleteEventBasic E t l = Inr (b, t')"
  shows "b \<longleftrightarrow> t_payload (view t) l \<noteq> None"
    and "view t' = (view t)\<lparr>t_payload := (t_payload (view t))(l := None),
      t_events := filter (\<lambda>x. fst x \<noteq> l) (t_events (view t))\<rparr>"
proof -
  from assms(2) obtain t1 where t1: "EventPayload_del E t l = Inr (b, t1)" and t': "delete_Event E t1 l = Inr t'"
    by (auto simp: deleteEventBasic_def)
  note del = payload_del [OF t1]
  then show "b \<longleftrightarrow> t_payload (view t) l \<noteq> None" by simp
  have "tables_ok (view t1)" using assms(1) del by simp
  from delete_Event [OF this t'] show "view t' = (view t)\<lparr>t_payload := (t_payload (view t))(l := None),
      t_events := filter (\<lambda>x. fst x \<noteq> l) (t_events (view t))\<rparr>"
    using del by simp
qed

lemma delete_lev_ok:
  assumes c: "wf_cache c" and ok: "base_ok (set (nc_filters c)) (view t)"
    and r: "delete_lev E (updateNegentropy E c) t l = Inr (b, t')"
  shows "base_ok (set (nc_filters c)) (view t')"
    and "events_of (view t') = filter (\<lambda>x. fst x \<noteq> l) (events_of (view t))"
    and "t_payload (view t') = (t_payload (view t))(l := None)"
    and "frame (view t) (view t')" and "b \<longleftrightarrow> l \<in> fst ` set (t_events (view t))"
proof -
  let ?F = "set (nc_filters c)"
  have wf: "wf_store (view t)" using ok by (simp add: base_ok_def)
  have "base_ok ?F (view t') \<and> events_of (view t') = filter (\<lambda>x. fst x \<noteq> l) (events_of (view t)) \<and>
    t_payload (view t') = (t_payload (view t))(l := None) \<and> frame (view t) (view t') \<and>
    (b \<longleftrightarrow> l \<in> fst ` set (t_events (view t)))"
  proof (cases "l \<in> fst ` set (t_events (view t))")
    case False
    then have "lookup_Event E t l = None"
      using wf by (simp add: lookup_Event map_of_eq_None_iff)
    then have "b = False" "t' = t" using r by (auto simp: delete_lev_def)
    moreover have "filter (\<lambda>x. fst x \<noteq> l) (events_of (view t)) = events_of (view t)"
      using False by (auto simp: filter_id_conv events_of_def image_iff)
    moreover have "(t_payload (view t))(l := None) = t_payload (view t)"
      using False base_okD(3) [OF ok] by (metis domIff fun_upd_triv)
    ultimately show ?thesis using ok False by (simp add: frame_def)
  next
    case True
    then obtain e where e: "(l, e) \<in> set (events_of (view t))"
      using wf by (force simp: events_of_def)
    then have wfe: "wf_event e" and lk: "lookup_Event E t l = Some (pack e)"
      using events_ofE [OF wf] lookup_Event_Some [OF wf] by blast+
    obtain t1 where u: "updateNegentropy E c (pack e) False t = Inr t1" and d: "deleteEventBasic E t1 l = Inr (b, t')"
      using r lk wfe by (auto simp: delete_lev_def packed_simps)
    note v1 = updateNegentropy_wf [OF c wfe u]
    have ok1: "tables_ok (view t1)" using wf by (simp add: v1 neg_apply_def)
    note v' = deleteEventBasic_view(2) [OF ok1 d]
    have ev: "events_of (view t') = filter (\<lambda>x. fst x \<noteq> l) (events_of (view t))"
      by (simp add: v' v1 events_of_def filter_map o_def case_prod_beta)
    have "trees_ok ?F (view t')"
    proof (rule trees_ok_erase [OF base_okD(4) [OF ok] base_okD(2) [OF ok] e _ ev])
      show "distinct (map fst (events_of (view t)))"
        using wf by (simp add: tables_ok_distinct)
      show "t_trees (view t') = t_trees (neg_apply ?F e False (view t))"
        by (simp add: v' v1)
    qed
    moreover have "wf_store (view t')"
      using wf tables_ok_filter [OF ok1, of "\<lambda>x. fst x \<noteq> l"]
      by (auto simp: wf_store_def v' v1 tables_ok_def sorted_wrt_map_filter)
    moreover have "dom (t_payload (view t')) = fst ` set (t_events (view t'))"
      using base_okD(3) [OF ok] by (auto simp: v' v1)
    moreover have "b" using deleteEventBasic_view(1) [OF ok1 d] True base_okD(3) [OF ok]
      by (auto simp: v1)
    ultimately show ?thesis
      using ev True unique_ids_filter [OF base_okD(2) [OF ok]] by (simp add: base_ok_def v' v1 frame_def)
  qed
  then show "base_ok ?F (view t')" "events_of (view t') = filter (\<lambda>x. fst x \<noteq> l) (events_of (view t))"
    "t_payload (view t') = (t_payload (view t))(l := None)" "frame (view t) (view t')"
    "b \<longleftrightarrow> l \<in> fst ` set (t_events (view t))"
    by auto
qed

end

lemma storage_only_Inr [simp]: "storage_only (Inr x)"
  by (simp add: storage_only_def)

lemma storage_only_rbind [simp]:
  "storage_only (rbind m f) \<longleftrightarrow> storage_only m \<and> (\<forall>x. m = Inr x \<longrightarrow> storage_only (f x))"
  by (cases m) (auto simp: storage_only_def)

lemma storage_only_rfold:
  assumes "P s" and "\<And>x s. x \<in> set xs \<Longrightarrow> P s \<Longrightarrow> storage_only (f x s)"
    and "\<And>x s s'. x \<in> set xs \<Longrightarrow> P s \<Longrightarrow> f x s = Inr s' \<Longrightarrow> P s'"
  shows "storage_only (rfold f xs s)"
  using assms
proof (induction xs arbitrary: s)
  case (Cons x xs)
  have "storage_only (rfold f xs s')" if "f x s = Inr s'" for s'
  proof (rule Cons.IH)
    show "P s'" using Cons.prems(1,3) that by (meson list.set_intros(1))
  qed (meson Cons.prems(2,3) list.set_intros(2))+
  then show ?case using Cons.prems(1,2) by simp
qed simp

lemma levs_events_of: "fst ` set (events_of T) = fst ` set (t_events T)"
  by (metis events_of_levIds set_map)

context golpe_env
begin

lemma delete_lev_storage_only:
  assumes c: "wf_cache c" and ok: "wf_store (view t)"
  shows "storage_only (delete_lev E (updateNegentropy E c) t l)"
proof (cases "lookup_Event E t l")
  case (Some p)
  then obtain e where "(l, e) \<in> set (events_of (view t))" and p: "p = pack e"
    using lookup_Event_Some [OF ok] by blast
  then have wfe: "wf_event e" using events_ofE [OF ok] by blast
  show ?thesis
    using updateNegentropy_storage_only [OF c wfe] writes_throw
    by (auto simp: delete_lev_def Some p packed_simps wfe deleteEventBasic_def)
qed (simp add: delete_lev_def)

text \<open>The deletion loop of a write removes exactly the listed events.\<close>

lemma delete_levs_ok:
  assumes c: "wf_cache c" and "base_ok (set (nc_filters c)) (view t)"
    and "rfold (\<lambda>l t. rbind (delete_lev E (updateNegentropy E c) t l) (\<lambda>(_, t). Inr t)) ls t = Inr t'"
  shows "base_ok (set (nc_filters c)) (view t') \<and>
    events_of (view t') = filter (\<lambda>x. fst x \<notin> set ls) (events_of (view t)) \<and>
    t_payload (view t') = (t_payload (view t)) |` (- set ls) \<and> frame (view t) (view t')"
  using assms(2,3)
proof (induction ls arbitrary: t)
  case Nil
  then show ?case by (auto simp: frame_def restrict_map_def fun_eq_iff)
next
  case (Cons l ls)
  then obtain b t1 where d: "delete_lev E (updateNegentropy E c) t l = Inr (b, t1)"
    and rest: "rfold (\<lambda>l t. rbind (delete_lev E (updateNegentropy E c) t l) (\<lambda>(_, t). Inr t)) ls t1 = Inr t'"
    by auto
  note one = delete_lev_ok [OF c Cons.prems(1) d]
  show ?case
    using Cons.IH [OF one(1) rest] one
    by (auto simp: frame_def restrict_map_def fun_eq_iff conj_commute intro!: filter_cong)
qed

lemma delete_levs_storage_only:
  assumes c: "wf_cache c" and "base_ok (set (nc_filters c)) (view t)"
  shows "storage_only (rfold (\<lambda>l t. rbind (delete_lev E (updateNegentropy E c) t l) (\<lambda>(_, t). Inr t)) ls t)"
  using assms(2)
proof (rule storage_only_rfold)
  fix l t assume ok: "base_ok (set (nc_filters c)) (view t)"
  then have "storage_only (delete_lev E (updateNegentropy E c) t l)"
    by (intro delete_lev_storage_only [OF c] base_okD(1))
  then show "storage_only (rbind (delete_lev E (updateNegentropy E c) t l) (\<lambda>(_, t). Inr t))"
    by auto
next
  fix l t t' assume "base_ok (set (nc_filters c)) (view t)"
    and "rbind (delete_lev E (updateNegentropy E c) t l) (\<lambda>(_, t). Inr t) = Inr t'"
  then show "base_ok (set (nc_filters c)) (view t')"
    using delete_lev_ok(1) [OF c] by auto
qed

lemma deleteEvents_ok:
  assumes inv: "cache_inv L c (view t)" and L: "json_ok L"
    and base: "base_ok (neg_infos L (view t)) (view t)"
    and r: "deleteEvents E L t c ls = Inr (c', n, t')"
  shows "base_ok (neg_infos L (view t')) (view t') \<and> cache_inv L c' (view t') \<and>
    events_of (view t') = filter (\<lambda>x. fst x \<notin> set ls) (events_of (view t)) \<and> frame (view t) (view t') \<and>
    n = of_nat (card (set ls \<inter> fst ` set (t_events (view t))))"
proof -
  from r have fr: "freshenCache E L t c = Inr c'" and loop: "rfold (\<lambda>levId (numDeleted, txn).
       rbind (delete_lev E (updateNegentropy E c') txn levId) (\<lambda>(deleted, txn).
         Inr (if deleted then numDeleted + 1 else numDeleted, txn))) ls (0, t) = Inr (n, t')"
    by (auto simp: deleteEvents_def ctx_def)
  note c' = freshenCache_wf [OF inv L fr]
  have base': "base_ok (set (nc_filters c')) (view t)" using base c' by simp
  let ?levs = "\<lambda>T. fst ` set (t_events T)"
  have "base_ok (set (nc_filters c')) (view t') \<and>
    events_of (view t') = filter (\<lambda>x. fst x \<notin> set ls) (events_of (view t)) \<and> frame (view t) (view t') \<and>
    n = n0 + of_nat (card (set ls \<inter> ?levs (view t)))"
    if "rfold (\<lambda>levId (numDeleted, txn).
       rbind (delete_lev E (updateNegentropy E c') txn levId) (\<lambda>(deleted, txn).
         Inr (if deleted then numDeleted + 1 else numDeleted, txn))) ls (n0, t) = Inr (n, t')"
      and "base_ok (set (nc_filters c')) (view t)" for ls n0 t
    using that
  proof (induction ls arbitrary: n0 t)
    case Nil
    then show ?case by (auto simp: frame_def)
  next
    case (Cons l ls)
    then obtain b t1 where d: "delete_lev E (updateNegentropy E c') t l = Inr (b, t1)" and
      rest: "rfold (\<lambda>levId (numDeleted, txn).
       rbind (delete_lev E (updateNegentropy E c') txn levId) (\<lambda>(deleted, txn).
         Inr (if deleted then numDeleted + 1 else numDeleted, txn))) ls (if b then n0 + 1 else n0, t1) = Inr (n, t')"
      by auto
    have wfc: "wf_cache c'" using c' by simp
    note one = delete_lev_ok [OF wfc Cons.prems(2) d]
    have levs: "?levs (view t1) = ?levs (view t) - {l}"
      unfolding levs_events_of [symmetric] one(2) by auto
    have "card (set (l # ls) \<inter> ?levs (view t)) = (if b then Suc else (\<lambda>n. n)) (card (set ls \<inter> ?levs (view t1)))"
    proof -
      let ?A = "set (l # ls) \<inter> ?levs (view t)"
      have "set ls \<inter> ?levs (view t1) = ?A - {l}" unfolding levs by auto
      moreover have "l \<in> ?A \<longleftrightarrow> b" using one(5) by simp
      ultimately show ?thesis using card_Suc_Diff1 [of ?A l] by (cases b) simp_all
    qed
    then show ?case
      using Cons.IH [OF rest one(1)] one(2,4)
      by (auto simp: frame_def conj_commute intro!: filter_cong)
  qed
  from this [OF loop base'] c' show ?thesis
    by (auto simp: frame_def cache_inv_def neg_infos_def)
qed

end

section \<open>The checks before a write\<close>

lemma iter_first_d:
  "iter_tags ts (\<lambda>n v r. if n \<noteq> CHR ''d'' then Inr (r, True) else Inr (Some v, False)) None =
   Inr (case filter (\<lambda>(n, v). n = CHR ''d'') ts of [] \<Rightarrow> None | x # _ \<Rightarrow> Some (snd x))"
  by (induction ts) auto

lemma first_d_pack:
  "wf_event e \<Longrightarrow> foreachTag (pack e)
     (\<lambda>n v r. if n \<noteq> CHR ''d'' then Inr (r, True) else Inr (Some v, False)) None =
   Inr (case d_tags e of [] \<Rightarrow> None | d # _ \<Rightarrow> Some d)"
  by (simp add: packed_simps iter_first_d d_tags_def split: list.splits)

lemma replace_index:
  assumes "wf_event e" "wf_event f" and "replace_key e = Some (ev_pubkey e, d, ev_kind e)"
  shows "(ev_pubkey e @ d) @ to_sv64 (ev_kind e) \<in> set (index_keys Event_replace (pack f)) \<longleftrightarrow> same_address e f"
proof -
  have key: "ev_pubkey e @ d @ to_sv64 (ev_kind e) = ev_pubkey f @ d' @ to_sv64 (ev_kind f) \<longleftrightarrow>
      ev_pubkey f = ev_pubkey e \<and> d' = d \<and> ev_kind f = ev_kind e" for d'
    using assms(1,2) by (auto simp: wf_event_def)
  have kind: "isReplaceable (ev_kind e) \<or> isParamReplaceable (ev_kind e)"
    using assms(3) by (auto simp: replace_key_def split: if_splits)
  show ?thesis
  proof (cases "d_tags f")
    case Nil
    then show ?thesis
      using assms by (simp add: packed_simps same_address_def replace_key_def)
  next
    case (Cons d' ds)
    then have "(ev_pubkey e @ d) @ to_sv64 (ev_kind e) \<in> set (index_keys Event_replace (pack f)) \<longleftrightarrow>
        ev_pubkey f = ev_pubkey e \<and> d' = d \<and> ev_kind f = ev_kind e"
      using assms(2) by (simp add: packed_simps key)
    also have "\<dots> \<longleftrightarrow> same_address e f"
      unfolding same_address_def assms(3) using Cons kind by (auto simp: replace_key_def)
    finally show ?thesis .
  qed
qed

lemma deletion_index:
  assumes "wf_event d" "wf_event e"
  shows "ev_id e @ ev_pubkey e \<in> set (index_keys Event_deletion (pack d)) \<longleftrightarrow> deletes d e"
proof -
  have "v @ ev_pubkey d = ev_id e @ ev_pubkey e \<longleftrightarrow> v = ev_id e \<and> ev_pubkey d = ev_pubkey e" for v
    using assms by (auto simp: wf_event_def)
  then show ?thesis
    using assms by (force simp: packed_simps deletes_def isDeletion_def)
qed

lemma max_u64_le: "unat (l :: u64) \<le> unat (MAX_U64 :: u64)"
  using word_n1_ge [of l] by (simp add: word_le_nat_alt)

context golpe_env
begin

lemma lookup_deletion_wf:
  assumes wf: "wf_store (view t)" and e: "wf_event e"
  shows "lookup_Event_deletion E t (ev_id e @ ev_pubkey e) \<longleftrightarrow> (\<exists>(l, d) \<in> set (events_of (view t)). deletes d e)"
proof -
  have "lookup_Event_deletion E t (ev_id e @ ev_pubkey e) \<longleftrightarrow>
      (\<exists>l d. (l, d) \<in> set (events_of (view t)) \<and> ev_id e @ ev_pubkey e \<in> set (index_keys Event_deletion (pack d)))"
    using wf entries_events_of [OF wf, of "ev_id e @ ev_pubkey e"] by (force simp: lookup_deletion image_iff)
  then show ?thesis
    using deletion_index [OF _ e] events_ofE [OF wf] by blast
qed

text \<open>The reverse scan from the largest value of a key starts at an entry of that key, if there is one.\<close>

lemma replace_scan:
  assumes wf: "wf_store (view t)"
  shows "case generic_foreachFull E t Event_replace k MAX_U64 True of
      [] \<Rightarrow> \<forall>l. (k, l) \<notin> set (entries Event_replace (view t))
    | (k', l) # _ \<Rightarrow> (k', l) \<in> set (entries Event_replace (view t)) \<and>
        (k' \<noteq> k \<longrightarrow> (\<forall>l. (k, l) \<notin> set (entries Event_replace (view t))))"
proof -
  let ?xs = "generic_foreachFull E t Event_replace k MAX_U64 True"
  note rev = foreachFull_rev [OF wf_store_ok [OF wf], of Event_replace k MAX_U64]
  have in_scan: "(k, l) \<in> set ?xs" if "(k, l) \<in> set (entries Event_replace (view t))" for l
    using rev that max_u64_le [of l] by (auto simp: pos_def)
  show ?thesis
  proof (cases ?xs)
    case Nil
    then show ?thesis using in_scan by auto
  next
    case (Cons x rest)
    obtain k' l' where x: "x = (k', l')" by fastforce
    have "(k', l') \<in> set ?xs" unfolding Cons x by simp
    then have "(k', l') \<in> set (entries Event_replace (view t))" and low: "k' \<le> k"
      using rev by (auto simp: pos_def less_eq_prod_def)
    moreover have "k' = k" if "(k, l) \<in> set (entries Event_replace (view t))" for l
    proof -
      have "sorted (rev (map (pos Event_replace) (x # rest)))"
        using rev by (simp only: Cons)
      moreover have "(k, l) \<in> set (x # rest)" using in_scan [OF that] by (simp only: Cons)
      ultimately have "pos Event_replace (k, l) \<le> pos Event_replace x"
        by (auto simp: sorted_append)
      then show ?thesis using low by (auto simp: x pos_def less_eq_prod_def)
    qed
    ultimately show ?thesis by (auto simp: Cons x)
  qed
qed

end

lemma filter_singleton:
  assumes "distinct xs" and "x \<in> set xs" and "\<And>y. y \<in> set xs \<Longrightarrow> P y \<longleftrightarrow> y = x"
  shows "filter P xs = [x]"
proof -
  have "filter P xs = filter (\<lambda>y. y = x) xs" using assms(3) by (intro filter_cong) auto
  moreover have "filter (\<lambda>y. y = x) xs = [x]"
    using assms(1,2) by (induction xs) (auto simp: filter_empty_conv)
  ultimately show ?thesis by simp
qed

lemma same_address_trans: "same_address e f \<Longrightarrow> same_address e g \<Longrightarrow> same_address f g"
  by (simp add: same_address_def)

lemma distinct_events: "tables_ok T \<Longrightarrow> distinct (events_of T)"
  using tables_ok_distinct [of T] by (simp add: distinct_map flip: events_of_levIds)

definition one_per_address :: "db \<Rightarrow> bool" where
  "one_per_address D \<longleftrightarrow> (\<forall>(l, e) \<in> set D. \<forall>(l', f) \<in> set D. same_address e f \<longrightarrow> l = l')"

context golpe_env
begin

lemma checkReplaceable_wf:
  assumes wf: "wf_store (view t)" and e: "wf_event e" and uniq: "one_per_address (events_of (view t))"
  shows "checkReplaceable E t (pack e) (ev_kind e) ls = Inr (
    if \<exists>(l, f) \<in> set (events_of (view t)). same_address e f \<and> \<not> supersedes e f then (Some Replaced, ls)
    else (None, ls @ map fst (filter (\<lambda>(l, f). same_address e f) (events_of (view t)))))"
proof (cases "replace_key e")
  case None
  then have "\<not> same_address e f" for f by (simp add: same_address_def)
  then show ?thesis
    using e None
    by (auto simp: checkReplaceable_def first_d_pack replace_key_def filter_empty_conv split: list.splits)
next
  case (Some a)
  let ?D = "events_of (view t)"
  from Some obtain d ds where d: "d_tags e = d # ds" and kind: "isReplaceable (ev_kind e) \<or> isParamReplaceable (ev_kind e)"
    and key: "replace_key e = Some (ev_pubkey e, d, ev_kind e)"
    by (auto simp: replace_key_def split: if_splits list.splits)
  let ?K = "(ev_pubkey e @ d) @ to_sv64 (ev_kind e)"
  let ?xs = "generic_foreachFull E t Event_replace ?K MAX_U64 True"
  have addr: "(?K, l) \<in> set (entries Event_replace (view t)) \<longleftrightarrow> (\<exists>f. (l, f) \<in> set ?D \<and> same_address e f)" for l
    using entries_events_of [OF wf] events_ofE [OF wf] replace_index [OF e _ key] by blast
  note scan = replace_scan [OF wf, of ?K]
  have unfold: "checkReplaceable E t (pack e) (ev_kind e) ls =
    (case ?xs of [] \<Rightarrow> Inr (None, ls)
     | (k, v) # _ \<Rightarrow> let (s, n) = parsedKey_StringUint64 E k in
        if s = ev_pubkey e @ d \<and> n = ev_kind e then
          rbind (lookupEventByLevId E t v) (\<lambda>(otherLevId, buf).
          rbind (PackedEventView buf) (\<lambda>otherPacked.
            let thisTimestamp = ev_created_at e; otherTimestamp = pv_created_at otherPacked in
            if otherTimestamp < thisTimestamp \<or> otherTimestamp = thisTimestamp \<and> ev_id e < pv_id otherPacked
            then Inr (None, ls @ [otherLevId]) else Inr (Some Replaced, ls)))
        else Inr (None, ls))"
    unfolding checkReplaceable_def first_d_pack [OF e] d pack_accessors [OF e] makeKey
    using kind by (simp add: Let_def)
  show ?thesis
  proof (cases ?xs)
    case Nil
    then have none: "\<forall>(l, f) \<in> set ?D. \<not> same_address e f" using scan addr by auto
    then have "filter (\<lambda>(l, f). same_address e f) ?D = []" by (auto simp: filter_empty_conv)
    then show ?thesis using none unfolding unfold Nil by auto
  next
    case (Cons x rest)
    obtain k' l' where x: "x = (k', l')" by fastforce
    with scan Cons have k': "(k', l') \<in> set (entries Event_replace (view t))"
      and other: "k' \<noteq> ?K \<Longrightarrow> \<forall>l. (?K, l) \<notin> set (entries Event_replace (view t))" by auto
    obtain f where f: "(l', f) \<in> set ?D" "k' \<in> set (index_keys Event_replace (pack f))"
      using k' entries_events_of [OF wf] by blast
    have wff: "wf_event f" using f(1) events_ofE [OF wf] by blast
    obtain d' where d': "k' = (ev_pubkey f @ d') @ to_sv64 (ev_kind f)"
      using f(2) wff by (auto simp: packed_simps split: list.splits)
    have test: "ev_pubkey f @ d' = ev_pubkey e @ d \<and> ev_kind f = ev_kind e \<longleftrightarrow> k' = ?K"
      unfolding d' by (metis parsedKey prod.inject)
    have pk: "parsedKey_StringUint64 E k' = (ev_pubkey f @ d', ev_kind f)"
      unfolding d' by (rule parsedKey)
    show ?thesis
    proof (cases "k' = ?K")
      case False
      then have none: "\<forall>(l, f) \<in> set ?D. \<not> same_address e f" using other addr by auto
      then have "filter (\<lambda>(l, f). same_address e f) ?D = []" by (auto simp: filter_empty_conv)
      then show ?thesis using none False unfolding unfold Cons x by (auto simp: pk test)
    next
      case True
      have sf: "same_address e f" using replace_index [OF e wff key] f(2) True by simp
      have only: "(case y of (l, g) \<Rightarrow> same_address e g) \<longleftrightarrow> y = (l', f)" if "y \<in> set ?D" for y
      proof
        obtain l g where y: "y = (l, g)" by fastforce
        assume "case y of (l, g) \<Rightarrow> same_address e g"
        then have "same_address f g" using same_address_trans [OF sf] y by simp
        then have "l' = l" using uniq f(1) that unfolding y one_per_address_def by blast
        then show "y = (l', f)"
          using that f(1) events_of_same_levId [OF wf_store_ok [OF wf]] unfolding y by blast
      qed (simp add: sf)
      have single: "filter (\<lambda>(l, f). same_address e f) ?D = [(l', f)]"
        using filter_singleton [OF distinct_events [OF wf_store_ok [OF wf]] f(1) only] .
      have "(\<exists>(l, g) \<in> set ?D. same_address e g \<and> \<not> supersedes e g) \<longleftrightarrow> \<not> supersedes e f"
        using only f(1) sf by fastforce
      moreover have "parsedKey_StringUint64 E k' = (ev_pubkey e @ d, ev_kind e)"
        using pk test True by simp
      ultimately show ?thesis
        using lookupEventByLevId_wf [OF wf f(1)] wff unfolding unfold Cons x single
        by (simp add: packed_simps supersedes_def Let_def)
    qed
  qed
qed

lemma collect_iter:
  assumes wf: "wf_store (view t)" and uniq: "unique_ids (events_of (view t))"
    and "fixed_tags ts"
  shows "\<exists>ls'. iter_tags ts (\<lambda>tagName tagVal levIdsToDelete.
       if tagName = CHR ''e'' then
         (case lookupEventById E t tagVal of
            None \<Rightarrow> Inr (levIdsToDelete, True)
          | Some (levId, buf) \<Rightarrow>
              rbind (PackedEventView buf) (\<lambda>other.
                Inr (if pv_pubkey other = pk then levIdsToDelete @ [levId] else levIdsToDelete, True)))
       else Inr (levIdsToDelete, True)) ls = Inr ls' \<and>
    set ls' = set ls \<union> {l. \<exists>f. (l, f) \<in> set (events_of (view t)) \<and> (CHR ''e'', ev_id f) \<in> set ts \<and> ev_pubkey f = pk}"
    (is "\<exists>ls'. iter_tags ts ?cb ls = _ \<and> _")
proof -
  let ?D = "events_of (view t)"
  have step: "\<exists>ls1. ?cb n v ls = Inr (ls1, True) \<and>
      set ls1 = set ls \<union> {l. \<exists>f. (l, f) \<in> set ?D \<and> n = CHR ''e'' \<and> ev_id f = v \<and> ev_pubkey f = pk}"
    if "n = CHR ''e'' \<longrightarrow> length v = 32" for n v ls
  proof (cases "n = CHR ''e''")
    case True
    with that have look: "lookupEventById E t v = Some (l, p) \<longleftrightarrow>
        (\<exists>f. (l, f) \<in> set ?D \<and> ev_id f = v \<and> p = pack f)" for l p
      using lookupEventById_wf [OF wf _ uniq] by simp
    show ?thesis
    proof (cases "lookupEventById E t v")
      case None
      then show ?thesis using True look by auto
    next
      case (Some r)
      obtain l p where r: "r = (l, p)" by fastforce
      then obtain f where f: "(l, f) \<in> set ?D" "ev_id f = v" "p = pack f" using Some look by blast
      have wff: "wf_event f" using f(1) events_ofE [OF wf] by blast
      have only: "(l', g) = (l, f)" if "(l', g) \<in> set ?D" "ev_id g = v" for l' g
        using uniq that f(1,2) unfolding unique_ids_def distinct_map inj_on_def by fastforce
      have "{l'. \<exists>g. (l', g) \<in> set ?D \<and> ev_id g = v \<and> ev_pubkey g = pk} = (if ev_pubkey f = pk then {l} else {})"
        using f(1,2) by (auto dest: only)
      then show ?thesis
        using True by (simp add: Some r f(3) packed_simps wff)
    qed
  qed simp
  show ?thesis
    using assms(3)
  proof (induction ts arbitrary: ls)
    case (Cons x ts)
    obtain n v where x: "x = (n, v)" by fastforce
    have v: "n = CHR ''e'' \<longrightarrow> length v = 32" and fx: "fixed_tags ts"
      using Cons.prems by (auto simp: fixed_tags_def x)
    from step [OF v, of ls] obtain ls1 where ls1: "?cb n v ls = Inr (ls1, True)"
      "set ls1 = set ls \<union> {l. \<exists>f. (l, f) \<in> set ?D \<and> n = CHR ''e'' \<and> ev_id f = v \<and> ev_pubkey f = pk}"
      by (elim exE conjE) (rule that)
    from Cons.IH [OF fx, of ls1] obtain ls' where ls': "iter_tags ts ?cb ls1 = Inr ls'" "set ls' = set ls1 \<union>
      {l. \<exists>f. (l, f) \<in> set ?D \<and> (CHR ''e'', ev_id f) \<in> set ts \<and> ev_pubkey f = pk}"
      by (elim exE conjE) (rule that)
    show ?case
    proof (intro exI conjI)
      show "iter_tags (x # ts) ?cb ls = Inr ls'"
        unfolding x iter_tags.simps ls1(1) by (simp only: rbind_simps prod.case not_True_eq_False if_False ls'(1))
      show "set ls' = set ls \<union>
          {l. \<exists>f. (l, f) \<in> set ?D \<and> (CHR ''e'', ev_id f) \<in> set (x # ts) \<and> ev_pubkey f = pk}"
        unfolding ls'(2) ls1(2) x by auto
    qed
  qed simp
qed

lemma collectDeletionTargets_wf:
  assumes "wf_store (view t)" and "unique_ids (events_of (view t))" and "wf_ev e" and "isDeletion (ev_kind e)"
  shows "\<exists>ls'. collectDeletionTargets E t (pack e) ls = Inr ls' \<and>
    set ls' = set ls \<union> {l. \<exists>f. (l, f) \<in> set (events_of (view t)) \<and> deletes e f}"
proof -
  have e: "wf_event e" and "fixed_tags (ev_tags e)" using assms(3) by (auto simp: wf_ev_def)
  from collect_iter [OF assms(1,2) this(2), of "ev_pubkey e" ls] obtain ls' where
    "collectDeletionTargets E t (pack e) ls = Inr ls'" "set ls' = set ls \<union>
       {l. \<exists>f. (l, f) \<in> set (events_of (view t)) \<and> (CHR ''e'', ev_id f) \<in> set (ev_tags e) \<and> ev_pubkey f = ev_pubkey e}"
    unfolding collectDeletionTargets_def foreachTag_pack [OF e] pack_accessors [OF e] by blast
  then show ?thesis
    using assms(4) by (auto simp: deletes_def)
qed

end

section \<open>Writing one event\<close>

lemma unpack_wf_event: "wf_event e \<Longrightarrow> unpack (pack e) = e"
  by (simp add: unpack_pack)

lemma one_per_addressI: "db_ok D \<Longrightarrow> one_per_address D"
  by (fastforce simp: db_ok_def one_per_address_def)

context golpe_env
begin

lemma insert_Event_ok:
  assumes base: "base_ok F (view t)" and e: "wf_event e" and fresh: "\<forall>(l, f) \<in> set (events_of (view t)). ev_id f \<noteq> ev_id e"
    and ins: "insert_Event E t (pack e) = Inr (l, t1)" and put: "EventPayload_put E t1 l b = Inr t2"
    and neg: "view t3 = neg_apply F e True (view t2)"
  shows "base_ok F (view t3)" and "events_of (view t3) = events_of (view t) @ [(l, e)]"
    and "0 < l" and "\<forall>l' \<in> fst ` set (t_events (view t)). l' < l"
    and "t_payload (view t3) l = Some b" and "frame (view t) (view t3)"
    and "\<And>l'. l' \<noteq> l \<Longrightarrow> t_payload (view t3) l' = t_payload (view t) l'"
proof -
  note wf = base_okD(1) [OF base]
  note ins' = insert_Event [OF wf_store_ok [OF wf] ins]
  note put' = payload_put [OF put]
  show l: "0 < l" "\<forall>l' \<in> fst ` set (t_events (view t)). l' < l"
    using ins' by auto
  have v3: "t_events (view t3) = t_events (view t) @ [(l, pack e)]"
    "t_payload (view t3) = (t_payload (view t))(l \<mapsto> b)"
    using ins' put' by (simp_all add: neg)
  show ev: "events_of (view t3) = events_of (view t) @ [(l, e)]"
    by (simp add: events_of_def v3 unpack_wf_event [OF e])
  have "tables_ok (view t3)"
    using tables_ok_append [OF wf_store_ok [OF wf] l, of "pack e"] by (simp add: tables_ok_def v3)
  then have "wf_store (view t3)"
    using wf e by (auto simp: wf_store_def v3 wf_packed_def)
  moreover have "unique_ids (events_of (view t3))"
    using base_okD(2) [OF base] fresh by (auto simp: ev unique_ids_def)
  moreover have "trees_ok F (view t3)"
  proof (rule trees_ok_insert [OF base_okD(4) [OF base] e ev])
    have trees: "t_trees (view t2) = t_trees (view t)" using ins' put' by simp
    show "t_trees (view t3) = t_trees (neg_apply F e True (view t))"
      unfolding neg neg_apply_def trees by simp
  qed
  ultimately show "base_ok F (view t3)"
    using base_okD(3) [OF base] by (simp add: base_ok_def v3)
  show "t_payload (view t3) l = Some b" "frame (view t) (view t3)"
    "\<And>l'. l' \<noteq> l \<Longrightarrow> t_payload (view t3) l' = t_payload (view t) l'"
    using ins' put' by (simp_all add: neg frame_def)
qed

lemma write_pending_ok:
  assumes c: "wf_cache c" and base: "base_ok (set (nc_filters c)) (view t)" and e: "wf_event e"
    and fresh: "\<forall>(l, f) \<in> set (events_of (view t)). ev_id f \<noteq> ev_id e"
    and ls: "set ls \<subseteq> fst ` set (t_events (view t))" and ev: "ew_packedStr ev = pack e"
    and r: "write_pending E (updateNegentropy E c) ev t ls = Inr (ev', t')"
  shows "\<exists>l. ev' = ev\<lparr>ew_status := Written, ew_levId := l\<rparr> \<and> 0 < l \<and>
    (\<forall>l' \<in> fst ` set (t_events (view t)). l' < l) \<and>
    events_of (view t') = filter (\<lambda>x. fst x \<notin> set ls) (events_of (view t)) @ [(l, e)] \<and>
    base_ok (set (nc_filters c)) (view t') \<and> frame (view t) (view t') \<and>
    t_payload (view t') l = Some (CHR 0x00 # ew_jsonStr ev) \<and>
    (\<forall>l' \<in> fst ` set (t_events (view t')). l' \<noteq> l \<longrightarrow> t_payload (view t') l' = t_payload (view t) l')"
proof -
  from r obtain l t1 t2 t3 where ins: "insert_Event E t (pack e) = Inr (l, t1)"
    and put: "EventPayload_put E t1 l (CHR 0x00 # ew_jsonStr ev) = Inr t2"
    and neg: "updateNegentropy E c (pack e) True t2 = Inr t3"
    and del: "rfold (\<lambda>l t. rbind (delete_lev E (updateNegentropy E c) t l) (\<lambda>(_, t). Inr t)) ls t3 = Inr t'"
    and ev': "ev' = ev\<lparr>ew_status := Written, ew_levId := l\<rparr>"
    by (auto simp: write_pending_def ev)
  note i = insert_Event_ok [OF base e fresh ins put updateNegentropy_wf [OF c e neg]]
  note d = delete_levs_ok [OF c i(1) del]
  have "l \<notin> set ls" using i(4) ls by blast
  moreover have "l' \<notin> set ls" if "l' \<in> fst ` set (t_events (view t'))" for l'
    using that d unfolding levs_events_of [symmetric] by auto
  ultimately show ?thesis
    using i(2-7) d ev' by (intro exI [of _ l]) (auto simp: frame_def)
qed

lemma write_pending_storage_only:
  assumes c: "wf_cache c" and base: "base_ok (set (nc_filters c)) (view t)" and e: "wf_event e"
    and fresh: "\<forall>(l, f) \<in> set (events_of (view t)). ev_id f \<noteq> ev_id e" and ev: "ew_packedStr ev = pack e"
  shows "storage_only (write_pending E (updateNegentropy E c) ev t ls)"
proof -
  have ins: "storage_only (insert_Event E t (pack e))"
    using insert_Event_throws indexPrelude_pack_Inr [OF e] by (fastforce simp: storage_only_def)
  show ?thesis
    unfolding write_pending_def ev storage_only_rbind
  proof (intro conjI allI impI)
    fix x t2 t3
    assume ins: "insert_Event E t (pack e) = Inr x"
    show "storage_only (case x of (levId, txn) \<Rightarrow> rbind (EventPayload_put E txn levId ([CHR 0x00] @ ew_jsonStr ev)) (\<lambda>txn.
       rbind (updateNegentropy E c (pack e) True txn) (\<lambda>txn.
       rbind (rfold (\<lambda>l txn. rbind (delete_lev E (updateNegentropy E c) txn l) (\<lambda>(_, txn). Inr txn)) ls txn) (\<lambda>txn.
       Inr (ev\<lparr>ew_status := Written, ew_levId := levId\<rparr>, txn)))))"
    proof (cases x)
      case (Pair l t1)
      have "storage_only (rfold (\<lambda>l txn. rbind (delete_lev E (updateNegentropy E c) txn l) (\<lambda>(_, txn). Inr txn)) ls t3)"
        if "EventPayload_put E t1 l ([CHR 0x00] @ ew_jsonStr ev) = Inr t2" "updateNegentropy E c (pack e) True t2 = Inr t3" for t2 t3
        using insert_Event_ok(1) [OF base e fresh _ that(1) updateNegentropy_wf [OF c e that(2)]] ins Pair
        by (intro delete_levs_storage_only [OF c]) simp
      then show ?thesis
        using writes_throw updateNegentropy_storage_only [OF c e] by (auto simp: Pair)
    qed
  qed (rule ins)
qed

end

lemma deletion_no_address: "isDeletion (ev_kind e) \<Longrightarrow> \<not> same_address e f"
  by (simp add: isDeletion_def same_address_def replace_key_def isReplaceable_def isParamReplaceable_def)

lemma map_fst_filter_set: "set (map fst (filter P D)) = {l. \<exists>f. (l, f) \<in> set D \<and> P (l, f)}"
  by force

context golpe_env
begin

text \<open>An event that is not written leaves the database alone; one that is written takes with it
  exactly the events at its address and those it deletes.\<close>

lemma write_event_eq:
  assumes base: "base_ok F (view t)" and db: "db_ok (events_of (view t))" and e: "wf_ev e"
    and ev: "ew_packedStr ev = pack e" "ew_status ev = Pending"
    and st: "st = write_status (events_of (view t)) (map_option pv_id prev) e"
  shows "if st = Written then
      \<exists>ls. set ls = {l. \<exists>f. (l, f) \<in> set (events_of (view t)) \<and> (same_address e f \<or> deletes e f)} \<and>
        write_event E upd prev ev t [] = rbind (write_pending E upd ev t ls) (\<lambda>(ev, t). Inr (ev, t, []))
    else write_event E upd prev ev t [] = Inr (ev\<lparr>ew_status := st\<rparr>, t, [])"
proof -
  let ?D = "events_of (view t)"
  note wf = base_okD(1) [OF base]
  have wfe: "wf_event e" using e by (simp add: wf_ev_def)
  have len: "length (ev_id e) = 32" using wfe by (simp add: wf_event_def)
  note ex = eventExistsById_wf [OF wf len] and del = lookup_deletion_wf [OF wf wfe]
  note rep = checkReplaceable_wf [OF wf wfe one_per_addressI [OF db]]
  note w = write_event_def [of E upd prev ev t "[]", unfolded ev PackedEventView_pack [OF wfe] rbind_simps pack_accessors [OF wfe] Let_def]
  let ?dup = "(\<exists>(l, f) \<in> set ?D. ev_id f = ev_id e) \<or> map_option pv_id prev = Some (ev_id e)"
  let ?del = "\<exists>(l, d) \<in> set ?D. deletes d e"
  let ?rep = "\<exists>(l, f) \<in> set ?D. same_address e f \<and> \<not> supersedes e f"
  consider (dup) ?dup | (del) "\<not> ?dup" ?del | (rep) "\<not> ?dup" "\<not> ?del" ?rep | (written) "\<not> ?dup" "\<not> ?del" "\<not> ?rep"
    by argo
  then show ?thesis
  proof cases
    case dup
    then show ?thesis by (simp add: st write_status_def w ex)
  next
    case del
    then show ?thesis using \<open>\<not> ?dup\<close> by (auto simp add: st write_status_def w ex lookup_deletion_wf [OF wf wfe])
  next
    case rep
    then have nodel: "\<not> isDeletion (ev_kind e)" using deletion_no_address by blast
    have "st = Replaced" using rep by (simp only: st write_status_def if_False if_True)
    moreover have cr: "checkReplaceable E t (pack e) (ev_kind e) [] = Inr (Some Replaced, [])"
      using rep(3) by (simp only: checkReplaceable_wf [OF wf wfe one_per_addressI [OF db]] if_True)
    moreover have "write_event E upd prev ev t [] = Inr (ev\<lparr>ew_status := Replaced\<rparr>, t, [])"
      using rep(1,2) nodel unfolding w ex lookup_deletion_wf [OF wf wfe] cr by auto
    ultimately show ?thesis by simp
  next
    case written
    have "st = Written" using written by (simp only: st write_status_def if_False)
    let ?ls = "map fst (filter (\<lambda>(l, f). same_address e f) ?D)"
    have cr: "checkReplaceable E t (pack e) (ev_kind e) [] = Inr (None, ?ls)"
      using written(3) by (simp only: rep if_False append_Nil)
    have ls: "set ?ls = {l. \<exists>f. (l, f) \<in> set ?D \<and> same_address e f}"
      by (simp only: map_fst_filter_set) simp
    obtain ls' where ls': "(if isDeletion (ev_kind e) then collectDeletionTargets E t (pack e) ?ls else Inr ?ls) = Inr ls'"
      "set ls' = {l. \<exists>f. (l, f) \<in> set ?D \<and> (same_address e f \<or> deletes e f)}"
    proof (cases "isDeletion (ev_kind e)")
      case True
      from collectDeletionTargets_wf [OF wf base_okD(2) [OF base] e True, of ?ls] obtain ls' where
        "collectDeletionTargets E t (pack e) ?ls = Inr ls'"
        and s: "set ls' = set ?ls \<union> {l. \<exists>f. (l, f) \<in> set ?D \<and> deletes e f}" by blast
      moreover have "set ls' = {l. \<exists>f. (l, f) \<in> set ?D \<and> (same_address e f \<or> deletes e f)}"
        unfolding s ls by blast
      ultimately show ?thesis using True that by simp
    next
      case False
      then show ?thesis using that [of ?ls] ls by (simp add: deletes_def)
    qed
    have "write_event E upd prev ev t [] = rbind (write_pending E upd ev t ls') (\<lambda>(ev, t). Inr (ev, t, []))"
      using written(1,2)
      by (simp only: w ex del cr rbind_simps prod.case option.case ls'(1) ev(2) if_False if_True refl)
        (cases "write_pending E upd ev t ls'", auto)
    with ls'(2) \<open>st = Written\<close> show ?thesis by auto
  qed
qed


lemma write_event_ok:
  assumes c: "wf_cache c" and base: "base_ok (set (nc_filters c)) (view t)" and db: "db_ok (events_of (view t))"
    and e: "wf_ev e" and ev: "ew_packedStr ev = pack e" "ew_status ev = Pending"
    and r: "write_event E (updateNegentropy E c) prev ev t [] = Inr (ev', t', ls')"
  shows "ls' = []" and "base_ok (set (nc_filters c)) (view t')" and "frame (view t) (view t')"
    and "ev' = ev\<lparr>ew_status := write_status (events_of (view t)) (map_option pv_id prev) e, ew_levId := ew_levId ev'\<rparr>"
    and "events_of (view t') = write_spec (events_of (view t)) (map_option pv_id prev) (ew_levId ev') e"
    and "ew_status ev' = Written \<Longrightarrow> 0 < ew_levId ev' \<and> (\<forall>l' \<in> fst ` set (t_events (view t)). l' < ew_levId ev') \<and>
      t_payload (view t') (ew_levId ev') = Some (CHR 0x00 # ew_jsonStr ev)"
    and "\<forall>l' \<in> fst ` set (t_events (view t')) \<inter> fst ` set (t_events (view t)). t_payload (view t') l' = t_payload (view t) l'"
proof -
  let ?D = "events_of (view t)" and ?F = "set (nc_filters c)"
  let ?st = "write_status ?D (map_option pv_id prev) e"
  have wfe: "wf_event e" using e by (simp add: wf_ev_def)
  note eq = write_event_eq [OF base db e ev refl, of prev "updateNegentropy E c"]
  have "ls' = [] \<and> base_ok ?F (view t') \<and> frame (view t) (view t') \<and>
    ev' = ev\<lparr>ew_status := ?st, ew_levId := ew_levId ev'\<rparr> \<and>
    events_of (view t') = write_spec ?D (map_option pv_id prev) (ew_levId ev') e \<and>
    (ew_status ev' = Written \<longrightarrow> 0 < ew_levId ev' \<and> (\<forall>l' \<in> fst ` set (t_events (view t)). l' < ew_levId ev') \<and>
      t_payload (view t') (ew_levId ev') = Some (CHR 0x00 # ew_jsonStr ev)) \<and>
    (\<forall>l' \<in> fst ` set (t_events (view t')) \<inter> fst ` set (t_events (view t)). t_payload (view t') l' = t_payload (view t) l')"
  proof (cases "?st = Written")
    case False
    then have "ev' = ev\<lparr>ew_status := ?st\<rparr>" "t' = t" "ls' = []" using eq r by auto
    then show ?thesis using base False by (simp add: frame_def write_spec_def)
  next
    case True
    with eq obtain ls where ls: "set ls = {l. \<exists>f. (l, f) \<in> set ?D \<and> (same_address e f \<or> deletes e f)}"
      and w: "write_event E (updateNegentropy E c) prev ev t [] =
        rbind (write_pending E (updateNegentropy E c) ev t ls) (\<lambda>(ev, t). Inr (ev, t, []))" by auto
    have p: "write_pending E (updateNegentropy E c) ev t ls = Inr (ev', t')" and "ls' = []"
      using r unfolding w by auto
    have "set ls \<subseteq> fst ` set (t_events (view t))"
      unfolding ls levs_events_of [symmetric] by force
    moreover have fresh: "\<forall>(l, f) \<in> set ?D. ev_id f \<noteq> ev_id e"
      using True by (auto simp: write_status_def split: if_splits)
    ultimately obtain l where l: "ev' = ev\<lparr>ew_status := Written, ew_levId := l\<rparr>" "0 < l"
      "\<forall>l' \<in> fst ` set (t_events (view t)). l' < l"
      "events_of (view t') = filter (\<lambda>x. fst x \<notin> set ls) ?D @ [(l, e)]" "base_ok ?F (view t')"
      "frame (view t) (view t')" "t_payload (view t') l = Some (CHR 0x00 # ew_jsonStr ev)"
      "\<forall>l' \<in> fst ` set (t_events (view t')). l' \<noteq> l \<longrightarrow> t_payload (view t') l' = t_payload (view t) l'"
      using write_pending_ok [OF c base wfe fresh _ ev(1) p] by blast
    have "fst x \<notin> set ls \<longleftrightarrow> (case x of (l, f) \<Rightarrow> \<not> same_address e f \<and> \<not> deletes e f)" if "x \<in> set ?D" for x
    proof -
      obtain l f where x: "x = (l, f)" by fastforce
      have "g = f" if "(l, g) \<in> set ?D" for g
        using events_of_same_levId [OF wf_store_ok [OF base_okD(1) [OF base]]] that \<open>x \<in> set ?D\<close> x by blast
      then have "l \<in> set ls \<longleftrightarrow> same_address e f \<or> deletes e f"
        unfolding ls using \<open>x \<in> set ?D\<close> x by blast
      then show ?thesis by (simp add: x)
    qed
    then have "filter (\<lambda>x. fst x \<notin> set ls) ?D = filter (\<lambda>(l, f). \<not> same_address e f \<and> \<not> deletes e f) ?D"
      by (rule filter_cong [OF refl])
    moreover have "\<forall>l' \<in> fst ` set (t_events (view t')) \<inter> fst ` set (t_events (view t)).
        t_payload (view t') l' = t_payload (view t) l'" using l(3,8) by (metis (no_types) IntD1 IntD2 less_irrefl)
    ultimately show ?thesis using l True \<open>ls' = []\<close> by (simp add: write_spec_def)
  qed
  then show "ls' = []" "base_ok ?F (view t')" "frame (view t) (view t')"
    "ev' = ev\<lparr>ew_status := ?st, ew_levId := ew_levId ev'\<rparr>"
    "events_of (view t') = write_spec ?D (map_option pv_id prev) (ew_levId ev') e"
    "ew_status ev' = Written \<Longrightarrow> 0 < ew_levId ev' \<and> (\<forall>l' \<in> fst ` set (t_events (view t)). l' < ew_levId ev') \<and>
      t_payload (view t') (ew_levId ev') = Some (CHR 0x00 # ew_jsonStr ev)"
    "\<forall>l' \<in> fst ` set (t_events (view t')) \<inter> fst ` set (t_events (view t)). t_payload (view t') l' = t_payload (view t) l'"
    by auto
qed

lemma write_event_storage_only:
  assumes c: "wf_cache c" and base: "base_ok (set (nc_filters c)) (view t)" and db: "db_ok (events_of (view t))"
    and e: "wf_ev e" and ev: "ew_packedStr ev = pack e" "ew_status ev = Pending"
  shows "storage_only (write_event E (updateNegentropy E c) prev ev t [])"
proof -
  let ?D = "events_of (view t)"
  note eq = write_event_eq [OF base db e ev refl, of prev "updateNegentropy E c"]
  show ?thesis
  proof (cases "write_status ?D (map_option pv_id prev) e = Written")
    case True
    then have "\<forall>(l, f) \<in> set ?D. ev_id f \<noteq> ev_id e"
      by (auto simp: write_status_def split: if_splits)
    moreover have "wf_event e" using e by (simp add: wf_ev_def)
    ultimately have "storage_only (write_pending E (updateNegentropy E c) ev t ls)" for ls
      using write_pending_storage_only [OF c base _ _ ev(1)] by blast
    with True eq show ?thesis by auto
  qed (use eq in auto)
qed

end

section \<open>Writing a batch\<close>

lemma same_address_sym: "same_address e f \<longleftrightarrow> same_address f e"
  by (auto simp: same_address_def)

lemma db_ok_subset: "db_ok D \<Longrightarrow> db_ok (filter P D)"
  by (auto simp: db_ok_def unique_ids_filter)

lemma db_ok_snoc:
  assumes "db_ok D" and "wf_ev e"
    and "\<forall>(l, f) \<in> set D. ev_id f \<noteq> ev_id e \<and> \<not> same_address e f \<and> \<not> deletes e f \<and> \<not> deletes f e"
  shows "db_ok (D @ [(l, e)])"
  unfolding db_ok_def
proof (intro conjI)
  show "unique_ids (D @ [(l, e)])"
    using assms(1,3) by (auto simp: db_ok_def unique_ids_def)
  show "\<forall>(k, d) \<in> set (D @ [(l, e)]). wf_ev d"
    using assms(1,2) by (simp add: db_ok_def)
  show "\<forall>(k, d) \<in> set (D @ [(l, e)]). \<forall>(k', f) \<in> set (D @ [(l, e)]). k \<noteq> k' \<longrightarrow> \<not> same_address d f \<and> \<not> deletes d f"
  proof -
    have "\<forall>(l, f) \<in> set D. \<not> same_address f e"
      using assms(3) same_address_sym by blast
    then show ?thesis
      using assms(1,3) unfolding db_ok_def by (simp add: case_prod_beta)
  qed
qed

lemma db_ok_write:
  assumes db: "db_ok D" and e: "wf_ev e"
  shows "db_ok (write_spec D prev l e)"
proof (cases "write_status D prev e = Written")
  case True
  then have "\<forall>(l, f) \<in> set D. ev_id f \<noteq> ev_id e \<and> \<not> deletes f e"
    by (auto simp: write_status_def split: if_splits)
  then have "db_ok (filter (\<lambda>(l, f). \<not> same_address e f \<and> \<not> deletes e f) D @ [(l, e)])"
    by (intro db_ok_snoc db_ok_subset [OF db] e) auto
  then show ?thesis using True by (simp add: write_spec_def)
qed (use db in \<open>simp add: write_spec_def\<close>)

definition pending :: "EventToWrite \<Rightarrow> bool" where
  "pending ev \<longleftrightarrow> (\<exists>e. wf_ev e \<and> ew_packedStr ev = pack e) \<and> ew_status ev = Pending"

definition ew_event :: "EventToWrite \<Rightarrow> event" where
  "ew_event ev = unpack (ew_packedStr ev)"

text \<open>What relates an event before and after the batch.\<close>

definition settled :: "EventToWrite \<Rightarrow> EventToWrite \<Rightarrow> bool" where
  "settled ev ev' \<longleftrightarrow> ev' = ev\<lparr>ew_status := ew_status ev', ew_levId := ew_levId ev'\<rparr> \<and> ew_status ev' \<noteq> Pending"

definition written_ids :: "EventToWrite list \<Rightarrow> u64 list" where
  "written_ids evs = map ew_levId (filter (\<lambda>ev. ew_status ev = Written) evs)"

definition stored_payloads :: "EventToWrite list \<Rightarrow> tables \<Rightarrow> bool" where
  "stored_payloads evs T \<longleftrightarrow> (\<forall>ev \<in> set evs. ew_status ev = Written \<and> ew_levId ev \<in> fst ` set (t_events T) \<longrightarrow>
     t_payload T (ew_levId ev) = Some (CHR 0x00 # ew_jsonStr ev))"

lemma pendingD: "pending ev \<Longrightarrow> wf_ev (ew_event ev) \<and> ew_packedStr ev = pack (ew_event ev) \<and> ew_status ev = Pending"
  by (auto simp: pending_def ew_event_def wf_ev_def unpack_wf_event)

lemma pending_packed: "pending ev \<Longrightarrow> wf_event (ew_event ev) \<and> ew_packedStr ev = pack (ew_event ev)"
  using pendingD [of ev] by (simp add: wf_ev_def)

text \<open>What the parser makes can be written.\<close>

lemma parsed_pending:
  assumes "hex_ok L" and "parseAndVerifyEvent L cfg now v vm vt = Inr (p, j)"
  shows "pending (mkEventToWrite p j c ip)"
proof -
  have P: "nostrJsonToPackedEvent L cfg v = Inr p" using parseAndVerifyEvent_Inr(1) [OF assms(2)] .
  then obtain ms where "v = JObject ms" using nostrJsonToPackedEvent_object by blast
  then obtain e where "wf_event e" "p = pack e" "fixed_tags (ev_tags e)" using nostrJsonToPackedEvent_Inr P assms(1) by blast
  then show ?thesis by (auto simp: pending_def wf_ev_def mkEventToWrite_def)
qed

lemma write_status_not_Pending [simp]: "write_status D prev e \<noteq> Pending"
  by (simp add: write_status_def)

context golpe_env
begin

lemma write_loop_storage_only:
  assumes c: "wf_cache c" and "base_ok (set (nc_filters c)) (view t)" and "db_ok (events_of (view t))"
    and "\<forall>ev \<in> set evs. pending ev"
  shows "storage_only (write_loop E (updateNegentropy E c) prev evs t [])"
  using assms(2-4)
proof (induction evs arbitrary: prev t)
  case (Cons ev evs)
  have p: "wf_ev (ew_event ev)" "ew_packedStr ev = pack (ew_event ev)" "ew_status ev = Pending"
    using Cons.prems(3) pendingD by auto
  have "storage_only (write_loop E (updateNegentropy E c) (Some (ew_packedStr ev)) evs t1 ls)"
    if r: "write_event E (updateNegentropy E c) prev ev t [] = Inr (ev', t1, ls)" for ev' t1 ls
  proof -
    note ok = write_event_ok [OF c Cons.prems(1,2) p r]
    have "db_ok (events_of (view t1))" using ok(5) db_ok_write [OF Cons.prems(2) p(1)] by simp
    then show ?thesis
      using Cons.IH [OF ok(2)] Cons.prems(3) ok(1) by simp
  qed
  then show ?case
    using write_event_storage_only [OF c Cons.prems(1,2) p] by auto
qed simp


lemma write_loop_ok:
  assumes c: "wf_cache c" and "base_ok (set (nc_filters c)) (view t)" and "db_ok (events_of (view t))"
    and "\<forall>ev \<in> set evs. pending ev"
    and "write_loop E (updateNegentropy E c) prev evs t [] = Inr (evs', t')"
  shows "base_ok (set (nc_filters c)) (view t') \<and> db_ok (events_of (view t')) \<and> frame (view t) (view t') \<and>
    list_all2 settled evs evs' \<and>
    batch_spec (events_of (view t)) (map_option pv_id prev) (map (\<lambda>ev. (ew_levId ev, ew_event ev)) evs') =
      (map ew_status evs', events_of (view t')) \<and>
    sorted_wrt (<) (written_ids evs') \<and> (\<forall>l \<in> set (written_ids evs'). 0 < l) \<and>
    (\<forall>l \<in> set (written_ids evs'). \<forall>l' \<in> fst ` set (t_events (view t)). l' < l) \<and>
    stored_payloads evs' (view t') \<and> fst ` set (t_events (view t')) \<subseteq> fst ` set (t_events (view t)) \<union> set (written_ids evs') \<and>
    (\<forall>l' \<in> fst ` set (t_events (view t')) \<inter> fst ` set (t_events (view t)). t_payload (view t') l' = t_payload (view t) l')"
  using assms(2-5)
proof (induction evs arbitrary: prev t evs')
  case Nil
  then show ?case by (auto simp: frame_def written_ids_def stored_payloads_def)
next
  case (Cons ev evs)
  let ?levs = "\<lambda>t. fst ` set (t_events (view t))"
  have p: "wf_ev (ew_event ev)" "ew_packedStr ev = pack (ew_event ev)" "ew_status ev = Pending"
    and rest: "\<forall>ev \<in> set evs. pending ev"
    using Cons.prems(3) pendingD by auto
  from Cons.prems(4) obtain ev' t1 ls evs1 where r: "write_event E (updateNegentropy E c) prev ev t [] = Inr (ev', t1, ls)"
    and loop: "write_loop E (updateNegentropy E c) (Some (ew_packedStr ev)) evs t1 ls = Inr (evs1, t')"
    and evs': "evs' = ev' # evs1" by auto
  note ok = write_event_ok [OF c Cons.prems(1,2) p r]
  have db1: "db_ok (events_of (view t1))" using ok(5) db_ok_write [OF Cons.prems(2) p(1)] by simp
  note IH = Cons.IH [OF ok(2) db1 rest loop [unfolded ok(1)]]
  have st: "ew_status ev' = write_status (events_of (view t)) (map_option pv_id prev) (ew_event ev)"
    and pk: "ew_packedStr ev' = ew_packedStr ev" and js: "ew_jsonStr ev' = ew_jsonStr ev"
    by (subst ok(4), simp)+
  have settled: "settled ev ev'"
    using ok(4) st by (simp add: settled_def)
  have pv: "map_option pv_id (Some (ew_packedStr ev)) = Some (ev_id (ew_event ev))"
    using p by (simp add: pack_accessors wf_ev_def)
  have batch: "batch_spec (events_of (view t)) (map_option pv_id prev) (map (\<lambda>ev. (ew_levId ev, ew_event ev)) evs') =
      (map ew_status evs', events_of (view t'))"
    using IH ok(5) st pv by (simp add: evs' ew_event_def pk)
  let ?w = "ew_status ev' = Written" and ?l = "ew_levId ev'"
  have levs1: "?levs t1 \<subseteq> (if ?w then insert ?l (?levs t) else ?levs t)"
    and new: "?w \<Longrightarrow> ?l \<in> ?levs t1" and same: "\<not> ?w \<Longrightarrow> ?levs t1 = ?levs t"
    using st unfolding levs_events_of [symmetric] ok(5) by (auto simp: write_spec_def)
  have ids: "sorted_wrt (<) (written_ids evs')"
    and above: "\<forall>l \<in> set (written_ids evs'). \<forall>l' \<in> ?levs t. l' < l"
  proof -
    have tail: "sorted_wrt (<) (written_ids evs1)" "\<forall>l \<in> set (written_ids evs1). \<forall>l' \<in> ?levs t1. l' < l"
      using IH by auto
    have w: "written_ids evs' = (if ?w then [?l] else []) @ written_ids evs1"
      by (simp add: written_ids_def evs')
    have gt: "?w \<Longrightarrow> \<forall>l' \<in> ?levs t. l' < ?l" using ok(6) by blast
    have "?w \<Longrightarrow> \<forall>x \<in> set (written_ids evs1). ?l < x" using tail(2) new by blast
    then show "sorted_wrt (<) (written_ids evs')"
      using tail(1) by (simp add: w)
    show "\<forall>l \<in> set (written_ids evs'). \<forall>l' \<in> ?levs t. l' < l"
    proof (cases ?w)
      case True
      then show ?thesis
        using gt tail(2) new unfolding w by (fastforce intro: less_trans)
    qed (use tail same in \<open>auto simp: w\<close>)
  qed
  have pos: "\<forall>l \<in> set (written_ids evs'). 0 < l"
  proof -
    have "\<forall>l \<in> set (written_ids evs1). 0 < l" using IH by (elim conjE)
    moreover have "?w \<Longrightarrow> 0 < ?l" using ok(6) by simp
    ultimately show ?thesis by (simp add: written_ids_def evs')
  qed
  have sub: "?levs t' \<subseteq> ?levs t \<union> set (written_ids evs')"
  proof -
    have "?levs t' \<subseteq> ?levs t1 \<union> set (written_ids evs1)" using IH by blast
    moreover have "set (written_ids evs') = (if ?w then {?l} else {}) \<union> set (written_ids evs1)"
      by (simp add: written_ids_def evs')
    moreover have "?levs t1 \<subseteq> (if ?w then {?l} else {}) \<union> ?levs t" using levs1 by (cases ?w) simp_all
    ultimately show ?thesis by blast
  qed
  have "t_payload (view t') ?l = Some (CHR 0x00 # ew_jsonStr ev')" if "?w" "?l \<in> ?levs t'"
    using IH that new ok(6) js by auto
  then have pay: "stored_payloads evs' (view t')"
    using IH by (simp add: stored_payloads_def evs')
  have keep: "\<forall>l' \<in> ?levs t' \<inter> ?levs t. t_payload (view t') l' = t_payload (view t) l'"
  proof
    fix l' assume l': "l' \<in> ?levs t' \<inter> ?levs t"
    have "set (written_ids evs1) \<subseteq> set (written_ids evs')" by (auto simp: written_ids_def evs')
    then have "l' \<notin> set (written_ids evs1)" using above l' by blast
    then have "l' \<in> ?levs t1" using IH l' by blast
    then show "t_payload (view t') l' = t_payload (view t) l'" using IH ok(7) l' by simp
  qed
  show ?case
    using IH ok(3) settled batch ids pos above sub pay keep frame_trans by (auto simp: evs')
qed

end

section \<open>The invariant of the database\<close>

text \<open>The filters of the table parse, as those that \<open>strfry negentropy add\<close> accepts do.\<close>

definition neg_parse_ok :: "libs \<Rightarrow> tables \<Rightarrow> bool" where
  "neg_parse_ok L T \<longleftrightarrow> (\<forall>(treeId, s) \<in> set (t_negFilters T). \<exists>v f. json_from_string L s = Inr v \<and>
     mkNostrFilter (from_hex L) v MAX_U64 = Inr f)"

definition store_inv :: "libs \<Rightarrow> NegentropyFilterCache \<Rightarrow> tables \<Rightarrow> bool" where
  "store_inv L c T \<longleftrightarrow> base_ok (neg_infos L T) T \<and> db_ok (events_of T) \<and> cache_inv L c T \<and>
     t_meta T \<noteq> None \<and> neg_parse_ok L T"

definition write_order :: "EventToWrite \<Rightarrow> u64 \<times> bytes" where
  "write_order ev = (pv_created_at (ew_packedStr ev), pv_id (ew_packedStr ev))"

lemma sort_events_ok:
  assumes "\<forall>ev \<in> set evs. pending ev"
  shows "sort_events evs = Inr (sort_key write_order evs)"
proof -
  have view: "\<forall>ev \<in> set evs. PackedEventView (ew_packedStr ev) = Inr (ew_packedStr ev)"
    using assms by (auto simp: pending_def wf_ev_def PackedEventView_pack)
  then have "\<exists>ps. rmap (\<lambda>ev. PackedEventView (ew_packedStr ev)) evs = Inr ps"
    by (induction evs) auto
  moreover have "evs = sort_key write_order evs" if "length evs < 2"
    using that by (cases evs) (auto simp: less_Suc_eq)
  ultimately show ?thesis
    by (auto simp: sort_events_def write_order_def [abs_def])
qed

lemma frame_inv:
  assumes "frame T T'"
  shows "neg_infos L T' = neg_infos L T" "neg_parse_ok L T' = neg_parse_ok L T"
    "cache_inv L c T' = cache_inv L c T" "t_meta T' = t_meta T"
proof -
  have "t_negFilters T' = t_negFilters T" "t_meta T' = t_meta T" using assms by (auto simp: frame_def)
  then show "neg_infos L T' = neg_infos L T" "neg_parse_ok L T' = neg_parse_ok L T"
    "cache_inv L c T' = cache_inv L c T" "t_meta T' = t_meta T"
    by (simp_all add: neg_infos_def neg_parse_ok_def cache_inv_def)
qed

lemma rmap_total: "\<forall>x \<in> set xs. \<exists>y. f x = Inr y \<Longrightarrow> \<exists>ys. rmap f xs = Inr ys"
  by (induction xs) auto

context golpe_env
begin

lemma freshenCache_total:
  assumes "store_inv L c (view t)"
  shows "\<exists>c'. freshenCache E L t c = Inr c'"
proof -
  obtain m where m: "t_meta (view t) = Some m" using assms by (auto simp: store_inv_def)
  let ?p = "\<lambda>(treeId, filter). rbind (json_from_string L filter) (\<lambda>v.
     rbind (mkNostrFilter (from_hex L) v MAX_U64) (\<lambda>f. Inr \<lparr>fi_f = f, fi_treeId = treeId\<rparr>))"
  have "\<exists>fs. rmap ?p (t_negFilters (view t)) = Inr fs"
    using assms by (intro rmap_total) (force simp: store_inv_def neg_parse_ok_def)
  then obtain fs where "rmap ?p (t_negFilters (view t)) = Inr fs" by blast
  moreover obtain st where "rfold (index_filter fs) [0..<length fs] (Map.empty, []) = Inr st"
    using index_filters_total by blast
  ultimately show ?thesis
    by (cases st) (simp add: freshenCache_def lookup_Meta foreach_NegentropyFilter m Let_def)
qed

lemma writeEvents_ok:
  assumes L: "json_ok L" and inv: "store_inv L c (view t)" and evs: "\<forall>ev \<in> set evs. pending ev"
    and r: "writeEvents E L t c evs = Inr (c', evs', t')"
  shows "store_inv L c' (view t')" and "list_all2 settled (sort_key write_order evs) evs'"
    and "batch_spec (events_of (view t)) None (map (\<lambda>ev. (ew_levId ev, ew_event ev)) evs') =
      (map ew_status evs', events_of (view t'))"
    and "sorted_wrt (<) (written_ids evs')"
    and "\<forall>l \<in> set (written_ids evs'). \<forall>l' \<in> fst ` set (t_events (view t)). l' < l"
    and "stored_payloads evs' (view t')"
    and "\<forall>l' \<in> fst ` set (t_events (view t')) \<inter> fst ` set (t_events (view t)). t_payload (view t') l' = t_payload (view t) l'"
    and "\<forall>l \<in> set (written_ids evs'). 0 < l"
proof -
  from r have fr: "freshenCache E L t c = Inr c'"
    and loop: "write_loop E (updateNegentropy E c') None (sort_key write_order evs) t [] = Inr (evs', t')"
    by (auto simp: writeEvents_def sort_events_ok [OF evs] ctx_def)
  have c': "wf_cache c'" "set (nc_filters c') = neg_infos L (view t)" "cache_inv L c' (view t)"
    using freshenCache_wf [OF _ L fr] inv by (auto simp: store_inv_def)
  have base: "base_ok (set (nc_filters c')) (view t)" and db: "db_ok (events_of (view t))"
    using inv c'(2) by (simp_all add: store_inv_def)
  have evs2: "\<forall>ev \<in> set (sort_key write_order evs). pending ev" using evs by simp
  note ok = write_loop_ok [OF c'(1) base db evs2 loop]
  then have f: "frame (view t) (view t')" by blast
  then show "store_inv L c' (view t')"
    using ok inv c'(2,3) by (simp add: store_inv_def frame_inv [OF f])
  show "list_all2 settled (sort_key write_order evs) evs'" "sorted_wrt (<) (written_ids evs')"
    "\<forall>l \<in> set (written_ids evs'). 0 < l"
    "\<forall>l \<in> set (written_ids evs'). \<forall>l' \<in> fst ` set (t_events (view t)). l' < l" "stored_payloads evs' (view t')"
    "\<forall>l' \<in> fst ` set (t_events (view t')) \<inter> fst ` set (t_events (view t)). t_payload (view t') l' = t_payload (view t) l'"
    "batch_spec (events_of (view t)) None (map (\<lambda>ev. (ew_levId ev, ew_event ev)) evs') =
      (map ew_status evs', events_of (view t'))"
    using ok by simp_all
qed

lemma writeEvents_storage_only:
  assumes L: "json_ok L" and inv: "store_inv L c (view t)" and evs: "\<forall>ev \<in> set evs. pending ev"
  shows "storage_only (writeEvents E L t c evs)"
proof -
  obtain c' where fr: "freshenCache E L t c = Inr c'" using freshenCache_total [OF inv] by blast
  have c': "wf_cache c'" "set (nc_filters c') = neg_infos L (view t)"
    using freshenCache_wf [OF _ L fr] inv by (auto simp: store_inv_def)
  have "storage_only (write_loop E (updateNegentropy E c') None (sort_key write_order evs) t [])"
    using inv evs c' by (intro write_loop_storage_only) (simp_all add: store_inv_def)
  then show ?thesis
    by (simp add: writeEvents_def sort_events_ok [OF evs] ctx_def fr)
qed

lemma deleteEvents_inv:
  assumes L: "json_ok L" and inv: "store_inv L c (view t)"
    and r: "deleteEvents E L t c ls = Inr (c', n, t')"
  shows "store_inv L c' (view t')"
    and "events_of (view t') = filter (\<lambda>x. fst x \<notin> set ls) (events_of (view t))"
    and "n = of_nat (card (set ls \<inter> fst ` set (t_events (view t))))"
proof -
  have ok: "base_ok (neg_infos L (view t')) (view t') \<and> cache_inv L c' (view t') \<and>
    events_of (view t') = filter (\<lambda>x. fst x \<notin> set ls) (events_of (view t)) \<and> frame (view t) (view t') \<and>
    n = of_nat (card (set ls \<inter> fst ` set (t_events (view t))))"
    using inv by (intro deleteEvents_ok [OF _ L _ r]) (simp_all add: store_inv_def)
  then have f: "frame (view t) (view t')" by blast
  show "store_inv L c' (view t')"
    using ok inv frame_inv(2,4) [OF f] db_ok_subset [of "events_of (view t)" "\<lambda>x. fst x \<notin> set ls"]
    by (simp add: store_inv_def)
  show "events_of (view t') = filter (\<lambda>x. fst x \<notin> set ls) (events_of (view t))"
    "n = of_nat (card (set ls \<inter> fst ` set (t_events (view t))))"
    using ok by blast+
qed

end

section \<open>Properties\<close>

text \<open>A database with one negentropy tree for all events, and an event to be written.\<close>

definition sample_tables :: tables where
  "sample_tables = \<lparr>t_events = [], t_payload = Map.empty,
     t_meta = Some \<lparr>dbVersion = 3, endianness = 1, negentropyModificationCounter = 1\<rparr>,
     t_negFilters = [(1, ''{}'')], t_trees = (\<lambda>_. {})\<rparr>"

definition sample_write :: EventToWrite where
  "sample_write = mkEventToWrite sample_packed ''{}'' 7 ''''"

lemma json_ok_sample [simp]: "json_ok sample_libs"
  by (simp add: json_ok_def sample_libs_def)

lemma sample_pending [simp]: "pending sample_write"
  using sample_wf
  by (auto simp: pending_def sample_write_def mkEventToWrite_def sample_packed_def wf_ev_def fixed_tags_def sample_ev_def)

lemma sample_filter: "\<exists>f. mkNostrFilter h (JObject []) lim = Inr f"
  by (simp add: mkNostrFilter_def Let_def empty_filter_def)

lemma store_inv_sample [simp]: "store_inv sample_libs new_NegentropyFilterCache sample_tables"
proof -
  have ev: "events_of sample_tables = []" by (simp add: events_of_def sample_tables_def)
  have "inj_on fi_treeId (neg_infos sample_libs sample_tables)"
    by (rule neg_infos_inj) (simp add: sample_tables_def)
  then have "trees_ok (neg_infos sample_libs sample_tables) sample_tables"
    by (simp add: trees_ok_def items_def ev) (simp add: sample_tables_def)
  then have "base_ok (neg_infos sample_libs sample_tables) sample_tables"
    by (simp add: base_ok_def ev unique_ids_def) (simp add: wf_store_def tables_ok_def sample_tables_def)
  moreover have "cache_inv sample_libs new_NegentropyFilterCache sample_tables"
    by (simp add: cache_inv_def) (simp add: sample_tables_def new_NegentropyFilterCache_def)
  moreover have "neg_parse_ok sample_libs sample_tables"
    using sample_filter by (simp add: neg_parse_ok_def sample_tables_def sample_libs_def)
  ultimately show ?thesis
    by (simp add: store_inv_def ev db_ok_def unique_ids_def) (simp add: sample_tables_def)
qed

lemma mem_tryFilters:
  "\<forall>i \<in> set is. wf_filter (fi_f (nc_filters c ! i)) \<Longrightarrow> wf_event e \<Longrightarrow>
   \<exists>T'. rfold (tryFilter mem_env c (pack e) ins) is T = Inr T'"
  by (induction "is" arbitrary: T) (auto simp: tryFilter_def nf_doesMatch_pack Let_def mem_env_def)

lemma mem_updateNegentropy:
  assumes "wf_cache c" and "wf_event e"
  shows "\<exists>T'. updateNegentropy mem_env c (pack e) ins T = Inr T'"
proof -
  have "updateNegentropy mem_env c (pack e) ins T =
    rfold (tryFilter mem_env c (pack e) ins) (kind_idxs (kindToFilterIdx c) (ev_kind e) @ noKindFilterIdxs c) T"
    using assms(2) by (simp add: updateNegentropy_def rfold_append packed_simps kind_idxs_def split: option.splits)
  then show ?thesis
    using mem_tryFilters [OF _ assms(2)] mem.idxs_wf [OF assms(1)] by auto
qed

text \<open>Writing the event into the empty database succeeds.\<close>

lemma sample_written:
  "\<exists>c' ev' T'. writeEvents mem_env sample_libs sample_tables new_NegentropyFilterCache [sample_write] = Inr (c', [ev'], T') \<and>
     ew_status ev' = Written \<and> events_of T' = [(ew_levId ev', sample_ev)]"
proof -
  let ?T = sample_tables
  have pk: "ew_packedStr sample_write = pack sample_ev" and st: "ew_status sample_write = Pending"
    by (simp_all add: sample_write_def mkEventToWrite_def sample_packed_def)
  have wfe: "wf_ev sample_ev" using sample_wf by (simp add: wf_ev_def fixed_tags_def sample_ev_def)
  obtain c' where c': "freshenCache mem_env sample_libs ?T new_NegentropyFilterCache = Inr c'"
    using mem.freshenCache_total [OF store_inv_sample] by blast
  have wfc: "wf_cache c'" and F: "set (nc_filters c') = neg_infos sample_libs ?T"
    using mem.freshenCache_wf [OF _ json_ok_sample c'] store_inv_sample by (auto simp: store_inv_def)
  have base: "base_ok (set (nc_filters c')) ?T" and db: "db_ok (events_of ?T)"
    using store_inv_sample F by (simp_all add: store_inv_def)
  have none: "events_of ?T = []" by (simp add: events_of_def sample_tables_def)
  have "write_status (events_of ?T) None sample_ev = Written" by (simp add: none write_status_def)
  with mem.write_event_eq [OF base db wfe pk st refl, of None "updateNegentropy mem_env c'"]
  obtain ls where "set ls = {}" and w: "write_event mem_env (updateNegentropy mem_env c') None sample_write ?T [] =
      rbind (write_pending mem_env (updateNegentropy mem_env c') sample_write ?T ls) (\<lambda>(ev, t). Inr (ev, t, []))"
    by (auto simp: none)
  then have ls: "ls = []" by simp
  have "\<exists>T'. write_pending mem_env (updateNegentropy mem_env c') sample_write ?T [] =
      Inr (sample_write\<lparr>ew_status := Written, ew_levId := 1\<rparr>, T')"
    using indexPrelude_pack_Inr [OF sample_wf] mem_updateNegentropy [OF wfc sample_wf, of True]
    by (auto simp: write_pending_def pk mem_env_def mem_insert_Event_def Let_def sample_tables_def)
  then obtain T' where T': "write_event mem_env (updateNegentropy mem_env c') None sample_write ?T [] =
      Inr (sample_write\<lparr>ew_status := Written, ew_levId := 1\<rparr>, T', [])"
    unfolding w ls by auto
  have "events_of T' = [(1, sample_ev)]"
    using mem.write_event_ok(5) [OF wfc base db wfe pk st T'] by (simp add: none write_spec_def write_status_def)
  then show ?thesis
    by (simp add: writeEvents_def sort_events_def ctx_def c' T')
qed

text \<open>C1: Writing a batch does what the specification says: the events are taken in the order of
  their timestamp and id, each gets the status the specification gives it (duplicate, deleted,
  superseded or written), and the stored events afterwards are those of the specification.  The
  other fields of the events do not change.\<close>

theorem writeEvents_refines:
  assumes "golpe_env E view" and "json_ok L" and "store_inv L c (view t)" and "\<forall>ev \<in> set evs. pending ev"
    and "writeEvents E L t c evs = Inr (c', evs', t')"
  shows "list_all2 settled (sort_key write_order evs) evs' \<and>
    batch_spec (events_of (view t)) None (map (\<lambda>ev. (ew_levId ev, ew_event ev)) evs') =
      (map ew_status evs', events_of (view t'))"
  using golpe_env.writeEvents_ok(2,3) [OF assms] by simp

theorem writeEvents_refines_witness:
  "\<exists>c' evs' T'. writeEvents mem_env sample_libs sample_tables new_NegentropyFilterCache [sample_write] = Inr (c', evs', T') \<and>
     batch_spec [] None (map (\<lambda>ev. (ew_levId ev, ew_event ev)) evs') = (map ew_status evs', events_of T')"
proof -
  obtain c' ev' T' where w: "writeEvents mem_env sample_libs sample_tables new_NegentropyFilterCache [sample_write] = Inr (c', [ev'], T')"
    using sample_written by blast
  have "events_of sample_tables = []" by (simp add: events_of_def sample_tables_def)
  with writeEvents_refines [OF mem.golpe_env_axioms json_ok_sample store_inv_sample _ w] w show ?thesis
    by auto
qed

text \<open>C2: Writing a batch keeps the invariant of the database: well-formed events with unique
  ids and increasing primary keys, a payload for every event and for nothing else, negentropy
  trees that hold exactly the stored events their filter matches, at most one event per
  replaceable address, and no event that another stored event deletes.\<close>

theorem writeEvents_invariant:
  assumes "golpe_env E view" and "json_ok L" and "store_inv L c (view t)" and "\<forall>ev \<in> set evs. pending ev"
    and "writeEvents E L t c evs = Inr (c', evs', t')"
  shows "store_inv L c' (view t')"
  using golpe_env.writeEvents_ok(1) [OF assms] .

theorem writeEvents_invariant_witness:
  "\<exists>c' evs' T'. writeEvents mem_env sample_libs sample_tables new_NegentropyFilterCache [sample_write] = Inr (c', evs', T') \<and>
     store_inv sample_libs c' T'"
proof -
  obtain c' ev' T' where w: "writeEvents mem_env sample_libs sample_tables new_NegentropyFilterCache [sample_write] = Inr (c', [ev'], T')"
    using sample_written by blast
  with writeEvents_invariant [OF mem.golpe_env_axioms json_ok_sample store_inv_sample _ w] show ?thesis
    by auto
qed

text \<open>C25: On a database that satisfies the invariant a batch of parsed events can fail only with
  an exception of the storage engine; in particular the error \<open>unprocessed deletion\<close> is never
  thrown.\<close>

theorem writeEvents_errors:
  assumes "golpe_env E view" and "json_ok L" and "store_inv L c (view t)" and "\<forall>ev \<in> set evs. pending ev"
  shows "case writeEvents E L t c evs of Inl x \<Rightarrow> \<exists>m. x = StorageError m | Inr _ \<Rightarrow> True"
  using golpe_env.writeEvents_storage_only [OF assms] by (auto simp: storage_only_def split: sum.splits)

theorem writeEvents_errors_witness:
  "case writeEvents mem_env sample_libs sample_tables new_NegentropyFilterCache [sample_write, sample_write] of
     Inl x \<Rightarrow> \<exists>m. x = StorageError m | Inr _ \<Rightarrow> True"
  using writeEvents_errors [OF mem.golpe_env_axioms json_ok_sample store_inv_sample, of "[sample_write, sample_write]"]
  by simp

text \<open>C26: The primary keys given to the written events are larger than every key in the table and
  strictly increasing in the order of writing, although events are deleted on the way.\<close>

theorem writeEvents_fresh:
  assumes "golpe_env E view" and "json_ok L" and "store_inv L c (view t)" and "\<forall>ev \<in> set evs. pending ev"
    and "writeEvents E L t c evs = Inr (c', evs', t')"
  shows "sorted_wrt (<) (written_ids evs') \<and> (\<forall>l \<in> set (written_ids evs'). getMostRecentLevId E t < l)"
proof -
  have wf: "wf_store (view t)" using assms(3) by (simp add: store_inv_def base_ok_def)
  have pos: "\<forall>l \<in> set (written_ids evs'). 0 < l"
    using golpe_env.writeEvents_ok(8) [OF assms] .
  note ok = golpe_env.writeEvents_ok(4,5) [OF assms]
  then show ?thesis
    using pos by (auto simp: golpe_env.getMostRecentLevId_ok [OF assms(1) wf_store_ok [OF wf]])
qed

theorem writeEvents_fresh_witness:
  "\<exists>c' evs' T'. writeEvents mem_env sample_libs sample_tables new_NegentropyFilterCache [sample_write] = Inr (c', evs', T') \<and>
     written_ids evs' \<noteq> [] \<and> (\<forall>l \<in> set (written_ids evs'). getMostRecentLevId mem_env sample_tables < l)"
proof -
  obtain c' ev' T' where w: "writeEvents mem_env sample_libs sample_tables new_NegentropyFilterCache [sample_write] = Inr (c', [ev'], T')"
    and "ew_status ev' = Written"
    using sample_written by blast
  with writeEvents_fresh [OF mem.golpe_env_axioms json_ok_sample store_inv_sample _ w] show ?thesis
    by (auto simp: written_ids_def)
qed

text \<open>C27: The JSON text of a written event that is still stored after the batch can be read back, and
  the JSON of the events that were stored before and still are has not changed.\<close>

theorem written_json_readable:
  assumes "golpe_env E view" and "json_ok L" and "store_inv L c (view t)" and "\<forall>ev \<in> set evs. pending ev"
    and "writeEvents E L t c evs = Inr (c', evs', t')" and "(l, e) \<in> set (events_of (view t'))"
  shows "(\<forall>ev \<in> set evs'. ew_status ev = Written \<and> ew_levId ev = l \<longrightarrow> getEventJson E dc t' l = Inr (ew_jsonStr ev)) \<and>
    (l \<in> fst ` set (events_of (view t)) \<longrightarrow> getEventJson E dc t' l = getEventJson E dc t l)"
proof -
  note get = golpe_env.payload_get [OF assms(1)]
  have l: "l \<in> fst ` set (t_events (view t'))"
    using assms(6) by (force simp flip: levs_events_of)
  have "getEventJson E dc t' l = Inr (ew_jsonStr ev)" if "ev \<in> set evs'" "ew_status ev = Written" "ew_levId ev = l" for ev
    using golpe_env.writeEvents_ok(6) [OF assms(1-5)] that l
    by (auto simp: stored_payloads_def getEventJson_def get decodeEventPayload_def)
  moreover have "getEventJson E dc t' l = getEventJson E dc t l" if "l \<in> fst ` set (events_of (view t))"
    using golpe_env.writeEvents_ok(7) [OF assms(1-5)] that l
    by (simp add: levs_events_of getEventJson_def get)
  ultimately show ?thesis by blast
qed

theorem written_json_readable_witness:
  "\<exists>c' ev' T'. writeEvents mem_env sample_libs sample_tables new_NegentropyFilterCache [sample_write] = Inr (c', [ev'], T') \<and>
     getEventJson mem_env (\<lambda>_. Inr) T' (ew_levId ev') = Inr (ew_jsonStr ev')"
proof -
  obtain c' ev' T' where w: "writeEvents mem_env sample_libs sample_tables new_NegentropyFilterCache [sample_write] = Inr (c', [ev'], T')"
    and "ew_status ev' = Written" "(ew_levId ev', sample_ev) \<in> set (events_of T')"
    using sample_written by auto
  with written_json_readable [OF mem.golpe_env_axioms json_ok_sample store_inv_sample _ w, of "ew_levId ev'" sample_ev "\<lambda>_. Inr"]
  show ?thesis by auto
qed

lemma one_per_addressD:
  "one_per_address D \<Longrightarrow> (l, e) \<in> set D \<Longrightarrow> (l', f) \<in> set D \<Longrightarrow> same_address e f \<Longrightarrow> l = l'"
  by (fastforce simp: one_per_address_def)

text \<open>C21: When a replaceable event that is new and not deleted is written, the one event stored at
  its address afterwards is the newest of those that were there and the event itself: the one
  with the largest timestamp, and among equal timestamps the one with the smallest id.\<close>

theorem newest_wins:
  assumes "golpe_env E view" and "json_ok L" and "store_inv L c (view t)" and "pending ev"
    and "writeEvents E L t c [ev] = Inr (c', evs', t')" and "replace_key (ew_event ev) \<noteq> None"
    and "\<forall>(l, f) \<in> set (events_of (view t)). ev_id f \<noteq> ev_id (ew_event ev) \<and> \<not> deletes f (ew_event ev)"
  shows "\<exists>l f. (l, f) \<in> set (events_of (view t')) \<and> same_address (ew_event ev) f \<and>
    (\<forall>(l', g) \<in> set (events_of (view t')). same_address (ew_event ev) g \<longrightarrow> l' = l) \<and>
    (f = ew_event ev \<or> supersedes f (ew_event ev)) \<and>
    (\<forall>(l', g) \<in> set (events_of (view t)). same_address (ew_event ev) g \<longrightarrow> g = f \<or> supersedes f g)"
proof -
  let ?e = "ew_event ev" and ?D = "events_of (view t)" and ?D' = "events_of (view t')"
  have pend: "\<forall>ev \<in> set [ev]. pending ev" using assms(4) by simp
  note ok = golpe_env.writeEvents_ok [OF assms(1-3) pend assms(5)]
  from ok(2) obtain ev' where evs': "evs' = [ev']" and "settled ev ev'" by (auto simp: list_all2_Cons1)
  then have e': "ew_event ev' = ?e" unfolding settled_def ew_event_def
    by (metis EventToWrite.select_convs(1) EventToWrite.surjective EventToWrite.update_convs(5,6))
  have D': "?D' = write_spec ?D None (ew_levId ev') ?e"
    using ok(3) by (simp add: evs' e')
  have one: "one_per_address ?D'" "one_per_address ?D"
    using ok(1) assms(3) by (auto simp: store_inv_def intro: one_per_addressI)
  have self: "same_address ?e ?e" using assms(6) by (simp add: same_address_def)
  have uniq: "l' = l" if "(l, f) \<in> set ?D'" "same_address ?e f" "(l', g) \<in> set ?D'" "same_address ?e g" for l f l' g
    using one_per_addressD [OF one(1) that(1,3)] same_address_trans [OF that(2,4)] by simp
  show ?thesis
  proof (cases "\<exists>(l, f) \<in> set ?D. same_address ?e f \<and> \<not> supersedes ?e f")
    case True
    then obtain l f where f: "(l, f) \<in> set ?D" "same_address ?e f" "\<not> supersedes ?e f" by blast
    have "write_status ?D None ?e = Replaced" using True assms(7) by (auto simp: write_status_def)
    then have same: "?D' = ?D" unfolding D' by (simp add: write_spec_def)
    have "ev_id f \<noteq> ev_id ?e" using assms(7) f(1) by blast
    then have "supersedes f ?e" using f(3) unfolding supersedes_def by (metis linorder_neqE)
    moreover have "g = f" if "(l', g) \<in> set ?D" "same_address ?e g" for l' g
    proof -
      have "l' = l" using uniq [of l f l' g] f(1,2) that by (simp only: same)
      moreover have "tables_ok (view t)" using assms(3) by (simp add: store_inv_def base_ok_def)
      ultimately show ?thesis using events_of_same_levId f(1) that(1) by blast
    qed
    ultimately show ?thesis using f(1,2) uniq unfolding same by blast
  next
    case False
    then have "write_status ?D None ?e = Written" using assms(7) by (auto simp: write_status_def)
    then have "(ew_levId ev', ?e) \<in> set ?D'" by (simp add: D' write_spec_def)
    with False self uniq show ?thesis by blast
  qed
qed

theorem newest_wins_witness:
  "\<exists>c' evs' T'. writeEvents mem_env sample_libs sample_tables new_NegentropyFilterCache [sample_write] = Inr (c', evs', T') \<and>
     (\<exists>l f. (l, f) \<in> set (events_of T') \<and> same_address (ew_event sample_write) f)"
proof -
  obtain c' ev' T' where w: "writeEvents mem_env sample_libs sample_tables new_NegentropyFilterCache [sample_write] = Inr (c', [ev'], T')"
    using sample_written by blast
  have e: "ew_event sample_write = sample_ev"
    by (simp add: ew_event_def sample_write_def mkEventToWrite_def sample_packed_def unpack_wf_event [OF sample_wf])
  have "replace_key (ew_event sample_write) \<noteq> None"
    unfolding e by (simp add: replace_key_def sample_ev_def isParamReplaceable_def d_tags_def)
  moreover have "events_of sample_tables = []" by (simp add: events_of_def sample_tables_def)
  ultimately show ?thesis
    using newest_wins [OF mem.golpe_env_axioms json_ok_sample store_inv_sample sample_pending w] w by auto
qed

text \<open>Deleting a list of primary keys removes exactly the events with these keys, counts each
  of them once even when its key is listed twice or no longer stored, and keeps the invariant of
  the database.\<close>

theorem deleteEvents_exact:
  assumes "golpe_env E view" and "json_ok L" and "store_inv L c (view t)"
    and "deleteEvents E L t c ls = Inr (c', n, t')"
  shows "events_of (view t') = filter (\<lambda>x. fst x \<notin> set ls) (events_of (view t)) \<and>
    n = of_nat (card (set ls \<inter> fst ` set (events_of (view t)))) \<and> store_inv L c' (view t')"
  using golpe_env.deleteEvents_inv [OF assms] by (simp add: levs_events_of)

theorem deleteEvents_exact_witness:
  "\<exists>c' T'. deleteEvents mem_env sample_libs sample_tables new_NegentropyFilterCache [4, 4] = Inr (c', 0, T') \<and>
     store_inv sample_libs c' T'"
proof -
  obtain c' where c': "freshenCache mem_env sample_libs sample_tables new_NegentropyFilterCache = Inr c'"
    using mem.freshenCache_total [OF store_inv_sample] by blast
  have "lookup_Event mem_env sample_tables 4 = None" by (simp add: mem_env_def sample_tables_def)
  then have d: "deleteEvents mem_env sample_libs sample_tables new_NegentropyFilterCache [4, 4] = Inr (c', 0, sample_tables)"
    by (simp add: deleteEvents_def ctx_def c' delete_lev_def)
  with deleteEvents_exact [OF mem.golpe_env_axioms json_ok_sample store_inv_sample d] show ?thesis by auto
qed

text \<open>C28: Updating the negentropy trees through the index by kind changes exactly the trees whose
  filter matches the event: the event's timestamp and id go in, or out, and every other tree and
  table stays as it is.\<close>

theorem negentropy_dispatch:
  assumes "golpe_env E view" and "json_ok L" and "cache_inv L c (view t)" and "freshenCache E L t c = Inr c'"
    and "wf_event e" and "updateNegentropy E c' (pack e) ins t = Inr t'"
  shows "view t' = (view t)\<lparr>t_trees := \<lambda>tid.
    if \<exists>fi \<in> neg_infos L (view t). fi_treeId fi = tid \<and> matches (fi_f fi) e
    then (if ins then insert (ev_created_at e, ev_id e) (t_trees (view t) tid)
          else t_trees (view t) tid - {(ev_created_at e, ev_id e)})
    else t_trees (view t) tid\<rparr>"
proof -
  have c': "wf_cache c'" "set (nc_filters c') = neg_infos L (view t)"
    using golpe_env.freshenCache_wf [OF assms(1,3,2,4)] by auto
  show ?thesis
    using golpe_env.updateNegentropy_wf [OF assms(1) c'(1) assms(5,6)]
    unfolding c'(2) neg_apply_def tree_upd_def .
qed

theorem negentropy_dispatch_witness:
  "\<exists>c' T'. freshenCache mem_env sample_libs sample_tables new_NegentropyFilterCache = Inr c' \<and>
     updateNegentropy mem_env c' (pack sample_ev) True sample_tables = Inr T' \<and> t_events T' = []"
proof -
  obtain c' where c': "freshenCache mem_env sample_libs sample_tables new_NegentropyFilterCache = Inr c'"
    using mem.freshenCache_total [OF store_inv_sample] by blast
  have inv: "cache_inv sample_libs new_NegentropyFilterCache sample_tables"
    using store_inv_sample by (simp add: store_inv_def)
  have "wf_cache c'" using mem.freshenCache_wf [OF inv json_ok_sample c'] by simp
  then obtain T' where T': "updateNegentropy mem_env c' (pack sample_ev) True sample_tables = Inr T'"
    using mem_updateNegentropy sample_wf by blast
  with negentropy_dispatch [OF mem.golpe_env_axioms json_ok_sample inv c' sample_wf T'] c' show ?thesis
    by (auto simp: sample_tables_def)
qed

text \<open>A database with an old event, which expires, and a newer one.\<close>

definition cron_tables :: tables where
  "cron_tables = \<lparr>t_events = [(1, pack (sample_event\<lparr>ev_id := replicate 32 (CHR ''z''), ev_created_at := 900, ev_expiration := 500\<rparr>)), (2, pack sample_event)],
     t_payload = [1 \<mapsto> ''x'', 2 \<mapsto> ''y''], t_meta = Some \<lparr>dbVersion = 3, endianness = 1, negentropyModificationCounter = 1\<rparr>,
     t_negFilters = [], t_trees = (\<lambda>_. {})\<rparr>"

lemma cron_sample_wf [simp]: "wf_event (sample_event\<lparr>ev_id := replicate 32 (CHR ''z''), ev_created_at := 900, ev_expiration := 500\<rparr>)"
  by (simp add: wf_event_def sample_event_def)

lemma cron_events: "events_of cron_tables = [(1, sample_event\<lparr>ev_id := replicate 32 (CHR ''z''), ev_created_at := 900, ev_expiration := 500\<rparr>), (2, sample_event)]"
  by (simp add: events_of_def cron_tables_def)

lemma cron_store_inv: "store_inv sample_libs new_NegentropyFilterCache cron_tables"
proof -
  have "neg_infos sample_libs cron_tables = {}" by (simp add: neg_infos_def cron_tables_def)
  moreover have "wf_store cron_tables" by (simp add: wf_store_def tables_ok_def cron_tables_def wf_packed_pack)
  moreover have "unique_ids (events_of cron_tables)" by (simp add: unique_ids_def cron_events sample_event_def)
  moreover have "dom (t_payload cron_tables) = fst ` set (t_events cron_tables)" by (auto simp: cron_tables_def)
  moreover have "cache_inv sample_libs new_NegentropyFilterCache cron_tables"
    by (simp add: cache_inv_def) (simp add: cron_tables_def new_NegentropyFilterCache_def)
  moreover have "db_ok (events_of cron_tables)"
    using calculation(3) by (simp add: db_ok_def cron_events wf_ev_def fixed_tags_def same_address_def deletes_def) (simp add: sample_event_def isReplaceable_def isParamReplaceable_def replace_key_def d_tags_def)
  moreover have "neg_parse_ok sample_libs cron_tables" "t_meta cron_tables \<noteq> None" by (simp_all add: neg_parse_ok_def cron_tables_def)
  ultimately show ?thesis by (simp add: store_inv_def base_ok_def trees_ok_def)
qed

end
