(* ===== verification/Subscription.thy ===== *)
theory Subscription
  imports NostrFilter EventsParse
begin

text \<open>
  \<open>src/Subscription.h\<close> and \<open>src/EphemeralSubTracker.h\<close>: subscription ids, subscriptions, and the
  reference counts by which the ingester knows whether anyone listens for an ephemeral kind.
  The mutex of the tracker makes each of its operations one step.
\<close>

section \<open>Subscription ids\<close>

definition MAX_SUBID_SIZE :: nat where
  "MAX_SUBID_SIZE = 64"

text \<open>The buffer as far as it is written: a length byte and the characters.\<close>

datatype SubId = SubId (subid_buf: bytes)

text \<open>\<open>char\<close> is signed: a byte from 128 on is negative and so less than a space.\<close>

definition signed_char :: "char \<Rightarrow> int" where
  "signed_char c = (if (of_char c :: nat) < 128 then int (of_char c) else int (of_char c) - 256)"

definition badChar :: "char \<Rightarrow> bool" where
  "badChar c \<longleftrightarrow> signed_char c < 0x20 \<or> c = CHR 0x5C \<or> c = CHR 0x22 \<or> signed_char c \<ge> 0x7F"

definition mkSubId :: "string \<Rightarrow> SubId result" where
  "mkSubId val =
     (if val = [] \<or> length val > MAX_SUBID_SIZE then Inl (Herr ''invalid subscription id length'')
      else if list_ex badChar val then Inl (Herr ''invalid character in subscription id'')
      else Inr (SubId (char_of (length val) # val)))"

definition subid_sv :: "SubId \<Rightarrow> string" where
  "subid_sv s = take (of_char (subid_buf s ! 0)) (drop 1 (subid_buf s))"

section \<open>Subscriptions\<close>

record Subscription =
  sub_connId :: u64
  sub_subId :: SubId
  sub_filterGroup :: NostrFilterGroup
  sub_countOnly :: bool
  sub_latestEventId :: u64

definition mkSubscription :: "u64 \<Rightarrow> string \<Rightarrow> NostrFilterGroup \<Rightarrow> bool \<Rightarrow> Subscription result" where
  "mkSubscription connId subId filterGroup countOnly =
     rbind (mkSubId subId) (\<lambda>sid. Inr \<lparr>sub_connId = connId, sub_subId = sid, sub_filterGroup = filterGroup,
       sub_countOnly = countOnly, sub_latestEventId = MAX_U64\<rparr>)"

section \<open>The tracker of ephemeral subscriptions\<close>

record EphemeralSubTracker =
  kindRefcounts :: "u64 \<Rightarrow> u64 option"
  catchAllCount :: u64

definition new_EphemeralSubTracker :: EphemeralSubTracker where
  "new_EphemeralSubTracker = \<lparr>kindRefcounts = Map.empty, catchAllCount = 0\<rparr>"

definition hasSubscribersForKind :: "EphemeralSubTracker \<Rightarrow> u64 \<Rightarrow> bool" where
  "hasSubscribersForKind t kind \<longleftrightarrow> catchAllCount t > 0 \<or> kindRefcounts t kind \<noteq> None"

definition addKind :: "u64 \<Rightarrow> EphemeralSubTracker \<Rightarrow> EphemeralSubTracker" where
  "addKind kind t = t\<lparr>kindRefcounts := (kindRefcounts t)(kind \<mapsto>
     (case kindRefcounts t kind of None \<Rightarrow> 0 | Some n \<Rightarrow> n) + 1)\<rparr>"

definition removeKind :: "u64 \<Rightarrow> EphemeralSubTracker \<Rightarrow> EphemeralSubTracker" where
  "removeKind kind t =
     (case kindRefcounts t kind of
        None \<Rightarrow> t
      | Some n \<Rightarrow>
          if n - 1 = 0 then t\<lparr>kindRefcounts := (kindRefcounts t)(kind := None)\<rparr>
          else t\<lparr>kindRefcounts := (kindRefcounts t)(kind \<mapsto> n - 1)\<rparr>)"

definition addCatchAll :: "EphemeralSubTracker \<Rightarrow> EphemeralSubTracker" where
  "addCatchAll t = t\<lparr>catchAllCount := catchAllCount t + 1\<rparr>"

definition removeCatchAll :: "EphemeralSubTracker \<Rightarrow> EphemeralSubTracker" where
  "removeCatchAll t = (if catchAllCount t > 0 then t\<lparr>catchAllCount := catchAllCount t - 1\<rparr> else t)"

section \<open>Reference counts\<close>

text \<open>What a client of a reference count relies on, as long as no counter overflows.\<close>

locale refcount =
  fixes add :: "'k \<Rightarrow> 't \<Rightarrow> 't"
    and remove :: "'k \<Rightarrow> 't \<Rightarrow> 't"
    and held :: "'t \<Rightarrow> 'k \<Rightarrow> bool"
    and cnt :: "'t \<Rightarrow> 'k \<Rightarrow> nat"
    and ok :: "'t \<Rightarrow> bool"
    and lim :: nat
  assumes held_iff: "ok t \<Longrightarrow> held t k \<longleftrightarrow> 0 < cnt t k"
    and cnt_add: "ok t \<Longrightarrow> cnt t k < lim \<Longrightarrow> cnt (add k t) k' = cnt t k' + (if k' = k then 1 else 0)"
    and ok_add: "ok t \<Longrightarrow> cnt t k < lim \<Longrightarrow> ok (add k t)"
    and cnt_remove: "ok t \<Longrightarrow> 0 < cnt t k \<Longrightarrow> cnt (remove k t) k' = cnt t k' - (if k' = k then 1 else 0)"
    and ok_remove: "ok t \<Longrightarrow> ok (remove k t)"
begin

lemma add_all:
  "ok t \<Longrightarrow> \<forall>k. cnt t k + count_list ks k \<le> lim \<Longrightarrow>
   ok (fold add ks t) \<and> (\<forall>k. cnt (fold add ks t) k = cnt t k + count_list ks k)"
proof (induction ks arbitrary: t)
  case (Cons x ks)
  have x: "cnt t x < lim" using Cons.prems(2) [rule_format, of x] by simp
  have "ok (add x t)" and c: "\<And>k. cnt (add x t) k = cnt t k + (if k = x then 1 else 0)"
    using ok_add [OF Cons.prems(1) x] cnt_add [OF Cons.prems(1) x] by auto
  moreover have "\<forall>k. cnt (add x t) k + count_list ks k \<le> lim"
    using Cons.prems(2) by (auto simp: c split: if_splits)
  ultimately show ?case using Cons.IH [of "add x t"] by (auto simp: c)
qed simp

lemma remove_all:
  "ok t \<Longrightarrow> \<forall>k. count_list ks k \<le> cnt t k \<Longrightarrow>
   ok (fold remove ks t) \<and> (\<forall>k. cnt (fold remove ks t) k = cnt t k - count_list ks k)"
proof (induction ks arbitrary: t)
  case (Cons x ks)
  have x: "0 < cnt t x" using Cons.prems(2) [rule_format, of x] by simp
  have "ok (remove x t)" and c: "\<And>k. cnt (remove x t) k = cnt t k - (if k = x then 1 else 0)"
    using ok_remove [OF Cons.prems(1)] cnt_remove [OF Cons.prems(1) x] by auto
  moreover have "\<forall>k. count_list ks k \<le> cnt (remove x t) k"
  proof
    fix k show "count_list ks k \<le> cnt (remove x t) k"
      using Cons.prems(2) [rule_format, of k] by (auto simp: c split: if_splits)
  qed
  ultimately show ?case using Cons.IH [of "remove x t"] by (auto simp: c)
qed simp

end

definition kind_cnt :: "EphemeralSubTracker \<Rightarrow> u64 \<Rightarrow> nat" where
  "kind_cnt t k = (case kindRefcounts t k of None \<Rightarrow> 0 | Some n \<Rightarrow> unat n)"

definition counts_ok :: "EphemeralSubTracker \<Rightarrow> bool" where
  "counts_ok t \<longleftrightarrow> (\<forall>k n. kindRefcounts t k = Some n \<longrightarrow> n \<noteq> 0)"

lemma unat_Suc: "unat (n :: u64) < 2 ^ 64 - 1 \<Longrightarrow> unat (n + 1) = unat n + 1"
  by (simp add: unat_plus_if')

lemma unat_pred: "n \<noteq> 0 \<Longrightarrow> unat (n - 1 :: u64) = unat n - 1"
  by (metis measure_unat diff_Suc_1 unat_minus_one)

interpretation kinds: refcount addKind removeKind "\<lambda>t k. kindRefcounts t k \<noteq> None" kind_cnt counts_ok "2 ^ 64 - 1"
proof unfold_locales
  fix t k k' assume ok: "counts_ok t"
  show "kindRefcounts t k \<noteq> None \<longleftrightarrow> 0 < kind_cnt t k"
    using ok by (auto simp: counts_ok_def kind_cnt_def unat_gt_0 split: option.splits)
  show "counts_ok (removeKind k t)"
    using ok by (auto simp: counts_ok_def removeKind_def split: option.splits if_splits)
  assume small: "kind_cnt t k < 2 ^ 64 - 1"
  have suc: "unat (n + 1) = unat n + 1" if "kindRefcounts t k = Some n" for n
    using small that unat_Suc by (simp add: kind_cnt_def)
  then show "kind_cnt (addKind k t) k' = kind_cnt t k' + (if k' = k then 1 else 0)"
    by (auto simp: kind_cnt_def addKind_def split: option.splits)
  show "counts_ok (addKind k t)"
    using ok suc by (fastforce simp: counts_ok_def addKind_def split: option.splits if_splits)
next
  fix t k k' assume ok: "counts_ok t" and pos: "0 < kind_cnt t k"
  then obtain n where n: "kindRefcounts t k = Some n" "n \<noteq> 0"
    by (auto simp: counts_ok_def kind_cnt_def split: option.splits)
  then show "kind_cnt (removeKind k t) k' = kind_cnt t k' - (if k' = k then 1 else 0)"
    using unat_pred [OF n(2)] by (auto simp: kind_cnt_def removeKind_def split: option.splits)
qed

interpretation catch: refcount "\<lambda>_ :: unit. addCatchAll" "\<lambda>_. removeCatchAll" "\<lambda>t _. catchAllCount t > 0"
  "\<lambda>t _. unat (catchAllCount t)" "\<lambda>_. True" "2 ^ 64 - 1"
proof unfold_locales
  fix t :: EphemeralSubTracker and k k' :: unit
  show "catchAllCount t > 0 \<longleftrightarrow> 0 < unat (catchAllCount t)" by (simp add: word_less_nat_alt)
  show "unat (catchAllCount t) < 2 ^ 64 - 1 \<Longrightarrow>
      unat (catchAllCount (addCatchAll t)) = unat (catchAllCount t) + (if k' = k then 1 else 0)"
    using unat_Suc by (simp add: addCatchAll_def)
  show "0 < unat (catchAllCount t) \<Longrightarrow>
      unat (catchAllCount (removeCatchAll t)) = unat (catchAllCount t) - (if k' = k then 1 else 0)"
    using unat_pred [of "catchAllCount t"] by (auto simp: removeCatchAll_def word_less_nat_alt unat_gt_0)
qed simp_all

text \<open>The two parts of the tracker do not touch each other.\<close>

lemma tracker_frame [simp]:
  "catchAllCount (addKind k t) = catchAllCount t" "catchAllCount (removeKind k t) = catchAllCount t"
  "kindRefcounts (addCatchAll t) = kindRefcounts t" "kindRefcounts (removeCatchAll t) = kindRefcounts t"
  by (simp_all add: addKind_def removeKind_def addCatchAll_def removeCatchAll_def split: option.splits)

lemma counts_ok_catch [simp]: "counts_ok (addCatchAll t) = counts_ok t" "counts_ok (removeCatchAll t) = counts_ok t"
  by (simp_all add: counts_ok_def)

lemma kind_cnt_catch [simp]: "kind_cnt (addCatchAll t) k = kind_cnt t k" "kind_cnt (removeCatchAll t) k = kind_cnt t k"
  by (simp_all add: kind_cnt_def)

lemma of_char_limit: "(of_char c :: nat) < 256"
  by (cases c) (simp add: of_bool_def)

lemma hasSubscribersForKind_iff:
  "counts_ok t \<Longrightarrow> hasSubscribersForKind t k \<longleftrightarrow> 0 < unat (catchAllCount t) \<or> 0 < kind_cnt t k"
  using kinds.held_iff [of t k] catch.held_iff by (simp add: hasSubscribersForKind_def)

lemma fold_kinds_catch [simp]: "catchAllCount (fold addKind ks t) = catchAllCount t" "catchAllCount (fold removeKind ks t) = catchAllCount t"
  by (induction ks arbitrary: t) simp_all

section \<open>Properties\<close>

text \<open>A subscription id that is accepted has between 1 and 64 printable ASCII characters, none of them
  a quote or a backslash, and the stored buffer yields it back unchanged; so it can be copied into
  a JSON string as it is.\<close>

theorem subid_roundtrip:
  assumes "mkSubId val = Inr s"
  shows "subid_sv s = val \<and> 1 \<le> length val \<and> length val \<le> 64 \<and>
    (\<forall>c \<in> set val. 0x20 \<le> (of_char c :: nat) \<and> (of_char c :: nat) < 0x7F \<and> c \<noteq> CHR 0x22 \<and> c \<noteq> CHR 0x5C)"
proof -
  from assms have v: "val \<noteq> []" "length val \<le> 64" "\<forall>c \<in> set val. \<not> badChar c" and s: "s = SubId (char_of (length val) # val)"
    by (auto simp: mkSubId_def MAX_SUBID_SIZE_def list_ex_iff split: if_splits)
  have "0x20 \<le> (of_char c :: nat) \<and> (of_char c :: nat) < 0x7F" if "\<not> badChar c" for c
  proof -
    define n where "n = (of_char c :: nat)"
    have "\<not> (if n < 128 then int n else int n - 256) < 0x20" "\<not> 0x7F \<le> (if n < 128 then int n else int n - 256)" "n < 256"
      using that of_char_limit [of c] unfolding badChar_def signed_char_def n_def by blast+
    then show ?thesis unfolding n_def [symmetric] by (simp split: if_splits)
  qed
  moreover have "c \<noteq> CHR 0x22 \<and> c \<noteq> CHR 0x5C" if "\<not> badChar c" for c
    using that by (auto simp: badChar_def)
  ultimately show ?thesis
    using v s by (auto simp: subid_sv_def Suc_le_eq)
qed

theorem subid_roundtrip_witness: "\<exists>s. mkSubId ''sub-1'' = Inr s \<and> subid_sv s = ''sub-1''"
proof -
  obtain s where s: "mkSubId ''sub-1'' = Inr s"
    by (simp add: mkSubId_def MAX_SUBID_SIZE_def badChar_def signed_char_def)
  with subid_roundtrip [OF s] show ?thesis by blast
qed

text \<open>The ephemeral tracker reports a kind exactly while some registration of the kind, or some
  registration for all kinds, has not been taken back.\<close>

theorem tracker_refcounts:
  assumes "\<forall>k. count_list rs k \<le> count_list ks k" and "length ks < 2 ^ 64 - 1" and "m \<le> n" and "n < 2 ^ 64 - 1"
  shows "hasSubscribersForKind ((removeCatchAll ^^ m) ((addCatchAll ^^ n) (fold removeKind rs (fold addKind ks new_EphemeralSubTracker)))) k
    \<longleftrightarrow> m < n \<or> count_list rs k < count_list ks k"
proof -
  let ?t = "fold removeKind rs (fold addKind ks new_EphemeralSubTracker)"
  have "count_list ks k \<le> 2 ^ 64 - 1" for k
    using count_le_length [of ks k] assms(2) by simp
  then have "counts_ok (fold addKind ks new_EphemeralSubTracker) \<and> (\<forall>k. kind_cnt (fold addKind ks new_EphemeralSubTracker) k = count_list ks k)"
    using kinds.add_all [of new_EphemeralSubTracker ks]
    by (simp add: counts_ok_def kind_cnt_def new_EphemeralSubTracker_def)
  then have t: "counts_ok ?t" "kind_cnt ?t k = count_list ks k - count_list rs k" "catchAllCount ?t = 0"
    using kinds.remove_all [of "fold addKind ks new_EphemeralSubTracker" rs] assms(1)
    by (auto simp: new_EphemeralSubTracker_def)
  have up: "unat (catchAllCount ((addCatchAll ^^ n) ?t)) = n \<and> counts_ok ((addCatchAll ^^ n) ?t) \<and>
      kind_cnt ((addCatchAll ^^ n) ?t) k = kind_cnt ?t k" if "n < 2 ^ 64 - 1" for n
    using that
  proof (induction n)
    case (Suc n)
    then show ?case using catch.cnt_add [of _ "()" "()"] by simp
  qed (use t in simp)
  have "unat (catchAllCount ((removeCatchAll ^^ m) ((addCatchAll ^^ n) ?t))) = n - m \<and>
      counts_ok ((removeCatchAll ^^ m) ((addCatchAll ^^ n) ?t)) \<and>
      kind_cnt ((removeCatchAll ^^ m) ((addCatchAll ^^ n) ?t)) k = kind_cnt ?t k" if "m \<le> n" for m
    using that
  proof (induction m)
    case (Suc m)
    then show ?case using catch.cnt_remove [of _ "()" "()"] by simp
  qed (use up [OF assms(4)] in simp)
  from this [OF assms(3)] show ?thesis
    using hasSubscribersForKind_iff t(2) by (simp add: zero_less_diff)
qed

theorem tracker_refcounts_witness:
  "hasSubscribersForKind ((removeCatchAll ^^ 1) ((addCatchAll ^^ 1) (fold removeKind [20001] (fold addKind [20001, 20001] new_EphemeralSubTracker)))) 20001"
  using tracker_refcounts [of "[20001]" "[20001, 20001]" 1 1 20001] by simp

end
