(* ===== verification/DBQuery.thy ===== *)
theory DBQuery
  imports Subscription EventsDb
begin

unbundle bit_operations_syntax

text \<open>
  \<open>src/DBQuery.h\<close>: how the stored events that match a filter are found, newest first.  A scan
  has one cursor per search key of the chosen index; the cursors fill a queue ordered by
  time, from which events are checked and handed on.  A scan can stop when its time is used up
  and go on later.  A query runs one scan per filter of a subscription.

  The loops are \<open>while_flow\<close> loops, so that a scan that does not end is \<open>None\<close>.  The clock is a
  parameter: \<open>clock i\<close> is what the \<open>i\<close>-th call of \<open>curr_time_us\<close> returns.
\<close>

section \<open>Candidate events\<close>

record CandidateEvent =
  ce_packed :: u64
  ce_levIdStorage :: u64

definition mkCandidateEvent :: "u64 \<Rightarrow> u64 \<Rightarrow> u64 \<Rightarrow> CandidateEvent" where
  "mkCandidateEvent levId created scanIndex =
     \<lparr>ce_packed = push_bit 40 scanIndex OR created, ce_levIdStorage = levId\<rparr>"

definition ce_levId :: "CandidateEvent \<Rightarrow> u64" where
  "ce_levId c = ce_levIdStorage c"

definition ce_created :: "CandidateEvent \<Rightarrow> u64" where
  "ce_created c = ce_packed c AND 0xFFFFFFFFFF"

definition ce_scanIndex :: "CandidateEvent \<Rightarrow> u64" where
  "ce_scanIndex c = drop_bit 40 (ce_packed c)"

section \<open>Cursors\<close>

datatype KeyMatchResult = Yes | No

record ScanCursor =
  resumeKey :: bytes
  resumeVal :: u64
  keyMatch :: "bytes \<Rightarrow> KeyMatchResult"
  outstanding :: u64

definition active :: "ScanCursor \<Rightarrow> bool" where
  "active c \<longleftrightarrow> length (resumeKey c) > 0"

text \<open>The callback of \<open>generic_foreachFull\<close> in \<open>collect\<close>; the first component is what that returns.\<close>

type_synonym collecting = "ScanCursor \<times> u64 \<times> u64 \<times> CandidateEvent list"

fun collect_visit ::
  "'t env \<Rightarrow> NostrFilter \<Rightarrow> u64 \<Rightarrow> (bytes \<times> u64) list \<Rightarrow> collecting \<Rightarrow> bool \<times> collecting" where
  "collect_visit E f scanIndex [] st = (True, st)"
| "collect_visit E f scanIndex ((k, v) # rest) (c, limit, added, output) =
     (if limit = 0 then (False, c\<lparr>resumeKey := k, resumeVal := v\<rparr>, limit, added, output)
      else let matched = keyMatch c k in
      if matched = No then (False, c\<lparr>resumeKey := []\<rparr>, limit, added, output)
      else let (s, created) = parsedKey_StringUint64 E k in
      if nf_since f \<noteq> 0 \<and> created < nf_since f then
        (False, c\<lparr>resumeKey := makeKey_StringUint64 E s 0, resumeVal := 0\<rparr>, limit, added, output)
      else if nf_until f \<noteq> 0 \<and> created > nf_until f then
        (False, c\<lparr>resumeKey := makeKey_StringUint64 E s (nf_until f), resumeVal := MAX_U64\<rparr>, limit, added, output)
      else if matched = Yes then
        collect_visit E f scanIndex rest (c, limit - 1, added + 1, output @ [mkCandidateEvent v created scanIndex])
      else collect_visit E f scanIndex rest (c, limit, added, output))"

definition collect_body ::
  "'t env \<Rightarrow> 't \<Rightarrow> NostrFilter \<Rightarrow> dbi \<Rightarrow> u64 \<Rightarrow> collecting \<Rightarrow> (collecting, collecting) flow option" where
  "collect_body E txn f indexDbi scanIndex = (\<lambda>(c, limit, added, output).
     if active c \<and> limit > 0 then
       let (finished, c, limit, added, output) =
         collect_visit E f scanIndex (generic_foreachFull E txn indexDbi (resumeKey c) (resumeVal c) True) (c, limit, added, output) in
       Some (Next (if finished then c\<lparr>resumeKey := []\<rparr> else c, limit, added, output))
     else Some (Done (c, limit, added, output)))"

definition collect ::
  "'t env \<Rightarrow> 't \<Rightarrow> NostrFilter \<Rightarrow> dbi \<Rightarrow> u64 \<Rightarrow> u64 \<Rightarrow> ScanCursor \<Rightarrow> CandidateEvent list \<Rightarrow>
   (u64 \<times> ScanCursor \<times> CandidateEvent list) option" where
  "collect E txn f indexDbi scanIndex limit c output =
     map_option (\<lambda>(c, limit, added, output). (added, c\<lparr>outstanding := outstanding c + added\<rparr>, output))
       (while_flow (collect_body E txn f indexDbi scanIndex) (c, limit, 0, output))"

section \<open>Scans\<close>

record DBScan =
  sc_f :: NostrFilter
  indexOnly :: bool
  indexDbi :: dbi
  desc :: string
  cursors :: "ScanCursor list"
  eventQueue :: "CandidateEvent list"
  initialScanDepth :: u64
  refillScanDepth :: u64
  nextInitIndex :: u64
  approxWork :: u64

definition mkCursor :: "bytes \<Rightarrow> (bytes \<Rightarrow> KeyMatchResult) \<Rightarrow> ScanCursor" where
  "mkCursor search m = \<lparr>resumeKey = search @ replicate 8 (CHR 0xFF), resumeVal = MAX_U64, keyMatch = m, outstanding = 0\<rparr>"

definition prefixMatch :: "bytes \<Rightarrow> bytes \<Rightarrow> KeyMatchResult" where
  "prefixMatch search k = (if starts_with k search then Yes else No)"

definition tagMatch :: "bytes \<Rightarrow> bytes \<Rightarrow> KeyMatchResult" where
  "tagMatch search k = (if length k = length search + 8 \<and> starts_with k search then Yes else No)"

definition kindMatch :: "'t env \<Rightarrow> u64 \<Rightarrow> bytes \<Rightarrow> KeyMatchResult" where
  "kindMatch E kind k = (if fst (parsedKey_Uint64Uint64 E k) = kind then Yes else No)"

text \<open>The tag with the fewest values, the first of them in the order of the map.\<close>

definition smallestTag :: "(char \<times> FilterSetBytes) list \<Rightarrow> char" where
  "smallestTag tags = snd (fold (\<lambda>(tn, filterSet) (numTags, tagName).
     if of_nat (fsb_size filterSet) < numTags then (of_nat (fsb_size filterSet), tn) else (numTags, tagName))
     tags (MAX_U64, CHR 0x00))"

definition scan_cursors :: "'t env \<Rightarrow> NostrFilter \<Rightarrow> (bool \<times> dbi \<times> string \<times> ScanCursor list) result" where
  "scan_cursors E f =
     (case nf_ids f of
        Some ids \<Rightarrow>
          rbind (rmap (\<lambda>i. rbind (fsb_at ids i) (\<lambda>search. Inr (mkCursor search (prefixMatch search)))) [0..<fsb_size ids]) (\<lambda>cs.
            Inr (nf_indexOnlyScans f, Event_id, ''ID'', cs))
      | None \<Rightarrow>
      if length (nf_tags f) \<noteq> 0 then
        let tagName = smallestTag (nf_tags f) in
        (case map_of (nf_tags f) tagName of
           None \<Rightarrow> Inl OutOfRange
         | Some filterSet \<Rightarrow>
             rbind (rmap (\<lambda>i. rbind (fsb_at filterSet i) (\<lambda>v.
               let search = [tagName] @ v in Inr (mkCursor search (tagMatch search)))) [0..<fsb_size filterSet]) (\<lambda>cs.
               Inr (nf_indexOnlyScans f, Event_tag, ''Tag'', cs)))
      else (case nf_authors f of
        Some authors \<Rightarrow>
          (case nf_kinds f of
             Some kinds \<Rightarrow>
               if (of_nat (fsb_size authors) * of_nat (fsu_size kinds) :: u64) < 1000 then
                 rbind (rmap (\<lambda>i. rmap (\<lambda>j.
                   rbind (fsu_at kinds j) (\<lambda>kind. rbind (fsb_at authors i) (\<lambda>a.
                     let search = a @ to_sv64 kind in Inr (mkCursor search (prefixMatch search)))))
                   [0..<fsu_size kinds]) [0..<fsb_size authors]) (\<lambda>css.
                   Inr (nf_indexOnlyScans f, Event_pubkeyKind, ''PubkeyKind'', concat css))
               else
                 rbind (rmap (\<lambda>i. rbind (fsb_at authors i) (\<lambda>search. Inr (mkCursor search (prefixMatch search)))) [0..<fsb_size authors]) (\<lambda>cs.
                   Inr (False, Event_pubkey, ''Pubkey'', cs))
           | None \<Rightarrow>
               rbind (rmap (\<lambda>i. rbind (fsb_at authors i) (\<lambda>search. Inr (mkCursor search (prefixMatch search)))) [0..<fsb_size authors]) (\<lambda>cs.
                 Inr (nf_indexOnlyScans f, Event_pubkey, ''Pubkey'', cs)))
      | None \<Rightarrow>
          (case nf_kinds f of
             Some kinds \<Rightarrow>
               rbind (rmap (\<lambda>i. rbind (fsu_at kinds i) (\<lambda>kind. Inr (mkCursor (to_sv64 kind) (kindMatch E kind)))) [0..<fsu_size kinds]) (\<lambda>cs.
                 Inr (nf_indexOnlyScans f, Event_kind, ''Kind'', cs))
           | None \<Rightarrow> Inr (nf_indexOnlyScans f, Event_created_at, ''CreatedAt'', [mkCursor [] (\<lambda>_. Yes)]))))"

definition mkDBScan :: "'t env \<Rightarrow> NostrFilter \<Rightarrow> DBScan result" where
  "mkDBScan E f =
     rbind (scan_cursors E f) (\<lambda>(ixOnly, d, ds, cs).
       if of_nat (length cs) = (0 :: u64) then Inl DivisionByZero
       else
         let depth = max 5 (min 50 (nf_limit f div of_nat (length cs))) in
         Inr \<lparr>sc_f = f, indexOnly = ixOnly, indexDbi = d, desc = ds, cursors = cs, eventQueue = [],
              initialScanDepth = depth, refillScanDepth = 10 * depth, nextInitIndex = 0, approxWork = 0\<rparr>)"

text \<open>The order of the queue; \<open>std::sort\<close> leaves the order of equal elements open, here they keep it.\<close>

definition ce_cmp :: "CandidateEvent \<Rightarrow> CandidateEvent \<Rightarrow> bool" where
  "ce_cmp a b = (if ce_created a = ce_created b then ce_levId a > ce_levId b else ce_created a > ce_created b)"

fun insert_by :: "('a \<Rightarrow> 'a \<Rightarrow> bool) \<Rightarrow> 'a \<Rightarrow> 'a list \<Rightarrow> 'a list" where
  "insert_by lt x [] = [x]"
| "insert_by lt x (y # ys) = (if lt y x then y # insert_by lt x ys else x # y # ys)"

definition std_sort :: "('a \<Rightarrow> 'a \<Rightarrow> bool) \<Rightarrow> 'a list \<Rightarrow> 'a list" where
  "std_sort lt xs = foldr (insert_by lt) xs []"

fun std_merge :: "('a \<Rightarrow> 'a \<Rightarrow> bool) \<Rightarrow> 'a list \<Rightarrow> 'a list \<Rightarrow> 'a list" where
  "std_merge lt [] ys = ys"
| "std_merge lt (x # xs) [] = x # xs"
| "std_merge lt (x # xs) (y # ys) =
     (if lt y x then y # std_merge lt (x # xs) ys else x # std_merge lt xs (y # ys))"

definition doSend :: "'t env \<Rightarrow> 't \<Rightarrow> DBScan \<Rightarrow> CandidateEvent \<Rightarrow> bool result" where
  "doSend E txn s ev =
     (if indexOnly s then Inr (nf_doesMatchTimes (sc_f s) (ce_created ev))
      else (case lookup_Event E txn (ce_levId ev) of
        None \<Rightarrow> Inr False
      | Some buf \<Rightarrow> rbind (PackedEventView buf) (\<lambda>packed. nf_doesMatch (sc_f s) packed)))"

text \<open>
  One round of the loop of \<open>scan\<close>.  The two callbacks act on a state of their own; the first may
  throw.  The result is what \<open>scan\<close> returns, or an exception.
\<close>

type_synonym 's handler = "u64 \<Rightarrow> 's \<Rightarrow> (bool \<times> 's) result"
type_synonym 's pauser = "u64 \<Rightarrow> 's \<Rightarrow> bool \<times> 's"

definition scan_init :: "'t env \<Rightarrow> 't \<Rightarrow> DBScan \<Rightarrow> DBScan option" where
  "scan_init E txn s =
     (let n = nextInitIndex s in
      map_option (\<lambda>(added, c, queue).
        let s = s\<lparr>approxWork := approxWork s + added, cursors := (cursors s)[unat n := c], eventQueue := queue, nextInitIndex := n + 1\<rparr> in
        if n + 1 = of_nat (length (cursors s)) then s\<lparr>eventQueue := std_sort ce_cmp (eventQueue s)\<rparr> else s)
      (collect E txn (sc_f s) (indexDbi s) n (initialScanDepth s) (cursors s ! unat n) (eventQueue s)))"

definition scan_refill :: "'t env \<Rightarrow> 't \<Rightarrow> CandidateEvent \<Rightarrow> DBScan \<Rightarrow> DBScan result option" where
  "scan_refill E txn ev s =
     (let i = unat (ce_scanIndex ev) in
      if i \<ge> length (cursors s) then Some (Inl OutOfRange)
      else
        let c = (cursors s ! i)\<lparr>outstanding := outstanding (cursors s ! i) - 1\<rparr>;
            s = s\<lparr>cursors := (cursors s)[i := c]\<rparr> in
        if outstanding c = 0 then
          map_option (\<lambda>(added, c, moreEvents). Inr (s\<lparr>approxWork := approxWork s + added, cursors := (cursors s)[i := c],
              eventQueue := std_merge ce_cmp (eventQueue s) moreEvents\<rparr>))
            (collect E txn (sc_f s) (indexDbi s) (ce_scanIndex ev) (refillScanDepth s) c [])
        else Some (Inr s))"

definition scan_next ::
  "'t env \<Rightarrow> 't \<Rightarrow> 's handler \<Rightarrow> DBScan \<Rightarrow> 's \<Rightarrow> (DBScan \<times> 's, (bool \<times> DBScan \<times> 's) result) flow option" where
  "scan_next E txn handleEvent s st =
     (if unat (nextInitIndex s) < length (cursors s) then map_option (\<lambda>s. Next (s, st)) (scan_init E txn s)
      else (case eventQueue s of
         [] \<Rightarrow> Some (Done (Inr (True, s, st)))
       | ev # rest \<Rightarrow>
           let s = s\<lparr>eventQueue := rest, approxWork := if indexOnly s then approxWork s else approxWork s + 10\<rparr> in
           (case rbind (doSend E txn s ev) (\<lambda>b. if b then handleEvent (ce_levId ev) st else Inr (False, st)) of
              Inl e \<Rightarrow> Some (Done (Inl e))
            | Inr (stop, st) \<Rightarrow>
                if stop then Some (Done (Inr (True, s, st)))
                else map_option (\<lambda>r. case r of Inl e \<Rightarrow> Done (Inl e) | Inr s \<Rightarrow> Next (s, st)) (scan_refill E txn ev s))))"

definition scan_body ::
  "'t env \<Rightarrow> 't \<Rightarrow> 's handler \<Rightarrow> 's pauser \<Rightarrow> DBScan \<times> 's \<Rightarrow> (DBScan \<times> 's, (bool \<times> DBScan \<times> 's) result) flow option" where
  "scan_body E txn handleEvent doPause = (\<lambda>(s, st).
     let s = s\<lparr>approxWork := approxWork s + 1\<rparr>; (paused, st) = doPause (approxWork s) st in
     if paused then Some (Done (Inr (False, s, st))) else scan_next E txn handleEvent s st)"

definition scan ::
  "'t env \<Rightarrow> 't \<Rightarrow> 's handler \<Rightarrow> 's pauser \<Rightarrow> DBScan \<Rightarrow> 's \<Rightarrow> (bool \<times> DBScan \<times> 's) result option" where
  "scan E txn handleEvent doPause s st = while_flow (scan_body E txn handleEvent doPause) (s, st)"

section \<open>Queries\<close>

record DBQuery =
  q_sub :: Subscription
  scanner :: "DBScan option"
  filterGroupIndex :: nat
  q_dead :: bool
  sentEventsFull :: "u64 set"
  sentEventsCurr :: "u64 set"
  lastWorkChecked :: u64
  currScanTime :: u64
  currScanSaveRestores :: u64
  totalTime :: u64
  totalWork :: u64

definition mkDBQuery :: "Subscription \<Rightarrow> DBQuery" where
  "mkDBQuery sub = \<lparr>q_sub = sub, scanner = None, filterGroupIndex = 0, q_dead = False, sentEventsFull = {}, sentEventsCurr = {},
     lastWorkChecked = 0, currScanTime = 0, currScanSaveRestores = 0, totalTime = 0, totalWork = 0\<rparr>"

definition mkDBQuery_filter :: "(string \<Rightarrow> bytes result) \<Rightarrow> json \<Rightarrow> u64 \<Rightarrow> DBQuery result" where
  "mkDBQuery_filter fh filter0 maxLimit =
     rbind (fg_unwrapped fh filter0 maxLimit) (\<lambda>g. rbind (mkSubscription 1 ''.'' g False) (\<lambda>sub. Inr (mkDBQuery sub)))"

text \<open>The state of the callbacks: the query, the number of readings of the clock, and the state of the caller.\<close>

type_synonym 's running = "DBQuery \<times> nat \<times> 's"

definition query_handle :: "(Subscription \<Rightarrow> u64 \<Rightarrow> 's \<Rightarrow> 's result) \<Rightarrow> NostrFilter \<Rightarrow> 's running handler" where
  "query_handle cb f levId = (\<lambda>(q, t, st).
     if nf_limit f = 0 then Inr (True, q, t, st)
     else if levId > sub_latestEventId (q_sub q) then Inr (False, q, t, st)
     else
       rbind (if levId \<notin> sentEventsFull q
              then rbind (cb (q_sub q) levId st) (\<lambda>st. Inr (q\<lparr>sentEventsFull := insert levId (sentEventsFull q)\<rparr>, st))
              else Inr (q, st)) (\<lambda>(q, st).
         let q = q\<lparr>sentEventsCurr := insert levId (sentEventsCurr q)\<rparr> in
         Inr (card (sentEventsCurr q) \<ge> unat (nf_limit f), q, t, st)))"

definition query_pause :: "(nat \<Rightarrow> u64) \<Rightarrow> u64 \<Rightarrow> u64 \<Rightarrow> 's running pauser" where
  "query_pause clock startTime budget work = (\<lambda>(q, t, st).
     if work > lastWorkChecked q + 2000 then (clock t - startTime > budget, q\<lparr>lastWorkChecked := work\<rparr>, t + 1, st)
     else (False, q, t, st))"

text \<open>One round of the loop over the filters.\<close>

definition query_body ::
  "'t env \<Rightarrow> (nat \<Rightarrow> u64) \<Rightarrow> 't \<Rightarrow> (Subscription \<Rightarrow> u64 \<Rightarrow> 's \<Rightarrow> 's result) \<Rightarrow> u64 \<Rightarrow>
   's running \<Rightarrow> ('s running, (bool \<times> 's running) result) flow option" where
  "query_body E clock txn cb budget = (\<lambda>(q, t, st).
     if filterGroupIndex q < fg_size (sub_filterGroup (q_sub q)) then
       let f = fg_filters (sub_filterGroup (q_sub q)) ! filterGroupIndex q in
       (case (case scanner q of Some s \<Rightarrow> Inr s | None \<Rightarrow> mkDBScan E f) of
          Inl e \<Rightarrow> Some (Done (Inl e))
        | Inr s \<Rightarrow>
            let startTime = clock t in
            map_option (\<lambda>r. case r of
                Inl e \<Rightarrow> Done (Inl e)
              | Inr (complete, s, q, t, st) \<Rightarrow>
                  let q = q\<lparr>scanner := Some s, currScanTime := currScanTime q + (clock t - startTime)\<rparr>; t = t + 1 in
                  if \<not> complete then
                    Done (Inr (False, q\<lparr>currScanSaveRestores := currScanSaveRestores q + 1\<rparr>, t, st))
                  else
                    Next (q\<lparr>totalTime := totalTime q + currScanTime q, totalWork := totalWork q + approxWork s, scanner := None,
                      filterGroupIndex := filterGroupIndex q + 1, sentEventsCurr := {}, currScanTime := 0, currScanSaveRestores := 0\<rparr>, t, st))
              (scan E txn (query_handle cb f) (query_pause clock startTime budget) s (q, t + 1, st)))
     else Some (Done (Inr (True, q, t, st))))"

definition query_process ::
  "'t env \<Rightarrow> (nat \<Rightarrow> u64) \<Rightarrow> 't \<Rightarrow> (Subscription \<Rightarrow> u64 \<Rightarrow> 's \<Rightarrow> 's result) \<Rightarrow> u64 \<Rightarrow>
   's running \<Rightarrow> (bool \<times> 's running) result option" where
  "query_process E clock txn cb budget r = while_flow (query_body E clock txn cb budget) r"

definition foreachByFilter ::
  "'t env \<Rightarrow> (string \<Rightarrow> bytes result) \<Rightarrow> (nat \<Rightarrow> u64) \<Rightarrow> 't \<Rightarrow> json \<Rightarrow> (u64 \<Rightarrow> 's \<Rightarrow> 's result) \<Rightarrow> 's \<Rightarrow> 's result option" where
  "foreachByFilter E fh clock txn filter0 cb st =
     (case mkDBQuery_filter fh filter0 MAX_U64 of
        Inl e \<Rightarrow> Some (Inl e)
      | Inr query \<Rightarrow> map_option (\<lambda>r. rbind r (\<lambda>(complete, q, t, st). Inr st))
          (query_process E clock txn (\<lambda>_. cb) MAX_U64 (query, 0, st)))"

end
