(* ===== verification/DBScanProof.thy ===== *)
theory DBScanProof
  imports DBQuery
begin

text \<open>
  Scans of \<open>src/DBQuery.h\<close>.  A cursor delivers the entries of its search key in the order of
  time and primary key, newest first, in the portions it is asked for; the queue merges the
  cursors, so that candidates are handled in that order over all cursors.  Every loop ends.
\<close>

unbundle bit_operations_syntax

section \<open>Candidates and their order\<close>

lemma take_bit_small:
  "unat (w :: u64) < 2 ^ n \<Longrightarrow> take_bit n w = w"
  by (simp add: word_unat_eq_iff unsigned_take_bit_eq take_bit_nat_eq_self)

lemma drop_bit_small: "unat (w :: u64) < 2 ^ n \<Longrightarrow> drop_bit n w = 0"
  by (simp only: word_unat_eq_iff unat_drop_bit_eq) (simp add: drop_bit_eq_div)

text \<open>An event time below \<open>2 ^ 40\<close> and a cursor number below \<open>2 ^ 24\<close> share a word without loss.\<close>

abbreviation MAX_CREATED :: u64 where "MAX_CREATED \<equiv> 2 ^ 40"

lemma ce_fields:
  assumes "created < MAX_CREATED" and "i < 2 ^ 24"
  shows "ce_created (mkCandidateEvent l created i) = created" "ce_levId (mkCandidateEvent l created i) = l"
    "ce_scanIndex (mkCandidateEvent l created i) = i"
proof -
  have c: "take_bit 40 created = created" "drop_bit 40 created = 0"
    using assms(1) by (simp_all add: take_bit_small drop_bit_small word_less_nat_alt)
  have i: "take_bit 24 i = i"
    using assms(2) by (simp add: take_bit_small word_less_nat_alt)
  have mask: "(0xFFFFFFFFFF :: u64) = mask 40" by (simp add: mask_eq_exp_minus_1)
  show "ce_created (mkCandidateEvent l created i) = created"
    using c unfolding ce_created_def mkCandidateEvent_def mask
    by (simp add: take_bit_eq_mask [symmetric] take_bit_push_bit)
  show "ce_levId (mkCandidateEvent l created i) = l"
    by (simp add: ce_levId_def mkCandidateEvent_def)
  have "drop_bit 40 (push_bit 40 i) = take_bit 24 i"
    by (rule bit_word_eqI) (auto simp: bit_simps)
  then show "ce_scanIndex (mkCandidateEvent l created i) = i"
    using c i by (simp add: ce_scanIndex_def mkCandidateEvent_def)
qed

definition okey :: "CandidateEvent \<Rightarrow> u64 \<times> u64" where
  "okey c = (ce_created c, ce_levId c)"

lemma ce_cmp_okey: "ce_cmp a b \<longleftrightarrow> okey b < okey a"
  by (auto simp: ce_cmp_def okey_def less_prod_def)

definition ce_sorted :: "CandidateEvent list \<Rightarrow> bool" where
  "ce_sorted xs \<longleftrightarrow> sorted_wrt (\<lambda>a b. okey b \<le> okey a) xs"

lemma mset_insert_by: "mset (insert_by lt x xs) = add_mset x (mset xs)"
  by (induction xs) auto

lemma mset_std_sort [simp]: "mset (std_sort lt xs) = mset xs"
  by (induction xs) (auto simp: std_sort_def mset_insert_by)

lemma set_insert_by: "set (insert_by lt x xs) = insert x (set xs)"
  by (metis mset_insert_by set_mset_add_mset_insert set_mset_mset)

lemma ce_sorted_insert: "ce_sorted xs \<Longrightarrow> ce_sorted (insert_by ce_cmp x xs)"
  by (induction xs) (auto simp: ce_sorted_def ce_cmp_okey set_insert_by)

lemma ce_sorted_sort: "ce_sorted (std_sort ce_cmp xs)"
  by (induction xs) (auto simp: std_sort_def ce_sorted_insert ce_sorted_def [of "[]"])

lemma mset_std_merge: "mset (std_merge lt xs ys) = mset xs + mset ys"
  by (induction lt xs ys rule: std_merge.induct) auto

lemma set_std_merge: "set (std_merge lt xs ys) = set xs \<union> set ys"
  by (metis mset_std_merge set_mset_mset set_mset_union)

lemma ce_sorted_merge: "ce_sorted xs \<Longrightarrow> ce_sorted ys \<Longrightarrow> ce_sorted (std_merge ce_cmp xs ys)"
proof (induction ce_cmp xs ys rule: std_merge.induct)
  case (3 x xs y ys)
  then show ?case by (auto simp: ce_sorted_def ce_cmp_okey set_std_merge dest: order_trans)
qed (auto simp: ce_sorted_def)

section \<open>Descending lists\<close>

definition desc_list :: "'a :: linorder set \<Rightarrow> 'a list" where
  "desc_list A = rev (sorted_list_of_set A)"

lemma desc_list [simp]: "finite A \<Longrightarrow> set (desc_list A) = A" "sorted_wrt (>) (desc_list A)" "length (desc_list A) = card A"
  "distinct (desc_list A)"
  by (simp_all add: desc_list_def sorted_wrt_rev strict_sorted_list_of_set)

lemma desc_unique:
  assumes "sorted_wrt (>) xs"
  shows "desc_list (set xs) = xs"
proof -
  have "sorted_wrt (<) (rev xs)" using assms by (simp add: sorted_wrt_rev)
  then have "sorted_list_of_set (set (rev xs)) = rev xs"
    by (simp only: sorted_list_of_set.idem_if_sorted_distinct strict_sorted_iff)
  then show ?thesis by (simp add: desc_list_def)
qed

lemma desc_filter: "finite A \<Longrightarrow> desc_list {x \<in> A. P x} = filter P (desc_list A)"
  using desc_unique [of "filter P (desc_list A)"] by (simp add: sorted_wrt_filter)

lemma desc_drop:
  assumes "sorted_wrt (>) (xs :: 'a :: linorder list)" and "j < length xs"
  shows "{x \<in> set xs. x \<le> xs ! j} = set (drop j xs)"
proof -
  have above: "xs ! j < x" if "x \<in> set (take j xs)" for x
    using that assms by (auto simp: in_set_conv_nth sorted_wrt_iff_nth_less)
  have below: "x \<le> xs ! j" if "x \<in> set (drop j xs)" for x
  proof -
    from that obtain i where "i < length xs - j" "x = xs ! (j + i)" using assms(2) by (auto simp: in_set_conv_nth)
    then show ?thesis using assms by (cases "i = 0") (auto simp: sorted_wrt_iff_nth_less less_imp_le)
  qed
  have "set xs = set (take j xs) \<union> set (drop j xs)" by (metis append_take_drop_id set_append)
  then show ?thesis using above below leD by blast
qed

lemma desc_list_empty [simp]: "desc_list {} = []"
  by (simp add: desc_list_def)

section \<open>The entries of a search key\<close>

text \<open>
  The entries under a search key \<open>s\<close> are the pairs of a time and a primary key that the index holds under
  the keys made of \<open>s\<close> and the time.  \<open>grouped\<close>: the cursor's test picks out these entries, the index
  holds them in the order of the pairs, and no other entry lies between them.
\<close>

definition group :: "dbi \<Rightarrow> tables \<Rightarrow> bytes \<Rightarrow> (u64 \<times> u64) set" where
  "group d T s = {(n, l). (s @ to_sv64 n, l) \<in> set (entries d T)}"

definition ent :: "bytes \<Rightarrow> u64 \<times> u64 \<Rightarrow> bytes \<times> u64" where
  "ent s x = (s @ to_sv64 (fst x), snd x)"

definition grouped :: "dbi \<Rightarrow> tables \<Rightarrow> bytes \<Rightarrow> (bytes \<Rightarrow> KeyMatchResult) \<Rightarrow> bool" where
  "grouped d T s m \<longleftrightarrow>
     (\<forall>x \<in> set (entries d T). m (fst x) = Yes \<longleftrightarrow> (\<exists>y. x = ent s y)) \<and>
     (\<forall>x y. pos d (ent s x) \<le> pos d (ent s y) \<longleftrightarrow> x \<le> y) \<and>
     (\<forall>x \<in> set (entries d T). m (fst x) = No \<longrightarrow> (\<forall>y. pos d (ent s y) < pos d x) \<or> (\<forall>y. pos d x < pos d (ent s y)))"

lemma ent_inj [simp]: "ent s x = ent s y \<longleftrightarrow> x = y"
  by (cases x; cases y) (auto simp: ent_def)

lemma inj_ent: "inj (ent s)"
  by (simp add: inj_on_def)

lemma group_iff: "x \<in> group d T s \<longleftrightarrow> ent s x \<in> set (entries d T)"
  by (cases x) (simp add: group_def ent_def)

lemma finite_group [simp]: "finite (group d T s)"
proof -
  have "ent s ` group d T s \<subseteq> set (entries d T)" by (auto simp: group_iff)
  then have "finite (ent s ` group d T s)" by (rule finite_subset) simp
  then show ?thesis by (rule finite_imageD) (simp add: inj_on_def)
qed

text \<open>Where a cursor may stand: at a key of its group, or below the group.\<close>

definition start_ok :: "dbi \<Rightarrow> bytes \<Rightarrow> bytes \<times> u64 \<Rightarrow> bool" where
  "start_ok d s p \<longleftrightarrow> (\<exists>y. p = ent s y) \<or> (\<forall>y. pos d p < pos d (ent s y))"

definition entries_upto :: "dbi \<Rightarrow> tables \<Rightarrow> bytes \<Rightarrow> bytes \<times> u64 \<Rightarrow> (u64 \<times> u64) set" where
  "entries_upto d T s p = {x \<in> group d T s. pos d (ent s x) \<le> pos d p}"

lemma finite_upto [simp]: "finite (entries_upto d T s p)"
  by (simp add: entries_upto_def)

lemma split_sorted:
  assumes "sorted_wrt R xs" and "\<And>x y. x \<in> set xs \<Longrightarrow> y \<in> set xs \<Longrightarrow> \<not> P x \<Longrightarrow> P y \<Longrightarrow> \<not> R x y"
  shows "\<exists>ys zs. xs = ys @ zs \<and> (\<forall>x \<in> set ys. P x) \<and> (\<forall>x \<in> set zs. \<not> P x)"
proof (intro exI conjI)
  show "xs = takeWhile P xs @ dropWhile P xs" by simp
  show "\<forall>x \<in> set (takeWhile P xs). P x" by (auto dest: set_takeWhileD)
  show "\<forall>x \<in> set (dropWhile P xs). \<not> P x"
  proof (cases "dropWhile P xs")
    case (Cons z zs)
    have "\<not> P z" using Cons by (metis hd_dropWhile list.distinct(1) list.sel(1))
    have "sorted_wrt R (z # zs)" using assms(1) Cons by (metis sorted_wrt_append takeWhile_dropWhile_id)
    moreover have "set (z # zs) \<subseteq> set xs" using Cons by (metis set_dropWhileD subsetI)
    ultimately show ?thesis using assms(2) \<open>\<not> P z\<close> Cons by auto
  next
    case Nil
    then show ?thesis by (metis empty_iff list.set(1))
  qed
qed

lemma sorted_desc_strict: "sorted_wrt (\<ge>) xs \<Longrightarrow> distinct xs \<Longrightarrow> sorted_wrt (>) (xs :: 'a :: linorder list)"
  by (induction xs) (auto simp: less_le)

lemma grouped_order: "grouped d T s m \<Longrightarrow> pos d (ent s x) \<le> pos d (ent s y) \<longleftrightarrow> x \<le> y"
  unfolding grouped_def by (elim conjE allE)

context golpe_env
begin

lemma foreach_group:
  assumes ok: "tables_ok (view t)" and g: "grouped d (view t) s m" and start: "start_ok d s (k, v)"
  shows "\<exists>B. generic_foreachFull E t d k v True = map (ent s) (desc_list (entries_upto d (view t) s (k, v))) @ B \<and>
    (\<forall>x \<in> set B. m (fst x) = No \<and> (\<forall>y. pos d x < pos d (ent s y)))"
proof -
  let ?xs = "generic_foreachFull E t d k v True" and ?U = "entries_upto d (view t) s (k, v)"
  note rev = foreachFull_rev [OF ok, of d k v]
  have sorted: "sorted_wrt (\<lambda>x y. pos d y \<le> pos d x) ?xs" using rev by (simp add: sorted_wrt_rev sorted_wrt_map)
  have set: "x \<in> set ?xs \<longleftrightarrow> x \<in> set (entries d (view t)) \<and> pos d x \<le> pos d (k, v)" for x using rev by simp
  have yes: "m (fst x) = Yes \<longleftrightarrow> (\<exists>y. x = ent s y)" if "x \<in> set ?xs" for x using g that set by (auto simp: grouped_def)
  have low: "\<forall>y. pos d x < pos d (ent s y)" if "x \<in> set ?xs" "m (fst x) \<noteq> Yes" for x
  proof -
    have "m (fst x) = No" using that(2) by (cases "m (fst x)") auto
    then have "(\<forall>y. pos d (ent s y) < pos d x) \<or> (\<forall>y. pos d x < pos d (ent s y))"
      using g that(1) set by (auto simp: grouped_def)
    moreover have "pos d x \<le> pos d (k, v)" using that(1) set by simp
    ultimately show ?thesis using start unfolding start_ok_def by (metis le_less_trans leD)
  qed
  obtain A B where AB: "?xs = A @ B" "\<forall>x \<in> set A. m (fst x) = Yes" "\<forall>x \<in> set B. m (fst x) \<noteq> Yes"
    using split_sorted [OF sorted, of "\<lambda>x. m (fst x) = Yes"] low yes by (metis leD)
  have "\<forall>x \<in> set A. \<exists>y. x = ent s y" using AB(1,2) yes by auto
  then obtain ys where ys: "A = map (ent s) ys" by (metis ex_map_conv)
  have memA: "x \<in> set A \<longleftrightarrow> x \<in> set ?xs \<and> m (fst x) = Yes" for x using AB by auto
  have "set ys = ?U"
  proof (intro equalityI subsetI)
    fix y assume "y \<in> set ys"
    then have "ent s y \<in> set ?xs" using ys AB(1) by auto
    then show "y \<in> ?U" using set by (simp add: entries_upto_def group_iff)
  next
    fix y assume "y \<in> ?U"
    then have "ent s y \<in> set ?xs" using set by (simp add: entries_upto_def group_iff)
    then have "ent s y \<in> set A" using memA yes by blast
    then show "y \<in> set ys" using ys by auto
  qed
  moreover have "sorted_wrt (>) ys"
  proof -
    have "sorted_wrt (\<lambda>x y. pos d (ent s y) \<le> pos d (ent s x)) ys"
      using sorted unfolding AB(1) ys by (simp add: sorted_wrt_append sorted_wrt_map)
    then have "sorted_wrt (\<ge>) ys" by (simp only: grouped_order [OF g])
    moreover have "distinct ys" using rev unfolding AB(1) ys by (simp add: distinct_map)
    ultimately show ?thesis by (rule sorted_desc_strict)
  qed
  ultimately have "ys = desc_list ?U" using desc_unique by metis
  moreover have "\<forall>x \<in> set B. m (fst x) = No \<and> (\<forall>y. pos d x < pos d (ent s y))"
  proof
    fix x assume "x \<in> set B"
    then have "x \<in> set ?xs" "m (fst x) \<noteq> Yes" using AB(1,3) by auto
    then show "m (fst x) = No \<and> (\<forall>y. pos d x < pos d (ent s y))" using low by (cases "m (fst x)") blast+
  qed
  ultimately show ?thesis using AB(1) ys by blast
qed

end

section \<open>Collecting candidates\<close>

definition in_range :: "NostrFilter \<Rightarrow> u64 \<times> u64 \<Rightarrow> bool" where
  "in_range f x \<longleftrightarrow> (nf_since f \<noteq> 0 \<longrightarrow> nf_since f \<le> fst x) \<and> (nf_until f \<noteq> 0 \<longrightarrow> fst x \<le> nf_until f)"

definition cand :: "u64 \<Rightarrow> u64 \<times> u64 \<Rightarrow> CandidateEvent" where
  "cand i x = mkCandidateEvent (snd x) (fst x) i"

text \<open>What a cursor still has to deliver.\<close>

definition remaining :: "dbi \<Rightarrow> tables \<Rightarrow> NostrFilter \<Rightarrow> bytes \<Rightarrow> ScanCursor \<Rightarrow> (u64 \<times> u64) set" where
  "remaining d T f s c = (if active c then {x \<in> entries_upto d T s (resumeKey c, resumeVal c). in_range f x} else {})"

definition cursor_ok :: "dbi \<Rightarrow> tables \<Rightarrow> bytes \<Rightarrow> ScanCursor \<Rightarrow> bool" where
  "cursor_ok d T s c \<longleftrightarrow> grouped d T s (keyMatch c) \<and> (active c \<longrightarrow> start_ok d s (resumeKey c, resumeVal c))"

lemma remaining_finite [simp]: "finite (remaining d T f s c)"
  by (simp add: remaining_def)

text \<open>How a pass over the entries \<open>xs @ B\<close> ends when \<open>xs\<close> are those of the group.\<close>

definition pass_end :: "NostrFilter \<Rightarrow> bytes \<Rightarrow> (u64 \<times> u64) list \<Rightarrow> (bytes \<times> u64) list \<Rightarrow> nat \<Rightarrow> bool \<Rightarrow> ScanCursor \<Rightarrow> u64 \<Rightarrow> bool" where
  "pass_end f s xs B j fin c limit \<longleftrightarrow>
     (fin \<or> resumeKey c = []) \<and> j = length xs \<or>
     \<not> fin \<and> limit = 0 \<and> j < length xs \<and> (resumeKey c, resumeVal c) = ent s (xs ! j) \<or>
     \<not> fin \<and> limit = 0 \<and> j = length xs \<and> (resumeKey c, resumeVal c) \<in> set B \<or>
     \<not> fin \<and> j < length xs \<and> nf_since f \<noteq> 0 \<and> fst (xs ! j) < nf_since f \<and> (resumeKey c, resumeVal c) = ent s (0, 0) \<or>
     \<not> fin \<and> j < length xs \<and> nf_until f \<noteq> 0 \<and> fst (xs ! j) > nf_until f \<and> (resumeKey c, resumeVal c) = ent s (nf_until f, MAX_U64)"

lemma upto_ent: "grouped d T s m \<Longrightarrow> entries_upto d T s (ent s y) = {x \<in> group d T s. x \<le> y}"
  using grouped_order [of d T s m] by (auto simp: entries_upto_def simp del: split_paired_All)

lemma upto_until:
  assumes g: "grouped d T s m" and first: "y \<in> entries_upto d T s p" and n: "n < fst y"
  shows "entries_upto d T s (ent s (n, MAX_U64)) = {x \<in> entries_upto d T s p. fst x \<le> n}"
proof (intro equalityI subsetI)
  fix x assume "x \<in> entries_upto d T s (ent s (n, MAX_U64))"
  then have le: "x \<in> group d T s" "x \<le> (n, MAX_U64)" using upto_ent [OF g] by auto
  then have "fst x \<le> n" by (auto simp: less_eq_prod_def)
  moreover have "x \<le> y" using le(2) n by (auto simp: less_eq_prod_def)
  then have "pos d (ent s x) \<le> pos d p" using first grouped_order [OF g, of x y] by (auto simp: entries_upto_def)
  ultimately show "x \<in> {x \<in> entries_upto d T s p. fst x \<le> n}" using le(1) by (simp add: entries_upto_def)
next
  fix x assume "x \<in> {x \<in> entries_upto d T s p. fst x \<le> n}"
  then show "x \<in> entries_upto d T s (ent s (n, MAX_U64))"
    unfolding upto_ent [OF g] by (auto simp: entries_upto_def less_eq_prod_def)
qed

context golpe_env
begin

lemma visit_pass:
  assumes B: "\<forall>x \<in> set B. keyMatch c (fst x) = No" and xs: "\<forall>x \<in> set xs. keyMatch c (fst (ent s x)) = Yes"
    and "collect_visit E f i (map (ent s) xs @ B) (c, limit, added, out) = (fin, c', limit', added', out')"
  shows "keyMatch c' = keyMatch c \<and> outstanding c' = outstanding c \<and>
    (\<exists>j \<le> length xs. out' = out @ map (cand i) (take j xs) \<and> (\<forall>x \<in> set (take j xs). in_range f x) \<and>
      j \<le> unat limit \<and> limit' = limit - of_nat j \<and> added' = added + of_nat j \<and> pass_end f s xs B j fin c' limit')"
  using xs assms(3)
proof (induction xs arbitrary: limit added out)
  case Nil
  then show ?case
    using B by (cases B) (auto simp: pass_end_def split: if_splits)
next
  case (Cons x xs)
  have km: "keyMatch c (s @ to_sv64 (fst x)) = Yes" using Cons.prems(1) by (simp add: ent_def)
  show ?case
  proof (cases "limit = 0 \<or> \<not> in_range f x")
    case True
    then show ?thesis
      using Cons.prems(2) km
      by (intro conjI exI [of _ 0])
        (auto simp: ent_def parsedKey makeKey in_range_def pass_end_def not_le split: if_splits)
  next
    case False
    then have "limit \<noteq> 0" and r: "in_range f x" by auto
    have "collect_visit E f i (map (ent s) xs @ B) (c, limit - 1, added + 1, out @ [cand i x]) = (fin, c', limit', added', out')"
      using Cons.prems(2) km r \<open>limit \<noteq> 0\<close> by (auto simp: ent_def [of s x] parsedKey in_range_def cand_def not_le split: if_splits)
    from Cons.IH [OF _ this] Cons.prems(1) obtain j where
      IH: "keyMatch c' = keyMatch c" "outstanding c' = outstanding c" "j \<le> length xs"
      "out' = (out @ [cand i x]) @ map (cand i) (take j xs)" "\<forall>x \<in> set (take j xs). in_range f x" "j \<le> unat (limit - 1)"
      "limit' = limit - 1 - of_nat j" "added' = added + 1 + of_nat j" "pass_end f s xs B j fin c' limit'"
      by auto
    have "Suc j \<le> unat limit" 
    proof -
      have "0 < unat limit" using \<open>limit \<noteq> 0\<close> by (metis neq0_conv unat_eq_zero)
      then show ?thesis using IH(6) unat_pred [OF \<open>limit \<noteq> 0\<close>] by linarith
    qed
    moreover have "pass_end f s (x # xs) B (Suc j) fin c' limit'"
      using IH(9) by (auto simp: pass_end_def)
    ultimately show ?thesis
      using IH r by (intro conjI exI [of _ "Suc j"]) auto
  qed
qed

lemma group_positive:
  assumes "tables_ok (view t)"
  shows "(n, 0) \<notin> group d (view t) s"
  using assms by (force simp: group_def entries_iff tables_ok_def)

text \<open>One pass moves the cursor past what it delivered; unless it ends there, the cursor has moved down.\<close>

lemma pass_moves:
  assumes ok: "tables_ok (view t)" and c: "cursor_ok d (view t) s c" "active c" and "limit > 0"
    and v: "collect_visit E f i (generic_foreachFull E t d (resumeKey c) (resumeVal c) True) (c, limit, added, out) = (fin, c', limit', added', out')"
  defines "c'' \<equiv> if fin then c'\<lparr>resumeKey := []\<rparr> else c'"
    and "D \<equiv> desc_list (remaining d (view t) f s c)"
  shows "\<exists>j. out' = out @ map (cand i) (take j D) \<and> j \<le> length D \<and> j \<le> unat limit \<and> limit' = limit - of_nat j \<and> added' = added + of_nat j \<and>
    remaining d (view t) f s c'' = set (drop j D) \<and> cursor_ok d (view t) s c'' \<and> outstanding c'' = outstanding c \<and> keyMatch c'' = keyMatch c \<and>
    (active c'' \<and> limit' \<noteq> 0 \<longrightarrow> card (entries_upto d (view t) s (resumeKey c'', resumeVal c'')) < card (entries_upto d (view t) s (resumeKey c, resumeVal c)))"
proof -
  let ?T = "view t" and ?p = "(resumeKey c, resumeVal c)"
  have g: "grouped d ?T s (keyMatch c)" and start: "start_ok d s ?p" using c by (auto simp: cursor_ok_def)
  define xs where "xs = desc_list (entries_upto d ?T s ?p)"
  have xs: "set xs = entries_upto d ?T s ?p" "sorted_wrt (>) xs" by (simp_all add: xs_def)
  obtain B where B: "generic_foreachFull E t d (resumeKey c) (resumeVal c) True = map (ent s) xs @ B"
    "\<forall>x \<in> set B. keyMatch c (fst x) = No \<and> (\<forall>y. pos d x < pos d (ent s y))"
    using foreach_group [OF ok g start] unfolding xs_def by blast
  have yes: "\<forall>x \<in> set xs. keyMatch c (fst (ent s x)) = Yes"
    using g unfolding xs(1) grouped_def entries_upto_def group_iff by blast
  from visit_pass [OF _ yes v [unfolded B(1)]] B(2) obtain j where
    km: "keyMatch c' = keyMatch c" "outstanding c' = outstanding c"
    and j: "j \<le> length xs" "out' = out @ map (cand i) (take j xs)" "\<forall>x \<in> set (take j xs). in_range f x"
      "j \<le> unat limit" "limit' = limit - of_nat j" "added' = added + of_nat j" "pass_end f s xs B j fin c' limit'"
    by auto
  have D: "D = filter (in_range f) xs"
    using c(2) by (simp add: D_def xs_def remaining_def desc_filter)
  have "filter (in_range f) xs = filter (in_range f) (take j xs @ drop j xs)" by simp
  also have "\<dots> = take j xs @ filter (in_range f) (drop j xs)"
    using j(3) by (simp only: filter_append filter_True)
  finally have split: "D = take j xs @ filter (in_range f) (drop j xs)" by (simp add: D)
  have takeD: "take j D = take j xs" "drop j D = filter (in_range f) (drop j xs)" "j \<le> length D"
    using j(1) by (simp_all add: split)
  have below: "x \<le> xs ! j" if "j < length xs" "x \<in> set (drop j xs)" for x
    using desc_drop [OF xs(2) that(1)] that(2) by blast
  have goal: ?thesis if "remaining d ?T f s c'' = set (filter (in_range f) (drop j xs))" "active c'' \<longrightarrow> start_ok d s (resumeKey c'', resumeVal c'')"
    "active c'' \<and> limit' \<noteq> 0 \<longrightarrow> card (entries_upto d ?T s (resumeKey c'', resumeVal c'')) < card (entries_upto d ?T s ?p)"
  proof -
    have "keyMatch c'' = keyMatch c" "outstanding c'' = outstanding c" using km by (simp_all add: c''_def)
    moreover from this have "cursor_ok d ?T s c''" using g that(2) by (simp add: cursor_ok_def)
    moreover have "remaining d ?T f s c'' = set (drop j D)" using that(1) takeD by simp
    ultimately show ?thesis using j(2,4-6) takeD(1,3) that(3) by (intro exI [of _ j] conjI) simp_all
  qed
  have uptoj: "entries_upto d ?T s (ent s (xs ! j)) = set (drop j xs)" if "j < length xs"
  proof -
    have "xs ! j \<in> entries_upto d ?T s ?p" using that xs(1) nth_mem by blast
    then have "pos d (ent s (xs ! j)) \<le> pos d ?p" by (simp add: entries_upto_def)
    then have "pos d (ent s x) \<le> pos d ?p" if "x \<le> xs ! j" for x
      using order_trans [OF iffD2 [OF grouped_order [OF g] that]] by blast
    then have "{x \<in> group d ?T s. x \<le> xs ! j} = {x \<in> set xs. x \<le> xs ! j}"
      unfolding xs(1) entries_upto_def by blast
    also have "\<dots> = set (drop j xs)" by (rule desc_drop [OF xs(2) that])
    finally show ?thesis using upto_ent [OF g] by simp
  qed
  from j(7) consider
    (ended) "fin \<or> resumeKey c' = []" "j = length xs"
  | (full) "\<not> fin" "limit' = 0" "j < length xs" "(resumeKey c', resumeVal c') = ent s (xs ! j)"
  | (out) "\<not> fin" "limit' = 0" "j = length xs" "(resumeKey c', resumeVal c') \<in> set B"
  | (since) "\<not> fin" "j < length xs" "nf_since f \<noteq> 0" "fst (xs ! j) < nf_since f" "(resumeKey c', resumeVal c') = ent s (0, 0)"
  | (until) "\<not> fin" "j < length xs" "nf_until f \<noteq> 0" "fst (xs ! j) > nf_until f" "(resumeKey c', resumeVal c') = ent s (nf_until f, MAX_U64)"
    unfolding pass_end_def by (elim disjE conjE) simp_all
  then show ?thesis
  proof cases
    case ended
    then have "\<not> active c''" by (auto simp: active_def c''_def)
    then show ?thesis using ended(2) by (intro goal) (auto simp: remaining_def)
  next
    case full
    have "active c'" using full(4) by (auto simp: active_def ent_def)
    then show ?thesis
      using full uptoj by (intro goal) (auto simp: remaining_def c''_def start_ok_def)
  next
    case out
    then have "start_ok d s (resumeKey c', resumeVal c')" and none: "entries_upto d ?T s (resumeKey c', resumeVal c') = {}"
      using B(2) by (auto simp: start_ok_def entries_upto_def not_le)
    then show ?thesis using out by (intro goal) (auto simp: remaining_def c''_def)
  next
    case since
    have none: "entries_upto d ?T s (ent s (0, 0)) = {}"
      using upto_ent [OF g] group_positive [OF ok] by auto
    have "filter (in_range f) (drop j xs) = []"
    proof -
      have "\<not> in_range f x" if "x \<in> set (drop j xs)" for x
        using below [OF since(2) that] since(3,4) by (auto simp: in_range_def less_eq_prod_def)
      then show ?thesis by (auto simp: filter_empty_conv)
    qed
    moreover have "card (entries_upto d ?T s ?p) > 0" using since(2) xs(1) by (metis card_gt_0_iff finite_upto length_greater_0_conv less_nat_zero_code list.size(3) set_empty)
    ultimately show ?thesis
      using since none by (intro goal) (auto simp: remaining_def c''_def start_ok_def)
  next
    case until
    have "j = 0"
    proof (rule ccontr)
      assume "j \<noteq> 0"
      then have "xs ! 0 \<in> set (take j xs)" using until(2) by (cases xs; cases j) auto
      then have "fst (xs ! 0) \<le> nf_until f" using j(3) until(3) by (auto simp: in_range_def)
      moreover have "xs ! j < xs ! 0" using xs(2) until(2) \<open>j \<noteq> 0\<close> by (simp add: sorted_wrt_iff_nth_less)
      ultimately show False using until(4) by (auto simp: less_prod_def)
    qed
    have first: "xs ! 0 \<in> entries_upto d ?T s ?p" using until(2) xs(1) \<open>j = 0\<close> nth_mem by metis
    have sub: "entries_upto d ?T s (ent s (nf_until f, MAX_U64)) = {x \<in> entries_upto d ?T s ?p. fst x \<le> nf_until f}"
      by (rule upto_until [OF g first]) (use until(4) \<open>j = 0\<close> in simp)
    have "xs ! 0 \<notin> entries_upto d ?T s (ent s (nf_until f, MAX_U64))" using until(4) \<open>j = 0\<close> by (simp add: sub not_le)
    moreover have "entries_upto d ?T s (ent s (nf_until f, MAX_U64)) \<subseteq> entries_upto d ?T s ?p" unfolding sub by blast
    ultimately have "card (entries_upto d ?T s (ent s (nf_until f, MAX_U64))) < card (entries_upto d ?T s ?p)"
      using first by (intro psubset_card_mono finite_upto) blast
    moreover have "active c'" using until(5) by (auto simp: active_def ent_def)
    ultimately show ?thesis
      using until \<open>j = 0\<close> by (intro goal) (auto simp: remaining_def c''_def start_ok_def sub xs(1) in_range_def)
  qed
qed


lemma collect_ok:
  fixes f :: NostrFilter and limit :: u64
  assumes ok: "tables_ok (view t)" and c: "cursor_ok d (view t) s c"
  defines "D \<equiv> desc_list (remaining d (view t) f s c)"
  defines "n \<equiv> min (unat limit) (length D)"
  shows "\<exists>c'. collect E t f d i limit c out = Some (of_nat n, c', out @ map (cand i) (take n D)) \<and>
    cursor_ok d (view t) s c' \<and> keyMatch c' = keyMatch c \<and> remaining d (view t) f s c' = set (drop n D) \<and>
    outstanding c' = outstanding c + of_nat n"
proof -
  let ?I = "\<lambda>(c', limit', added', out'). cursor_ok d (view t) s c' \<and> keyMatch c' = keyMatch c \<and> outstanding c' = outstanding c \<and>
    (\<exists>j \<le> length D. out' = out @ map (cand i) (take j D) \<and> j \<le> unat limit \<and> limit' = limit - of_nat j \<and> added' = (of_nat j :: u64) \<and>
      remaining d (view t) f s c' = set (drop j D))"
  let ?Q = "\<lambda>(c', limit', added', out'). ?I (c', limit', added', out') \<and> \<not> (active c' \<and> limit' > 0)"
  let ?m = "\<lambda>(c', limit' :: u64, added' :: u64, out' :: CandidateEvent list). if active c' \<and> limit' > 0 then
    Suc (card (entries_upto d (view t) s (resumeKey c', resumeVal c'))) else 0"
  have "\<exists>r. while_flow (collect_body E t f d i) (c, limit, 0, out) = Some r \<and> ?Q r"
  proof (rule while_flow_rule [where I = ?I and m = ?m])
    show "?I (c, limit, 0, out)" using c by (auto simp: D_def intro!: exI [of _ "0 :: nat"])
  next
    fix st :: collecting assume I: "?I st"
    obtain c1 limit1 added1 out1 where st: "st = (c1, limit1, added1, out1)" by (cases st)
    from I obtain j where c1: "cursor_ok d (view t) s c1" "keyMatch c1 = keyMatch c" "outstanding c1 = outstanding c"
      and j: "j \<le> length D" "out1 = out @ map (cand i) (take j D)" "j \<le> unat limit" "limit1 = limit - of_nat j" "added1 = of_nat j"
        "remaining d (view t) f s c1 = set (drop j D)" unfolding st by auto
    show "\<exists>fl. collect_body E t f d i st = Some fl \<and> (case fl of Done r \<Rightarrow> ?Q r | Next s' \<Rightarrow> ?I s' \<and> ?m s' < ?m st)"
    proof (cases "active c1 \<and> limit1 > 0")
      case False
      then show ?thesis using I by (auto simp: collect_body_def st)
    next
      case True
      obtain fin c2 limit2 added2 out2 where
        v: "collect_visit E f i (generic_foreachFull E t d (resumeKey c1) (resumeVal c1) True) (c1, limit1, added1, out1) =
          (fin, c2, limit2, added2, out2)" by (metis prod_cases5)
      let ?c = "if fin then c2\<lparr>resumeKey := []\<rparr> else c2"
      have D1: "desc_list (remaining d (view t) f s c1) = drop j D"
        using desc_unique [of "drop j D"] by (simp add: j(6) D_def sorted_wrt_drop)
      from pass_moves [OF ok c1(1) _ _ v] True obtain k where
        k: "out2 = out1 @ map (cand i) (take k (drop j D))" "k \<le> length (drop j D)" "k \<le> unat limit1" "limit2 = limit1 - of_nat k"
          "added2 = added1 + of_nat k" "remaining d (view t) f s ?c = set (drop k (drop j D))" "cursor_ok d (view t) s ?c"
          "outstanding ?c = outstanding c1" "keyMatch ?c = keyMatch c1"
          "active ?c \<and> limit2 \<noteq> 0 \<longrightarrow> card (entries_upto d (view t) s (resumeKey ?c, resumeVal ?c)) <
            card (entries_upto d (view t) s (resumeKey c1, resumeVal c1))"
        unfolding D1 by blast
      have "unat limit1 = unat limit - j"
        using j(3,4) le_unat_uoi [OF j(3)] by (simp add: unat_sub word_le_nat_alt)
      then have "j + k \<le> unat limit" using k(3) j(3) by simp
      then have "?I (?c, limit2, added2, out2)"
        using k c1 j by (auto simp: take_add add.commute intro!: exI [of _ "j + k"])
      moreover have "?m (?c, limit2, added2, out2) < ?m st" using k(10) True by (auto simp: st word_gt_0)
      moreover have "collect_body E t f d i st = Some (Next (?c, limit2, added2, out2))"
        using v True by (simp add: collect_body_def st)
      ultimately show ?thesis by auto
    qed
  qed
  then obtain c' limit' added' out' where r: "while_flow (collect_body E t f d i) (c, limit, 0, out) = Some (c', limit', added', out')"
    and I: "?I (c', limit', added', out')" and stop: "\<not> (active c' \<and> limit' > 0)" by (clarify, blast)
  from I obtain j where j: "j \<le> length D" "out' = out @ map (cand i) (take j D)" "j \<le> unat limit" "limit' = limit - of_nat j" "added' = of_nat j"
    "remaining d (view t) f s c' = set (drop j D)" by auto
  have "j = n"
  proof (cases "active c'")
    case True
    then have "limit = of_nat j" using stop j(4) by (simp add: word_gt_0)
    then have "j = unat limit" using le_unat_uoi [OF j(3)] by simp
    then show ?thesis using j(1) by (simp add: n_def)
  next
    case False
    then have "drop j D = []" using j(6) by (simp add: remaining_def)
    then show ?thesis using j(1,3) by (simp add: n_def)
  qed
  then show ?thesis using r I j by (auto simp: collect_def cursor_ok_def remaining_def active_def)
qed

end

section \<open>Scanning\<close>

text \<open>
  A scan with the search keys \<open>ss\<close>: the candidates in the queue and those the cursors still have to
  deliver.  A cursor that has more to deliver has a candidate in the queue, and all its candidates
  in the queue come before what it still delivers; so the first of the queue is the first of all.
\<close>

definition queued :: "DBScan \<Rightarrow> nat \<Rightarrow> (u64 \<times> u64) set" where
  "queued s i = {x. fst x < MAX_CREATED \<and> cand (of_nat i) x \<in> set (eventQueue s)}"

definition undelivered :: "tables \<Rightarrow> bytes list \<Rightarrow> DBScan \<Rightarrow> nat \<Rightarrow> (u64 \<times> u64) set" where
  "undelivered T ss s i = remaining (indexDbi s) T (sc_f s) (ss ! i) (cursors s ! i)"

definition cursor_inv :: "tables \<Rightarrow> bytes list \<Rightarrow> DBScan \<Rightarrow> nat \<Rightarrow> bool" where
  "cursor_inv T ss s i \<longleftrightarrow> cursor_ok (indexDbi s) T (ss ! i) (cursors s ! i) \<and>
     unat (outstanding (cursors s ! i)) = card (queued s i) \<and>
     (\<forall>x \<in> group (indexDbi s) T (ss ! i). fst x < MAX_CREATED) \<and>
     (\<forall>x \<in> queued s i. \<forall>y \<in> undelivered T ss s i. y < x)"

definition scan_ok :: "tables \<Rightarrow> bytes list \<Rightarrow> DBScan \<Rightarrow> bool" where
  "scan_ok T ss s \<longleftrightarrow> length (cursors s) = length ss \<and> length ss < 2 ^ 24 \<and> unat (nextInitIndex s) \<le> length ss \<and>
     0 < initialScanDepth s \<and> 0 < refillScanDepth s \<and> distinct (eventQueue s) \<and>
     (\<forall>c \<in> set (eventQueue s). \<exists>i x. c = cand (of_nat i) x \<and> i < unat (nextInitIndex s) \<and> fst x < MAX_CREATED) \<and>
     (\<forall>i < length ss. cursor_inv T ss s i) \<and>
     (\<forall>i < unat (nextInitIndex s). undelivered T ss s i \<noteq> {} \<longrightarrow> queued s i \<noteq> {}) \<and>
     (unat (nextInitIndex s) = length ss \<longrightarrow> ce_sorted (eventQueue s))"

definition todo :: "tables \<Rightarrow> bytes list \<Rightarrow> DBScan \<Rightarrow> (nat \<times> u64 \<times> u64) set" where
  "todo T ss s = (SIGMA i:{..<length ss}. queued s i \<union> undelivered T ss s i)"

definition scan_pending :: "tables \<Rightarrow> bytes list \<Rightarrow> DBScan \<Rightarrow> (u64 \<times> u64) set" where
  "scan_pending T ss s = snd ` todo T ss s"

lemma small_index: "i < 2 ^ 24 \<Longrightarrow> unat (of_nat i :: u64) = i \<and> (of_nat i :: u64) < 2 ^ 24"
  by (simp add: unat_of_nat word_less_nat_alt)

lemma cand_fields:
  assumes "fst x < MAX_CREATED" and "i < 2 ^ 24"
  shows "okey (cand (of_nat i) x) = x" "unat (ce_scanIndex (cand (of_nat i) x)) = i" "ce_levId (cand (of_nat i) x) = snd x"
    "ce_created (cand (of_nat i) x) = fst x" "ce_scanIndex (cand (of_nat i) x) = of_nat i"
  using assms small_index [of i] by (simp_all add: okey_def cand_def ce_fields)

lemma cand_inject:
  "fst x < MAX_CREATED \<Longrightarrow> fst y < MAX_CREATED \<Longrightarrow> i < 2 ^ 24 \<Longrightarrow> j < 2 ^ 24 \<Longrightarrow> cand (of_nat i) x = cand (of_nat j) y \<longleftrightarrow> i = j \<and> x = y"
  using cand_fields by metis

lemma finite_queued [simp]: "i < 2 ^ 24 \<Longrightarrow> finite (queued s i)"
proof -
  assume "i < 2 ^ 24"
  then have "x \<in> okey ` set (eventQueue s)" if "x \<in> queued s i" for x
    using that cand_fields(1) [of x i] by (auto simp: queued_def intro: image_eqI [of _ _ "cand (of_nat i) x"])
  then have "queued s i \<subseteq> okey ` set (eventQueue s)" by blast
  then show ?thesis by (rule finite_subset) simp
qed

lemma undelivered_group: "undelivered T ss s i \<subseteq> {x \<in> group (indexDbi s) T (ss ! i). in_range (sc_f s) x}"
  by (auto simp: undelivered_def remaining_def entries_upto_def split: if_splits)

lemma undelivered_finite [simp]: "finite (undelivered T ss s i)"
  by (simp add: undelivered_def)

lemma todo_finite: "length ss < 2 ^ 24 \<Longrightarrow> finite (todo T ss s)"
  by (auto simp: todo_def intro!: finite_SigmaI)

lemma take_above_drop:
  assumes "sorted_wrt (>) xs" and "x \<in> set (take n xs)" and "y \<in> set (drop n xs)"
  shows "y < x"
  using assms by (metis append_take_drop_id sorted_wrt_append)

lemma take_nonempty: "set (drop n xs) \<noteq> {} \<Longrightarrow> 0 < n \<Longrightarrow> set (take n xs) \<noteq> {}"
  by (cases xs) auto

text \<open>A cursor \<open>i\<close> with nothing in the queue delivers some candidates.\<close>

context golpe_env
begin

lemma deliver:
  assumes ok: "tables_ok (view t)" and inv: "cursor_inv (view t) ss s i" and i: "i < length ss" "length ss < 2 ^ 24" "length (cursors s) = length ss"
    and none: "queued s i = {}" and limit: "0 < limit"
  obtains added c' new where
    "collect E t (sc_f s) (indexDbi s) (of_nat i) limit (cursors s ! i) out = Some (added, c', out @ map (cand (of_nat i)) new)"
    "sorted_wrt (>) new" "set new \<union> remaining (indexDbi s) (view t) (sc_f s) (ss ! i) c' = undelivered (view t) ss s i"
    "\<forall>x \<in> set new. \<forall>y \<in> remaining (indexDbi s) (view t) (sc_f s) (ss ! i) c'. y < x"
    "remaining (indexDbi s) (view t) (sc_f s) (ss ! i) c' \<noteq> {} \<longrightarrow> set new \<noteq> {}"
    "cursor_ok (indexDbi s) (view t) (ss ! i) c'" "unat (outstanding c') = card (set new)" "\<forall>x \<in> set new. fst x < MAX_CREATED"
proof -
  define D where "D = desc_list (undelivered (view t) ss s i)"
  define n where "n = min (unat limit) (length D)"
  have c: "cursor_ok (indexDbi s) (view t) (ss ! i) (cursors s ! i)" "outstanding (cursors s ! i) = 0"
    using inv none by (auto simp: cursor_inv_def unat_eq_zero)
  have D: "sorted_wrt (>) D" "set D = undelivered (view t) ss s i" "distinct D" by (simp_all add: D_def)
  from collect_ok [OF ok c(1), of "sc_f s" "of_nat i" limit out]
  obtain c' where c': "collect E t (sc_f s) (indexDbi s) (of_nat i) limit (cursors s ! i) out = Some (of_nat n, c', out @ map (cand (of_nat i)) (take n D))"
    "cursor_ok (indexDbi s) (view t) (ss ! i) c'" "remaining (indexDbi s) (view t) (sc_f s) (ss ! i) c' = set (drop n D)"
    "outstanding c' = of_nat n"
    by (auto simp: D_def n_def undelivered_def c(2))
  have "n \<le> unat limit" by (simp add: n_def)
  then have "unat (outstanding c') = n" using c'(4) by (simp add: le_unat_uoi)
  moreover have "card (set (take n D)) = n" using D(3) by (simp add: distinct_card n_def)
  moreover have "0 < unat limit" using limit by (simp add: word_gt_0_no unat_gt_0)
  then have "set (drop n D) \<noteq> {} \<longrightarrow> set (take n D) \<noteq> {}" by (auto simp: n_def)
  moreover have "set (take n D) \<union> set (drop n D) = set D" by (metis append_take_drop_id set_append)
  moreover have "\<forall>x \<in> set D. fst x < MAX_CREATED"
    using inv undelivered_group [of "view t" ss s i] by (auto simp: D(2) cursor_inv_def)
  ultimately show ?thesis
    using that [OF c'(1)] c'(2,3) D take_above_drop [OF D(1)] by (auto simp: sorted_wrt_take dest: in_set_takeD)
qed

end

text \<open>Replacing the cursor \<open>i\<close> and the queue: what has to hold for the invariant.\<close>

lemma scan_ok_update:
  assumes ok: "scan_ok T ss s" and i: "i < length ss"
    and s': "indexDbi s' = indexDbi s" "sc_f s' = sc_f s" "cursors s' = (cursors s)[i := c]"
      "initialScanDepth s' = initialScanDepth s" "refillScanDepth s' = refillScanDepth s"
    and queue: "distinct (eventQueue s')" "\<And>j x. j < length ss \<Longrightarrow> fst x < MAX_CREATED \<Longrightarrow>
        cand (of_nat j) x \<in> set (eventQueue s') \<longleftrightarrow> (if j = i then x \<in> Q else x \<in> queued s j)"
      "\<forall>c \<in> set (eventQueue s'). \<exists>i x. c = cand (of_nat i) x \<and> i < unat (nextInitIndex s') \<and> fst x < MAX_CREATED"
    and c: "cursor_ok (indexDbi s) T (ss ! i) c" "unat (outstanding c) = card Q" "\<forall>x \<in> Q. fst x < MAX_CREATED"
      "\<forall>x \<in> Q. \<forall>y \<in> remaining (indexDbi s) T (sc_f s) (ss ! i) c. y < x"
      "i < unat (nextInitIndex s') \<longrightarrow> remaining (indexDbi s) T (sc_f s) (ss ! i) c \<noteq> {} \<longrightarrow> Q \<noteq> {}"
    and nxt: "unat (nextInitIndex s') \<le> length ss" "\<forall>j < unat (nextInitIndex s'). j = i \<or> j < unat (nextInitIndex s)"
      "unat (nextInitIndex s') = length ss \<longrightarrow> ce_sorted (eventQueue s')"
  shows "scan_ok T ss s' \<and> queued s' i = Q \<and> (\<forall>j < length ss. j \<noteq> i \<longrightarrow> queued s' j = queued s j \<and> undelivered T ss s' j = undelivered T ss s j) \<and>
    undelivered T ss s' i = remaining (indexDbi s) T (sc_f s) (ss ! i) c"
proof -
  have len: "length (cursors s) = length ss" "length ss < 2 ^ 24" using ok by (simp_all add: scan_ok_def)
  have q: "queued s' j = (if j = i then Q else queued s j)" if "j < length ss" for j
    using queue(2) [OF that] c(3) by (auto simp: queued_def)
  have u: "undelivered T ss s' j = (if j = i then remaining (indexDbi s) T (sc_f s) (ss ! i) c else undelivered T ss s j)" if "j < length ss" for j
    using that i len by (simp add: undelivered_def s')
  have "cursor_inv T ss s' j" if j: "j < length ss" for j
  proof (cases "j = i")
    case True
    have "\<forall>x \<in> group (indexDbi s) T (ss ! i). fst x < MAX_CREATED" using ok i by (auto simp: scan_ok_def cursor_inv_def)
    then show ?thesis using True c q [OF i] u [OF i] i len by (simp add: cursor_inv_def s')
  next
    case False
    moreover have "cursor_inv T ss s j" using ok j by (simp add: scan_ok_def)
    ultimately show ?thesis using q [OF j] u [OF j] by (simp add: cursor_inv_def s')
  qed
  moreover have "undelivered T ss s' j \<noteq> {} \<longrightarrow> queued s' j \<noteq> {}" if "j < unat (nextInitIndex s')" for j
  proof -
    have j: "j < length ss" using that nxt(1) by simp
    show ?thesis
    proof (cases "j = i")
      case True
      then show ?thesis using c(5) that q [OF j] u [OF j] by simp
    next
      case False
      then have "j < unat (nextInitIndex s)" using nxt(2) that by blast
      then show ?thesis using ok q [OF j] u [OF j] False by (simp add: scan_ok_def)
    qed
  qed
  ultimately have "scan_ok T ss s'"
    using ok queue(1,3) nxt(1,3) by (simp add: scan_ok_def s')
  then show ?thesis using q u i by auto
qed

lemma todo_update:
  assumes "i < length ss" and "\<forall>j < length ss. j \<noteq> i \<longrightarrow> queued s' j = queued s j \<and> undelivered T ss s' j = undelivered T ss s j"
    and "queued s' i \<union> undelivered T ss s' i = (queued s i \<union> undelivered T ss s i) - X"
  shows "todo T ss s' = todo T ss s - {i} \<times> X"
  using assms unfolding todo_def by auto

lemma queue_index:
  assumes "scan_ok T ss s" and "cand (of_nat i) x \<in> set (eventQueue s)" and "i < length ss" and "fst x < MAX_CREATED"
  shows "i < unat (nextInitIndex s)"
proof -
  have len: "length ss < 2 ^ 24" "unat (nextInitIndex s) \<le> length ss" using assms(1) by (simp_all add: scan_ok_def)
  obtain j y where "cand (of_nat i) x = cand (of_nat j) y" "j < unat (nextInitIndex s)" "fst y < MAX_CREATED"
    using assms(1,2) unfolding scan_ok_def by blast
  then show ?thesis using cand_inject [of x y i j] assms(3,4) len by simp
qed

lemma set_std_sort [simp]: "set (std_sort lt xs) = set xs" and distinct_std_sort [simp]: "distinct (std_sort lt xs) = distinct xs"
  by (metis mset_std_sort set_mset_mset, metis mset_eq_imp_distinct_iff mset_std_sort)

lemma cand_image:
  assumes "i < 2 ^ 24" "j < 2 ^ 24" "fst x < MAX_CREATED" "\<forall>y \<in> A. fst y < MAX_CREATED"
  shows "cand (of_nat j) x \<in> cand (of_nat i) ` A \<longleftrightarrow> j = i \<and> x \<in> A"
proof
  assume "cand (of_nat j) x \<in> cand (of_nat i) ` A"
  then obtain y where y: "y \<in> A" "cand (of_nat j) x = cand (of_nat i) y" by (rule imageE)
  have "j = i \<and> x = y" using cand_inject [OF assms(3) bspec [OF assms(4) y(1)] assms(2,1)] y(2) by (rule iffD1)
  then show "j = i \<and> x \<in> A" using y(1) by simp
qed auto

lemma ce_sorted_new: "sorted_wrt (>) new \<Longrightarrow> \<forall>x \<in> set new. fst x < MAX_CREATED \<Longrightarrow> i < 2 ^ 24 \<Longrightarrow> ce_sorted (map (cand (of_nat i)) new)"
  by (induction new) (auto simp: ce_sorted_def cand_fields intro: less_imp_le simp del: less_eq_prod_simp)

lemma distinct_new: "sorted_wrt (>) new \<Longrightarrow> \<forall>x \<in> set new. fst x < MAX_CREATED \<Longrightarrow> i < 2 ^ 24 \<Longrightarrow> distinct (map (cand (of_nat i)) new)"
proof -
  assume "sorted_wrt (>) new" and new: "\<forall>x \<in> set new. fst x < MAX_CREATED" "i < 2 ^ 24"
  then have "distinct new" by (induction new) auto
  moreover have "inj_on (cand (of_nat i)) (set new)"
    by (rule inj_onI) (use new cand_inject [of _ _ i i] in blast)
  ultimately show ?thesis by (simp add: distinct_map)
qed

context golpe_env
begin

lemma scan_init_ok:
  assumes ok: "tables_ok (view t)" and S: "scan_ok (view t) ss s" and nxt: "unat (nextInitIndex s) < length (cursors s)"
  obtains s' where "scan_init E t s = Some s'" "scan_ok (view t) ss s'" "todo (view t) ss s' = todo (view t) ss s"
    "unat (nextInitIndex s') = unat (nextInitIndex s) + 1" "sc_f s' = sc_f s" "indexOnly s' = indexOnly s" "indexDbi s' = indexDbi s"
proof -
  let ?i = "unat (nextInitIndex s)"
  have len: "length (cursors s) = length ss" "length ss < 2 ^ 24" and depth: "0 < initialScanDepth s" and dist: "distinct (eventQueue s)"
    and form: "\<forall>c \<in> set (eventQueue s). \<exists>i x. c = cand (of_nat i) x \<and> i < ?i \<and> fst x < MAX_CREATED"
    using S by (simp_all add: scan_ok_def)
  have i: "?i < length ss" using nxt len by simp
  have inv: "cursor_inv (view t) ss s ?i" using S i by (simp add: scan_ok_def)
  have none: "queued s ?i = {}" using queue_index [OF S _ i] by (auto simp: queued_def)
  obtain added c new where
    r: "collect E t (sc_f s) (indexDbi s) (of_nat ?i) (initialScanDepth s) (cursors s ! ?i) (eventQueue s) =
      Some (added, c, eventQueue s @ map (cand (of_nat ?i)) new)"
    and new: "sorted_wrt (>) new" "set new \<union> remaining (indexDbi s) (view t) (sc_f s) (ss ! ?i) c = undelivered (view t) ss s ?i"
      "\<forall>x \<in> set new. \<forall>y \<in> remaining (indexDbi s) (view t) (sc_f s) (ss ! ?i) c. y < x"
      "remaining (indexDbi s) (view t) (sc_f s) (ss ! ?i) c \<noteq> {} \<longrightarrow> set new \<noteq> {}"
      "cursor_ok (indexDbi s) (view t) (ss ! ?i) c" "unat (outstanding c) = card (set new)" "\<forall>x \<in> set new. fst x < MAX_CREATED"
    by (rule deliver [OF ok inv i len(2,1) none depth])
  define s1 where "s1 = s\<lparr>approxWork := approxWork s + added, cursors := (cursors s)[?i := c],
    eventQueue := eventQueue s @ map (cand (of_nat ?i)) new, nextInitIndex := nextInitIndex s + 1\<rparr>"
  define s' where "s' = (if nextInitIndex s + 1 = of_nat (length (cursors s)) then s1\<lparr>eventQueue := std_sort ce_cmp (eventQueue s1)\<rparr> else s1)"
  have n1: "unat (nextInitIndex s + 1) = ?i + 1"
    using i len(2) by (simp add: unat_Suc)
  have full: "nextInitIndex s + 1 = of_nat (length (cursors s)) \<longleftrightarrow> ?i + 1 = length ss"
    using n1 small_index [OF len(2)] len(1) by (metis of_nat_unat ucast_id)
  have q: "set (eventQueue s') = set (eventQueue s) \<union> cand (of_nat ?i) ` set new" "distinct (eventQueue s') \<longleftrightarrow> distinct (eventQueue s1)"
    by (simp_all add: s'_def s1_def)
  have init: "scan_init E t s = Some s'"
    using r by (simp add: scan_init_def Let_def s'_def s1_def)
  have fields: "indexDbi s' = indexDbi s" "sc_f s' = sc_f s" "cursors s' = (cursors s)[?i := c]" "indexOnly s' = indexOnly s"
    "initialScanDepth s' = initialScanDepth s" "refillScanDepth s' = refillScanDepth s" "nextInitIndex s' = nextInitIndex s + 1"
    by (simp_all add: s'_def s1_def)
  have mem: "cand (of_nat j) x \<in> set (eventQueue s') \<longleftrightarrow> (if j = ?i then x \<in> set new else x \<in> queued s j)"
    if j: "j < length ss" "fst x < MAX_CREATED" for j x
  proof (cases "j = ?i")
    case True
    have "x \<notin> queued s ?i" using none by simp
    then have "cand (of_nat j) x \<notin> set (eventQueue s)" using True j(2) by (simp add: queued_def)
    moreover have "cand (of_nat j) x \<in> cand (of_nat ?i) ` set new \<longleftrightarrow> x \<in> set new"
      using cand_image [OF _ _ j(2) new(7), of ?i j] True i len(2) by simp
    ultimately show ?thesis using True by (simp add: q(1))
  next
    case False
    then have "cand (of_nat j) x \<notin> cand (of_nat ?i) ` set new"
      using cand_image [OF _ _ j(2) new(7), of ?i j] i j(1) len(2) by simp
    then show ?thesis using False j by (simp add: q(1) queued_def)
  qed
  have "distinct (eventQueue s1)"
  proof -
    have "set (eventQueue s) \<inter> set (map (cand (of_nat ?i)) new) = {}"
    proof (rule ccontr)
      assume "set (eventQueue s) \<inter> set (map (cand (of_nat ?i)) new) \<noteq> {}"
      then obtain x where "x \<in> set new" "cand (of_nat ?i) x \<in> set (eventQueue s)" by auto
      then have "x \<in> queued s ?i" using new(7) by (simp add: queued_def)
      then show False using none by simp
    qed
    then show ?thesis using dist distinct_new [OF new(1,7), of ?i] i len(2) by (simp add: s1_def)
  qed
  moreover have "\<forall>c \<in> set (eventQueue s'). \<exists>i x. c = cand (of_nat i) x \<and> i < unat (nextInitIndex s') \<and> fst x < MAX_CREATED"
  proof
    fix c assume "c \<in> set (eventQueue s')"
    then consider "c \<in> set (eventQueue s)" | x where "x \<in> set new" "c = cand (of_nat ?i) x" unfolding q(1) by blast
    then show "\<exists>i x. c = cand (of_nat i) x \<and> i < unat (nextInitIndex s') \<and> fst x < MAX_CREATED"
    proof cases
      case 1
      with form obtain i x where "c = cand (of_nat i) x" "i < ?i" "fst x < MAX_CREATED" by blast
      then show ?thesis unfolding fields(7) n1 by (intro exI [of _ i] exI [of _ x]) simp
    next
      case (2 x)
      then show ?thesis unfolding fields(7) n1 using new(7) by (intro exI [of _ ?i] exI [of _ x]) simp
    qed
  qed
  moreover have "unat (nextInitIndex s') = length ss \<longrightarrow> ce_sorted (eventQueue s')"
    unfolding fields(7) n1 using full by (simp add: s'_def ce_sorted_sort)
  ultimately have upd: "scan_ok (view t) ss s' \<and> queued s' ?i = set new \<and>
    (\<forall>j < length ss. j \<noteq> ?i \<longrightarrow> queued s' j = queued s j \<and> undelivered (view t) ss s' j = undelivered (view t) ss s j) \<and>
    undelivered (view t) ss s' ?i = remaining (indexDbi s) (view t) (sc_f s) (ss ! ?i) c"
    using new i n1 q(2) by (intro scan_ok_update [OF S i fields(1-3,5,6)] mem) (simp_all add: fields(7) less_Suc_eq disj_commute)
  then have "todo (view t) ss s' = todo (view t) ss s - {?i} \<times> {}"
    using none new(2) by (intro todo_update [OF i]) auto
  then show ?thesis using that [OF init] upd fields n1 by simp
qed

end

lemma cursor_outstanding [simp]:
  "cursor_ok d T s (c\<lparr>outstanding := n\<rparr>) = cursor_ok d T s c" "remaining d T f s (c\<lparr>outstanding := n\<rparr>) = remaining d T f s c"
  by (simp_all add: cursor_ok_def remaining_def active_def)

lemma queue_head:
  assumes S: "scan_ok T ss s" and nxt: "unat (nextInitIndex s) = length ss" and q: "eventQueue s = ev # rest"
  obtains i x where "ev = cand (of_nat i) x" "i < length ss" "fst x < MAX_CREATED" "x \<in> queued s i" "\<forall>y \<in> scan_pending T ss s. y \<le> x"
proof -
  have len: "length ss < 2 ^ 24" and sorted: "ce_sorted (ev # rest)"
    using S nxt q by (simp_all add: scan_ok_def)
  obtain i x where ev: "ev = cand (of_nat i) x" "i < length ss" "fst x < MAX_CREATED"
    using S nxt q unfolding scan_ok_def by (metis list.set_intros(1))
  have key: "okey ev = x" using cand_fields(1) [OF ev(3)] ev(1,2) len by simp
  have le: "y \<le> x" if "y \<in> queued s j" "j < length ss" for j y
  proof -
    have "cand (of_nat j) y \<in> set (ev # rest)" "fst y < MAX_CREATED" using that q by (auto simp: queued_def)
    then have "okey (cand (of_nat j) y) \<le> okey ev" using sorted by (auto simp: ce_sorted_def)
    then show ?thesis using cand_fields(1) [of y j] \<open>fst y < MAX_CREATED\<close> that(2) len key by simp
  qed
  have "y \<le> x" if "y \<in> scan_pending T ss s" for y
  proof -
    from that obtain j where j: "j < length ss" "y \<in> queued s j \<or> y \<in> undelivered T ss s j"
      by (auto simp: scan_pending_def todo_def)
    show ?thesis
    proof (cases "y \<in> queued s j")
      case False
      then have u: "y \<in> undelivered T ss s j" using j(2) by simp
      have "\<forall>i < length ss. undelivered T ss s i \<noteq> {} \<longrightarrow> queued s i \<noteq> {}" using S by (simp add: scan_ok_def nxt)
      then obtain z where "z \<in> queued s j" using j(1) u by blast
      moreover have "cursor_inv T ss s j" using S j(1) by (simp add: scan_ok_def)
      then have "y < z" using u calculation by (simp add: cursor_inv_def)
      ultimately show ?thesis using le [OF _ j(1), of z] by (meson less_le_trans less_imp_le)
    qed (rule le [OF _ j(1)])
  qed
  moreover have "x \<in> queued s i" using ev q by (simp add: queued_def)
  ultimately show ?thesis using that ev by blast
qed

lemma queue_tail:
  assumes S: "scan_ok T ss s" and q: "eventQueue s = cand (of_nat i) x # rest" and i: "i < length ss" "fst x < MAX_CREATED"
    and j: "j < length ss" "fst y < MAX_CREATED"
  shows "cand (of_nat j) y \<in> set rest \<longleftrightarrow> (if j = i then y \<in> queued s i - {x} else y \<in> queued s j)"
proof -
  have len: "length ss < 2 ^ 24" and dist: "distinct (cand (of_nat i) x # rest)" using S q by (simp_all add: scan_ok_def)
  have "cand (of_nat j) y = cand (of_nat i) x \<longleftrightarrow> j = i \<and> y = x" using cand_inject [OF j(2) i(2), of j i] i(1) j(1) len by simp
  then show ?thesis using dist q j(2) by (auto simp: queued_def)
qed

context golpe_env
begin

lemma scan_refill_ok:
  assumes ok: "tables_ok (view t)" and S: "scan_ok (view t) ss s" and nxt: "unat (nextInitIndex s) = length ss"
    and q: "eventQueue s = cand (of_nat i) x # rest" and i: "i < length ss" "fst x < MAX_CREATED" and x: "x \<in> queued s i"
  obtains s' where "scan_refill E t (cand (of_nat i) x) (s\<lparr>eventQueue := rest, approxWork := w\<rparr>) = Some (Inr s')" "scan_ok (view t) ss s'"
    "todo (view t) ss s' = todo (view t) ss s - {(i, x)}" "nextInitIndex s' = nextInitIndex s" "sc_f s' = sc_f s"
    "indexOnly s' = indexOnly s" "indexDbi s' = indexDbi s"
proof -
  let ?T = "view t" and ?Q = "queued s i - {x}"
  define c1 where "c1 = (cursors s ! i)\<lparr>outstanding := outstanding (cursors s ! i) - 1\<rparr>"
  define s1 where "s1 = s\<lparr>eventQueue := rest, approxWork := w, cursors := (cursors s)[i := c1]\<rparr>"
  have len: "length (cursors s) = length ss" "length ss < 2 ^ 24" and depth: "0 < refillScanDepth s"
    and form: "\<forall>c \<in> set (eventQueue s). \<exists>i x. c = cand (of_nat i) x \<and> i < unat (nextInitIndex s) \<and> fst x < MAX_CREATED"
    and dist: "distinct rest" and sorted: "ce_sorted rest"
    using S q nxt by (simp_all add: scan_ok_def ce_sorted_def)
  have inv: "cursor_inv ?T ss s i" using S i(1) by (simp add: scan_ok_def)
  have fin: "finite (queued s i)" using i(1) len(2) by simp
  have idx: "ce_scanIndex (cand (of_nat i) x) = of_nat i" "unat (of_nat i :: u64) = i"
    using cand_fields [OF i(2)] small_index i(1) len(2) by simp_all
  have "unat (outstanding (cursors s ! i)) = card (queued s i)" using inv by (simp add: cursor_inv_def)
  moreover have "card (queued s i) > 0" using x fin card_gt_0_iff by blast
  moreover from calculation have "outstanding (cursors s ! i) \<noteq> 0" by auto
  ultimately have out: "unat (outstanding c1) = card ?Q"
    using x fin unat_pred [of "outstanding (cursors s ! i)"] by (simp add: c1_def card_Diff_singleton)
  note mem = queue_tail [OF S q i]
  have form': "\<forall>c \<in> set rest. \<exists>i x. c = cand (of_nat i) x \<and> i < unat (nextInitIndex s) \<and> fst x < MAX_CREATED"
    using form q by simp
  have above: "\<forall>y \<in> undelivered ?T ss s i. y < x" using inv x by (simp add: cursor_inv_def)
  have cinv: "cursor_ok (indexDbi s) ?T (ss ! i) c1" "\<forall>x \<in> queued s i. fst x < MAX_CREATED"
    "remaining (indexDbi s) ?T (sc_f s) (ss ! i) c1 = undelivered ?T ss s i"
    using inv by (auto simp: cursor_inv_def c1_def queued_def undelivered_def)
  show ?thesis
  proof (cases "outstanding c1 = 0")
    case False
    then have "card ?Q \<noteq> 0" using out by (metis unat_eq_zero)
    then have "?Q \<noteq> {}" by (metis card.empty)
    then have upd: "scan_ok ?T ss s1 \<and> queued s1 i = ?Q \<and>
        (\<forall>j < length ss. j \<noteq> i \<longrightarrow> queued s1 j = queued s j \<and> undelivered ?T ss s1 j = undelivered ?T ss s j) \<and>
        undelivered ?T ss s1 i = remaining (indexDbi s) ?T (sc_f s) (ss ! i) c1"
      using inv out cinv dist form' sorted nxt
      by (intro scan_ok_update [OF S i(1), of s1 c1]) (simp_all add: s1_def mem cursor_inv_def)
    then have "todo ?T ss s1 = todo ?T ss s - {i} \<times> {x}"
      using above cinv(3) by (intro todo_update [OF i(1)]) auto
    moreover have "scan_refill E t (cand (of_nat i) x) (s\<lparr>eventQueue := rest, approxWork := w\<rparr>) = Some (Inr s1)"
      using False i(1) len(1) by (simp add: scan_refill_def idx Let_def c1_def s1_def)
    ultimately show ?thesis using that [of s1] upd by (simp add: s1_def)
  next
    case True
    then have "card ?Q = 0" using out by simp
    then have Q: "?Q = {}" using fin by simp
    have fields: "indexDbi s1 = indexDbi s" "sc_f s1 = sc_f s" "cursors s1 ! i = c1" "refillScanDepth s1 = refillScanDepth s"
      using i(1) len(1) by (simp_all add: s1_def)
    have none: "queued s1 i = {}"
    proof (rule ccontr)
      assume "queued s1 i \<noteq> {}"
      then obtain y where "cand (of_nat i) y \<in> set rest" "fst y < MAX_CREATED" by (auto simp: queued_def s1_def)
      then show False using mem [OF i(1), of y] Q by simp
    qed
    have inv1: "cursor_inv ?T ss s1 i" using inv cinv(1) True none by (simp add: cursor_inv_def fields)
    have len1: "length (cursors s1) = length ss" by (simp add: s1_def len)
    obtain added c' new where
      r: "collect E t (sc_f s1) (indexDbi s1) (of_nat i) (refillScanDepth s) (cursors s1 ! i) [] = Some (added, c', [] @ map (cand (of_nat i)) new)"
      and new: "sorted_wrt (>) new" "set new \<union> remaining (indexDbi s1) ?T (sc_f s1) (ss ! i) c' = undelivered ?T ss s1 i"
        "\<forall>x \<in> set new. \<forall>y \<in> remaining (indexDbi s1) ?T (sc_f s1) (ss ! i) c'. y < x"
        "remaining (indexDbi s1) ?T (sc_f s1) (ss ! i) c' \<noteq> {} \<longrightarrow> set new \<noteq> {}"
        "cursor_ok (indexDbi s1) ?T (ss ! i) c'" "unat (outstanding c') = card (set new)" "\<forall>x \<in> set new. fst x < MAX_CREATED"
      by (rule deliver [OF ok inv1 i(1) len(2) len1 none depth])
    define s2 where "s2 = s1\<lparr>approxWork := approxWork s1 + added, cursors := (cursors s1)[i := c'],
      eventQueue := std_merge ce_cmp rest (map (cand (of_nat i)) new)\<rparr>"
    have i24: "i < 2 ^ 24" using i(1) len(2) by simp
    have qs: "set (eventQueue s2) = set rest \<union> cand (of_nat i) ` set new" by (simp add: s2_def set_std_merge)
    have mem2: "cand (of_nat j) y \<in> set (eventQueue s2) \<longleftrightarrow> (if j = i then y \<in> set new else y \<in> queued s j)"
      if j: "j < length ss" "fst y < MAX_CREATED" for j y
      using mem [OF j] Q cand_image [OF i24 _ j(2) new(7), of j] j(1) len(2) by (auto simp: qs)
    have "set rest \<inter> cand (of_nat i) ` set new = {}"
    proof (rule ccontr)
      assume "set rest \<inter> cand (of_nat i) ` set new \<noteq> {}"
      then obtain y where y: "y \<in> set new" "cand (of_nat i) y \<in> set rest" by auto
      then show False using mem [OF i(1), of y] new(7) Q by auto
    qed
    then have dist2: "distinct (eventQueue s2)"
      using dist distinct_new [OF new(1,7) i24]
      by (simp add: s2_def mset_std_merge mset_eq_imp_distinct_iff [of _ "rest @ map (cand (of_nat i)) new"])
    have form2: "\<forall>c \<in> set (eventQueue s2). \<exists>i x. c = cand (of_nat i) x \<and> i < unat (nextInitIndex s2) \<and> fst x < MAX_CREATED"
    proof -
      have "nextInitIndex s2 = nextInitIndex s" by (simp add: s2_def s1_def)
      moreover have "\<forall>c \<in> cand (of_nat i) ` set new. \<exists>i x. c = cand (of_nat i) x \<and> i < unat (nextInitIndex s) \<and> fst x < MAX_CREATED"
        using new(7) i(1) unfolding nxt by blast
      ultimately show ?thesis using form' unfolding qs by (simp only: ball_Un)
    qed
    have sorted2: "ce_sorted (eventQueue s2)"
      using sorted ce_sorted_new [OF new(1,7) i24] by (simp add: s2_def ce_sorted_merge)
    have upd: "scan_ok ?T ss s2 \<and> queued s2 i = set new \<and>
        (\<forall>j < length ss. j \<noteq> i \<longrightarrow> queued s2 j = queued s j \<and> undelivered ?T ss s2 j = undelivered ?T ss s j) \<and>
        undelivered ?T ss s2 i = remaining (indexDbi s) ?T (sc_f s) (ss ! i) c'"
      using new dist2 form2 sorted2 nxt
      by (intro scan_ok_update [OF S i(1), of s2 c'] mem2) (simp_all add: fields, simp_all add: s2_def s1_def)
    have "undelivered ?T ss s1 i = undelivered ?T ss s i" using cinv(3) i(1) len(1) by (simp add: undelivered_def s1_def)
    then have "todo ?T ss s2 = todo ?T ss s - {i} \<times> {x}"
      using upd above new(2) Q x by (intro todo_update [OF i(1)]) (auto simp: fields)
    moreover have "scan_refill E t (cand (of_nat i) x) (s\<lparr>eventQueue := rest, approxWork := w\<rparr>) = Some (Inr s2)"
      using True i(1) len(1) r by (simp add: scan_refill_def idx Let_def c1_def s1_def s2_def)
    ultimately show ?thesis using that [of s2] upd by (simp add: s2_def s1_def)
  qed
qed

end

text \<open>
  The loop of \<open>scan\<close>, for any callbacks.  \<open>I P st\<close> relates the state of the callbacks to the set \<open>P\<close> of
  candidates that have not been handled; they are handled in descending order, and a candidate
  under several search keys more than once.  \<open>passes\<close> says which of them pass the check.
\<close>

definition scan_frame :: "tables \<Rightarrow> bytes list \<Rightarrow> DBScan \<Rightarrow> DBScan \<Rightarrow> bool" where
  "scan_frame T ss s s' \<longleftrightarrow> scan_ok T ss s' \<and> scan_pending T ss s' \<subseteq> scan_pending T ss s \<and>
     sc_f s' = sc_f s \<and> indexOnly s' = indexOnly s \<and> indexDbi s' = indexDbi s"

text \<open>What is left to do.\<close>

definition scan_work :: "tables \<Rightarrow> bytes list \<Rightarrow> DBScan \<Rightarrow> nat" where
  "scan_work T ss s = (length ss - unat (nextInitIndex s)) + card (todo T ss s)"

context golpe_env
begin

lemma scan_rule:
  assumes ok: "tables_ok (view t)" and S: "scan_ok (view t) ss s" and I: "I (scan_pending (view t) ss s) st"
    and pause: "\<And>P w st. I P st \<Longrightarrow> I P (snd (doPause w st))"
    and send: "\<And>s' i x. sc_f s' = sc_f s \<Longrightarrow> indexOnly s' = indexOnly s \<Longrightarrow> i < length ss \<Longrightarrow> x \<in> scan_pending (view t) ss s \<Longrightarrow>
      fst x < MAX_CREATED \<Longrightarrow> doSend E t s' (cand (of_nat i) x) = Inr (passes x)"
    and handle: "\<And>P P' x st. I P st \<Longrightarrow> P \<subseteq> scan_pending (view t) ss s \<Longrightarrow> x \<in> P \<Longrightarrow> \<forall>y \<in> P. y \<le> x \<Longrightarrow> P - {x} \<subseteq> P' \<Longrightarrow> P' \<subseteq> P \<Longrightarrow>
      if passes x then \<exists>b st'. handleEvent (snd x) st = Inr (b, st') \<and> (if b then Q st' else I P' st') else I P' st"
    and finish: "\<And>st. I {} st \<Longrightarrow> Q st"
  shows "\<exists>b s' st'. scan E t handleEvent doPause s st = Some (Inr (b, s', st')) \<and>
    (if b then Q st' else scan_frame (view t) ss s s' \<and> I (scan_pending (view t) ss s') st' \<and>
      (scan_work (view t) ss s' < scan_work (view t) ss s \<or> s' = s\<lparr>approxWork := approxWork s + 1\<rparr> \<and> fst (doPause (approxWork s + 1) st)) \<and>
      (\<exists>st1. doPause (approxWork s') st1 = (True, st')))"
proof -
  let ?T = "view t"
  let ?I = "\<lambda>(s', st'). scan_frame ?T ss s s' \<and> I (scan_pending ?T ss s') st' \<and> (scan_work ?T ss s' < scan_work ?T ss s \<or> (s', st') = (s, st))"
  let ?Q = "\<lambda>r. \<exists>b s' st'. r = Inr (b, s', st') \<and> (if b then Q st' else scan_frame ?T ss s s' \<and> I (scan_pending ?T ss s') st' \<and>
    (scan_work ?T ss s' < scan_work ?T ss s \<or> s' = s\<lparr>approxWork := approxWork s + 1\<rparr> \<and> fst (doPause (approxWork s + 1) st)) \<and> (\<exists>st1. doPause (approxWork s') st1 = (True, st')))"
  let ?m = "\<lambda>(s', st' :: 's). scan_work ?T ss s'"
  have len: "length ss < 2 ^ 24" using S by (simp add: scan_ok_def)
  have work: "scan_frame ?T ss s (s'\<lparr>approxWork := w\<rparr>) = scan_frame ?T ss s s'" "scan_pending ?T ss (s'\<lparr>approxWork := w\<rparr>) = scan_pending ?T ss s'"
    "scan_ok ?T ss (s'\<lparr>approxWork := w\<rparr>) = scan_ok ?T ss s'" "todo ?T ss (s'\<lparr>approxWork := w\<rparr>) = todo ?T ss s'" for s' w
    by (simp_all add: scan_frame_def scan_ok_def scan_pending_def todo_def queued_def undelivered_def cursor_inv_def)
  have wk: "scan_work ?T ss (s'\<lparr>approxWork := w\<rparr>) = scan_work ?T ss s'" for s' w by (simp add: scan_work_def work)
  have "\<exists>r. while_flow (scan_body E t handleEvent doPause) (s, st) = Some r \<and> ?Q r"
  proof (rule while_flow_rule [where I = ?I and m = ?m])
    show "?I (s, st)" using S I by (simp add: scan_frame_def)
  next
    fix sst assume "?I sst"
    then obtain s1 st1 where sst: "sst = (s1, st1)" and F: "scan_frame ?T ss s s1" and I1: "I (scan_pending ?T ss s1) st1"
      and W: "scan_work ?T ss s1 < scan_work ?T ss s \<or> (s1, st1) = (s, st)" by (cases sst) auto
    define s2 where "s2 = s1\<lparr>approxWork := approxWork s1 + 1\<rparr>"
    obtain p st2 where p: "doPause (approxWork s2) st1 = (p, st2)" by fastforce
    have F2: "scan_frame ?T ss s s2" and I2: "I (scan_pending ?T ss s2) st2"
      using F I1 pause [OF I1, of "approxWork s2"] p by (simp_all add: s2_def work)
    have S2: "scan_ok ?T ss s2" and m2: "?m (s2, st2) = ?m sst" using F2 by (simp_all add: scan_frame_def s2_def work wk sst)
    have body: "scan_body E t handleEvent doPause sst = (if p then Some (Done (Inr (False, s2, st2))) else scan_next E t handleEvent s2 st2)"
      by (simp only: scan_body_def sst case_prod_conv Let_def s2_def [symmetric] p)
    show "\<exists>fl. scan_body E t handleEvent doPause sst = Some fl \<and> (case fl of Done r \<Rightarrow> ?Q r | Next s' \<Rightarrow> ?I s' \<and> ?m s' < ?m sst)"
    proof (cases p)
      case True
      then have "scan_work ?T ss s2 < scan_work ?T ss s \<or> s2 = s\<lparr>approxWork := approxWork s + 1\<rparr> \<and> fst (doPause (approxWork s + 1) st)"
        using W p by (auto simp: s2_def wk)
      moreover have "\<exists>st1. doPause (approxWork s2) st1 = (True, st2)" using p True by (intro exI [of _ st1]) simp
      ultimately have "?Q (Inr (False, s2, st2))" using F2 I2 by (intro exI [of _ False] exI [of _ s2] exI [of _ st2]) simp
      then show ?thesis using True by (simp only: body if_True option.inject ex_simps simp_thms flow.case)
    next
      case False
      show ?thesis
      proof (cases "unat (nextInitIndex s2) < length (cursors s2)")
        case True
        obtain s' where s': "scan_init E t s2 = Some s'" "scan_ok ?T ss s'" "todo ?T ss s' = todo ?T ss s2"
          "unat (nextInitIndex s') = unat (nextInitIndex s2) + 1" "sc_f s' = sc_f s2" "indexOnly s' = indexOnly s2" "indexDbi s' = indexDbi s2"
          by (rule scan_init_ok [OF ok S2 True])
        then have "scan_frame ?T ss s s'" "I (scan_pending ?T ss s') st2" using F2 I2 by (simp_all add: scan_frame_def scan_pending_def)
        moreover have "?m (s', st2) < ?m sst" using s'(3,4) True S2 unfolding m2 [symmetric] by (simp add: scan_ok_def scan_work_def)
        moreover from this have "scan_work ?T ss s' < scan_work ?T ss s" using W by (auto simp: sst)
        ultimately show ?thesis using False True s'(1) by (simp add: body scan_next_def)
      next
        case inited: False
        then have nxt: "unat (nextInitIndex s2) = length ss" using S2 by (simp add: scan_ok_def)
        show ?thesis
        proof (cases "eventQueue s2")
          case Nil
          have "queued s2 i = {}" for i using Nil by (simp add: queued_def)
          moreover have "\<forall>i < length ss. undelivered ?T ss s2 i \<noteq> {} \<longrightarrow> queued s2 i \<noteq> {}" using S2 by (simp add: scan_ok_def nxt)
          ultimately have "scan_pending ?T ss s2 = {}" unfolding scan_pending_def todo_def by auto
          then show ?thesis using False inited Nil I2 finish by (simp add: body scan_next_def ex_bool_eq)
        next
          case (Cons ev rest)
          obtain i x where ev: "ev = cand (of_nat i) x" and i: "i < length ss" "fst x < MAX_CREATED" and x: "x \<in> queued s2 i"
            and max: "\<forall>y \<in> scan_pending ?T ss s2. y \<le> x" by (rule queue_head [OF S2 nxt Cons])
          define w where "w = (if indexOnly s2 then approxWork s2 else approxWork s2 + 10)"
          let ?s3 = "s2\<lparr>eventQueue := rest, approxWork := w\<rparr>"
          obtain s' where s': "scan_refill E t ev ?s3 = Some (Inr s')" "scan_ok ?T ss s'"
            "todo ?T ss s' = todo ?T ss s2 - {(i, x)}" "nextInitIndex s' = nextInitIndex s2" "sc_f s' = sc_f s2"
            "indexOnly s' = indexOnly s2" "indexDbi s' = indexDbi s2"
            unfolding ev by (rule scan_refill_ok [OF ok S2 nxt Cons [unfolded ev] i x])
          have in_todo: "(i, x) \<in> todo ?T ss s2" using i(1) x by (simp add: todo_def)
          then have in_pending: "x \<in> scan_pending ?T ss s2" using imageI [OF in_todo, of snd] by (simp add: scan_pending_def)
          have sub: "scan_pending ?T ss s2 - {x} \<subseteq> scan_pending ?T ss s'" "scan_pending ?T ss s' \<subseteq> scan_pending ?T ss s2"
            unfolding scan_pending_def s'(3) by auto
          have P2: "scan_pending ?T ss s2 \<subseteq> scan_pending ?T ss s" using F2 by (simp add: scan_frame_def)
          have "sc_f ?s3 = sc_f s" "indexOnly ?s3 = indexOnly s" using F2 by (simp_all add: scan_frame_def)
          then have d: "doSend E t ?s3 ev = Inr (passes x)" unfolding ev using send [OF _ _ i(1) _ i(2)] in_pending P2 by blast
          have lev: "ce_levId ev = snd x" using cand_fields(3) [OF i(2), of i] i(1) len by (simp add: ev)
          have F': "scan_frame ?T ss s s'" using F2 s' sub(2) by (auto simp: scan_frame_def)
          have "card (todo ?T ss s') < card (todo ?T ss s2)"
            using s'(3) in_todo todo_finite [OF len] by (metis Diff_subset card_Diff1_less)
          then have m': "?m (s', st') < ?m sst" for st' unfolding m2 [symmetric] using s'(4) by (simp add: scan_work_def)
          have W': "scan_work ?T ss s' < scan_work ?T ss s" using m' W by (auto simp: sst)
          note H = handle [OF I2 P2 in_pending max sub]
          show ?thesis
          proof (cases "passes x")
            case True
            then obtain b st' where b: "handleEvent (snd x) st2 = Inr (b, st')" "if b then Q st' else I (scan_pending ?T ss s') st'" using H by auto
            then show ?thesis using False inited Cons d True lev F' m' W' s'(1) by (cases b) (simp_all add: body scan_next_def ex_bool_eq Let_def w_def [symmetric])
          next
            case no: False
            then show ?thesis using False inited Cons d H F' m' W' s'(1) by (simp add: body scan_next_def ex_bool_eq Let_def w_def [symmetric])
          qed
        qed
      qed
    qed
  qed
  then show ?thesis unfolding scan_def by blast
qed

end

end
