(* ===== verification/DBQueryProof.thy ===== *)
theory DBQueryProof
  imports DBScanProof
begin

text \<open>
  Queries of \<open>src/DBQuery.h\<close>.  Whatever index a filter selects, its search keys find every event
  that matches; so a query sends, for each filter in turn, the newest events that match up to the
  limit of the filter, each event once, whenever and however often it is paused.
\<close>

section \<open>The six indices\<close>

lemma groupedI:
  assumes form: "\<And>x. x \<in> set (entries d T) \<Longrightarrow> \<exists>s' n. fst x = s' @ to_sv64 n \<and> P s' \<and> (m (fst x) = Yes \<longleftrightarrow> s' = s)"
    and within: "\<And>n v n' v'. pos d (s @ to_sv64 n, v) \<le> pos d (s @ to_sv64 n', v') \<longleftrightarrow> (n, v) \<le> (n', v')"
    and apart: "\<And>s' n' w. P s' \<Longrightarrow> s' \<noteq> s \<Longrightarrow>
      (\<forall>n v. pos d (s @ to_sv64 n, v) < pos d (s' @ to_sv64 n', w)) \<or> (\<forall>n v. pos d (s' @ to_sv64 n', w) < pos d (s @ to_sv64 n, v))"
  shows "grouped d T s m"
  unfolding grouped_def
proof (intro conjI ballI allI impI)
  fix x assume x: "x \<in> set (entries d T)"
  then obtain s' n where f: "fst x = s' @ to_sv64 n" "P s'" "m (fst x) = Yes \<longleftrightarrow> s' = s" using form by blast
  show "m (fst x) = Yes \<longleftrightarrow> (\<exists>y. x = ent s y)"
  proof
    assume "m (fst x) = Yes"
    then have "x = ent s (n, snd x)" using f by (cases x) (simp add: ent_def)
    then show "\<exists>y. x = ent s y" ..
  next
    assume "\<exists>y. x = ent s y"
    then show "m (fst x) = Yes" using f by (auto simp: ent_def)
  qed
  show "(\<forall>y. pos d (ent s y) < pos d x) \<or> (\<forall>y. pos d x < pos d (ent s y))" if "m (fst x) = No"
  proof -
    have "s' \<noteq> s" using that f(3) by simp
    moreover have "x = (s' @ to_sv64 n, snd x)" using f(1) by (cases x) simp
    ultimately show ?thesis using apart [OF f(2), of n "snd x"] unfolding ent_def by metis
  qed
next
  fix x y show "pos d (ent s x) \<le> pos d (ent s y) \<longleftrightarrow> x \<le> y"
    using within [of "fst x" "snd x" "fst y" "snd y"] by (simp add: ent_def)
qed

lemma pos_SU: "d \<in> {Event_id, Event_pubkey, Event_tag} \<Longrightarrow> pos d (s @ to_sv64 n, v) = ((s, unat n, 0), unat v)"
  by (simp add: pos_def rank_SU)

lemma pos_kind: "length s = 8 \<Longrightarrow> pos Event_kind (s @ to_sv64 n, v) = (([], unat (from_sv64 s), unat n), unat v)"
  by (simp add: pos_def rank_def)

lemma pos_pubkeyKind:
  "length s = 40 \<Longrightarrow> pos Event_pubkeyKind (s @ to_sv64 n, v) = ((take 32 s, unat (from_sv64 (drop 32 s)), unat n), unat v)"
  by (simp add: pos_def rank_def)

lemma pos_created_at: "pos Event_created_at (to_sv64 n, v) = (([], unat n, 0), unat v)"
  by (simp add: pos_def rank_def)

lemma grouped_SU:
  assumes d: "d \<in> {Event_id, Event_pubkey, Event_tag}"
    and form: "\<And>x. x \<in> set (entries d T) \<Longrightarrow> \<exists>s' n. fst x = s' @ to_sv64 n \<and> (m (fst x) = Yes \<longleftrightarrow> s' = s)"
  shows "grouped d T s m"
proof (rule groupedI [where P = "\<lambda>_. True"])
  show "\<exists>s' n. fst x = s' @ to_sv64 n \<and> True \<and> (m (fst x) = Yes \<longleftrightarrow> s' = s)" if "x \<in> set (entries d T)" for x
    using form [OF that] by simp
  show "pos d (s @ to_sv64 n, v) \<le> pos d (s @ to_sv64 n', v') \<longleftrightarrow> (n, v) \<le> (n', v')" for n v n' v'
    by (auto simp: pos_SU [OF d] less_eq_prod_def word_le_nat_alt word_less_nat_alt)
  show "(\<forall>n v. pos d (s @ to_sv64 n, v) < pos d (s' @ to_sv64 n', w)) \<or> (\<forall>n v. pos d (s' @ to_sv64 n', w) < pos d (s @ to_sv64 n, v))"
    if "s' \<noteq> s" for s' n' w
    using that by (auto simp: pos_SU [OF d] less_prod_def dest: linorder_cases)
qed

lemma sv64_apart: "length s = 8 \<Longrightarrow> length s' = 8 \<Longrightarrow> s \<noteq> s' \<Longrightarrow> unat (from_sv64 s) \<noteq> unat (from_sv64 s')"
  by (metis to_from_sv64 word_unat_eq_iff)

lemma grouped_kind:
  assumes s: "length s = 8"
    and form: "\<And>x. x \<in> set (entries Event_kind T) \<Longrightarrow> \<exists>s' n. fst x = s' @ to_sv64 n \<and> length s' = 8 \<and> (m (fst x) = Yes \<longleftrightarrow> s' = s)"
  shows "grouped Event_kind T s m"
proof (rule groupedI [where P = "\<lambda>s'. length s' = 8", OF form])
  show "pos Event_kind (s @ to_sv64 n, v) \<le> pos Event_kind (s @ to_sv64 n', v') \<longleftrightarrow> (n, v) \<le> (n', v')" for n v n' v'
    using s by (auto simp: pos_kind less_eq_prod_def word_le_nat_alt word_less_nat_alt)
  show "(\<forall>n v. pos Event_kind (s @ to_sv64 n, v) < pos Event_kind (s' @ to_sv64 n', w)) \<or>
      (\<forall>n v. pos Event_kind (s' @ to_sv64 n', w) < pos Event_kind (s @ to_sv64 n, v))"
    if "length s' = 8" "s' \<noteq> s" for s' n' w
    using sv64_apart [OF s that(1)] that s by (auto simp: pos_kind less_prod_def)
qed

lemma grouped_pubkeyKind:
  assumes s: "length s = 40"
    and form: "\<And>x. x \<in> set (entries Event_pubkeyKind T) \<Longrightarrow> \<exists>s' n. fst x = s' @ to_sv64 n \<and> length s' = 40 \<and> (m (fst x) = Yes \<longleftrightarrow> s' = s)"
  shows "grouped Event_pubkeyKind T s m"
proof (rule groupedI [where P = "\<lambda>s'. length s' = 40", OF form])
  show "pos Event_pubkeyKind (s @ to_sv64 n, v) \<le> pos Event_pubkeyKind (s @ to_sv64 n', v') \<longleftrightarrow> (n, v) \<le> (n', v')" for n v n' v'
    using s by (auto simp: pos_pubkeyKind less_eq_prod_def word_le_nat_alt word_less_nat_alt)
  show "(\<forall>n v. pos Event_pubkeyKind (s @ to_sv64 n, v) < pos Event_pubkeyKind (s' @ to_sv64 n', w)) \<or>
      (\<forall>n v. pos Event_pubkeyKind (s' @ to_sv64 n', w) < pos Event_pubkeyKind (s @ to_sv64 n, v))"
    if l: "length s' = 40" and ne: "s' \<noteq> s" for s' n' w
  proof (cases "take 32 s = take 32 s'")
    case True
    then have "drop 32 s \<noteq> drop 32 s'" using ne by (metis append_take_drop_id)
    then show ?thesis using sv64_apart [of "drop 32 s" "drop 32 s'"] s l True by (auto simp: pos_pubkeyKind less_prod_def)
  next
    case False
    then show ?thesis using s l by (auto simp: pos_pubkeyKind less_prod_def dest: linorder_cases)
  qed
qed

lemma grouped_created_at:
  assumes form: "\<And>x. x \<in> set (entries Event_created_at T) \<Longrightarrow> \<exists>n. fst x = to_sv64 n"
  shows "grouped Event_created_at T [] (\<lambda>_. Yes)"
proof (rule groupedI [where P = "\<lambda>s'. s' = []"])
  show "\<exists>s' n. fst x = s' @ to_sv64 n \<and> s' = [] \<and> (Yes = Yes \<longleftrightarrow> s' = [])" if "x \<in> set (entries Event_created_at T)" for x
    using form [OF that] by simp
  show "pos Event_created_at ([] @ to_sv64 n, v) \<le> pos Event_created_at ([] @ to_sv64 n', v') \<longleftrightarrow> (n, v) \<le> (n', v')" for n v n' v'
    by (auto simp: pos_created_at less_eq_prod_def word_le_nat_alt word_less_nat_alt)
qed auto

lemma group_events:
  assumes "wf_store T"
  shows "(n, l) \<in> group d T s \<longleftrightarrow> (\<exists>e. (l, e) \<in> set (events_of T) \<and> s @ to_sv64 n \<in> set (index_keys d (pack e)))"
  using entries_events_of [OF assms] by (simp add: group_def)

section \<open>Starting a scan\<close>

lemma rbind_Inr: "rbind r Inr = r"
  by (cases r) auto

lemma rmap_append: "rmap f (xs @ ys) = rbind (rmap f xs) (\<lambda>as. rbind (rmap f ys) (\<lambda>bs. Inr (as @ bs)))"
  by (induction xs) (auto simp: rbind_assoc rbind_Inr intro!: rbind_cong)

context filter_set
begin

lemma indexed_rmap: "rmap (\<lambda>i. rbind (at s i) g) [0..<sz s] = rmap g (elems s)"
proof -
  have "rmap (\<lambda>i. rbind (at s i) g) [0..<k] = rmap g (take k (elems s))" if "k \<le> sz s" for k
    using that
  proof (induction k)
    case (Suc k)
    then have "take (Suc k) (elems s) = take k (elems s) @ [elems s ! k]" by (simp add: take_Suc_conv_app_nth sz_elems)
    then show ?case using Suc by (simp add: rmap_append at_elems)
  qed simp
  then show ?thesis by (simp add: sz_elems)
qed

end

lemma rmap_cong: "xs = ys \<Longrightarrow> (\<And>x. x \<in> set ys \<Longrightarrow> f x = g x) \<Longrightarrow> rmap f xs = rmap g ys"
  by (induction ys arbitrary: xs) (auto intro!: rbind_cong)

lemma rmap_Inr: "rmap (\<lambda>x. Inr (h x)) xs = Inr (map h xs)"
  by (induction xs) auto

lemma le_bytes_max: "le_bytes k (256 ^ k - 1) = replicate k (CHR 0xFF)"
proof (induction k)
  case (Suc k)
  have pos: "0 < (256 :: nat) ^ k" by simp
  then have "256 ^ Suc k - 1 = 255 + 256 * (256 ^ k - 1 :: nat)" by (simp add: diff_mult_distrib2)
  moreover have "(char_of (255 :: nat) :: char) = CHR 0xFF" by (simp add: char_of_def bit_iff_odd)
  ultimately show ?case using Suc by (simp del: power_Suc)
qed simp

lemma to_sv64_MAX: "to_sv64 MAX_U64 = replicate 8 (CHR 0xFF)"
proof -
  have "unat MAX_U64 = 256 ^ 8 - 1" by (simp add: unsigned_minus_1_eq_mask mask_eq_exp_minus_1)
  then show ?thesis unfolding to_sv64_def by (simp only: le_bytes_max)
qed

text \<open>A scan that starts with the search keys and tests \<open>ps\<close>.\<close>

definition cursors_of :: "(bytes \<times> (bytes \<Rightarrow> KeyMatchResult)) list \<Rightarrow> ScanCursor list" where
  "cursors_of ps = map (\<lambda>(s, m). mkCursor s m) ps"

lemma fresh_cursor:
  assumes g: "grouped d T s m"
  shows "cursor_ok d T s (mkCursor s m)" "remaining d T f s (mkCursor s m) = {x \<in> group d T s. in_range f x}"
proof -
  have start: "(s @ replicate 8 (CHR 0xFF), MAX_U64) = ent s (MAX_U64, MAX_U64)" by (simp add: ent_def to_sv64_MAX)
  show "cursor_ok d T s (mkCursor s m)"
    using g by (auto simp: cursor_ok_def mkCursor_def start_ok_def start)
  have "x \<le> (MAX_U64, MAX_U64)" for x :: "u64 \<times> u64" by (cases x) (auto simp: less_eq_prod_def)
  then show "remaining d T f s (mkCursor s m) = {x \<in> group d T s. in_range f x}"
    unfolding remaining_def mkCursor_def active_def by (simp add: start upto_ent [OF g])
qed

lemma fresh_scan:
  assumes s: "cursors s = cursors_of ps" "eventQueue s = []" "nextInitIndex s = 0" "0 < initialScanDepth s" "0 < refillScanDepth s"
    and ps: "length ps < 2 ^ 24" "\<forall>(k, m) \<in> set ps. grouped (indexDbi s) T k m"
    and small: "\<forall>(k, m) \<in> set ps. \<forall>x \<in> group (indexDbi s) T k. fst x < MAX_CREATED"
  shows "scan_ok T (map fst ps) s"
    and "scan_pending T (map fst ps) s = {x \<in> \<Union>(k, m) \<in> set ps. group (indexDbi s) T k. in_range (sc_f s) x}"
proof -
  have c: "cursor_inv T (map fst ps) s i" "undelivered T (map fst ps) s i = {x \<in> group (indexDbi s) T (fst (ps ! i)). in_range (sc_f s) x}"
    if i: "i < length ps" for i
  proof -
    obtain k m where km: "ps ! i = (k, m)" by fastforce
    have "(k, m) \<in> set ps" using i km nth_mem by metis
    then have g: "grouped (indexDbi s) T k m" "\<forall>x \<in> group (indexDbi s) T k. fst x < MAX_CREATED" using ps(2) small by auto
    have "cursors s ! i = mkCursor k m" using i km by (simp add: s cursors_of_def)
    then show "cursor_inv T (map fst ps) s i" "undelivered T (map fst ps) s i = {x \<in> group (indexDbi s) T (fst (ps ! i)). in_range (sc_f s) x}"
      using fresh_cursor [OF g(1)] g(2) i km by (simp_all add: cursor_inv_def undelivered_def queued_def s(2)) (simp_all add: mkCursor_def)
  qed
  then show "scan_ok T (map fst ps) s" using s ps(1) by (simp add: scan_ok_def cursors_of_def ce_sorted_def)
  have "scan_pending T (map fst ps) s = (\<Union>i < length ps. undelivered T (map fst ps) s i)"
    by (auto simp: scan_pending_def todo_def queued_def s(2) image_iff)
  also have "\<dots> = (\<Union>i < length ps. {x \<in> group (indexDbi s) T (fst (ps ! i)). in_range (sc_f s) x})"
    using c(2) by simp
  also have "\<dots> = {x \<in> \<Union>(k, m) \<in> set ps. group (indexDbi s) T k. in_range (sc_f s) x}"
  proof -
    have "(\<Union>(k, m) \<in> set ps. group (indexDbi s) T k) = (\<Union>i < length ps. group (indexDbi s) T (fst (ps ! i)))"
      by (simp add: set_conv_nth case_prod_beta) blast
    then show ?thesis by auto
  qed
  finally show "scan_pending T (map fst ps) s = {x \<in> \<Union>(k, m) \<in> set ps. group (indexDbi s) T k. in_range (sc_f s) x}" .
qed

section \<open>The choice of the index\<close>

text \<open>What a filter built from JSON satisfies: no empty set, and the flag for index-only scans is set only when one field is given, or the authors and the kinds.\<close>

definition index_only_ok :: "NostrFilter \<Rightarrow> bool" where
  "index_only_ok f \<longleftrightarrow>
     (case nf_ids f of Some _ \<Rightarrow> nf_authors f = None \<and> nf_kinds f = None \<and> nf_tags f = []
      | None \<Rightarrow> if nf_tags f \<noteq> [] then nf_authors f = None \<and> nf_kinds f = None \<and> length (nf_tags f) = 1 else True)"

definition scannable :: "NostrFilter \<Rightarrow> bool" where
  "scannable f \<longleftrightarrow> wf_filter f \<and> \<not> nf_neverMatch f \<and>
     (\<forall>s. nf_ids f = Some s \<or> nf_authors f = Some s \<or> s \<in> snd ` set (nf_tags f) \<longrightarrow> fsb_vals s \<noteq> [] \<and> length (fsb_vals s) < 2 ^ 24) \<and>
     (\<forall>s. nf_kinds f = Some s \<longrightarrow> fsu_items s \<noteq> [] \<and> length (fsu_items s) < 2 ^ 24) \<and>
     (nf_indexOnlyScans f \<longrightarrow> index_only_ok f)"

text \<open>\<open>indexed f T d ps sel\<close>: the search keys \<open>ps\<close> of the index \<open>d\<close> find exactly the events that \<open>sel\<close> selects, among them all that match.\<close>

definition indexed :: "NostrFilter \<Rightarrow> tables \<Rightarrow> dbi \<Rightarrow> (bytes \<times> (bytes \<Rightarrow> KeyMatchResult)) list \<Rightarrow> (event \<Rightarrow> bool) \<Rightarrow> bool" where
  "indexed f T d ps sel \<longleftrightarrow> ps \<noteq> [] \<and> length ps < 2 ^ 24 \<and> (\<forall>(k, m) \<in> set ps. grouped d T k m) \<and>
     (\<Union>(k, m) \<in> set ps. group d T k) = {(ev_created_at e, l) | l e. (l, e) \<in> set (events_of T) \<and> sel e} \<and>
     (\<forall>e. matches f e \<longrightarrow> sel e)"

lemma entries_form:
  assumes T: "wf_store T" and x: "x \<in> set (entries d T)"
  obtains e where "(snd x, e) \<in> set (events_of T)" "wf_event e" "fst x \<in> set (index_keys d (pack e))"
  using entries_events_of [OF T, of "fst x" "snd x" d] x events_ofE [OF T] by auto

lemma starts_with_app: "length a = length s \<Longrightarrow> starts_with (a @ b) s \<longleftrightarrow> a = s"
  by (simp add: starts_with_same_length)

lemma ids_grouped:
  assumes T: "wf_store T" and s: "length s = 32"
  shows "grouped Event_id T s (prefixMatch s)" "grouped Event_pubkey T s (prefixMatch s)"
proof -
  have "\<exists>s' n. fst x = s' @ to_sv64 n \<and> (prefixMatch s (fst x) = Yes \<longleftrightarrow> s' = s)" if "x \<in> set (entries d T)" "d = Event_id \<or> d = Event_pubkey" for x d
  proof -
    from that(1) obtain e where e: "wf_event e" "fst x \<in> set (index_keys d (pack e))" by (rule entries_form [OF T])
    then have len: "length (ev_id e) = 32" "length (ev_pubkey e) = 32" by (simp_all add: wf_event_def)
    from that(2) show ?thesis
    proof
      assume "d = Event_id"
      then have "fst x = ev_id e @ to_sv64 (ev_created_at e)" using e by (simp add: packed_simps)
      then show ?thesis using starts_with_app [of "ev_id e" s] len s by (auto simp: prefixMatch_def)
    next
      assume "d = Event_pubkey"
      then have "fst x = ev_pubkey e @ to_sv64 (ev_created_at e)" using e by (simp add: packed_simps)
      then show ?thesis using starts_with_app [of "ev_pubkey e" s] len s by (auto simp: prefixMatch_def)
    qed
  qed
  then show "grouped Event_id T s (prefixMatch s)" "grouped Event_pubkey T s (prefixMatch s)" by (auto intro!: grouped_SU)
qed

lemma tag_grouped:
  assumes T: "wf_store T"
  shows "grouped Event_tag T s (tagMatch s)"
proof (rule grouped_SU)
  fix x assume x: "x \<in> set (entries Event_tag T)"
  from x obtain e where e: "wf_event e" "fst x \<in> set (index_keys Event_tag (pack e))" by (rule entries_form [OF T])
  then obtain s' where s': "fst x = s' @ to_sv64 (ev_created_at e)" by (auto simp: packed_simps)
  have "tagMatch s (fst x) = Yes \<longleftrightarrow> s' = s"
    using starts_with_app [of s' s] by (auto simp: tagMatch_def s')
  then show "\<exists>s' n. fst x = s' @ to_sv64 n \<and> (tagMatch s (fst x) = Yes \<longleftrightarrow> s' = s)" using s' by blast
qed simp

lemma pubkeyKind_grouped:
  assumes T: "wf_store T" and s: "length s = 40"
  shows "grouped Event_pubkeyKind T s (prefixMatch s)"
proof (rule grouped_pubkeyKind [OF s])
  fix x assume x: "x \<in> set (entries Event_pubkeyKind T)"
  from x obtain e where e: "wf_event e" "fst x \<in> set (index_keys Event_pubkeyKind (pack e))" by (rule entries_form [OF T])
  then have k: "fst x = (ev_pubkey e @ to_sv64 (ev_kind e)) @ to_sv64 (ev_created_at e)" and l: "length (ev_pubkey e @ to_sv64 (ev_kind e)) = 40"
    by (simp_all add: packed_simps wf_event_def)
  have "prefixMatch s (fst x) = Yes \<longleftrightarrow> ev_pubkey e @ to_sv64 (ev_kind e) = s"
    unfolding k prefixMatch_def using starts_with_app [of "ev_pubkey e @ to_sv64 (ev_kind e)" s] l s by simp
  then show "\<exists>s' n. fst x = s' @ to_sv64 n \<and> length s' = 40 \<and> (prefixMatch s (fst x) = Yes \<longleftrightarrow> s' = s)" using k l by blast
qed

context golpe_env
begin

lemma kind_grouped:
  assumes T: "wf_store T"
  shows "grouped Event_kind T (to_sv64 k) (kindMatch E k)"
proof (rule grouped_kind)
  fix x assume x: "x \<in> set (entries Event_kind T)"
  from x obtain e where e: "wf_event e" "fst x \<in> set (index_keys Event_kind (pack e))" by (rule entries_form [OF T])
  then have "fst x = to_sv64 (ev_kind e) @ to_sv64 (ev_created_at e)" by (simp add: packed_simps)
  then show "\<exists>s' n. fst x = s' @ to_sv64 n \<and> length s' = 8 \<and> (kindMatch E k (fst x) = Yes \<longleftrightarrow> s' = to_sv64 k)"
    by (intro exI [of _ "to_sv64 (ev_kind e)"] exI [of _ "ev_created_at e"]) (simp add: kindMatch_def parsedKey_UU)
qed simp

end

lemma created_grouped: "wf_store T \<Longrightarrow> grouped Event_created_at T [] (\<lambda>_. Yes)"
  by (rule grouped_created_at) (auto elim!: entries_form simp: packed_simps)

lemma smallestTag_in:
  assumes "tags \<noteq> []" and small: "\<forall>(t, s) \<in> set tags. fsb_size s < 2 ^ 24"
  shows "smallestTag tags \<in> fst ` set tags"
proof -
  let ?step = "\<lambda>(tn, filterSet) (numTags :: u64, tagName). if of_nat (fsb_size filterSet) < numTags then (of_nat (fsb_size filterSet), tn) else (numTags, tagName)"
  have rest: "snd (fold ?step ts (n, t)) = t \<or> snd (fold ?step ts (n, t)) \<in> fst ` set ts" for ts n t
    by (induction ts arbitrary: n t) (force split: prod.split)+
  obtain tn s ts where tags: "tags = (tn, s) # ts" using assms(1) by (metis list.exhaust prod.exhaust)
  have "fsb_size s < 2 ^ 24" using small by (simp add: tags)
  then have "(of_nat (fsb_size s) :: u64) < MAX_U64" using small_index [of "fsb_size s"] by (auto intro: less_le_trans)
  then show ?thesis using rest [of ts "of_nat (fsb_size s)" tn] by (auto simp: smallestTag_def tags)
qed

lemma small_product:
  assumes "a < 2 ^ 24" and "b < 2 ^ 24"
  shows "(of_nat a * of_nat b :: u64) < 1000 \<longleftrightarrow> a * b < 1000"
proof -
  have "a * b < 2 ^ 24 * 2 ^ 24" using assms by (intro mult_strict_mono) auto
  then have "unat (of_nat (a * b) :: u64) = a * b" by (simp only: unat_of_nat) simp
  then show ?thesis by (simp add: word_less_nat_alt)
qed

lemma tag_key_eq: "(t # v) @ to_sv64 n = (t' # v') @ to_sv64 n' \<longleftrightarrow> t = t' \<and> v = v' \<and> n = n'"
  by auto

lemma group_select:
  assumes T: "wf_store T"
    and sel: "\<And>e n. wf_event e \<Longrightarrow> s @ to_sv64 n \<in> set (index_keys d (pack e)) \<longleftrightarrow> n = ev_created_at e \<and> P e"
  shows "group d T s = {(ev_created_at e, l) | l e. (l, e) \<in> set (events_of T) \<and> P e}"
proof (intro equalityI subsetI)
  fix x assume "x \<in> group d T s"
  then obtain e where "(snd x, e) \<in> set (events_of T)" "s @ to_sv64 (fst x) \<in> set (index_keys d (pack e))"
    using group_events [OF T, of "fst x" "snd x"] by auto
  then have "x = (ev_created_at e, snd x) \<and> (snd x, e) \<in> set (events_of T) \<and> P e"
    using sel events_ofE [OF T] by (cases x) auto
  then show "x \<in> {(ev_created_at e, l) | l e. (l, e) \<in> set (events_of T) \<and> P e}" by blast
next
  fix x assume "x \<in> {(ev_created_at e, l) | l e. (l, e) \<in> set (events_of T) \<and> P e}"
  then obtain l e where x: "x = (ev_created_at e, l)" "(l, e) \<in> set (events_of T)" "P e" by blast
  then have "s @ to_sv64 (ev_created_at e) \<in> set (index_keys d (pack e))" using sel events_ofE [OF T] by blast
  then show "x \<in> group d T s" using group_events [OF T] x by blast
qed

lemma indexed_ids:
  assumes T: "wf_store T" and f: "scannable f" and ids: "nf_ids f = Some s"
  shows "indexed f T Event_id (map (\<lambda>v. (v, prefixMatch v)) (fsb_vals s)) (\<lambda>e. ev_id e \<in> set (fsb_vals s))"
proof -
  have s: "fsb_vals s \<noteq> []" "length (fsb_vals s) < 2 ^ 24" "\<forall>v \<in> set (fsb_vals s). length v = 32"
    using f ids by (auto simp: scannable_def wf_filter_def)
  have grp: "group Event_id T (v) = {(ev_created_at e, l) | l e. (l, e) \<in> set (events_of T) \<and> ev_id e = v}" for v
    by (rule group_select [OF T]) (auto simp: packed_simps)
  then have "(\<Union>v \<in> set (fsb_vals s). group Event_id T v) = {(ev_created_at e, l) | l e. (l, e) \<in> set (events_of T) \<and> ev_id e \<in> set (fsb_vals s)}"
    unfolding grp by auto
  then show ?thesis using s ids_grouped(1) [OF T] by (auto simp: indexed_def matches_def ids)
qed

lemma indexed_authors:
  assumes T: "wf_store T" and f: "scannable f" and a: "nf_authors f = Some s"
  shows "indexed f T Event_pubkey (map (\<lambda>v. (v, prefixMatch v)) (fsb_vals s)) (\<lambda>e. ev_pubkey e \<in> set (fsb_vals s))"
proof -
  have s: "fsb_vals s \<noteq> []" "length (fsb_vals s) < 2 ^ 24" "\<forall>v \<in> set (fsb_vals s). length v = 32"
    using f a by (auto simp: scannable_def wf_filter_def)
  have grp: "group Event_pubkey T (v) = {(ev_created_at e, l) | l e. (l, e) \<in> set (events_of T) \<and> ev_pubkey e = v}" for v
    by (rule group_select [OF T]) (auto simp: packed_simps)
  then have "(\<Union>v \<in> set (fsb_vals s). group Event_pubkey T v) = {(ev_created_at e, l) | l e. (l, e) \<in> set (events_of T) \<and> ev_pubkey e \<in> set (fsb_vals s)}"
    unfolding grp by auto
  then show ?thesis using s ids_grouped(2) [OF T] by (auto simp: indexed_def matches_def a)
qed

lemma indexed_tags:
  assumes T: "wf_store T" and f: "scannable f" and t: "(t, s) \<in> set (nf_tags f)"
  shows "indexed f T Event_tag (map (\<lambda>v. (t # v, tagMatch (t # v))) (fsb_vals s)) (\<lambda>e. tag_in e t (set (fsb_vals s)))"
proof -
  have s: "fsb_vals s \<noteq> []" "length (fsb_vals s) < 2 ^ 24"
    using f t by (force simp: scannable_def)+
  have grp: "group Event_tag T (t # v) = {(ev_created_at e, l) | l e. (l, e) \<in> set (events_of T) \<and> (t, v) \<in> set (ev_tags e)}" for v
    by (rule group_select [OF T]) (force simp: packed_simps)
  then have "(\<Union>v \<in> set (fsb_vals s). group Event_tag T (t # v)) = {(ev_created_at e, l) | l e. (l, e) \<in> set (events_of T) \<and> tag_in e t (set (fsb_vals s))}"
    unfolding grp tag_in_def by auto
  then show ?thesis using s t tag_grouped [OF T] by (auto simp: indexed_def matches_def)
qed

lemma indexed_pubkeyKind:
  assumes T: "wf_store T" and f: "scannable f" and a: "nf_authors f = Some s" "nf_kinds f = Some ks"
    and small: "length (fsb_vals s) * length (fsu_items ks) < 1000"
  shows "indexed f T Event_pubkeyKind (concat (map (\<lambda>v. map (\<lambda>k. (v @ to_sv64 k, prefixMatch (v @ to_sv64 k))) (fsu_items ks)) (fsb_vals s)))
    (\<lambda>e. ev_pubkey e \<in> set (fsb_vals s) \<and> ev_kind e \<in> set (fsu_items ks))"
proof -
  have s: "fsb_vals s \<noteq> []" "fsu_items ks \<noteq> []" "\<forall>v \<in> set (fsb_vals s). length v = 32"
    using f a by (auto simp: scannable_def wf_filter_def)
  have len: "length (concat (map (\<lambda>v. map (g v) ys) xs)) = length xs * length ys" for g and xs :: "bytes list" and ys :: "u64 list"
    by (induction xs) auto
  have grp: "group Event_pubkeyKind T (v @ to_sv64 k) =
      {(ev_created_at e, l) | l e. (l, e) \<in> set (events_of T) \<and> ev_pubkey e = v \<and> ev_kind e = k}" if "length v = 32" for v k
    by (rule group_select [OF T]) (use that in \<open>auto simp: packed_simps wf_event_def\<close>)
  have "(\<Union>v \<in> set (fsb_vals s). \<Union>k \<in> set (fsu_items ks). group Event_pubkeyKind T (v @ to_sv64 k)) =
      {(ev_created_at e, l) | l e. (l, e) \<in> set (events_of T) \<and> ev_pubkey e \<in> set (fsb_vals s) \<and> ev_kind e \<in> set (fsu_items ks)}"
    using s(3) by (auto simp: grp)
  moreover have "\<forall>v \<in> set (fsb_vals s). \<forall>k. grouped Event_pubkeyKind T (v @ to_sv64 k) (prefixMatch (v @ to_sv64 k))"
    using pubkeyKind_grouped [OF T] s(3) by simp
  moreover have "concat (map (\<lambda>v. map (\<lambda>k. (v @ to_sv64 k, prefixMatch (v @ to_sv64 k))) (fsu_items ks)) (fsb_vals s)) \<noteq> []"
    using s(1,2) by (cases "fsb_vals s") auto
  moreover have "(\<Union>(k, m) \<in> set (concat (map (\<lambda>v. map (\<lambda>k. (v @ to_sv64 k, prefixMatch (v @ to_sv64 k))) (fsu_items ks)) (fsb_vals s))). group Event_pubkeyKind T k) =
      (\<Union>v \<in> set (fsb_vals s). \<Union>k \<in> set (fsu_items ks). group Event_pubkeyKind T (v @ to_sv64 k))" by auto
  ultimately show ?thesis using small unfolding indexed_def len by (auto simp: matches_def a)
qed

lemma indexed_all:
  assumes T: "wf_store T"
  shows "indexed f T Event_created_at [([], \<lambda>_. Yes)] (\<lambda>_. True)"
proof -
  have "group Event_created_at T [] = {(ev_created_at e, l) | l e. (l, e) \<in> set (events_of T) \<and> True}"
    by (rule group_select [OF T]) (auto simp: packed_simps)
  then show ?thesis using created_grouped [OF T] unfolding indexed_def by auto
qed

context golpe_env
begin

lemma indexed_kinds:
  assumes T: "wf_store T" and f: "scannable f" and k: "nf_kinds f = Some ks"
  shows "indexed f T Event_kind (map (\<lambda>k. (to_sv64 k, kindMatch E k)) (fsu_items ks)) (\<lambda>e. ev_kind e \<in> set (fsu_items ks))"
proof -
  have s: "fsu_items ks \<noteq> []" "length (fsu_items ks) < 2 ^ 24" using f k by (auto simp: scannable_def)
  have grp: "group Event_kind T ((to_sv64 v)) = {(ev_created_at e, l) | l e. (l, e) \<in> set (events_of T) \<and> ev_kind e = v}" for v
    by (rule group_select [OF T]) (auto simp: packed_simps)
  then have "(\<Union>v \<in> set (fsu_items ks). group Event_kind T (to_sv64 v)) = {(ev_created_at e, l) | l e. (l, e) \<in> set (events_of T) \<and> ev_kind e \<in> set (fsu_items ks)}"
    unfolding grp by auto
  then show ?thesis using s kind_grouped [OF T] by (auto simp: indexed_def matches_def k)
qed

end

definition matching :: "NostrFilter \<Rightarrow> tables \<Rightarrow> (u64 \<times> u64) set" where
  "matching f T = {(ev_created_at e, l) | l e. (l, e) \<in> set (events_of T) \<and> matches f e}"

text \<open>Which candidates pass the check of a scan.\<close>

definition passes :: "tables \<Rightarrow> NostrFilter \<Rightarrow> bool \<Rightarrow> u64 \<times> u64 \<Rightarrow> bool" where
  "passes T f ixOnly x \<longleftrightarrow> (if ixOnly then nf_doesMatchTimes f (fst x) else x \<in> matching f T)"

definition small_times :: "tables \<Rightarrow> bool" where
  "small_times T \<longleftrightarrow> (\<forall>(l, e) \<in> set (events_of T). ev_created_at e < MAX_CREATED)"

lemma cursors_of_map: "cursors_of (map (\<lambda>v. (g v, h v)) xs) = map (\<lambda>v. mkCursor (g v) (h v)) xs"
  by (simp add: cursors_of_def)

lemma cursors_of_concat: "cursors_of (concat pss) = concat (map cursors_of pss)"
  by (induction pss) (simp_all add: cursors_of_def)

lemma map_nth_upt: "map (\<lambda>i. g (xs ! i)) [0..<length xs] = map g xs"
  by (rule nth_equalityI) simp_all

lemma matches_times: "matches f e \<Longrightarrow> nf_doesMatchTimes f (ev_created_at e) \<and> in_range f (ev_created_at e, l)"
  by (auto simp: matches_def nf_doesMatchTimes_def in_range_def)

context golpe_env
begin

lemma scan_cursors_ok:
  assumes T: "wf_store T" and f: "scannable f"
  shows "\<exists>ix d ds ps sel. scan_cursors E f = Inr (ix, d, ds, cursors_of ps) \<and> indexed f T d ps sel \<and>
    (ix \<longrightarrow> (\<forall>e. sel e \<longrightarrow> nf_doesMatchTimes f (ev_created_at e) \<longrightarrow> matches f e))"
proof -
  have flag: "nf_indexOnlyScans f \<Longrightarrow> index_only_ok f" and never: "\<not> nf_neverMatch f" using f by (simp_all add: scannable_def)
  have times: "nf_doesMatchTimes f n \<longleftrightarrow> nf_since f \<le> n \<and> n \<le> nf_until f" for n by (auto simp: nf_doesMatchTimes_def not_less)
  show ?thesis
  proof (cases "nf_ids f")
    case (Some s)
    have "scan_cursors E f = Inr (nf_indexOnlyScans f, Event_id, ''ID'', cursors_of (map (\<lambda>v. (v, prefixMatch v)) (fsb_vals s)))"
      by (simp add: scan_cursors_def Some fsb.indexed_rmap rmap_Inr cursors_of_map)
    moreover have "nf_indexOnlyScans f \<longrightarrow> (\<forall>e. ev_id e \<in> set (fsb_vals s) \<longrightarrow> nf_doesMatchTimes f (ev_created_at e) \<longrightarrow> matches f e)"
      using flag never by (auto simp: index_only_ok_def Some matches_def times)
    ultimately show ?thesis using indexed_ids [OF T f Some] by blast
  next
    case ids: None
    show ?thesis
    proof (cases "nf_tags f = []")
      case False
      have "\<forall>(t, s) \<in> set (nf_tags f). fsb_size s < 2 ^ 24" using f by (force simp: scannable_def fsb.sz_elems)
      then have "smallestTag (nf_tags f) \<in> dom (map_of (nf_tags f))"
        using smallestTag_in [OF False] by (simp only: dom_map_of_conv_image_fst)
      then obtain t s where t: "t = smallestTag (nf_tags f)" "map_of (nf_tags f) t = Some s" "(t, s) \<in> set (nf_tags f)"
        by (auto dest: map_of_SomeD)
      have "scan_cursors E f = Inr (nf_indexOnlyScans f, Event_tag, ''Tag'', cursors_of (map (\<lambda>v. (t # v, tagMatch (t # v))) (fsb_vals s)))"
        using False t(2) by (simp add: scan_cursors_def ids t(1) [symmetric] fsb.indexed_rmap rmap_Inr cursors_of_map Let_def)
      moreover have "nf_indexOnlyScans f \<longrightarrow> (\<forall>e. tag_in e t (set (fsb_vals s)) \<longrightarrow> nf_doesMatchTimes f (ev_created_at e) \<longrightarrow> matches f e)"
      proof
        assume "nf_indexOnlyScans f"
        from flag [OF this] False obtain x where "nf_tags f = [x]" "nf_authors f = None" "nf_kinds f = None"
          by (auto simp: index_only_ok_def ids length_Suc_conv)
        then show "\<forall>e. tag_in e t (set (fsb_vals s)) \<longrightarrow> nf_doesMatchTimes f (ev_created_at e) \<longrightarrow> matches f e"
          using t(3) never by (auto simp: matches_def times ids)
      qed
      ultimately show ?thesis using indexed_tags [OF T f t(3)] by blast
    next
      case tags: True
      show ?thesis
      proof (cases "nf_authors f")
        case authors: (Some s)
        note simps = scan_cursors_def ids tags authors fsb.indexed_rmap fsu.indexed_rmap rmap_Inr cursors_of_map Let_def
        show ?thesis
        proof (cases "nf_kinds f")
          case None
          have "scan_cursors E f = Inr (nf_indexOnlyScans f, Event_pubkey, ''Pubkey'', cursors_of (map (\<lambda>v. (v, prefixMatch v)) (fsb_vals s)))"
            by (simp add: simps None)
          moreover have "\<forall>e. ev_pubkey e \<in> set (fsb_vals s) \<longrightarrow> nf_doesMatchTimes f (ev_created_at e) \<longrightarrow> matches f e"
            using never by (auto simp: None ids tags authors matches_def times)
          ultimately show ?thesis using indexed_authors [OF T f authors] by blast
        next
          case (Some ks)
          have sizes: "length (fsb_vals s) < 2 ^ 24" "length (fsu_items ks) < 2 ^ 24" using f authors Some by (auto simp: scannable_def)
          show ?thesis
          proof (cases "length (fsb_vals s) * length (fsu_items ks) < 1000")
            case False
            have "scan_cursors E f = Inr (False, Event_pubkey, ''Pubkey'', cursors_of (map (\<lambda>v. (v, prefixMatch v)) (fsb_vals s)))"
              using False small_product [OF sizes] by (simp add: simps Some fsb.sz_elems [symmetric] fsu.sz_elems [symmetric])
            then show ?thesis using indexed_authors [OF T f authors] by blast
          next
            case True
            let ?ps = "concat (map (\<lambda>v. map (\<lambda>k. (v @ to_sv64 k, prefixMatch (v @ to_sv64 k))) (fsu_items ks)) (fsb_vals s))"
            let ?row = "\<lambda>v. map (\<lambda>k. mkCursor (v @ to_sv64 k) (prefixMatch (v @ to_sv64 k))) (fsu_items ks)"
            have "rmap (\<lambda>i. rmap (\<lambda>j. rbind (fsu_at ks j) (\<lambda>kind. rbind (fsb_at s i) (\<lambda>a.
                let search = a @ to_sv64 kind in Inr (mkCursor search (prefixMatch search))))) [0..<fsu_size ks]) [0..<fsb_size s] =
              rmap (\<lambda>i. Inr (?row (fsb_vals s ! i))) [0..<fsb_size s]"
              by (rule rmap_cong) (simp_all add: fsu.indexed_rmap fsb.at_elems rmap_Inr Let_def)
            also have "\<dots> = Inr (map ?row (fsb_vals s))" by (simp add: rmap_Inr fsb.sz_elems map_nth_upt [of ?row])
            finally have "scan_cursors E f = Inr (nf_indexOnlyScans f, Event_pubkeyKind, ''PubkeyKind'', cursors_of ?ps)"
              using True small_product [OF sizes]
              by (simp add: scan_cursors_def ids tags authors Some fsb.sz_elems [symmetric] fsu.sz_elems [symmetric]
                  cursors_of_concat cursors_of_map comp_def)
            moreover have "\<forall>e. ev_pubkey e \<in> set (fsb_vals s) \<and> ev_kind e \<in> set (fsu_items ks) \<longrightarrow> nf_doesMatchTimes f (ev_created_at e) \<longrightarrow> matches f e"
              using never by (auto simp: Some ids tags authors matches_def times)
            ultimately show ?thesis using indexed_pubkeyKind [OF T f authors Some True] by blast
          qed
        qed
      next
        case authors: None
        show ?thesis
        proof (cases "nf_kinds f")
          case (Some ks)
          have "scan_cursors E f = Inr (nf_indexOnlyScans f, Event_kind, ''Kind'', cursors_of (map (\<lambda>k. (to_sv64 k, kindMatch E k)) (fsu_items ks)))"
            by (simp add: scan_cursors_def ids tags authors Some fsu.indexed_rmap rmap_Inr cursors_of_map)
          moreover have "\<forall>e. ev_kind e \<in> set (fsu_items ks) \<longrightarrow> nf_doesMatchTimes f (ev_created_at e) \<longrightarrow> matches f e"
            using never by (auto simp: Some ids tags authors matches_def times)
          ultimately show ?thesis using indexed_kinds [OF T f Some] by blast
        next
          case None
          have "scan_cursors E f = Inr (nf_indexOnlyScans f, Event_created_at, ''CreatedAt'', cursors_of [([], \<lambda>_. Yes)])"
            by (simp add: scan_cursors_def ids tags authors None cursors_of_def)
          moreover have "\<forall>e. True \<longrightarrow> nf_doesMatchTimes f (ev_created_at e) \<longrightarrow> matches f e"
            using never by (auto simp: None ids tags authors matches_def times)
          ultimately show ?thesis using indexed_all [OF T, of f] by blast
        qed
      qed
    qed
  qed
qed

lemma scan_start:
  assumes T: "wf_store (view t)" and small: "small_times (view t)" and f: "scannable f"
  obtains s ss where "mkDBScan E f = Inr s" "scan_ok (view t) ss s" "sc_f s = f"
    "{x \<in> scan_pending (view t) ss s. passes (view t) f (indexOnly s) x} = matching f (view t)"
    "\<forall>x \<in> scan_pending (view t) ss s. \<exists>e. (snd x, e) \<in> set (events_of (view t)) \<and> ev_created_at e = fst x"
proof -
  obtain ix d ds ps sel where c: "scan_cursors E f = Inr (ix, d, ds, cursors_of ps)" "indexed f (view t) d ps sel"
    "ix \<longrightarrow> (\<forall>e. sel e \<longrightarrow> nf_doesMatchTimes f (ev_created_at e) \<longrightarrow> matches f e)"
    using scan_cursors_ok [OF T f] by blast
  let ?C = "{(ev_created_at e, l) | l e. (l, e) \<in> set (events_of (view t)) \<and> sel e}"
  have ps: "ps \<noteq> []" "length ps < 2 ^ 24" "\<forall>(k, m) \<in> set ps. grouped d (view t) k m" "(\<Union>(k, m) \<in> set ps. group d (view t) k) = ?C"
    and sel: "\<And>e. matches f e \<Longrightarrow> sel e" using c(2) unfolding indexed_def by auto
  have len: "length (cursors_of ps) = length ps" by (simp add: cursors_of_def)
  have nz: "(of_nat (length ps) :: u64) \<noteq> 0" using small_index [OF ps(2)] ps(1) by (metis length_0_conv unat_0)
  define depth where "depth = max 5 (min 50 (nf_limit f div of_nat (length ps)))"
  define s where "s = \<lparr>sc_f = f, indexOnly = ix, indexDbi = d, desc = ds, cursors = cursors_of ps, eventQueue = [],
    initialScanDepth = depth, refillScanDepth = 10 * depth, nextInitIndex = 0, approxWork = 0\<rparr>"
  have "depth \<le> 50" "5 \<le> depth" by (auto simp: depth_def)
  then have depth: "0 < depth" "0 < 10 * depth"
  proof -
    have "unat depth \<le> 50" "5 \<le> unat depth" using \<open>depth \<le> 50\<close> \<open>5 \<le> depth\<close> by (simp_all add: word_le_nat_alt)
    then have "unat (10 * depth) = 10 * unat depth" by (simp add: unat_mult_lem [THEN iffD1])
    then show "0 < depth" "0 < 10 * depth" using \<open>5 \<le> unat depth\<close> by (simp_all add: word_less_nat_alt)
  qed
  have mk: "mkDBScan E f = Inr s"
    using nz by (simp add: mkDBScan_def c(1) s_def depth_def len Let_def)
  have "\<forall>(k, m) \<in> set ps. \<forall>x \<in> group d (view t) k. fst x < MAX_CREATED"
  proof (intro ballI, clarify)
    fix k m n l assume "(k, m) \<in> set ps" "(n, l) \<in> group d (view t) k"
    then have "(n, l) \<in> ?C" unfolding ps(4) [symmetric] by blast
    then show "fst (n, l) < MAX_CREATED" using small by (auto simp: small_times_def)
  qed
  then have S: "scan_ok (view t) (map fst ps) s"
    and P: "scan_pending (view t) (map fst ps) s = {x \<in> ?C. in_range f x}"
    using fresh_scan [of s ps "view t"] ps depth by (simp_all add: s_def)
  have "{x \<in> scan_pending (view t) (map fst ps) s. passes (view t) f ix x} = matching f (view t)"
  proof (intro equalityI subsetI)
    fix x assume "x \<in> {x \<in> scan_pending (view t) (map fst ps) s. passes (view t) f ix x}"
    then show "x \<in> matching f (view t)" using c(3) unfolding P passes_def matching_def by (cases ix) (auto, blast)
  next
    fix x assume m: "x \<in> matching f (view t)"
    then obtain l e where x: "x = (ev_created_at e, l)" "(l, e) \<in> set (events_of (view t))" "matches f e" by (auto simp: matching_def)
    then have "passes (view t) f ix x" using m matches_times [OF x(3)] by (simp add: passes_def)
    moreover have "x \<in> ?C" using x sel by blast
    ultimately show "x \<in> {x \<in> scan_pending (view t) (map fst ps) s. passes (view t) f ix x}"
      using matches_times [OF x(3), of l] unfolding P by (simp add: x(1))
  qed
  moreover have "\<forall>x \<in> scan_pending (view t) (map fst ps) s. \<exists>e. (snd x, e) \<in> set (events_of (view t)) \<and> ev_created_at e = fst x"
    unfolding P by auto
  ultimately show ?thesis using that [OF mk S] by (simp add: s_def)
qed

lemma doSend_ok:
  assumes T: "wf_store (view t)" and f: "wf_filter (sc_f s)" and x: "fst x < MAX_CREATED" "i < 2 ^ 24"
    and ev: "\<exists>e. (snd x, e) \<in> set (events_of (view t)) \<and> ev_created_at e = fst x"
  shows "doSend E t s (cand (of_nat i) x) = Inr (passes (view t) (sc_f s) (indexOnly s) x)"
proof -
  obtain e where e: "(snd x, e) \<in> set (events_of (view t))" "ev_created_at e = fst x" using ev by blast
  have wf: "wf_event e" using events_ofE [OF T e(1)] by simp
  have look: "lookup_Event E t (snd x) = Some (pack e)" using lookup_Event_Some [OF T] e(1) by blast
  have "x \<in> matching (sc_f s) (view t) \<longleftrightarrow> matches (sc_f s) e"
  proof
    assume "x \<in> matching (sc_f s) (view t)"
    then obtain l e' where "x = (ev_created_at e', l)" "(l, e') \<in> set (events_of (view t))" "matches (sc_f s) e'"
      by (auto simp: matching_def)
    moreover from this have "e' = e" using events_of_same_levId [OF wf_store_ok [OF T] e(1)] by simp
    ultimately show "matches (sc_f s) e" by simp
  next
    assume "matches (sc_f s) e"
    moreover have "x = (ev_created_at e, snd x)" using e(2) by (cases x) simp
    ultimately show "x \<in> matching (sc_f s) (view t)" using e(1) unfolding matching_def by blast
  qed
  then show ?thesis
    using cand_fields [OF x] look PackedEventView_pack [OF wf] nf_doesMatch_pack [OF f wf]
    by (simp add: doSend_def passes_def)
qed

end

section \<open>What a query sends\<close>

definition eligible :: "NostrFilter \<Rightarrow> tables \<Rightarrow> u64 \<Rightarrow> (u64 \<times> u64) list" where
  "eligible f T latest = filter (\<lambda>x. snd x \<le> latest) (desc_list (matching f T))"

definition newest :: "NostrFilter \<Rightarrow> tables \<Rightarrow> u64 \<Rightarrow> u64 list" where
  "newest f T latest = map snd (take (unat (nf_limit f)) (eligible f T latest))"

definition send_new :: "u64 list \<Rightarrow> u64 list \<Rightarrow> u64 list" where
  "send_new sent ls = sent @ filter (\<lambda>l. l \<notin> set sent) ls"

definition query_result :: "tables \<Rightarrow> u64 \<Rightarrow> NostrFilter list \<Rightarrow> u64 list" where
  "query_result T latest fs = foldl (\<lambda>sent f. send_new sent (newest f T latest)) [] fs"

lemma matching_finite [simp]: "finite (matching f T)"
proof -
  have "matching f T \<subseteq> (\<lambda>(l, e). (ev_created_at e, l)) ` set (events_of T)" by (force simp: matching_def)
  then show ?thesis by (rule finite_subset) simp
qed

lemma eligible_props:
  assumes "tables_ok T"
  shows "sorted_wrt (>) (eligible f T latest)" "set (eligible f T latest) = {x \<in> matching f T. snd x \<le> latest}"
    "distinct (map snd (eligible f T latest))"
proof -
  show s: "sorted_wrt (>) (eligible f T latest)" by (simp add: eligible_def sorted_wrt_filter)
  show set: "set (eligible f T latest) = {x \<in> matching f T. snd x \<le> latest}" by (auto simp: eligible_def)
  have "inj_on snd (matching f T)"
    using events_of_same_levId [OF assms] by (fastforce simp: inj_on_def matching_def)
  then have "inj_on snd (set (eligible f T latest))" unfolding set by (rule inj_on_subset) blast
  moreover have "distinct (eligible f T latest)" by (simp add: eligible_def)
  ultimately show "distinct (map snd (eligible f T latest))" by (simp add: distinct_map)
qed

text \<open>
  The state of a query while the filter \<open>f\<close> is scanned: \<open>j\<close> of its events have been found, \<open>P\<close> holds what
  the scan has still to handle.
\<close>

definition found :: "tables \<Rightarrow> NostrFilter \<Rightarrow> u64 list \<Rightarrow> Subscription \<Rightarrow> nat \<Rightarrow> (u64 \<Rightarrow> 's \<Rightarrow> 's) \<Rightarrow> 's \<Rightarrow> nat \<Rightarrow> 's running \<Rightarrow> bool" where
  "found T f sent sub k g st0 j = (\<lambda>(q, t, st). q_sub q = sub \<and> filterGroupIndex q = k \<and>
     (let ls = map snd (take j (eligible f T (sub_latestEventId sub))) in
      sentEventsCurr q = set ls \<and> sentEventsFull q = set (send_new sent ls) \<and> st = fold g (send_new sent ls) st0))"

definition scanning :: "tables \<Rightarrow> NostrFilter \<Rightarrow> u64 list \<Rightarrow> Subscription \<Rightarrow> nat \<Rightarrow> (u64 \<Rightarrow> 's \<Rightarrow> 's) \<Rightarrow> 's \<Rightarrow> (u64 \<times> u64) set \<Rightarrow> 's running \<Rightarrow> bool" where
  "scanning T f sent sub k g st0 P r \<longleftrightarrow> (\<exists>j. found T f sent sub k g st0 j r \<and>
     (let D = eligible f T (sub_latestEventId sub) in
      j \<le> length D \<and> (j < unat (nf_limit f) \<or> j = 0) \<and> set (drop j D) \<subseteq> P \<and> (\<forall>x \<in> set (take j D). \<forall>y \<in> P. y \<le> x)))"

definition scanned :: "tables \<Rightarrow> NostrFilter \<Rightarrow> u64 list \<Rightarrow> Subscription \<Rightarrow> nat \<Rightarrow> (u64 \<Rightarrow> 's \<Rightarrow> 's) \<Rightarrow> 's \<Rightarrow> 's running \<Rightarrow> bool" where
  "scanned T f sent sub k g st0 = (\<lambda>(q, t, st). q_sub q = sub \<and> filterGroupIndex q = k \<and>
     (let ls = send_new sent (newest f T (sub_latestEventId sub)) in sentEventsFull q = set ls \<and> st = fold g ls st0))"

lemma scanning_pause: "scanning T f sent sub k g st0 P r \<Longrightarrow> scanning T f sent sub k g st0 P (snd (query_pause clock startTime budget w r))"
  by (cases r) (auto simp: scanning_def found_def query_pause_def Let_def)

lemma found_scanned:
  assumes "found T f sent sub k g st0 j r" and "take j (eligible f T (sub_latestEventId sub)) = take (unat (nf_limit f)) (eligible f T (sub_latestEventId sub))"
  shows "scanned T f sent sub k g st0 r"
  using assms by (cases r) (simp add: found_def scanned_def newest_def Let_def)

lemma scanning_finish: "scanning T f sent sub k g st0 {} r \<Longrightarrow> scanned T f sent sub k g st0 r"
  unfolding scanning_def Let_def by (elim exE conjE, erule found_scanned) auto

lemma scanning_skip:
  assumes "scanning T f sent sub k g st0 P r" and "x \<notin> set (eligible f T (sub_latestEventId sub))" and "P - {x} \<subseteq> P'" and "P' \<subseteq> P"
  shows "scanning T f sent sub k g st0 P' r"
proof -
  let ?D = "eligible f T (sub_latestEventId sub)"
  obtain j where j: "found T f sent sub k g st0 j r" "j \<le> length ?D" "j < unat (nf_limit f) \<or> j = 0" "set (drop j ?D) \<subseteq> P"
    "\<forall>x \<in> set (take j ?D). \<forall>y \<in> P. y \<le> x" using assms(1) by (auto simp: scanning_def Let_def)
  have "x \<notin> set (drop j ?D)" using assms(2) by (auto dest: in_set_dropD)
  then have "set (drop j ?D) \<subseteq> P'" using j(4) assms(3) by blast
  then show ?thesis using j assms(4) unfolding scanning_def Let_def by blast
qed

lemma send_new_snoc: "l \<notin> set ls \<Longrightarrow> send_new sent (ls @ [l]) = (if l \<in> set (send_new sent ls) then send_new sent ls else send_new sent ls @ [l])"
  by (auto simp: send_new_def)

lemma scanning_handle:
  assumes T: "tables_ok T" and S: "scanning T f sent sub k g st0 P r" and x: "x \<in> P" "\<forall>y \<in> P. y \<le> x" "x \<in> matching f T"
    and cb: "\<And>l st. cb sub l st = Inr (g l st)" and P': "P - {x} \<subseteq> P'" "P' \<subseteq> P"
  shows "\<exists>b r'. query_handle cb f (snd x) r = Inr (b, r') \<and>
    (if b then scanned T f sent sub k g st0 r' else scanning T f sent sub k g st0 P' r')"
proof -
  let ?D = "eligible f T (sub_latestEventId sub)"
  note D = eligible_props [OF T, of f "sub_latestEventId sub"]
  obtain j where j: "found T f sent sub k g st0 j r" "j \<le> length ?D" "j < unat (nf_limit f) \<or> j = 0" "set (drop j ?D) \<subseteq> P"
    "\<forall>x \<in> set (take j ?D). \<forall>y \<in> P. y \<le> x" using S by (auto simp: scanning_def Let_def)
  obtain q t st where r: "r = (q, t, st)" by (cases r)
  define ls where "ls = map snd (take j ?D)"
  have q: "q_sub q = sub" "filterGroupIndex q = k" "sentEventsCurr q = set ls" "sentEventsFull q = set (send_new sent ls)" "st = fold g (send_new sent ls) st0"
    using j(1) by (simp_all add: found_def r ls_def Let_def)
  have dist: "distinct ls" "length ls = j" using D(3) j(2) by (simp_all add: ls_def take_map [symmetric] distinct_take)
  show ?thesis
  proof (cases "nf_limit f = 0")
    case True
    then have "scanned T f sent sub k g st0 r" using j by (intro found_scanned [OF j(1)]) simp
    then show ?thesis using True by (simp add: query_handle_def r ex_bool_eq)
  next
    case False
    then have lim: "j < unat (nf_limit f)" using j(3) by (metis gr0I unat_eq_zero)
    show ?thesis
    proof (cases "snd x \<le> sub_latestEventId sub")
      case False
      then have "x \<notin> set ?D" by (simp add: D(2))
      from scanning_skip [OF S this P'] show ?thesis
        using False \<open>nf_limit f \<noteq> 0\<close> q(1) by (simp add: query_handle_def r not_le ex_bool_eq)
    next
      case True
      then have xD: "x \<in> set ?D" using x(3) by (simp add: D(2))
      define ls' where "ls' = (if snd x \<in> set ls then ls else ls @ [snd x])"
      define q' where "q' = q\<lparr>sentEventsFull := set (send_new sent ls'), sentEventsCurr := set ls'\<rparr>"
      have new: "snd x \<in> set ls \<Longrightarrow> snd x \<in> set (send_new sent ls)" by (auto simp: send_new_def)
      have "query_handle cb f (snd x) r = Inr (card (set ls') \<ge> unat (nf_limit f), q', t, fold g (send_new sent ls') st0)"
        using True \<open>nf_limit f \<noteq> 0\<close> q cb new send_new_snoc [of "snd x" ls sent]
        by (auto simp: query_handle_def r not_le [symmetric] q'_def ls'_def Let_def insert_absorb)
      moreover have "\<exists>j'. ls' = map snd (take j' ?D) \<and> j' \<le> length ?D \<and> j' = card (set ls') \<and> j' \<le> Suc j \<and> set (drop j' ?D) \<subseteq> P' \<and>
          (\<forall>x \<in> set (take j' ?D). \<forall>y \<in> P'. y \<le> x)"
      proof (cases "x \<in> set (take j ?D)")
        case True
        then have "snd x \<in> set ls" by (auto simp: ls_def)
        moreover have "x \<notin> set (drop j ?D)" using D(3) True by (metis distinct_map distinct_append append_take_drop_id disjoint_iff)
        then have "set (drop j ?D) \<subseteq> P'" using j(4) P'(1) by blast
        moreover have "\<forall>x \<in> set (take j ?D). \<forall>y \<in> P'. y \<le> x" using j(5) P'(2) by blast
        moreover have "ls' = map snd (take j ?D)" "card (set ls') = j" using \<open>snd x \<in> set ls\<close> dist by (simp_all add: ls'_def ls_def [symmetric] distinct_card)
        ultimately show ?thesis using j(2) by (metis le_SucI order_refl)
      next
        case False
        then have xd: "x \<in> set (drop j ?D)" using xD by (metis Un_iff append_take_drop_id set_append)
        then have "drop j ?D \<noteq> []" by auto
        then have jl: "j < length ?D" by simp
        have "?D ! j \<in> set (drop j ?D)" using jl by (metis Cons_nth_drop_Suc list.set_intros(1))
        then have "?D ! j \<le> x" using j(4) x(2) by blast
        moreover have "x \<le> ?D ! j" using desc_drop [OF D(1) jl] xd by blast
        ultimately have xj: "?D ! j = x" by simp
        have take: "take (Suc j) ?D = take j ?D @ [x]" using jl xj by (simp add: take_Suc_conv_app_nth)
        have "distinct (map snd (take (Suc j) ?D))" using D(3) by (simp add: take_map [symmetric] distinct_take)
        then have "snd x \<notin> set ls" unfolding take ls_def by auto
        then have "ls' = map snd (take (Suc j) ?D)" by (simp add: ls'_def take ls_def)
        moreover have "card (set ls') = Suc j" using dist \<open>snd x \<notin> set ls\<close> by (simp add: ls'_def distinct_card)
        moreover have drop: "drop j ?D = x # drop (Suc j) ?D" using Cons_nth_drop_Suc [OF jl] xj by simp
        have "distinct (drop j ?D)" using D(3) by (simp add: distinct_map distinct_drop)
        then have "set (drop (Suc j) ?D) \<subseteq> P'" using j(4) P'(1) unfolding drop by auto
        moreover have "\<forall>z \<in> set (take (Suc j) ?D). \<forall>y \<in> P'. y \<le> z" unfolding take using j(5) x(2) P'(2) by (simp, blast)
        ultimately show ?thesis using jl by (metis Suc_leI order_refl)
      qed
      then obtain j' where j': "ls' = map snd (take j' ?D)" "j' \<le> length ?D" "j' = card (set ls')" "j' \<le> Suc j" "set (drop j' ?D) \<subseteq> P'"
        "\<forall>x \<in> set (take j' ?D). \<forall>y \<in> P'. y \<le> x" by blast
      have f': "found T f sent sub k g st0 j' (q', t, fold g (send_new sent ls') st0)"
        using q by (simp add: found_def q'_def j'(1) [symmetric] Let_def)
      have "if card (set ls') \<ge> unat (nf_limit f) then scanned T f sent sub k g st0 (q', t, fold g (send_new sent ls') st0)
        else scanning T f sent sub k g st0 P' (q', t, fold g (send_new sent ls') st0)"
      proof (cases "card (set ls') \<ge> unat (nf_limit f)")
        case True
        then have "j' = unat (nf_limit f)" using j'(3,4) lim by simp
        then show ?thesis using True found_scanned [OF f'] by simp
      next
        case False
        then have "j' < unat (nf_limit f) \<or> j' = 0" using j'(3) by simp
        then have "scanning T f sent sub k g st0 P' (q', t, fold g (send_new sent ls') st0)"
          unfolding scanning_def Let_def using f' j'(2,5,6) by blast
        then show ?thesis using False by simp
      qed
      ultimately show ?thesis by blast
    qed
  qed
qed

section \<open>Running a query\<close>

definition scan_wf :: "tables \<Rightarrow> bytes list \<Rightarrow> NostrFilter \<Rightarrow> DBScan \<Rightarrow> bool" where
  "scan_wf T ss f s \<longleftrightarrow> scan_ok T ss s \<and> sc_f s = f \<and>
     (\<forall>x \<in> scan_pending T ss s. (passes T f (indexOnly s) x \<longrightarrow> x \<in> matching f T) \<and>
       (\<exists>e. (snd x, e) \<in> set (events_of T) \<and> ev_created_at e = fst x))"

lemma matching_passes: "x \<in> matching f T \<Longrightarrow> passes T f ix x"
  by (auto simp: passes_def matching_def dest: matches_times)

lemma scanning_frame [simp]:
  "scanning T f sent sub k g st0 P (q\<lparr>scanner := sc, currScanTime := n\<rparr>, t, st) = scanning T f sent sub k g st0 P (q, t', st)"
  "scanning T f sent sub k g st0 P (q\<lparr>scanner := sc, currScanTime := n, currScanSaveRestores := m\<rparr>, t, st) = scanning T f sent sub k g st0 P (q, t', st)"
  by (simp_all add: scanning_def found_def)

context golpe_env
begin

lemma scan_filter:
  assumes T: "wf_store (view txn)" and f: "scannable f" and S: "scan_wf (view txn) ss f s"
    and I: "scanning (view txn) f sent sub k g st0 (scan_pending (view txn) ss s) r" and cb: "\<And>l st. cb sub l st = Inr (g l st)"
  shows "\<exists>b s' r'. scan E txn (query_handle cb f) (query_pause clock startTime budget) s r = Some (Inr (b, s', r')) \<and>
    (if b then scanned (view txn) f sent sub k g st0 r'
     else scan_wf (view txn) ss f s' \<and> scanning (view txn) f sent sub k g st0 (scan_pending (view txn) ss s') r' \<and>
       lastWorkChecked (fst r') = approxWork s' \<and> budget \<noteq> MAX_U64 \<and>
       (scan_work (view txn) ss s' < scan_work (view txn) ss s \<or> s' = s\<lparr>approxWork := approxWork s + 1\<rparr> \<and> fst (query_pause clock startTime budget (approxWork s + 1) r)))"
proof -
  let ?T = "view txn"
  let ?I = "scanning ?T f sent sub k g st0"
  have ok: "tables_ok ?T" and len: "length ss < 2 ^ 24" using T S by (simp_all add: scan_wf_def scan_ok_def)
  have pend: "passes ?T f (indexOnly s) x \<Longrightarrow> x \<in> matching f ?T" "\<exists>e. (snd x, e) \<in> set (events_of ?T) \<and> ev_created_at e = fst x"
    if "x \<in> scan_pending ?T ss s" for x using S that by (auto simp: scan_wf_def)
  have "\<exists>b s' r'. scan E txn (query_handle cb f) (query_pause clock startTime budget) s r = Some (Inr (b, s', r')) \<and>
    (if b then scanned ?T f sent sub k g st0 r' else scan_frame ?T ss s s' \<and> ?I (scan_pending ?T ss s') r' \<and>
      (scan_work ?T ss s' < scan_work ?T ss s \<or> s' = s\<lparr>approxWork := approxWork s + 1\<rparr> \<and> fst (query_pause clock startTime budget (approxWork s + 1) r)) \<and>
      (\<exists>r1. query_pause clock startTime budget (approxWork s') r1 = (True, r')))"
  proof (rule scan_rule [OF ok, where passes = "passes ?T f (indexOnly s)"])
    show "scan_ok ?T ss s" "?I (scan_pending ?T ss s) r" using S I by (simp_all add: scan_wf_def)
    show "?I P (snd (query_pause clock startTime budget w st))" if "?I P st" for P w st by (rule scanning_pause [OF that])
    show "doSend E txn s' (cand (of_nat i) x) = Inr (passes ?T f (indexOnly s) x)"
      if "sc_f s' = sc_f s" "indexOnly s' = indexOnly s" "i < length ss" "x \<in> scan_pending ?T ss s" "fst x < MAX_CREATED" for s' i x
      using doSend_ok [OF T, of s' x i] that f S len pend(2) [OF that(4)] by (simp add: scannable_def scan_wf_def)
    show "if passes ?T f (indexOnly s) x then \<exists>b st'. query_handle cb f (snd x) st = Inr (b, st') \<and>
        (if b then scanned ?T f sent sub k g st0 st' else ?I P' st') else ?I P' st"
      if "?I P st" "P \<subseteq> scan_pending ?T ss s" "x \<in> P" "\<forall>y \<in> P. y \<le> x" "P - {x} \<subseteq> P'" "P' \<subseteq> P" for P P' x st
    proof (cases "passes ?T f (indexOnly s) x")
      case True
      then have "x \<in> matching f ?T" using pend(1) that(2,3) by blast
      from scanning_handle [where cb = cb and g = g and sub = sub, OF ok that(1,3,4) this _ that(5,6)] cb True show ?thesis by simp
    next
      case False
      then have "x \<notin> set (eligible f ?T (sub_latestEventId sub))" using matching_passes eligible_props(2) [OF ok] by blast
      from scanning_skip [OF that(1) this that(5,6)] False show ?thesis by simp
    qed
    show "scanned ?T f sent sub k g st0 st" if "?I {} st" for st by (rule scanning_finish [OF that])
  qed
  then obtain b s' r' where r: "scan E txn (query_handle cb f) (query_pause clock startTime budget) s r = Some (Inr (b, s', r'))"
    and post: "if b then scanned ?T f sent sub k g st0 r' else scan_frame ?T ss s s' \<and> ?I (scan_pending ?T ss s') r' \<and>
      (scan_work ?T ss s' < scan_work ?T ss s \<or> s' = s\<lparr>approxWork := approxWork s + 1\<rparr> \<and> fst (query_pause clock startTime budget (approxWork s + 1) r)) \<and>
      (\<exists>r1. query_pause clock startTime budget (approxWork s') r1 = (True, r'))" by blast
  have "scan_wf ?T ss f s'" if "scan_frame ?T ss s s'" using that S by (auto simp: scan_frame_def scan_wf_def)
  moreover have "lastWorkChecked (fst r') = approxWork s' \<and> budget \<noteq> MAX_U64" if "query_pause clock startTime budget (approxWork s') r1 = (True, r')" for r1
    using that by (cases r1) (auto simp: query_pause_def split: if_splits)
  ultimately show ?thesis using r post by (cases b) (fastforce simp: ex_bool_eq)+
qed

end

end
