(* ===== verification/DBQueryRun.thy ===== *)
theory DBQueryRun
  imports DBQueryProof
begin

text \<open>
  Whole queries of \<open>src/DBQuery.h\<close>: the filters of a request meet what the scans need, a call of
  \<open>process\<close> keeps the invariant of a query, and the calls together send exactly the events that
  the filters ask for, after finitely many time slices.
\<close>

section \<open>The filters of a request can be scanned\<close>

text \<open>A byte set has fewer than \<open>2\<^sup>2\<^sup>4\<close> values: an item has 16 bits for its offset and 8 for its size.\<close>

lemma wf_fsb_small:
  assumes "wf_fsb fs"
  shows "length (fsb_vals fs) < 2 ^ 24"
proof -
  let ?val = "\<lambda>(off :: u16, sz :: u8). take (unat sz) (drop (unat off) (fsb_buf fs))"
  have "set (fsb_vals fs) \<subseteq> {[]} \<union> ?val ` (UNIV \<times> (UNIV - {0}))"
  proof
    fix v assume "v \<in> set (fsb_vals fs)"
    then obtain it where it: "v = item_sv fs it" by (auto simp: fsb_vals_def)
    show "v \<in> {[]} \<union> ?val ` (UNIV \<times> (UNIV - {0}))"
    proof (cases "it_size it = 0")
      case True
      then show ?thesis by (simp add: it item_sv_def)
    next
      case False
      then have "v = ?val (it_offset it, it_size it)" "(it_offset it, it_size it) \<in> UNIV \<times> (UNIV - {0})"
        by (simp_all add: it item_sv_def)
      then show ?thesis by blast
    qed
  qed
  then have "card (set (fsb_vals fs)) \<le> card ({[]} \<union> ?val ` (UNIV \<times> (UNIV - {0})))" by (intro card_mono) simp_all
  also have "\<dots> \<le> card {[] :: bytes} + card (?val ` (UNIV \<times> (UNIV - {0})))" by (rule card_Un_le)
  also have "\<dots> \<le> 1 + card ((UNIV :: u16 set) \<times> (UNIV - {0 :: u8}))" by (simp only: card_insert_disjoint finite.emptyI card.empty empty_iff not_False_eq_True)
      (intro add_mono card_image_le; simp)
  also have "\<dots> = 1 + 65536 * 255" by (simp add: card_cartesian_product card_word card_Diff_singleton)
  finally show ?thesis using assms by (simp add: wf_fsb_def strict_sorted_iff distinct_card [symmetric])
qed

definition num_fields :: "NostrFilter \<Rightarrow> nat" where
  "num_fields f = of_bool (nf_ids f \<noteq> None) + of_bool (nf_authors f \<noteq> None) + of_bool (nf_kinds f \<noteq> None) + length (nf_tags f)"

definition sets_filled :: "NostrFilter \<Rightarrow> bool" where
  "sets_filled f \<longleftrightarrow> (\<forall>s. nf_ids f = Some s \<or> nf_authors f = Some s \<or> s \<in> snd ` set (nf_tags f) \<longrightarrow> wf_fsb s \<and> fsb_vals s \<noteq> []) \<and>
     (\<forall>s. nf_kinds f = Some s \<longrightarrow> fsu_items s \<noteq> [])"

lemma mkFilterSetBytes_filled:
  assumes "mkFilterSetBytes fh v h lo hi = Inr s" and "v \<noteq> JArray []"
  shows "wf_fsb s \<and> fsb_vals s \<noteq> []"
proof -
  obtain xs arr where v: "v = JArray xs" and arr: "rmap (fsb_item fh h lo hi) xs = Inr arr"
    using assms(1) by (auto simp: mkFilterSetBytes_def Let_def split: if_splits)
  then obtain x where x: "x \<in> set xs" using assms(2) by (cases xs) auto
  then obtain y where "fsb_item fh h lo hi x = Inr y"
    using arr by (auto simp: rmap_eq_Inr list_all2_conv_all_nth in_set_conv_nth)
  then have "y \<in> json_bytes fh h v" using x v by (auto simp: fsb_item_eq_Inr json_bytes_def)
  then show ?thesis using mkFilterSetBytes_spec(1,2) [OF assms(1)] by auto
qed

lemma mkFilterSetUint_filled:
  assumes "mkFilterSetUint v = Inr s" and "v \<noteq> JArray []"
  shows "fsu_items s \<noteq> []"
proof -
  obtain xs items where v: "v = JArray xs" and i: "rmap get_unsigned xs = Inr items"
    using assms(1) by (auto simp: mkFilterSetUint_def)
  then obtain x y where "x \<in> set xs" "get_unsigned x = Inr y"
    using assms(2) by (cases xs) auto
  then have "y \<in> set (fsu_items s)" using mkFilterSetUint_spec(2) [OF assms(1)] v by (cases x) auto
  then show ?thesis by auto
qed

lemma nf_member_fields:
  assumes "nf_member fh (k, v) (f, n) = Inr (f', n')" and "sets_filled f" and "num_fields f \<le> n"
  shows "sets_filled f' \<and> num_fields f' \<le> n'"
proof (cases "v = JArray []")
  case True
  then have "f' = f\<lparr>nf_neverMatch := True\<rparr>" "n' = n" using assms(1) by (simp_all add: nf_member_def)
  then show ?thesis using assms(2,3) by (simp add: sets_filled_def num_fields_def)
next
  case False
  note B = mkFilterSetBytes_filled [OF _ False] and U = mkFilterSetUint_filled [OF _ False]
  consider "k = ''ids''" | "k = ''authors''" | "k = ''kinds''" | r where "k = CHR ''#'' # r"
    | "k \<notin> {''ids'', ''authors'', ''kinds''}" "\<not> starts_with k ''#''"
    by (auto simp: starts_hash)
  then show ?thesis
  proof cases
    case 1
    then obtain s where "mkFilterSetBytes fh v True 32 32 = Inr s" "f' = f\<lparr>nf_ids := Some s\<rparr>" "n' = n + 1"
      using assms(1) False by (auto simp: nf_member_def)
    then show ?thesis using assms(2,3) B by (auto simp: sets_filled_def num_fields_def)
  next
    case 2
    then obtain s where "mkFilterSetBytes fh v True 32 32 = Inr s" "f' = f\<lparr>nf_authors := Some s\<rparr>" "n' = n + 1"
      using assms(1) False by (auto simp: nf_member_def)
    then show ?thesis using assms(2,3) B by (auto simp: sets_filled_def num_fields_def)
  next
    case 3
    then obtain s where "mkFilterSetUint v = Inr s" "f' = f\<lparr>nf_kinds := Some s\<rparr>" "n' = n + 1"
      using assms(1) False by (auto simp: nf_member_def)
    then show ?thesis using assms(2,3) U by (auto simp: sets_filled_def num_fields_def)
  next
    case 4
    then have "starts_with k ''#''" "k \<noteq> ''ids''" "k \<noteq> ''authors''" "k \<noteq> ''kinds''" by (simp_all add: starts_hash)
    then obtain s h lo hi where mk: "mkFilterSetBytes fh v h lo hi = Inr s"
      and f': "f' = f\<lparr>nf_tags := tags_emplace (k ! 1) s (nf_tags f)\<rparr>" "n' = n + 1"
      using assms(1) False by (auto simp: nf_member_def Let_def split: if_splits)
    have s: "wf_fsb s \<and> fsb_vals s \<noteq> []" by (rule B [OF mk])
    have "s' = s \<or> s' \<in> snd ` set (nf_tags f)" if "s' \<in> snd ` set (tags_emplace (k ! 1) s (nf_tags f))" for s'
      using that by (auto simp: tags_emplace_def split: if_splits)
    moreover have "length (tags_emplace (k ! 1) s (nf_tags f)) \<le> length (nf_tags f) + 1" by (simp add: tags_emplace_def)
    ultimately show ?thesis using assms(2,3) s unfolding f' sets_filled_def num_fields_def by auto
  next
    case 5
    then have "nf_ids f' = nf_ids f \<and> nf_authors f' = nf_authors f \<and> nf_kinds f' = nf_kinds f \<and> nf_tags f' = nf_tags f \<and> n' = n"
      using assms(1) False by (auto simp: nf_member_def split: if_splits)
    then show ?thesis using assms(2,3) by (simp add: sets_filled_def num_fields_def)
  qed
qed

lemma nf_fold_fields:
  "rfold (nf_member fh) ms (f, n) = Inr (f', n') \<Longrightarrow> sets_filled f \<Longrightarrow> num_fields f \<le> n \<Longrightarrow> sets_filled f' \<and> num_fields f' \<le> n'"
proof (induction ms arbitrary: f n)
  case (Cons m ms)
  obtain k v where m: "m = (k, v)" by (cases m)
  obtain f1 n1 where 1: "nf_member fh (k, v) (f, n) = Inr (f1, n1)" and r: "rfold (nf_member fh) ms (f1, n1) = Inr (f', n')"
    using Cons.prems(1) by (auto simp: m)
  from nf_member_fields [OF 1 Cons.prems(2,3)] show ?case using Cons.IH [OF r] by simp
qed simp

definition few_kinds :: "NostrFilterGroup \<Rightarrow> bool" where
  "few_kinds g \<longleftrightarrow> (\<forall>f \<in> set (fg_filters g). \<forall>s. nf_kinds f = Some s \<longrightarrow> length (fsu_items s) < 2 ^ 24)"

lemma mkNostrFilter_scannable:
  assumes "mkNostrFilter fh (JObject ms) lim = Inr f" and "distinct (map fst ms)" and "\<not> nf_neverMatch f"
    and "\<And>s. nf_kinds f = Some s \<Longrightarrow> length (fsu_items s) < 2 ^ 24"
  shows "scannable f"
proof -
  from assms(1) obtain g n where g: "rfold (nf_member fh) ms (empty_filter, 0) = Inr (g, n)"
    and f: "f = (if nf_limit g > lim then g\<lparr>nf_limit := lim\<rparr> else g)\<lparr>nf_indexOnlyScans :=
       n \<le> 1 \<or> n = 2 \<and> nf_authors g \<noteq> None \<and> nf_kinds g \<noteq> None\<rparr>"
    by (auto simp: mkNostrFilter_def Let_def split: if_splits)
  have "sets_filled g \<and> num_fields g \<le> n"
    by (rule nf_fold_fields [OF g]) (simp_all add: sets_filled_def num_fields_def empty_filter_def)
  moreover have eq: "nf_ids f = nf_ids g" "nf_authors f = nf_authors g" "nf_kinds f = nf_kinds g" "nf_tags f = nf_tags g"
    by (simp_all add: f)
  ultimately have "sets_filled f" and fields: "num_fields f \<le> n" unfolding sets_filled_def num_fields_def eq by blast+
  have "index_only_ok f" if "nf_indexOnlyScans f"
  proof -
    have "n \<le> 1 \<or> n = 2 \<and> nf_authors f \<noteq> None \<and> nf_kinds f \<noteq> None" using that unfolding eq by (simp add: f)
    then show ?thesis using fields unfolding index_only_ok_def num_fields_def
      by (cases "nf_ids f"; cases "nf_authors f"; cases "nf_kinds f"; cases "nf_tags f") (auto simp flip: length_0_conv)
  qed
  then show ?thesis
    using mkNostrFilter_spec(1) [OF assms(1,2)] assms(3,4) \<open>sets_filled f\<close> wf_fsb_small
    unfolding scannable_def sets_filled_def by blast
qed

lemma fg_fill_scannable:
  assumes "fg_fill fh lim vs fs = Inr gs" and "\<forall>v \<in> set vs. obj_distinct v"
    and "\<forall>f \<in> set gs. \<forall>s. nf_kinds f = Some s \<longrightarrow> length (fsu_items s) < 2 ^ 24" and "\<forall>f \<in> set fs. scannable f"
  shows "(\<forall>f \<in> set gs. scannable f) \<and> set fs \<subseteq> set gs"
  using assms
proof (induction vs arbitrary: fs)
  case (Cons v vs)
  from Cons.prems(1) obtain f where f: "mkNostrFilter fh v lim = Inr f"
    and rest: "fg_fill fh lim vs (if nf_neverMatch f then fs else fs @ [f]) = Inr gs"
    by auto
  have grow: "set xs \<subseteq> set ys" if "fg_fill fh lim vs xs = Inr ys" for vs xs ys
    using that by (induction vs arbitrary: xs) (fastforce split: if_splits)+
  from f obtain ms where v: "v = JObject ms" by (cases v) (auto simp: mkNostrFilter_def)
  have "distinct (map fst ms)" using Cons.prems(2) v by (simp add: obj_distinct_def)
  moreover have "\<not> nf_neverMatch f \<Longrightarrow> f \<in> set gs" using grow [OF rest] by simp
  ultimately have "scannable f" if "\<not> nf_neverMatch f"
    using that mkNostrFilter_scannable [OF f [unfolded v]] Cons.prems(3) by blast
  then have "\<forall>f \<in> set (if nf_neverMatch f then fs else fs @ [f]). scannable f" using Cons.prems(4) by simp
  from Cons.IH [OF rest _ Cons.prems(3) this] show ?case using Cons.prems(2) by (auto split: if_splits)
qed simp

lemma mkNostrFilterGroup_scannable:
  assumes "mkNostrFilterGroup fh (JArray arr) lim = Inr g" and "\<forall>v \<in> set (drop 2 arr). obj_distinct v" and "few_kinds g"
  shows "\<forall>f \<in> set (fg_filters g). scannable f"
proof -
  from assms(1) obtain fs where fs: "fg_fill fh lim (drop 2 arr) [] = Inr fs" and g: "g = \<lparr>fg_filters = fs\<rparr>"
    by (auto simp: mkNostrFilterGroup_def split: if_splits)
  then show ?thesis using fg_fill_scannable [OF fs assms(2)] assms(3) by (simp add: few_kinds_def)
qed

section \<open>Slices of a query\<close>

text \<open>
  How far a scan is from its end.  The second summand counts the rounds in which \<open>lastWorkChecked + 2000\<close>
  has wrapped around, so that the clock is read in every round.
\<close>

definition scan_dist :: "tables \<Rightarrow> bytes list \<Rightarrow> DBScan \<Rightarrow> nat" where
  "scan_dist T ss s = scan_work T ss s * 2001 + (if unat (approxWork s) + 2000 < 2 ^ 64 then 0 else 2 ^ 64 - unat (approxWork s))"

text \<open>
  A query between two calls of \<open>process\<close>: what has been sent is the result for the filters before the
  current one, and what the scan that is under way has found.  The scan is \<open>n\<close> away from its end.
\<close>

definition query_inv :: "tables \<Rightarrow> NostrFilter list \<Rightarrow> Subscription \<Rightarrow> (u64 \<Rightarrow> 's \<Rightarrow> 's) \<Rightarrow> 's \<Rightarrow> nat \<Rightarrow> 's running \<Rightarrow> bool" where
  "query_inv T fs sub g st0 n = (\<lambda>(q, t, st). q_sub q = sub \<and> filterGroupIndex q \<le> length fs \<and>
     (let k = filterGroupIndex q; sent = query_result T (sub_latestEventId sub) (take k fs) in
      case scanner q of
        None \<Rightarrow> sentEventsCurr q = {} \<and> sentEventsFull q = set sent \<and> st = fold g sent st0
      | Some s \<Rightarrow> k < length fs \<and> lastWorkChecked q = approxWork s \<and>
          (\<exists>ss. scan_wf T ss (fs ! k) s \<and> n = scan_dist T ss s \<and> scanning T (fs ! k) sent sub k g st0 (scan_pending T ss s) (q, t, st))))"

definition query_rank :: "NostrFilter list \<Rightarrow> nat \<Rightarrow> 's running \<Rightarrow> nat \<times> nat \<times> nat" where
  "query_rank fs n = (\<lambda>(q, t, st). (length fs - filterGroupIndex q, if scanner q = None then 1 else 0, n))"

abbreviation rank_less :: "((nat \<times> nat \<times> nat) \<times> nat \<times> nat \<times> nat) set" where
  "rank_less \<equiv> less_than <*lex*> less_than <*lex*> less_than"

lemma query_result_Suc:
  "k < length fs \<Longrightarrow> query_result T n (take (Suc k) fs) = send_new (query_result T n (take k fs)) (newest (fs ! k) T n)"
  by (simp add: query_result_def take_Suc_conv_app_nth)

lemma scanning_start:
  assumes "q_sub q = sub" "sentEventsCurr q = {}" "sentEventsFull q = set sent" "st = fold g sent st0" "filterGroupIndex q = k"
    and "set (eligible f T (sub_latestEventId sub)) \<subseteq> P"
  shows "scanning T f sent sub k g st0 P (q, t, st)"
  unfolding scanning_def by (rule exI [of _ 0]) (use assms in \<open>simp add: found_def send_new_def\<close>)

lemma scan_dist_less:
  assumes "scan_work T ss s' < scan_work T ss s \<or> s' = s\<lparr>approxWork := approxWork s + 1\<rparr> \<and> fst (query_pause clock startTime budget (approxWork s + 1) r)"
    and "lastWorkChecked (fst r) = approxWork s"
  shows "scan_dist T ss s' < scan_dist T ss s"
  using assms(1)
proof
  assume "scan_work T ss s' < scan_work T ss s"
  then show ?thesis unfolding scan_dist_def by auto
next
  assume s': "s' = s\<lparr>approxWork := approxWork s + 1\<rparr> \<and> fst (query_pause clock startTime budget (approxWork s + 1) r)"
  let ?w = "approxWork s"
  have "?w + 1 > ?w + 2000" using s' assms(2) by (cases r) (auto simp: query_pause_def split: if_splits)
  then have big: "unat ?w + 2000 \<ge> 2 ^ 64" "unat (?w + 1) = unat ?w + 1"
    by (auto simp: word_less_nat_alt unat_plus_if' split: if_splits)
  have "unat ?w < 2 ^ 64" using unsigned_less [of ?w] by simp
  moreover have "scan_work T ss s' = scan_work T ss s"
    using s' by (simp add: scan_work_def todo_def queued_def undelivered_def)
  ultimately show ?thesis using s' big by (simp add: scan_dist_def)
qed

lemma scanned_next:
  assumes "scanned T (fs ! k) (query_result T n (take k fs)) sub k g st0 (q, t, st)" and "k < length fs" and "n = sub_latestEventId sub"
  shows "query_inv T fs sub g st0 0 (q\<lparr>totalTime := tt, totalWork := tw, scanner := None, filterGroupIndex := filterGroupIndex q + 1,
    sentEventsCurr := {}, currScanTime := 0, currScanSaveRestores := 0\<rparr>, t', st)"
  using assms by (simp add: query_inv_def scanned_def query_result_Suc Let_def)

context golpe_env
begin

text \<open>One round of the loop over the filters.\<close>

lemma query_round:
  assumes T: "wf_store (view txn)" and small: "small_times (view txn)" and fs: "\<forall>f \<in> set fs. scannable f"
    and sub: "fg_filters (sub_filterGroup sub) = fs" and cb: "\<And>l st. cb sub l st = Inr (g l st)"
    and I: "query_inv (view txn) fs sub g st0 n r" and k: "filterGroupIndex (fst r) < length fs"
  shows "\<exists>fl. query_body E clock txn cb budget r = Some fl \<and>
    (case fl of
       Done x \<Rightarrow> \<exists>r' n'. x = Inr (False, r') \<and> budget \<noteq> MAX_U64 \<and> query_inv (view txn) fs sub g st0 n' r' \<and> (query_rank fs n' r', query_rank fs n r) \<in> rank_less
     | Next r' \<Rightarrow> query_inv (view txn) fs sub g st0 0 r' \<and> filterGroupIndex (fst r') = Suc (filterGroupIndex (fst r)))"
proof -
  let ?T = "view txn"
  obtain q t st where r: "r = (q, t, st)" by (cases r)
  define k where "k = filterGroupIndex q"
  define f where "f = fs ! k"
  define sent where "sent = query_result ?T (sub_latestEventId sub) (take k fs)"
  have kl: "k < length fs" and f: "scannable f" using k fs by (simp_all add: r k_def f_def)
  have qs: "q_sub q = sub" using I by (simp add: query_inv_def r)
  have "\<exists>s ss. (case scanner q of Some s \<Rightarrow> Inr s | None \<Rightarrow> mkDBScan E f) = Inr s \<and> scan_wf ?T ss f s \<and>
    scanning ?T f sent sub k g st0 (scan_pending ?T ss s) (q, t + 1, st) \<and>
    (scanner q \<noteq> None \<longrightarrow> n = scan_dist ?T ss s \<and> lastWorkChecked q = approxWork s)"
  proof (cases "scanner q")
    case (Some s)
    then have "\<exists>ss. scan_wf ?T ss f s \<and> n = scan_dist ?T ss s \<and> scanning ?T f sent sub k g st0 (scan_pending ?T ss s) (q, t, st)"
      and "lastWorkChecked q = approxWork s"
      using I by (auto simp: query_inv_def r Let_def k_def f_def sent_def)
    then show ?thesis using Some by (auto simp: scanning_def found_def)
  next
    case None
    obtain s ss where s: "mkDBScan E f = Inr s" "scan_ok ?T ss s" "sc_f s = f"
      "{x \<in> scan_pending ?T ss s. passes ?T f (indexOnly s) x} = matching f ?T"
      "\<forall>x \<in> scan_pending ?T ss s. \<exists>e. (snd x, e) \<in> set (events_of ?T) \<and> ev_created_at e = fst x" by (rule scan_start [OF T small f])
    then have "scan_wf ?T ss f s" by (auto simp: scan_wf_def)
    moreover have "set (eligible f ?T (sub_latestEventId sub)) \<subseteq> scan_pending ?T ss s"
      using s(4) eligible_props(2) [of ?T f "sub_latestEventId sub"] T by auto
    then have "scanning ?T f sent sub k g st0 (scan_pending ?T ss s) (q, t + 1, st)"
      using I None by (intro scanning_start) (simp_all add: query_inv_def r Let_def k_def sent_def)
    ultimately show ?thesis using s(1) None by auto
  qed
  then obtain s ss where sc: "(case scanner q of Some s \<Rightarrow> Inr s | None \<Rightarrow> mkDBScan E f) = Inr s" and wf: "scan_wf ?T ss f s"
    and J: "scanning ?T f sent sub k g st0 (scan_pending ?T ss s) (q, t + 1, st)"
    and N: "scanner q \<noteq> None \<longrightarrow> n = scan_dist ?T ss s \<and> lastWorkChecked q = approxWork s" by blast
  obtain b s' r' where run0: "scan E txn (query_handle cb f) (query_pause clock (clock t) budget) s (q, t + 1, st) = Some (Inr (b, s', r'))"
    and post0: "if b then scanned ?T f sent sub k g st0 r'
     else scan_wf ?T ss f s' \<and> scanning ?T f sent sub k g st0 (scan_pending ?T ss s') r' \<and> lastWorkChecked (fst r') = approxWork s' \<and> budget \<noteq> MAX_U64 \<and>
       (scan_work ?T ss s' < scan_work ?T ss s \<or> s' = s\<lparr>approxWork := approxWork s + 1\<rparr> \<and>
        fst (query_pause clock (clock t) budget (approxWork s + 1) (q, t + 1, st)))"
  proof -
    have "\<exists>b s' r'. scan E txn (query_handle cb f) (query_pause clock (clock t) budget) s (q, t + 1, st) = Some (Inr (b, s', r')) \<and>
      (if b then scanned ?T f sent sub k g st0 r'
       else scan_wf ?T ss f s' \<and> scanning ?T f sent sub k g st0 (scan_pending ?T ss s') r' \<and> lastWorkChecked (fst r') = approxWork s' \<and> budget \<noteq> MAX_U64 \<and>
         (scan_work ?T ss s' < scan_work ?T ss s \<or> s' = s\<lparr>approxWork := approxWork s + 1\<rparr> \<and>
          fst (query_pause clock (clock t) budget (approxWork s + 1) (q, t + 1, st))))"
      by (rule scan_filter [OF T f wf J]) (rule cb)
    then show ?thesis using that by blast
  qed
  obtain q' t' st' where r': "r' = (q', t', st')" by (cases r')
  note run = run0 [unfolded r'] and post = post0 [unfolded r' fst_conv]
  have size: "filterGroupIndex q < fg_size (sub_filterGroup (q_sub q))" using kl qs sub by (simp add: fg_size_def k_def)
  have ff: "fg_filters (sub_filterGroup (q_sub q)) ! filterGroupIndex q = f" by (simp add: qs sub f_def k_def)
  define q1 where "q1 = q'\<lparr>scanner := Some s', currScanTime := currScanTime q' + (clock t' - clock t)\<rparr>"
  define q2 where "q2 = q1\<lparr>currScanSaveRestores := currScanSaveRestores q1 + 1\<rparr>"
  define q3 where "q3 = q1\<lparr>totalTime := totalTime q1 + currScanTime q1, totalWork := totalWork q1 + approxWork s', scanner := None,
    filterGroupIndex := filterGroupIndex q1 + 1, sentEventsCurr := {}, currScanTime := 0, currScanSaveRestores := 0\<rparr>"
  have body: "query_body E clock txn cb budget r = Some (if b then Next (q3, t' + 1, st') else Done (Inr (False, q2, t' + 1, st')))"
    by (simp only: query_body_def r case_prod_conv size if_True ff sc run Let_def option.map sum.case q1_def [symmetric] q2_def q3_def)
      simp
  show ?thesis
  proof (cases b)
    case True
    then have S: "scanned ?T f sent sub k g st0 (q', t', st')" using post by simp
    then have "filterGroupIndex q' = k" by (simp add: scanned_def)
    moreover have "scanned ?T (fs ! k) (query_result ?T (sub_latestEventId sub) (take k fs)) sub k g st0 (q1, t', st')"
      using S by (simp add: scanned_def f_def sent_def q1_def)
    then have "query_inv ?T fs sub g st0 0 (q3, t' + 1, st')" unfolding q3_def by (rule scanned_next [OF _ kl refl])
    moreover from calculation have "filterGroupIndex q3 = Suc (filterGroupIndex (fst r))" by (simp add: q3_def q1_def k_def r)
    ultimately show ?thesis using True unfolding body by simp
  next
    case False
    have S: "scan_wf ?T ss f s'" "scanning ?T f sent sub k g st0 (scan_pending ?T ss s') (q', t', st')" "lastWorkChecked q' = approxWork s'" "budget \<noteq> MAX_U64"
      "scan_work ?T ss s' < scan_work ?T ss s \<or> s' = s\<lparr>approxWork := approxWork s + 1\<rparr> \<and>
        fst (query_pause clock (clock t) budget (approxWork s + 1) (q, t + 1, st))" using post False by auto
    have q': "q_sub q' = sub" "filterGroupIndex q' = k" using S(2) by (auto simp: scanning_def found_def Let_def)
    have "scanning ?T f sent sub k g st0 (scan_pending ?T ss s') (q2, t' + 1, st')"
      using S(2) by (simp add: q2_def q1_def scanning_def found_def)
    then have "query_inv ?T fs sub g st0 (scan_dist ?T ss s') (q2, t' + 1, st')"
      using S q' kl unfolding query_inv_def by (auto simp: q2_def q1_def Let_def f_def sent_def)
    moreover have "(query_rank fs (scan_dist ?T ss s') (q2, t' + 1, st'), query_rank fs n r) \<in> rank_less"
    proof (cases "scanner q = None")
      case True
      then show ?thesis using q' by (simp add: query_rank_def r k_def q2_def q1_def)
    next
      case False
      then have "scan_dist ?T ss s' < n" using scan_dist_less [OF S(5)] N by simp
      then show ?thesis using q' False by (simp add: query_rank_def r k_def q2_def q1_def)
    qed
    ultimately show ?thesis using False S(4) unfolding body by (auto intro!: exI)
  qed
qed

end

lemma send_new_append: "send_new sent (xs @ ys) = send_new sent xs @ filter (\<lambda>l. l \<notin> set sent) ys"
  by (simp add: send_new_def)

lemma query_result_prefix: "\<exists>rest. query_result T n fs = query_result T n (take k fs) @ rest"
proof -
  have "\<exists>rest. foldl (\<lambda>sent f. send_new sent (newest f T n)) sent gs = sent @ rest" for sent gs
    by (induction gs arbitrary: sent) (auto simp: send_new_def, metis append.assoc)
  then show ?thesis unfolding query_result_def
    by (subst append_take_drop_id [of k fs, symmetric]) (simp only: foldl_append)
qed

text \<open>What a query has sent is an initial part of its result.\<close>

lemma query_inv_prefix:
  assumes "query_inv T fs sub g st0 n (q, t, st)"
  shows "\<exists>sent rest. st = fold g sent st0 \<and> query_result T (sub_latestEventId sub) fs = sent @ rest"
proof -
  let ?k = "filterGroupIndex q" and ?n = "sub_latestEventId sub"
  let ?sent = "query_result T ?n (take ?k fs)"
  show ?thesis
  proof (cases "scanner q")
    case None
    then have "st = fold g ?sent st0" using assms by (simp add: query_inv_def Let_def)
    then show ?thesis using query_result_prefix by blast
  next
    case (Some s)
    then obtain ss where k: "?k < length fs" and S: "scanning T (fs ! ?k) ?sent sub ?k g st0 (scan_pending T ss s) (q, t, st)"
      using assms by (auto simp: query_inv_def Let_def)
    let ?D = "eligible (fs ! ?k) T ?n" and ?lim = "unat (nf_limit (fs ! ?k))"
    from S obtain j where st: "st = fold g (send_new ?sent (map snd (take j ?D))) st0" and j: "j < ?lim \<or> j = 0"
      by (auto simp: scanning_def found_def Let_def)
    have "take ?lim ?D = take j ?D @ take (?lim - j) (drop j ?D)"
      using j take_add [of j "?lim - j" ?D] by auto
    then have "\<exists>r. query_result T ?n (take (Suc ?k) fs) = send_new ?sent (map snd (take j ?D)) @ r"
      by (simp add: query_result_Suc [OF k] newest_def send_new_append)
    then show ?thesis using st query_result_prefix [of T ?n fs "Suc ?k"] by (metis append.assoc)
  qed
qed

context golpe_env
begin

lemma query_slice_full:
  assumes T: "wf_store (view txn)" and small: "small_times (view txn)" and fs: "\<forall>f \<in> set fs. scannable f"
    and sub: "fg_filters (sub_filterGroup sub) = fs" and cb: "\<And>l st. cb sub l st = Inr (g l st)"
    and I: "query_inv (view txn) fs sub g st0 n r"
  shows "\<exists>b r'. query_process E clock txn cb budget r = Some (Inr (b, r')) \<and>
    (if b then snd (snd r') = fold g (query_result (view txn) (sub_latestEventId sub) fs) st0 \<and>
       sentEventsFull (fst r') = set (query_result (view txn) (sub_latestEventId sub) fs)
     else budget \<noteq> MAX_U64 \<and> (\<exists>n'. query_inv (view txn) fs sub g st0 n' r' \<and> (query_rank fs n' r', query_rank fs n r) \<in> rank_less))"
proof -
  let ?T = "view txn"
  let ?res = "fold g (query_result ?T (sub_latestEventId sub) fs) st0"
  let ?J = "\<lambda>r'. \<exists>n'. query_inv ?T fs sub g st0 n' r' \<and> (query_rank fs n' r', query_rank fs n r) \<in> rank_less\<^sup>="
  let ?Q = "\<lambda>x. \<exists>b r'. x = Inr (b, r') \<and> (if b then snd (snd r') = ?res \<and> sentEventsFull (fst r') = set (query_result ?T (sub_latestEventId sub) fs)
     else budget \<noteq> MAX_U64 \<and> (\<exists>n'. query_inv ?T fs sub g st0 n' r' \<and> (query_rank fs n' r', query_rank fs n r) \<in> rank_less))"
  have trans: "trans rank_less" by (intro trans_lex_prod) (simp_all add: trans_less_than)
  have le: "(x, z) \<in> rank_less" if "(x, y) \<in> rank_less" "(y, z) \<in> rank_less\<^sup>=" for x y z
    using that transD [OF trans] by blast
  have "\<exists>x. while_flow (query_body E clock txn cb budget) r = Some x \<and> ?Q x"
  proof (rule while_flow_rule [where I = ?J and m = "\<lambda>r'. length fs - filterGroupIndex (fst r')"])
    show "?J r" using I by blast
  next
    fix r1 assume "?J r1"
    then obtain n1 where I1: "query_inv ?T fs sub g st0 n1 r1" and R: "(query_rank fs n1 r1, query_rank fs n r) \<in> rank_less\<^sup>=" by blast
    obtain q t st where r1: "r1 = (q, t, st)" by (cases r1)
    show "\<exists>fl. query_body E clock txn cb budget r1 = Some fl \<and>
      (case fl of Done x \<Rightarrow> ?Q x | Next r' \<Rightarrow> ?J r' \<and> length fs - filterGroupIndex (fst r') < length fs - filterGroupIndex (fst r1))"
    proof (cases "filterGroupIndex q < length fs")
      case False
      then have fin: "query_body E clock txn cb budget r1 = Some (Done (Inr (True, r1)))"
        using I1 sub by (auto simp: query_body_def r1 query_inv_def fg_size_def)
      have "filterGroupIndex q = length fs" "scanner q = None" using I1 False
        by (auto simp: r1 query_inv_def Let_def split: option.splits)
      then have "st = ?res" "sentEventsFull q = set (query_result ?T (sub_latestEventId sub) fs)"
        using I1 by (simp_all add: r1 query_inv_def Let_def)
      then show ?thesis using fin by (simp add: ex_bool_eq r1)
    next
      case True
      then have "filterGroupIndex (fst r1) < length fs" by (simp add: r1)
      from query_round [where cb = cb and g = g, OF T small fs sub _ I1 this] cb obtain fl where
        fl: "query_body E clock txn cb budget r1 = Some fl"
        "case fl of
           Done x \<Rightarrow> \<exists>r' n'. x = Inr (False, r') \<and> budget \<noteq> MAX_U64 \<and> query_inv ?T fs sub g st0 n' r' \<and> (query_rank fs n' r', query_rank fs n1 r1) \<in> rank_less
         | Next r' \<Rightarrow> query_inv ?T fs sub g st0 0 r' \<and> filterGroupIndex (fst r') = Suc (filterGroupIndex (fst r1))" by blast
      show ?thesis
      proof (cases fl)
        case (Next r')
        then have r': "query_inv ?T fs sub g st0 0 r'" "filterGroupIndex (fst r') = Suc (filterGroupIndex q)" using fl(2) by (simp_all add: r1)
        then have "(query_rank fs 0 r', query_rank fs n1 r1) \<in> rank_less" using True diff_less_mono2 [of "filterGroupIndex q" "Suc (filterGroupIndex q)" "length fs"]
          by (cases r') (simp add: query_rank_def r1)
        then have "(query_rank fs 0 r', query_rank fs n r) \<in> rank_less\<^sup>=" using le [OF _ R] by blast
        then show ?thesis using fl(1) Next r' True by (auto simp: r1)
      next
        case (Done x)
        then obtain r' n' where x: "x = Inr (False, r')" "budget \<noteq> MAX_U64" "query_inv ?T fs sub g st0 n' r'"
          "(query_rank fs n' r', query_rank fs n1 r1) \<in> rank_less" using fl(2) by auto
        then have "?Q x" using le [OF x(4) R] by (intro exI [of _ False] exI [of _ r']) auto
        then show ?thesis using fl(1) Done by simp
      qed
    qed
  qed
  then show ?thesis unfolding query_process_def by blast
qed

lemma query_slice:
  assumes T: "wf_store (view txn)" and small: "small_times (view txn)" and fs: "\<forall>f \<in> set fs. scannable f"
    and sub: "fg_filters (sub_filterGroup sub) = fs" and cb: "\<And>l st. cb sub l st = Inr (g l st)"
    and I: "query_inv (view txn) fs sub g st0 n r"
  shows "\<exists>b r'. query_process E clock txn cb budget r = Some (Inr (b, r')) \<and>
    (if b then snd (snd r') = fold g (query_result (view txn) (sub_latestEventId sub) fs) st0
     else budget \<noteq> MAX_U64 \<and> (\<exists>n'. query_inv (view txn) fs sub g st0 n' r' \<and> (query_rank fs n' r', query_rank fs n r) \<in> rank_less))"
  using query_slice_full [where cb = cb and g = g and clock = clock and budget = budget, OF T small fs sub _ I] cb
  by (metis (no_types, lifting))

lemma query_start: "query_inv T fs sub g st0 0 (mkDBQuery sub, t, st0)"
  by (simp add: query_inv_def mkDBQuery_def query_result_def)

end

text \<open>Several calls of \<open>process\<close>, one after the other, until one of them completes the query.\<close>

fun query_slices ::
  "'t env \<Rightarrow> (nat \<Rightarrow> u64) \<Rightarrow> 't \<Rightarrow> (Subscription \<Rightarrow> u64 \<Rightarrow> 's \<Rightarrow> 's result) \<Rightarrow> u64 \<Rightarrow> nat \<Rightarrow>
   's running \<Rightarrow> (bool \<times> 's running) result option" where
  "query_slices E clock txn cb budget 0 r = Some (Inr (False, r))"
| "query_slices E clock txn cb budget (Suc n) r =
     (case query_process E clock txn cb budget r of
        Some (Inr (False, r')) \<Rightarrow> query_slices E clock txn cb budget n r'
      | x \<Rightarrow> x)"

context golpe_env
begin

lemma query_slices_safe:
  assumes T: "wf_store (view txn)" and small: "small_times (view txn)" and fs: "\<forall>f \<in> set fs. scannable f"
    and sub: "fg_filters (sub_filterGroup sub) = fs" and cb: "\<And>l st. cb sub l st = Inr (g l st)"
  shows "query_inv (view txn) fs sub g st0 k r \<Longrightarrow> \<exists>b r'. query_slices E clock txn cb budget n r = Some (Inr (b, r')) \<and>
    (if b then snd (snd r') = fold g (query_result (view txn) (sub_latestEventId sub) fs) st0 else \<exists>k. query_inv (view txn) fs sub g st0 k r')"
proof (induction n arbitrary: r k)
  case 0
  then show ?case by (auto simp: ex_bool_eq)
next
  case (Suc n)
  obtain b r' where r': "query_process E clock txn cb budget r = Some (Inr (b, r'))"
    "if b then snd (snd r') = fold g (query_result (view txn) (sub_latestEventId sub) fs) st0
     else \<exists>k. query_inv (view txn) fs sub g st0 k r'"
    using query_slice [where cb = cb and g = g and clock = clock and budget = budget, OF T small fs sub _ Suc.prems] cb by (metis (full_types))
  show ?case
  proof (cases b)
    case True
    then show ?thesis using r' by (simp add: ex_bool_eq)
  next
    case False
    then obtain k' where "query_inv (view txn) fs sub g st0 k' r'" using r'(2) by auto
    from Suc.IH [OF this] show ?thesis using r'(1) False by simp
  qed
qed

lemma query_slices_live:
  assumes T: "wf_store (view txn)" and small: "small_times (view txn)" and fs: "\<forall>f \<in> set fs. scannable f"
    and sub: "fg_filters (sub_filterGroup sub) = fs" and cb: "\<And>l st. cb sub l st = Inr (g l st)"
  shows "query_inv (view txn) fs sub g st0 k r \<Longrightarrow> \<exists>n r'. query_slices E clock txn cb budget n r = Some (Inr (True, r'))"
proof (induction "query_rank fs k r" arbitrary: r k rule: wf_induct_rule [OF wf_lex_prod [OF wf_less_than wf_lex_prod [OF wf_less_than wf_less_than]]])
  case less: (1 r k)
  obtain b r' where r': "query_process E clock txn cb budget r = Some (Inr (b, r'))"
    "\<not> b \<Longrightarrow> \<exists>k'. query_inv (view txn) fs sub g st0 k' r' \<and> (query_rank fs k' r', query_rank fs k r) \<in> rank_less"
    using query_slice [where cb = cb and g = g and clock = clock and budget = budget, OF T small fs sub _ less.prems] cb by (metis (full_types))
  show ?case
  proof (cases b)
    case True
    then show ?thesis using r'(1) by (intro exI [of _ 1] exI [of _ r']) simp
  next
    case False
    then obtain n r2 where "query_slices E clock txn cb budget n r' = Some (Inr (True, r2))" using r'(2) less.hyps by blast
    then show ?thesis using r'(1) False by (intro exI [of _ "Suc n"] exI [of _ r2]) simp
  qed
qed

end

text \<open>The result of a query, as a set: the events that some filter matches, if no limit cuts it off.\<close>

lemma query_result_set:
  assumes T: "tables_ok T" and lim: "\<forall>f \<in> set fs. length (events_of T) \<le> unat (nf_limit f)"
  shows "distinct (query_result T n fs) \<and>
    set (query_result T n fs) = {l. \<exists>e. (l, e) \<in> set (events_of T) \<and> l \<le> n \<and> (\<exists>f \<in> set fs. matches f e)}"
  using lim
proof (induction fs rule: rev_induct)
  case Nil
  then show ?case by (simp add: query_result_def)
next
  case (snoc f fs)
  note D = eligible_props [OF T, of f n]
  have "card (set (eligible f T n)) \<le> card ((\<lambda>(l, e). (ev_created_at e, l)) ` set (events_of T))"
    by (rule card_mono) (auto simp: D(2) matching_def image_iff)
  also have "\<dots> \<le> length (events_of T)" by (meson card_image_le card_length finite_set order_trans)
  also have "\<dots> \<le> unat (nf_limit f)" using snoc.prems by simp
  finally have "length (eligible f T n) \<le> unat (nf_limit f)"
    using D(3) by (simp add: distinct_card [symmetric] distinct_map)
  then have new: "newest f T n = map snd (eligible f T n)" by (simp add: newest_def)
  have "set (newest f T n) = {l. \<exists>e. (l, e) \<in> set (events_of T) \<and> l \<le> n \<and> matches f e}"
    unfolding new set_map D(2) by (force simp: matching_def)
  moreover have "distinct (newest f T n)" unfolding new by (rule D(3))
  moreover have "query_result T n (fs @ [f]) = send_new (query_result T n fs) (newest f T n)" by (simp add: query_result_def)
  ultimately show ?case using snoc.IH snoc.prems by (auto simp: send_new_def)
qed

lemma fold_snoc: "fold (\<lambda>l acc. acc @ [l]) ls xs = xs @ ls"
  by (induction ls arbitrary: xs) simp_all

definition filter_values :: "json \<Rightarrow> json list" where
  "filter_values v = (case v of JArray vs \<Rightarrow> vs | _ \<Rightarrow> [v])"

lemma fg_unwrapped_eq: "fg_unwrapped fh v lim = mkNostrFilterGroup fh (JArray ([JString ''REQ'', JString ''junkSub''] @ filter_values v)) lim"
  by (cases v) (simp_all add: fg_unwrapped_def filter_values_def)

lemma dot_subId: "\<exists>sid. mkSubId ''.'' = Inr sid"
  by (simp add: mkSubId_def MAX_SUBID_SIZE_def badChar_def signed_char_def)

text \<open>The query of a command: its filters come from a JSON value and it sees every stored event.\<close>

lemma unwrapped_scannable:
  assumes "fg_unwrapped fh filter0 MAX_U64 = Inr g" and "\<forall>v \<in> set (filter_values filter0). obj_distinct v" and "few_kinds g"
  obtains sub where "mkDBQuery_filter fh filter0 MAX_U64 = Inr (mkDBQuery sub)" "sub_filterGroup sub = g" "sub_latestEventId sub = MAX_U64"
    "\<forall>f \<in> set (fg_filters g). scannable f" "\<forall>e. (\<exists>f \<in> set (fg_filters g). matches f e) \<longleftrightarrow> some_json_matches fh (filter_values filter0) e"
proof -
  let ?arr = "[JString ''REQ'', JString ''junkSub''] @ filter_values filter0"
  have mk: "mkNostrFilterGroup fh (JArray ?arr) MAX_U64 = Inr g" using assms(1) by (simp only: fg_unwrapped_eq)
  have obj: "\<forall>v \<in> set (drop 2 ?arr). obj_distinct v" using assms(2) by simp
  obtain sid where sid: "mkSubId ''.'' = Inr sid" using dot_subId by blast
  define sub where "sub = \<lparr>sub_connId = 1, sub_subId = sid, sub_filterGroup = g, sub_countOnly = False, sub_latestEventId = MAX_U64\<rparr>"
  have q: "mkDBQuery_filter fh filter0 MAX_U64 = Inr (mkDBQuery sub)"
    by (simp add: mkDBQuery_filter_def assms(1) mkSubscription_def sid sub_def)
  show thesis
    by (rule that [OF q]) (use mkNostrFilterGroup_scannable [OF mk obj assms(3)] mkNostrFilterGroup_spec(3) [OF mk obj] in \<open>simp_all add: sub_def\<close>)
qed

lemma unwrapped_query:
  assumes "wf_store T" and "fg_unwrapped fh filter0 MAX_U64 = Inr g" and "\<forall>v \<in> set (filter_values filter0). obj_distinct v"
    and "few_kinds g" and "\<forall>f \<in> set (fg_filters g). length (events_of T) \<le> unat (nf_limit f)"
  obtains sub ls where "mkDBQuery_filter fh filter0 MAX_U64 = Inr (mkDBQuery sub)"
    "\<forall>f \<in> set (fg_filters (sub_filterGroup sub)). scannable f"
    "query_result T (sub_latestEventId sub) (fg_filters (sub_filterGroup sub)) = ls" "distinct ls"
    "set ls = {l. \<exists>e. (l, e) \<in> set (events_of T) \<and> some_json_matches fh (filter_values filter0) e}"
proof -
  obtain sub where s: "mkDBQuery_filter fh filter0 MAX_U64 = Inr (mkDBQuery sub)" "sub_filterGroup sub = g" "sub_latestEventId sub = MAX_U64"
    "\<forall>f \<in> set (fg_filters g). scannable f" "\<forall>e. (\<exists>f \<in> set (fg_filters g). matches f e) \<longleftrightarrow> some_json_matches fh (filter_values filter0) e"
    by (rule unwrapped_scannable [OF assms(2-4)])
  have tab: "tables_ok T" using assms(1) by simp
  show thesis
    by (rule that [OF s(1) _ refl]) (use s query_result_set [OF tab assms(5), of MAX_U64] in simp_all)
qed

section \<open>Properties\<close>

text \<open>C8: However a query is cut into time slices, no slice throws or runs forever, and what has been sent is
  always an initial part of the list the request asks for: for each filter in order the newest events up to its
  limit, newest first, each event once.  When a slice reports completion, the whole list has been sent.\<close>

theorem query_slices_exact:
  assumes "golpe_env E view" and "wf_store (view txn)" and "small_times (view txn)"
    and "mkNostrFilterGroup fh (JArray arr) lim = Inr (sub_filterGroup sub)" and "\<forall>v \<in> set (drop 2 arr). obj_distinct v"
    and "few_kinds (sub_filterGroup sub)" and "\<forall>l st. cb sub l st = Inr (g l st)"
  shows "\<exists>b q t sent rest. query_slices E clock txn cb budget n (mkDBQuery sub, t0, st0) = Some (Inr (b, q, t, fold g sent st0)) \<and>
    query_result (view txn) (sub_latestEventId sub) (fg_filters (sub_filterGroup sub)) = sent @ rest \<and> (b \<longrightarrow> rest = [])"
proof -
  let ?fs = "fg_filters (sub_filterGroup sub)" and ?T = "view txn"
  have fs: "\<forall>f \<in> set ?fs. scannable f" by (rule mkNostrFilterGroup_scannable [OF assms(4-6)])
  have I: "query_inv ?T ?fs sub g st0 0 (mkDBQuery sub, t0, st0)" by (rule golpe_env.query_start [OF assms(1)])
  have "\<exists>b r'. query_slices E clock txn cb budget n (mkDBQuery sub, t0, st0) = Some (Inr (b, r')) \<and>
    (if b then snd (snd r') = fold g (query_result ?T (sub_latestEventId sub) ?fs) st0 else \<exists>k. query_inv ?T ?fs sub g st0 k r')"
    by (rule golpe_env.query_slices_safe [OF assms(1-3) fs refl _ I]) (use assms(7) in blast)
  then obtain b q t st where r: "query_slices E clock txn cb budget n (mkDBQuery sub, t0, st0) = Some (Inr (b, q, t, st))"
    and post: "if b then st = fold g (query_result ?T (sub_latestEventId sub) ?fs) st0 else \<exists>k. query_inv ?T ?fs sub g st0 k (q, t, st)"
    by (metis prod.collapse snd_conv)
  show ?thesis
  proof (cases b)
    case True
    then show ?thesis using r post by auto
  next
    case False
    then show ?thesis using r post query_inv_prefix [of ?T ?fs sub g st0 _ q t st] by auto
  qed
qed

text \<open>C9: Whatever the clock says and however small the time budget is, finitely many slices complete a query,
  and then exactly the result has been sent: a slice that is interrupted has made progress.\<close>

theorem query_completes:
  assumes "golpe_env E view" and "wf_store (view txn)" and "small_times (view txn)"
    and "mkNostrFilterGroup fh (JArray arr) lim = Inr (sub_filterGroup sub)" and "\<forall>v \<in> set (drop 2 arr). obj_distinct v"
    and "few_kinds (sub_filterGroup sub)" and "\<forall>l st. cb sub l st = Inr (g l st)"
  shows "\<exists>n q t. query_slices E clock txn cb budget n (mkDBQuery sub, t0, st0) =
    Some (Inr (True, q, t, fold g (query_result (view txn) (sub_latestEventId sub) (fg_filters (sub_filterGroup sub))) st0))"
proof -
  let ?fs = "fg_filters (sub_filterGroup sub)" and ?T = "view txn"
  have fs: "\<forall>f \<in> set ?fs. scannable f" by (rule mkNostrFilterGroup_scannable [OF assms(4-6)])
  have I: "query_inv ?T ?fs sub g st0 0 (mkDBQuery sub, t0, st0)" by (rule golpe_env.query_start [OF assms(1)])
  have "\<exists>n r'. query_slices E clock txn cb budget n (mkDBQuery sub, t0, st0) = Some (Inr (True, r'))"
    by (rule golpe_env.query_slices_live [OF assms(1-3) fs refl _ I]) (use assms(7) in blast)
  then obtain n r' where r: "query_slices E clock txn cb budget n (mkDBQuery sub, t0, st0) = Some (Inr (True, r'))" by blast
  have "\<exists>b r'. query_slices E clock txn cb budget n (mkDBQuery sub, t0, st0) = Some (Inr (b, r')) \<and>
    (if b then snd (snd r') = fold g (query_result ?T (sub_latestEventId sub) ?fs) st0 else \<exists>k. query_inv ?T ?fs sub g st0 k r')"
    by (rule golpe_env.query_slices_safe [OF assms(1-3) fs refl _ I]) (use assms(7) in blast)
  then have "snd (snd r') = fold g (query_result ?T (sub_latestEventId sub) ?fs) st0" using r by auto
  then show ?thesis using r by (cases r') auto
qed

text \<open>C32: \<open>foreachByFilter\<close>, on which the commands rest, always ends, and calls back exactly once for every
  stored event that one of the filters of the JSON value matches, if no limit of a filter is below the number of stored events.\<close>

theorem foreachByFilter_finds_all:
  assumes "golpe_env E view" and "wf_store (view txn)" and "small_times (view txn)"
    and "fg_unwrapped fh filter0 MAX_U64 = Inr g" and "\<forall>v \<in> set (filter_values filter0). obj_distinct v" and "few_kinds g"
    and "\<forall>f \<in> set (fg_filters g). length (events_of (view txn)) \<le> unat (nf_limit f)"
  shows "\<exists>ls. foreachByFilter E fh clock txn filter0 (\<lambda>l acc. Inr (acc @ [l])) [] = Some (Inr ls) \<and> distinct ls \<and>
    set ls = {l. \<exists>e. (l, e) \<in> set (events_of (view txn)) \<and> some_json_matches fh (filter_values filter0) e}"
proof -
  obtain sub ls where q: "mkDBQuery_filter fh filter0 MAX_U64 = Inr (mkDBQuery sub)"
    "\<forall>f \<in> set (fg_filters (sub_filterGroup sub)). scannable f"
    "query_result (view txn) (sub_latestEventId sub) (fg_filters (sub_filterGroup sub)) = ls" "distinct ls"
    "set ls = {l. \<exists>e. (l, e) \<in> set (events_of (view txn)) \<and> some_json_matches fh (filter_values filter0) e}"
    by (rule unwrapped_query [OF assms(2,4-7)])
  have I: "query_inv (view txn) (fg_filters (sub_filterGroup sub)) sub (\<lambda>l acc. acc @ [l]) [] 0 (mkDBQuery sub, 0, [])"
    by (rule golpe_env.query_start [OF assms(1)])
  obtain b r' where r': "query_process E clock txn (\<lambda>_ l acc. Inr (acc @ [l])) MAX_U64 (mkDBQuery sub, 0, []) = Some (Inr (b, r'))"
    "if b then snd (snd r') = fold (\<lambda>l acc. acc @ [l]) ls [] else MAX_U64 \<noteq> MAX_U64"
    using golpe_env.query_slice [where clock = clock and budget = MAX_U64, OF assms(1-3) q(2) refl _ I, of "\<lambda>_ l acc. Inr (acc @ [l])"]
    unfolding q(3) by (metis (full_types))
  then have "foreachByFilter E fh clock txn filter0 (\<lambda>l acc. Inr (acc @ [l])) [] = Some (Inr ls)"
    by (cases r') (auto simp: foreachByFilter_def q(1) fold_snoc split: if_splits)
  then show ?thesis using q(4,5) by blast
qed

text \<open>A candidate keeps its time and the number of its cursor in one word without loss exactly when the
  time is below \<open>2\<^sup>4\<^sup>0\<close>.\<close>

theorem candidate_packing:
  assumes "scanIndex < 2 ^ 24"
  shows "ce_created (mkCandidateEvent levId created scanIndex) = created \<and> ce_scanIndex (mkCandidateEvent levId created scanIndex) = scanIndex
    \<longleftrightarrow> created < 2 ^ 40"
proof
  assume "ce_created (mkCandidateEvent levId created scanIndex) = created \<and> ce_scanIndex (mkCandidateEvent levId created scanIndex) = scanIndex"
  then have "created = (push_bit 40 scanIndex OR created) AND mask 40"
    by (simp add: ce_created_def mkCandidateEvent_def mask_numeral)
  then have "unat created = take_bit 40 (unat (push_bit 40 scanIndex OR created))" by (metis take_bit_eq_mask unsigned_take_bit_eq)
  also have "\<dots> < 2 ^ 40" by (rule take_bit_nat_less_exp)
  finally show "created < 2 ^ 40" by (simp add: word_less_nat_alt)
next
  assume "created < 2 ^ 40"
  then show "ce_created (mkCandidateEvent levId created scanIndex) = created \<and> ce_scanIndex (mkCandidateEvent levId created scanIndex) = scanIndex"
    using assms ce_fields [of created scanIndex levId] by simp
qed

text \<open>C33: Beyond that time a candidate names another cursor than the one that found it: with one cursor, as in the
  scan by time, the refill looks for a cursor that is not there.\<close>

theorem far_future_scan_error:
  assumes "2 ^ 40 \<le> created" and "length (cursors s) = 1"
  shows "scan_refill E txn (mkCandidateEvent levId created 0) s = Some (Inl OutOfRange)"
proof -
  have "drop_bit 40 created \<noteq> 0"
    using assms(1) by (auto simp: drop_bit_eq_div word_le_nat_alt div_eq_0_iff unat_div word_unat_eq_iff)
  then have "1 \<le> unat (drop_bit 40 created)" by (simp add: Suc_le_eq unat_gt_0)
  then show ?thesis using assms(2) by (simp add: scan_refill_def ce_scanIndex_def mkCandidateEvent_def)
qed

section \<open>Witnesses\<close>

definition sample_store :: tables where
  "sample_store = \<lparr>t_events = [(3, pack sample_event)], t_payload = Map.empty, t_meta = None, t_negFilters = [], t_trees = (\<lambda>_. {})\<rparr>"

definition sample_query :: Subscription where
  "sample_query = \<lparr>sub_connId = 1, sub_subId = SubId [CHR 0x01, CHR ''s''],
     sub_filterGroup = \<lparr>fg_filters = [empty_filter\<lparr>nf_limit := 500, nf_indexOnlyScans := True\<rparr>]\<rparr>, sub_countOnly = False, sub_latestEventId = 10\<rparr>"

lemma sample_store_ok: "events_of sample_store = [(3, sample_event)]" "wf_store sample_store" "small_times sample_store"
proof -
  show ev: "events_of sample_store = [(3, sample_event)]" by (simp add: events_of_def sample_store_def)
  show "wf_store sample_store" by (simp add: wf_store_def tables_ok_def sample_store_def wf_packed_pack)
  show "small_times sample_store" unfolding small_times_def ev by (simp add: sample_event_def)
qed

lemma sample_query_ok:
  "mkNostrFilterGroup Inr (JArray [JString ''REQ'', JString ''s'', JObject []]) 500 = Inr (sub_filterGroup sample_query)"
  "\<forall>v \<in> set (drop 2 [JString ''REQ'', JString ''s'', JObject []]). obj_distinct v" "few_kinds (sub_filterGroup sample_query)"
  by (simp_all add: mkNostrFilterGroup_def mkNostrFilter_def empty_filter_def sample_query_def obj_distinct_def few_kinds_def Let_def)

lemma sample_query_result:
  "query_result sample_store (sub_latestEventId sample_query) (fg_filters (sub_filterGroup sample_query)) = [3]"
proof -
  have "matching (empty_filter\<lparr>nf_limit := 500, nf_indexOnlyScans := True\<rparr>) sample_store = {(1000, 3)}"
    by (auto simp: matching_def sample_store_ok matches_def empty_filter_def sample_event_def)
  then show ?thesis
    by (simp add: query_result_def sample_query_def newest_def eligible_def send_new_def desc_list_def)
qed

lemma mem_golpe: "golpe_env mem_env (\<lambda>T. T)"
  by (rule mem.golpe_env_axioms)

theorem query_slices_exact_witness:
  "\<exists>b q t sent rest. query_slices mem_env (\<lambda>_. 0) sample_store (\<lambda>_ l acc. Inr (acc @ [l])) 10 5 (mkDBQuery sample_query, 0, []) =
    Some (Inr (b, q, t, sent)) \<and> [3] = sent @ rest \<and> (b \<longrightarrow> rest = [])"
proof -
  note * = query_slices_exact [where cb = "\<lambda>_ l acc. Inr (acc @ [l])" and g = "\<lambda>l acc. acc @ [l]",
      OF mem_golpe sample_store_ok(2,3) sample_query_ok]
  show ?thesis using * [of "\<lambda>_. 0" 10 5 0 "[]"] by (simp add: sample_query_result fold_snoc)
qed

theorem query_completes_witness:
  "\<exists>n q t. query_slices mem_env (\<lambda>_. 0) sample_store (\<lambda>_ l acc. Inr (acc @ [l])) 0 n (mkDBQuery sample_query, 0, []) = Some (Inr (True, q, t, [3]))"
proof -
  note * = query_completes [where cb = "\<lambda>_ l acc. Inr (acc @ [l])" and g = "\<lambda>l acc. acc @ [l]",
      OF mem_golpe sample_store_ok(2,3) sample_query_ok]
  show ?thesis using * [of "\<lambda>_. 0" 0 0 "[]"] by (simp add: sample_query_result fold_snoc)
qed

theorem foreachByFilter_finds_all_witness:
  "foreachByFilter mem_env Inr (\<lambda>_. 0) sample_store (JObject []) (\<lambda>l acc. Inr (acc @ [l])) [] = Some (Inr [3])"
proof -
  have g: "fg_unwrapped Inr (JObject []) MAX_U64 = Inr \<lparr>fg_filters = [empty_filter\<lparr>nf_indexOnlyScans := True\<rparr>]\<rparr>"
    by (simp add: fg_unwrapped_def mkNostrFilterGroup_def mkNostrFilter_def empty_filter_def Let_def)
  have "Suc 0 \<le> unat MAX_U64" by (simp add: Suc_le_eq unat_gt_0)
  then obtain ls where ls: "foreachByFilter mem_env Inr (\<lambda>_. 0) sample_store (JObject []) (\<lambda>l acc. Inr (acc @ [l])) [] = Some (Inr ls)"
    "distinct ls" "set ls = {l. \<exists>e. (l, e) \<in> set (events_of sample_store) \<and> some_json_matches Inr (filter_values (JObject [])) e}"
    using foreachByFilter_finds_all [OF mem_golpe sample_store_ok(2,3) g, of "\<lambda>_. 0"]
    by (auto simp: filter_values_def obj_distinct_def few_kinds_def empty_filter_def sample_store_ok)
  have "set ls = {3}" unfolding ls(3)
    by (auto simp: sample_store_ok filter_values_def some_json_matches_def json_matches_def)
  then have "ls = [3]" using ls(2) distinct_card [of ls] by (cases ls; cases "tl ls") auto
  then show ?thesis using ls(1) by simp
qed

theorem candidate_packing_witness:
  "ce_scanIndex (mkCandidateEvent 7 1700000000 3) = 3 \<and> ce_created (mkCandidateEvent 7 1700000000 3) = 1700000000"
  using candidate_packing [of 3 7 1700000000] by simp

theorem far_future_scan_error_witness:
  "scan_refill mem_env sample_store (mkCandidateEvent 7 (2 ^ 40) 0)
     \<lparr>sc_f = empty_filter, indexOnly = True, indexDbi = Event_created_at, desc = ''CreatedAt'', cursors = [mkCursor [] (\<lambda>_. Yes)],
      eventQueue = [], initialScanDepth = 50, refillScanDepth = 500, nextInitIndex = 1, approxWork = 0\<rparr> = Some (Inl OutOfRange)"
  by (rule far_future_scan_error) simp_all

end
