(* ===== verification/ActiveMonitors.thy ===== *)
theory ActiveMonitors
  imports Subscription Store Config
begin

text \<open>
  \<open>src/ActiveMonitors.h\<close>: the live subscriptions and the tables that find, for a new event, the
  filters it may match.  A \<open>Monitor *\<close> is the connection and the subscription id under which the
  monitor is stored, a \<open>NostrFilter *\<close> that and the position in the filter group; following a
  pointer is a lookup, and a dangling one is an error.  A hash map whose order is left open is a
  list of pairs with distinct keys, a \<open>btree_map\<close> a list of pairs sorted by the key.
\<close>

section \<open>State\<close>

type_synonym mptr = "u64 \<times> SubId"
type_synonym fptr = "u64 \<times> SubId \<times> nat"

record MonitorItem =
  mi_mon :: mptr
  mi_latestEventId :: u64

type_synonym MonitorSet = "(fptr \<times> MonitorItem) list"
type_synonym 'k btree = "('k \<times> MonitorSet) list"
type_synonym ConnMonitor = "(SubId \<times> Subscription) list"
type_synonym conn_map = "u64 \<Rightarrow> ConnMonitor option"
type_synonym RecipientList = "(u64 \<times> SubId) list"

record ActiveMonitors =
  ephemeralTracker :: "EphemeralSubTracker option"
  am_conns :: conn_map
  allIds :: "Bytes32 btree"
  allAuthors :: "Bytes32 btree"
  allTags :: "string btree"
  allKinds :: "u64 btree"
  allOthers :: MonitorSet

definition new_ActiveMonitors :: "EphemeralSubTracker option \<Rightarrow> ActiveMonitors" where
  "new_ActiveMonitors t = \<lparr>ephemeralTracker = t, am_conns = Map.empty, allIds = [], allAuthors = [], allTags = [],
     allKinds = [], allOthers = []\<rparr>"

definition getTagSpec :: "char \<Rightarrow> bytes \<Rightarrow> string" where
  "getTagSpec k val = k # val"

section \<open>The tables\<close>

text \<open>The operations of the containers that the code uses.\<close>

definition ms_try_emplace :: "fptr \<Rightarrow> MonitorItem \<Rightarrow> MonitorSet \<Rightarrow> MonitorSet" where
  "ms_try_emplace f item ms = (if f \<in> fst ` set ms then ms else ms @ [(f, item)])"

fun bt_try_emplace :: "'k :: linorder \<Rightarrow> 'k btree \<Rightarrow> 'k btree" where
  "bt_try_emplace k [] = [(k, [])]"
| "bt_try_emplace k ((k', ms) # m) =
     (if k < k' then (k, []) # (k', ms) # m
      else if k = k' then (k', ms) # m
      else (k', ms) # bt_try_emplace k m)"

definition bt_modify :: "'k \<Rightarrow> (MonitorSet \<Rightarrow> MonitorSet) \<Rightarrow> 'k btree \<Rightarrow> 'k btree" where
  "bt_modify k g m = map (\<lambda>(k', ms). if k' = k then (k', g ms) else (k', ms)) m"

text \<open>\<open>m.try_emplace(k).first->second.try_emplace(f, item)\<close>, and its undoing.\<close>

definition bt_add :: "'k :: linorder \<Rightarrow> fptr \<Rightarrow> MonitorItem \<Rightarrow> 'k btree \<Rightarrow> 'k btree" where
  "bt_add k f item m = bt_modify k (ms_try_emplace f item) (bt_try_emplace k m)"

definition bt_remove :: "'k \<Rightarrow> fptr \<Rightarrow> 'k btree \<Rightarrow> 'k btree result" where
  "bt_remove k f m =
     (case map_of m k of
        None \<Rightarrow> Inl OutOfRange
      | Some ms \<Rightarrow>
          let ms = filter (\<lambda>x. fst x \<noteq> f) ms in
          if ms = [] then Inr (filter (\<lambda>x. fst x \<noteq> k) m) else Inr (bt_modify k (\<lambda>_. ms) m))"

section \<open>Installing and removing the lookups of a monitor\<close>

definition installFilter :: "mptr \<Rightarrow> u64 \<Rightarrow> nat \<Rightarrow> NostrFilter \<Rightarrow> ActiveMonitors \<Rightarrow> ActiveMonitors result" where
  "installFilter m currEventId n f am =
     (let p = (fst m, snd m, n); item = \<lparr>mi_mon = m, mi_latestEventId = currEventId\<rparr> in
      case nf_ids f of
        Some ids \<Rightarrow> rfold (\<lambda>i am.
          rbind (fsb_at ids i) (\<lambda>v. rbind (mkBytes32 v) (\<lambda>b.
            Inr (am\<lparr>allIds := bt_add b p item (allIds am)\<rparr>)))) [0..<fsb_size ids] am
      | None \<Rightarrow>
      (case nf_authors f of
        Some authors \<Rightarrow> rfold (\<lambda>i am.
          rbind (fsb_at authors i) (\<lambda>v. rbind (mkBytes32 v) (\<lambda>b.
            Inr (am\<lparr>allAuthors := bt_add b p item (allAuthors am)\<rparr>)))) [0..<fsb_size authors] am
      | None \<Rightarrow>
      if length (nf_tags f) \<noteq> 0 then
        rfold (\<lambda>(tagName, filterSet) am.
          rfold (\<lambda>i am. rbind (fsb_at filterSet i) (\<lambda>v.
            Inr (am\<lparr>allTags := bt_add (getTagSpec tagName v) p item (allTags am)\<rparr>))) [0..<fsb_size filterSet] am)
          (nf_tags f) am
      else
      (case nf_kinds f of
        Some kinds \<Rightarrow> rfold (\<lambda>i am.
          rbind (fsu_at kinds i) (\<lambda>kind.
            let am = am\<lparr>allKinds := bt_add kind p item (allKinds am)\<rparr> in
            Inr (if isEphemeral kind then am\<lparr>ephemeralTracker := map_option (addKind kind) (ephemeralTracker am)\<rparr>
                 else am))) [0..<fsu_size kinds] am
      | None \<Rightarrow> Inr (am\<lparr>allOthers := ms_try_emplace p item (allOthers am),
          ephemeralTracker := map_option addCatchAll (ephemeralTracker am)\<rparr>))))"

definition installLookups :: "mptr \<Rightarrow> NostrFilter list \<Rightarrow> u64 \<Rightarrow> ActiveMonitors \<Rightarrow> ActiveMonitors result" where
  "installLookups m filters currEventId am =
     rfold (\<lambda>(n, f). installFilter m currEventId n f) (enumerate 0 filters) am"

definition uninstallFilter :: "mptr \<Rightarrow> nat \<Rightarrow> NostrFilter \<Rightarrow> ActiveMonitors \<Rightarrow> ActiveMonitors result" where
  "uninstallFilter m n f am =
     (let p = (fst m, snd m, n) in
      case nf_ids f of
        Some ids \<Rightarrow> rfold (\<lambda>i am.
          rbind (fsb_at ids i) (\<lambda>v. rbind (mkBytes32 v) (\<lambda>b.
          rbind (bt_remove b p (allIds am)) (\<lambda>t. Inr (am\<lparr>allIds := t\<rparr>))))) [0..<fsb_size ids] am
      | None \<Rightarrow>
      (case nf_authors f of
        Some authors \<Rightarrow> rfold (\<lambda>i am.
          rbind (fsb_at authors i) (\<lambda>v. rbind (mkBytes32 v) (\<lambda>b.
          rbind (bt_remove b p (allAuthors am)) (\<lambda>t. Inr (am\<lparr>allAuthors := t\<rparr>))))) [0..<fsb_size authors] am
      | None \<Rightarrow>
      if length (nf_tags f) \<noteq> 0 then
        rfold (\<lambda>(tagName, filterSet) am.
          rfold (\<lambda>i am. rbind (fsb_at filterSet i) (\<lambda>v.
            rbind (bt_remove (getTagSpec tagName v) p (allTags am)) (\<lambda>t. Inr (am\<lparr>allTags := t\<rparr>))))
            [0..<fsb_size filterSet] am)
          (nf_tags f) am
      else
      (case nf_kinds f of
        Some kinds \<Rightarrow> rfold (\<lambda>i am.
          rbind (fsu_at kinds i) (\<lambda>kind.
          rbind (bt_remove kind p (allKinds am)) (\<lambda>t.
            let am = am\<lparr>allKinds := t\<rparr> in
            Inr (if isEphemeral kind then am\<lparr>ephemeralTracker := map_option (removeKind kind) (ephemeralTracker am)\<rparr>
                 else am)))) [0..<fsu_size kinds] am
      | None \<Rightarrow> Inr (am\<lparr>allOthers := filter (\<lambda>x. fst x \<noteq> p) (allOthers am),
          ephemeralTracker := map_option removeCatchAll (ephemeralTracker am)\<rparr>))))"

definition uninstallLookups :: "mptr \<Rightarrow> NostrFilter list \<Rightarrow> ActiveMonitors \<Rightarrow> ActiveMonitors result" where
  "uninstallLookups m filters am = rfold (\<lambda>(n, f). uninstallFilter m n f) (enumerate 0 filters) am"

section \<open>Adding and removing subscriptions\<close>

definition findMonitor :: "conn_map \<Rightarrow> u64 \<Rightarrow> SubId \<Rightarrow> Subscription option" where
  "findMonitor conns connId subId = (case conns connId of None \<Rightarrow> None | Some cm \<Rightarrow> map_of cm subId)"

definition sub_filters :: "Subscription \<Rightarrow> NostrFilter list" where
  "sub_filters sub = fg_filters (sub_filterGroup sub)"

definition removeSub :: "u64 \<Rightarrow> SubId \<Rightarrow> ActiveMonitors \<Rightarrow> ActiveMonitors result" where
  "removeSub connId subId am =
     (case findMonitor (am_conns am) connId subId of
        None \<Rightarrow> Inr am
      | Some sub \<Rightarrow>
          rbind (uninstallLookups (connId, subId) (sub_filters sub) am) (\<lambda>am.
          let cm = filter (\<lambda>x. fst x \<noteq> subId) (case am_conns am connId of None \<Rightarrow> [] | Some cm \<Rightarrow> cm) in
          Inr (am\<lparr>am_conns := (am_conns am)(connId := if cm = [] then None else Some cm)\<rparr>)))"

definition addSub :: "cfg \<Rightarrow> Subscription \<Rightarrow> u64 \<Rightarrow> ActiveMonitors \<Rightarrow> (bool \<times> ActiveMonitors) result" where
  "addSub cfg sub currEventId am =
     (if sub_latestEventId sub \<noteq> currEventId then Inl (Herr ''sub not up to date'') else
      rbind (if findMonitor (am_conns am) (sub_connId sub) (sub_subId sub) \<noteq> None
             then removeSub (sub_connId sub) (sub_subId sub) am else Inr am) (\<lambda>am.
      let cm = (case am_conns am (sub_connId sub) of None \<Rightarrow> [] | Some cm \<Rightarrow> cm) in
      if length cm \<ge> unat (relay_maxSubsPerConnection cfg) then
        Inr (False, am\<lparr>am_conns := (am_conns am)(sub_connId sub \<mapsto> cm)\<rparr>)
      else
        let cm = (if sub_subId sub \<in> fst ` set cm then cm else cm @ [(sub_subId sub, sub)]);
            am = am\<lparr>am_conns := (am_conns am)(sub_connId sub \<mapsto> cm)\<rparr> in
        rbind (installLookups (sub_connId sub, sub_subId sub) (sub_filters sub) currEventId am) (\<lambda>am.
          Inr (True, am))))"

definition closeConn :: "u64 \<Rightarrow> ActiveMonitors \<Rightarrow> ActiveMonitors result" where
  "closeConn connId am =
     (case am_conns am connId of
        None \<Rightarrow> Inr am
      | Some cm \<Rightarrow>
          rbind (rfold (\<lambda>(subId, sub). uninstallLookups (connId, subId) (sub_filters sub)) cm am) (\<lambda>am.
            Inr (am\<lparr>am_conns := (am_conns am)(connId := None)\<rparr>)))"

section \<open>Matching a new event\<close>

definition deref_filter :: "conn_map \<Rightarrow> fptr \<Rightarrow> NostrFilter option" where
  "deref_filter conns = (\<lambda>(c, s, n). case findMonitor conns c s of
     None \<Rightarrow> None
   | Some sub \<Rightarrow> if n < length (sub_filters sub) then Some (sub_filters sub ! n) else None)"

definition set_latest :: "mptr \<Rightarrow> u64 \<Rightarrow> conn_map \<Rightarrow> conn_map" where
  "set_latest m levId conns =
     (case conns (fst m) of
        None \<Rightarrow> conns
      | Some cm \<Rightarrow> conns(fst m \<mapsto> map (\<lambda>(s, sub). if s = snd m then (s, sub\<lparr>sub_latestEventId := levId\<rparr>) else (s, sub)) cm))"

fun processMonitorSet ::
  "u64 \<Rightarrow> bytes \<Rightarrow> MonitorSet \<Rightarrow> conn_map \<times> RecipientList \<Rightarrow> (MonitorSet \<times> conn_map \<times> RecipientList) result" where
  "processMonitorSet levId buf [] st = Inr ([], st)"
| "processMonitorSet levId buf ((f, item) # ms) (conns, recipients) =
     rbind
       (if mi_latestEventId item \<ge> levId then Inr (item, conns, recipients)
        else (case findMonitor conns (fst (mi_mon item)) (snd (mi_mon item)) of
          None \<Rightarrow> Inl BadVariant
        | Some sub \<Rightarrow>
            if sub_latestEventId sub \<ge> levId then Inr (item, conns, recipients)
            else (case deref_filter conns f of
              None \<Rightarrow> Inl BadVariant
            | Some nf \<Rightarrow>
                rbind (nf_doesMatch nf buf) (\<lambda>matched.
                  let item = item\<lparr>mi_latestEventId := levId\<rparr> in
                  if matched then
                    Inr (item, set_latest (mi_mon item) levId conns, recipients @ [(sub_connId sub, sub_subId sub)])
                  else Inr (item, conns, recipients)))))
       (\<lambda>(item, st). rbind (processMonitorSet levId buf ms st) (\<lambda>(ms, st). Inr ((f, item) # ms, st)))"

text \<open>From the last entry that is not above the key the loop goes down while the key matches.\<close>

fun exact_loop ::
  "u64 \<Rightarrow> bytes \<Rightarrow> 'k \<Rightarrow> nat \<Rightarrow> 'k btree \<Rightarrow> conn_map \<times> RecipientList \<Rightarrow> ('k btree \<times> conn_map \<times> RecipientList) result" where
  "exact_loop levId buf key n m st =
     (if fst (m ! n) = key then
        rbind (processMonitorSet levId buf (snd (m ! n)) st) (\<lambda>(ms, st).
          let m = m[n := (fst (m ! n), ms)] in
          (case n of 0 \<Rightarrow> Inr (m, st) | Suc n' \<Rightarrow> exact_loop levId buf key n' m st))
      else Inr (m, st))"

definition processMonitorsExact ::
  "u64 \<Rightarrow> bytes \<Rightarrow> 'k :: linorder \<Rightarrow> 'k btree \<Rightarrow> conn_map \<times> RecipientList \<Rightarrow> ('k btree \<times> conn_map \<times> RecipientList) result" where
  "processMonitorsExact levId buf key m st =
     (case length (takeWhile (\<lambda>x. fst x \<le> key) m) of
        0 \<Rightarrow> Inr (m, st)
      | Suc n \<Rightarrow> exact_loop levId buf key n m st)"

text \<open>The callback is called once, with the recipients, when there are any.\<close>

definition process ::
  "View_Event \<Rightarrow> ActiveMonitors \<Rightarrow> (ActiveMonitors \<times> (RecipientList \<times> u64) option) result" where
  "process ev am =
     (let levId = fst ev in
      rbind (PackedEventView (snd ev)) (\<lambda>packed.
      rbind (mkBytes32 (pv_id packed)) (\<lambda>eid.
      rbind (processMonitorsExact levId packed eid (allIds am) (am_conns am, [])) (\<lambda>(ids, st).
      rbind (mkBytes32 (pv_pubkey packed)) (\<lambda>pubkey.
      rbind (processMonitorsExact levId packed pubkey (allAuthors am) st) (\<lambda>(authors, st).
      rbind (foreachTag packed (\<lambda>tagName tagVal (tags, st).
          rbind (processMonitorsExact levId packed (getTagSpec tagName tagVal) tags st) (\<lambda>r. Inr (r, True)))
          (allTags am, st)) (\<lambda>(tags, st).
      rbind (processMonitorsExact levId packed (pv_kind packed) (allKinds am) st) (\<lambda>(kinds, st).
      rbind (processMonitorSet levId packed (allOthers am) st) (\<lambda>(others, conns, recipients).
        Inr (am\<lparr>am_conns := conns, allIds := ids, allAuthors := authors, allTags := tags, allKinds := kinds, allOthers := others\<rparr>,
             if recipients \<noteq> [] then Some (recipients, levId) else None))))))))))"

end
