(* ===== verification/RelayServer.thy ===== *)
theory RelayServer
  imports ActiveMonitors EventsWrite
begin

text \<open>
  What the threads of the relay share: \<open>src/ThreadPool.h\<close>, \<open>src/apps/relay/RelayMessages.h\<close>,
  \<open>src/apps/relay/RelaySender.h\<close> and the state of \<open>src/apps/relay/RelayServer.h\<close>.  A pool of threads is the
  number of its threads and their inboxes; a handler of one thread is a function on the whole
  state, so that what it sends to the others can be seen.  Log lines, metrics and the trigger
  that wakes the websocket thread are left out.
\<close>

section \<open>Thread pools\<close>

record 'm ThreadPool =
  numThreads :: u64
  inbox :: "nat \<Rightarrow> 'm list"

definition pool_init :: "u64 \<Rightarrow> 'm ThreadPool result" where
  "pool_init n =
     (if n = 0 then Inl (Herr ''must have more than 0 threads'')
      else Inr \<lparr>numThreads = n, inbox = (\<lambda>_. [])\<rparr>)"

definition dispatchMulti :: "u64 \<Rightarrow> 'm list \<Rightarrow> 'm ThreadPool \<Rightarrow> 'm ThreadPool" where
  "dispatchMulti key ms p =
     (let who = unat (key mod numThreads p) in p\<lparr>inbox := (inbox p)(who := inbox p who @ ms)\<rparr>)"

definition dispatch :: "u64 \<Rightarrow> 'm \<Rightarrow> 'm ThreadPool \<Rightarrow> 'm ThreadPool" where
  "dispatch key m p =
     (let who = unat (key mod numThreads p) in p\<lparr>inbox := (inbox p)(who := inbox p who @ [m])\<rparr>)"

definition dispatchToAll :: "'m \<Rightarrow> 'm ThreadPool \<Rightarrow> 'm ThreadPool" where
  "dispatchToAll m p = p\<lparr>inbox := (\<lambda>i. if i < unat (numThreads p) then inbox p i @ [m] else inbox p i)\<rparr>"

text \<open>A thread takes all messages of its inbox.\<close>

definition pop_all :: "nat \<Rightarrow> 'm ThreadPool \<Rightarrow> 'm list \<times> 'm ThreadPool" where
  "pop_all i p = (inbox p i, p\<lparr>inbox := (inbox p)(i := [])\<rparr>)"

section \<open>Messages\<close>

datatype MsgWebsocket =
    Send u64 string
  | SendBinary u64 string
  | SendEventToBatch RecipientList string
  | GracefulShutdown

datatype MsgIngester =
    ClientMessage u64 string string
  | Ingester_CloseConn u64

datatype MsgWriter =
    AddEvent u64 string bytes string
  | Writer_CloseConn u64

datatype MsgReqWorker =
    NewSub Subscription
  | RemoveSub u64 SubId
  | CloseConn u64

datatype MsgReqMonitor =
    Monitor_NewSub Subscription
  | Monitor_RemoveSub u64 SubId
  | Monitor_CloseConn u64
  | DBChange

datatype MsgNegentropy =
    NegOpen Subscription string bytes
  | NegMsg u64 SubId bytes
  | NegClose u64 SubId
  | Neg_CloseConn u64

record RelayServer =
  rs_ephemeralTracker :: EphemeralSubTracker
  tpWebsocket :: "MsgWebsocket ThreadPool"
  tpIngester :: "MsgIngester ThreadPool"
  tpWriter :: "MsgWriter ThreadPool"
  tpReqWorker :: "MsgReqWorker ThreadPool"
  tpReqMonitor :: "MsgReqMonitor ThreadPool"
  tpNegentropy :: "MsgNegentropy ThreadPool"

section \<open>Sending\<close>

definition sendToConn :: "u64 \<Rightarrow> string \<Rightarrow> RelayServer \<Rightarrow> RelayServer" where
  "sendToConn connId payload rs = rs\<lparr>tpWebsocket := dispatch 0 (Send connId payload) (tpWebsocket rs)\<rparr>"

definition sendToConnBinary :: "u64 \<Rightarrow> string \<Rightarrow> RelayServer \<Rightarrow> RelayServer" where
  "sendToConnBinary connId payload rs = rs\<lparr>tpWebsocket := dispatch 0 (SendBinary connId payload) (tpWebsocket rs)\<rparr>"

definition event_reply :: "SubId \<Rightarrow> string \<Rightarrow> string" where
  "event_reply subId evJson = ''[\"EVENT\",\"'' @ subid_sv subId @ ''\",'' @ evJson @ '']''"

definition sendEvent :: "u64 \<Rightarrow> SubId \<Rightarrow> string \<Rightarrow> RelayServer \<Rightarrow> RelayServer" where
  "sendEvent connId subId evJson rs = sendToConn connId (event_reply subId evJson) rs"

definition sendEventToBatch :: "RecipientList \<Rightarrow> string \<Rightarrow> RelayServer \<Rightarrow> RelayServer" where
  "sendEventToBatch list0 evJson rs = rs\<lparr>tpWebsocket := dispatch 0 (SendEventToBatch list0 evJson) (tpWebsocket rs)\<rparr>"

definition sendNoticeError :: "libs \<Rightarrow> u64 \<Rightarrow> string \<Rightarrow> RelayServer \<Rightarrow> RelayServer" where
  "sendNoticeError L connId payload rs =
     (let reply = JArray [JString ''NOTICE'', JString (''ERROR: '' @ payload)] in
      rs\<lparr>tpWebsocket := dispatch 0 (Send connId (json_to_string L reply)) (tpWebsocket rs)\<rparr>)"

definition sendClosedError :: "libs \<Rightarrow> u64 \<Rightarrow> string \<Rightarrow> string \<Rightarrow> RelayServer \<Rightarrow> RelayServer" where
  "sendClosedError L connId subId payload rs =
     (let reply = JArray [JString ''CLOSED'', JString subId, JString (''ERROR: '' @ payload)] in
      rs\<lparr>tpWebsocket := dispatch 0 (Send connId (json_to_string L reply)) (tpWebsocket rs)\<rparr>)"

definition ok_reply :: "libs \<Rightarrow> string \<Rightarrow> bool \<Rightarrow> string \<Rightarrow> string" where
  "ok_reply L eventIdHex written message =
     json_to_string L (JArray [JString ''OK'', JString eventIdHex, JBool written, JString message])"

definition sendOKResponse :: "libs \<Rightarrow> u64 \<Rightarrow> string \<Rightarrow> bool \<Rightarrow> string \<Rightarrow> RelayServer \<Rightarrow> RelayServer" where
  "sendOKResponse L connId eventIdHex written message rs =
     rs\<lparr>tpWebsocket := dispatch 0 (Send connId (ok_reply L eventIdHex written message)) (tpWebsocket rs)\<rparr>"

section \<open>What has been posted\<close>

text \<open>The messages to the websocket thread; there is one such thread.\<close>

definition websocket_out :: "RelayServer \<Rightarrow> MsgWebsocket list" where
  "websocket_out rs = inbox (tpWebsocket rs) 0"

lemma dispatch_0 [simp]: "inbox (dispatch 0 m p) 0 = inbox p 0 @ [m]"
  by (simp add: dispatch_def Let_def)

lemma dispatch_numThreads [simp]: "numThreads (dispatch k m p) = numThreads p" "numThreads (dispatchMulti k ms p) = numThreads p"
  by (simp_all add: dispatch_def dispatchMulti_def Let_def)

lemmas send_defs = sendToConn_def sendToConnBinary_def sendEvent_def sendEventToBatch_def sendNoticeError_def sendClosedError_def
  sendOKResponse_def Let_def

lemma websocket_out_send [simp]:
  "websocket_out (sendToConn c s rs) = websocket_out rs @ [Send c s]"
  "websocket_out (sendEvent c sid s rs) = websocket_out rs @ [Send c (event_reply sid s)]"
  "websocket_out (sendEventToBatch rl s rs) = websocket_out rs @ [SendEventToBatch rl s]"
  "websocket_out (sendNoticeError L c s rs) =
     websocket_out rs @ [Send c (json_to_string L (JArray [JString ''NOTICE'', JString (''ERROR: '' @ s)]))]"
  "websocket_out (sendClosedError L c i s rs) =
     websocket_out rs @ [Send c (json_to_string L (JArray [JString ''CLOSED'', JString i, JString (''ERROR: '' @ s)]))]"
  "websocket_out (sendOKResponse L c i w s rs) = websocket_out rs @ [Send c (ok_reply L i w s)]"
  by (simp_all add: websocket_out_def send_defs)

text \<open>Sending touches nothing but the inbox of the websocket thread.\<close>

definition rest_of :: "RelayServer \<Rightarrow> EphemeralSubTracker \<times> MsgIngester ThreadPool \<times> MsgWriter ThreadPool \<times>
    MsgReqWorker ThreadPool \<times> MsgReqMonitor ThreadPool \<times> MsgNegentropy ThreadPool" where
  "rest_of rs = (rs_ephemeralTracker rs, tpIngester rs, tpWriter rs, tpReqWorker rs, tpReqMonitor rs, tpNegentropy rs)"

lemma rest_of_send [simp]:
  "rest_of (sendToConn c s rs) = rest_of rs" "rest_of (sendEvent c sid s rs) = rest_of rs"
  "rest_of (sendEventToBatch rl s rs) = rest_of rs" "rest_of (sendNoticeError L c s rs) = rest_of rs"
  "rest_of (sendClosedError L c i s rs) = rest_of rs" "rest_of (sendOKResponse L c i w s rs) = rest_of rs"
  by (simp_all add: rest_of_def send_defs)

end
