(* ===== verification/RelayIngester.thy ===== *)
theory RelayIngester
  imports RelayServer
begin

text \<open>
  \<open>src/apps/relay/RelayIngester.cpp\<close>: the thread that reads what clients send.  A message is parsed
  and checked, answered at once or handed to the writer, to the thread that runs queries, or to
  the negentropy thread.  An exception is a value; a \<open>catch\<close> block is a case distinction on it.
  The log lines are left out; they render the address of the client, which has 4 or 16 bytes.  None
  of the handlers throws after it has sent something, so that a handler that throws leaves
  the state as it was.
\<close>

section \<open>Events\<close>

definition protected_event :: "bytes \<Rightarrow> bool result" where
  "protected_event packed =
     foreachTag packed (\<lambda>tagName tagVal foundProtected.
       if tagName = CHR ''-'' then Inr (True, False) else Inr (foundProtected, True)) False"

text \<open>The first block: the reply to an ephemeral event that nobody listens for.\<close>

definition ephemeral_drop :: "EphemeralSubTracker \<Rightarrow> json \<Rightarrow> string option result" where
  "ephemeral_drop tracker origJson =
     (if is_object origJson then
        (case json_find origJson ''kind'' of
           None \<Rightarrow> Inr None
         | Some kindIt \<Rightarrow>
             if is_integer kindIt then
               rbind (get_unsigned kindIt) (\<lambda>kind.
                 if isEphemeral kind \<and> \<not> hasSubscribersForKind tracker kind then
                   Inr (Some (case json_find origJson ''id'' of Some (JString s) \<Rightarrow> s | _ \<Rightarrow> ''?''))
                 else Inr None)
             else Inr None)
      else Inr None)"

definition ingesterProcessEvent ::
  "'t env \<Rightarrow> libs \<Rightarrow> cfg \<Rightarrow> u64 \<Rightarrow> 't \<Rightarrow> u64 \<Rightarrow> string \<Rightarrow> json \<Rightarrow> RelayServer \<times> MsgWriter list \<Rightarrow>
   (RelayServer \<times> MsgWriter list) result" where
  "ingesterProcessEvent E L cfg now txn connId ipAddr origJson = (\<lambda>(rs, output).
     rbind (ephemeral_drop (rs_ephemeralTracker rs) origJson) (\<lambda>drop0.
     case drop0 of
       Some eventId \<Rightarrow> Inr (sendOKResponse L connId eventId False ''blocked: no subscribers for ephemeral kind'' rs, output)
     | None \<Rightarrow>
     rbind (parseAndVerifyEvent L cfg now origJson True True) (\<lambda>(packedStr, jsonStr).
     rbind (PackedEventView packedStr) (\<lambda>packed.
     rbind (protected_event packed) (\<lambda>foundProtected.
     if foundProtected then
       Inr (sendOKResponse L connId (to_hex L (pv_id packed)) False ''blocked: event marked as protected'' rs, output)
     else if eventExistsById E txn (pv_id packed) then
       Inr (sendOKResponse L connId (to_hex L (pv_id packed)) True ''duplicate: have this event'' rs, output)
     else
       Inr (rs, output @ [AddEvent connId ipAddr packedStr jsonStr]))))))"

section \<open>Requests\<close>

text \<open>The first component is what \<open>outSubIdStr\<close> holds at the end or when the exception is thrown.\<close>

definition ingesterProcessReq :: "libs \<Rightarrow> cfg \<Rightarrow> u64 \<Rightarrow> json list \<Rightarrow> bool \<Rightarrow> RelayServer \<Rightarrow> string \<times> RelayServer result" where
  "ingesterProcessReq L cfg connId arr countOnly rs =
     (if length arr < 2 + 1 then ('''', Inl (Herr ''arr too small''))
      else (case jsonGetString (arr ! 1) ''subscription id was not a string'' of
        Inl e \<Rightarrow> ('''', Inl e)
      | Inr outSubIdStr \<Rightarrow> (outSubIdStr,
          if exceeds (length arr) (2 + relay_maxReqFilterSize cfg) then Inl (Herr ''arr too big'')
          else
            rbind (if countOnly then
                     let maxFilterLimit = relay_maxFilterLimitCount cfg + 1 in
                     if maxFilterLimit = 1 then Inl (Herr ''COUNT disabled'') else Inr maxFilterLimit
                   else Inr (relay_maxFilterLimit cfg)) (\<lambda>maxFilterLimit.
            rbind (mkNostrFilterGroup (from_hex L) (JArray arr) maxFilterLimit) (\<lambda>group.
            rbind (mkSubscription connId outSubIdStr group countOnly) (\<lambda>sub.
              Inr (rs\<lparr>tpReqWorker := dispatch connId (NewSub sub) (tpReqWorker rs)\<rparr>)))))))"

definition ingesterProcessClose :: "u64 \<Rightarrow> json list \<Rightarrow> RelayServer \<Rightarrow> RelayServer result" where
  "ingesterProcessClose connId arr rs =
     (if length arr \<noteq> 2 then Inl (Herr ''arr too small/big'')
      else
        rbind (jsonGetString (arr ! 1) ''CLOSE subscription id was not a string'') (\<lambda>s.
        rbind (mkSubId s) (\<lambda>subId.
          Inr (rs\<lparr>tpReqWorker := dispatch connId (RemoveSub connId subId) (tpReqWorker rs)\<rparr>))))"

text \<open>The filter under which a stored tree is looked up: the object without its time bounds.\<close>

definition erase_times :: "json \<Rightarrow> json" where
  "erase_times v = (case v of JObject ms \<Rightarrow> JObject (filter (\<lambda>m. fst m \<noteq> ''since'' \<and> fst m \<noteq> ''until'') ms) | _ \<Rightarrow> v)"

definition ingesterProcessNegentropy :: "libs \<Rightarrow> cfg \<Rightarrow> u64 \<Rightarrow> json list \<Rightarrow> RelayServer \<Rightarrow> RelayServer result" where
  "ingesterProcessNegentropy L cfg connId arr rs =
     rbind (jsonGetString (arr ! 1) ''NEG-OPEN subscription id was not a string'') (\<lambda>subscriptionStr.
     if arr ! 0 = JString ''NEG-OPEN'' then
       if length arr < 4 then Inl (Herr ''negentropy query missing elements'')
       else
         let maxFilterLimit = relay_negentropy_maxSyncEvents cfg + 1 in
         rbind (arr_at arr 2) (\<lambda>filterJson.
         rbind (fg_unwrapped (from_hex L) filterJson maxFilterLimit) (\<lambda>group.
         rbind (mkSubscription connId subscriptionStr group False) (\<lambda>sub.
         let filterStr = json_to_string L (erase_times filterJson) in
         rbind (arr_at arr 3) (\<lambda>p.
         rbind (jsonGetString p ''negentropy payload not a string'') (\<lambda>hex.
         rbind (from_hex L hex) (\<lambda>negPayload.
           Inr (rs\<lparr>tpNegentropy := dispatch connId (NegOpen sub filterStr negPayload) (tpNegentropy rs)\<rparr>)))))))
     else if arr ! 0 = JString ''NEG-MSG'' then
       rbind (arr_at arr 2) (\<lambda>p.
       rbind (jsonGetString p ''negentropy payload not a string'') (\<lambda>hex.
       rbind (from_hex L hex) (\<lambda>negPayload.
       rbind (mkSubId subscriptionStr) (\<lambda>subId.
         Inr (rs\<lparr>tpNegentropy := dispatch connId (NegMsg connId subId negPayload) (tpNegentropy rs)\<rparr>)))))
     else if arr ! 0 = JString ''NEG-CLOSE'' then
       rbind (mkSubId subscriptionStr) (\<lambda>subId.
         Inr (rs\<lparr>tpNegentropy := dispatch connId (NegClose connId subId) (tpNegentropy rs)\<rparr>))
     else Inl (Herr ''unknown command''))"

section \<open>Messages of a client\<close>

text \<open>The four kinds of commands, each with its own \<open>catch\<close> block.\<close>

definition ingester_event ::
  "'t env \<Rightarrow> libs \<Rightarrow> cfg \<Rightarrow> u64 \<Rightarrow> 't \<Rightarrow> u64 \<Rightarrow> string \<Rightarrow> json list \<Rightarrow> RelayServer \<times> MsgWriter list \<Rightarrow>
   (RelayServer \<times> MsgWriter list) result" where
  "ingester_event E L cfg now txn connId ipAddr arr = (\<lambda>(rs, output).
     case ingesterProcessEvent E L cfg now txn connId ipAddr (arr ! 1) (rs, output) of
       Inr r \<Rightarrow> Inr r
     | Inl e \<Rightarrow>
         rbind (if is_object (arr ! 1) then rbind (json_at (arr ! 1) ''id'') (\<lambda>i. if is_string i then get_string i else Inr ''?'')
                else Inr ''?'') (\<lambda>eventId.
           Inr (sendOKResponse L connId eventId False (''invalid: '' @ what e) rs, output)))"

definition ingester_req :: "libs \<Rightarrow> cfg \<Rightarrow> u64 \<Rightarrow> json list \<Rightarrow> bool \<Rightarrow> RelayServer \<Rightarrow> RelayServer" where
  "ingester_req L cfg connId arr countOnly rs =
     (let (subIdStr, res) = ingesterProcessReq L cfg connId arr countOnly rs in
      case res of
        Inr rs \<Rightarrow> rs
      | Inl e \<Rightarrow>
          if length subIdStr \<noteq> 0 then sendClosedError L connId subIdStr (''bad req: '' @ what e) rs
          else sendNoticeError L connId (''bad req: '' @ what e) rs)"

definition ingester_close :: "libs \<Rightarrow> u64 \<Rightarrow> json list \<Rightarrow> RelayServer \<Rightarrow> RelayServer" where
  "ingester_close L connId arr rs =
     (case ingesterProcessClose connId arr rs of
        Inr rs \<Rightarrow> rs
      | Inl e \<Rightarrow> sendNoticeError L connId (''bad close: '' @ what e) rs)"

definition ingester_negentropy :: "libs \<Rightarrow> cfg \<Rightarrow> u64 \<Rightarrow> json list \<Rightarrow> RelayServer \<Rightarrow> RelayServer" where
  "ingester_negentropy L cfg connId arr rs =
     (case ingesterProcessNegentropy L cfg connId arr rs of
        Inr rs \<Rightarrow> rs
      | Inl e \<Rightarrow> sendNoticeError L connId (''negentropy error: '' @ what e) rs)"

text \<open>The outer \<open>try\<close> block.\<close>

definition ingester_command ::
  "'t env \<Rightarrow> libs \<Rightarrow> cfg \<Rightarrow> u64 \<Rightarrow> 't \<Rightarrow> u64 \<Rightarrow> string \<Rightarrow> string \<Rightarrow> RelayServer \<times> MsgWriter list \<Rightarrow>
   (RelayServer \<times> MsgWriter list) result" where
  "ingester_command E L cfg now txn connId ipAddr payload = (\<lambda>(rs, output).
     if starts_with payload ''['' then
       rbind (json_from_string L payload) (\<lambda>v.
       rbind (jsonGetArray v ''message is not an array'') (\<lambda>arr.
       if length arr < 2 then Inl (Herr ''too few array elements'')
       else
       rbind (jsonGetString (arr ! 0) ''first element not a command like REQ'') (\<lambda>cmd.
       if cmd = ''EVENT'' then ingester_event E L cfg now txn connId ipAddr arr (rs, output)
       else if cmd = ''REQ'' \<or> cmd = ''COUNT'' then Inr (ingester_req L cfg connId arr (cmd = ''COUNT'') rs, output)
       else if cmd = ''CLOSE'' then Inr (ingester_close L connId arr rs, output)
       else if starts_with cmd ''NEG-'' then
         if \<not> relay_negentropy_enabled cfg then Inl (Herr ''negentropy disabled'')
         else Inr (ingester_negentropy L cfg connId arr rs, output)
       else Inl (Herr ''unknown cmd''))))
     else if payload = [CHR 0x0A] then Inr (rs, output)
     else Inl (Herr ''unparseable message''))"

definition ingester_msg ::
  "'t env \<Rightarrow> libs \<Rightarrow> cfg \<Rightarrow> u64 \<Rightarrow> 't \<Rightarrow> MsgIngester \<Rightarrow> RelayServer \<times> MsgWriter list \<Rightarrow> RelayServer \<times> MsgWriter list" where
  "ingester_msg E L cfg now txn newMsg = (\<lambda>(rs, writerMsgs).
     case newMsg of
       ClientMessage connId ipAddr payload \<Rightarrow>
         (case ingester_command E L cfg now txn connId ipAddr payload (rs, writerMsgs) of
            Inr r \<Rightarrow> r
          | Inl e \<Rightarrow> (sendNoticeError L connId (''bad msg: '' @ what e) rs, writerMsgs))
     | Ingester_CloseConn connId \<Rightarrow>
         (rs\<lparr>tpWriter := dispatch connId (Writer_CloseConn connId) (tpWriter rs),
             tpReqWorker := dispatch connId (CloseConn connId) (tpReqWorker rs),
             tpNegentropy := dispatch connId (Neg_CloseConn connId) (tpNegentropy rs)\<rparr>, writerMsgs))"

text \<open>One round of the thread number \<open>thr\<close>.\<close>

definition runIngester :: "'t env \<Rightarrow> libs \<Rightarrow> cfg \<Rightarrow> u64 \<Rightarrow> 't \<Rightarrow> nat \<Rightarrow> RelayServer \<Rightarrow> RelayServer" where
  "runIngester E L cfg now txn thr rs =
     (let (newMsgs, pool) = pop_all thr (tpIngester rs);
          (rs, writerMsgs) = fold (ingester_msg E L cfg now txn) newMsgs (rs\<lparr>tpIngester := pool\<rparr>, [])
      in if length writerMsgs \<noteq> 0 then rs\<lparr>tpWriter := dispatchMulti 0 writerMsgs (tpWriter rs)\<rparr> else rs)"

section \<open>What a client message leads to\<close>

definition authentic :: "libs \<Rightarrow> cfg \<Rightarrow> u64 \<Rightarrow> (string \<times> json) list \<Rightarrow> event \<Rightarrow> bool" where
  "authentic L cfg now ms e \<longleftrightarrow> wf_event e \<and> packed_from L ms e \<and> in_window cfg (unat now) e \<and>
     (\<exists>pubkey created_at kind tags content sigs sig.
       map_of ms ''pubkey'' = Some pubkey \<and> map_of ms ''created_at'' = Some created_at \<and> map_of ms ''kind'' = Some kind \<and>
       map_of ms ''tags'' = Some tags \<and> map_of ms ''content'' = Some content \<and> map_of ms ''sig'' = Some (JString sigs) \<and>
       ev_id e = SHA256 L (json_to_string L (JArray [JUnsigned 0, pubkey, created_at, kind, tags, content])) \<and>
       from_hex L sigs = Inr sig \<and> schnorrsig_verify L sig (ev_id e) (ev_pubkey e))"

text \<open>
  How a message reads: an array of at least two elements whose first is the name of a command.  The
  specification of the replies goes by that name.
\<close>

definition client_command :: "libs \<Rightarrow> string \<Rightarrow> (string \<times> json list) option" where
  "client_command L payload =
     (if payload = [] \<or> hd payload \<noteq> CHR ''['' then None
      else (case json_from_string L payload of
        Inr (JArray (JString cmd # x # xs)) \<Rightarrow> Some (cmd, JString cmd # x # xs)
      | _ \<Rightarrow> None))"

definition event_id_text :: "json \<Rightarrow> string" where
  "event_id_text v = (case json_find v ''id'' of Some (JString s) \<Rightarrow> s | _ \<Rightarrow> ''?'')"

text \<open>The subscription that a \<open>REQ\<close> or \<open>COUNT\<close> asks for, when it is acceptable; likewise for the other commands.\<close>

definition asks_query :: "libs \<Rightarrow> cfg \<Rightarrow> u64 \<Rightarrow> bool \<Rightarrow> json list \<Rightarrow> Subscription \<Rightarrow> bool" where
  "asks_query L cfg c cnt arr sub \<longleftrightarrow> 3 \<le> length arr \<and> \<not> exceeds (length arr) (2 + relay_maxReqFilterSize cfg) \<and>
     (cnt \<longrightarrow> relay_maxFilterLimitCount cfg \<noteq> 0) \<and>
     (\<exists>s group. arr ! 1 = JString s \<and>
       mkNostrFilterGroup (from_hex L) (JArray arr) (if cnt then relay_maxFilterLimitCount cfg + 1 else relay_maxFilterLimit cfg) = Inr group \<and>
       mkSubscription c s group cnt = Inr sub)"

definition asks_close :: "json list \<Rightarrow> SubId \<Rightarrow> bool" where
  "asks_close arr subId \<longleftrightarrow> length arr = 2 \<and> (\<exists>s. arr ! 1 = JString s \<and> mkSubId s = Inr subId)"

definition asks_neg :: "libs \<Rightarrow> cfg \<Rightarrow> u64 \<Rightarrow> string \<Rightarrow> json list \<Rightarrow> MsgNegentropy \<Rightarrow> bool" where
  "asks_neg L cfg c cmd arr m \<longleftrightarrow>
     (\<exists>s subId. arr ! 1 = JString s \<and> mkSubId s = Inr subId \<and>
       (cmd = ''NEG-OPEN'' \<and> 4 \<le> length arr \<and>
          (\<exists>group hex p. fg_unwrapped (from_hex L) (arr ! 2) (relay_negentropy_maxSyncEvents cfg + 1) = Inr group \<and>
            arr ! 3 = JString hex \<and> from_hex L hex = Inr p \<and>
            m = NegOpen \<lparr>sub_connId = c, sub_subId = subId, sub_filterGroup = group, sub_countOnly = False, sub_latestEventId = MAX_U64\<rparr>
              (json_to_string L (erase_times (arr ! 2))) p) \<or>
        cmd = ''NEG-MSG'' \<and> 3 \<le> length arr \<and> (\<exists>hex p. arr ! 2 = JString hex \<and> from_hex L hex = Inr p \<and> m = NegMsg c subId p) \<or>
        cmd = ''NEG-CLOSE'' \<and> m = NegClose c subId))"

text \<open>
  The ways in which a message of the connection \<open>c\<close> is dealt with, command by command.  An \<open>EVENT\<close> goes to the
  writer or gets an \<open>OK\<close> reply (a \<open>NOTICE\<close> when it is refused and has no member \<open>id\<close> that the reply could
  name); a \<open>REQ\<close> or \<open>COUNT\<close> goes to the thread that runs the queries of its connection or is refused with \<open>CLOSED\<close>,
  or with \<open>NOTICE\<close> when it has no subscription id; a \<open>CLOSE\<close> goes to the same thread and a \<open>NEG-\<close> command to the
  negentropy thread, or is refused with a \<open>NOTICE\<close>; anything else gets a \<open>NOTICE\<close>.
\<close>

inductive answered ::
  "libs \<Rightarrow> cfg \<Rightarrow> u64 \<Rightarrow> (u64 \<times> event) set \<Rightarrow> u64 \<Rightarrow> string \<Rightarrow> (string \<times> json list) option \<Rightarrow>
   RelayServer \<times> MsgWriter list \<Rightarrow> RelayServer \<times> MsgWriter list \<Rightarrow> bool"
  for L cfg now stored c ip where
  unreadable: "answered L cfg now stored c ip None (rs, out) (sendNoticeError L c (''bad msg: '' @ why) rs, out)"
| unknown: "cmd \<notin> {''EVENT'', ''REQ'', ''COUNT'', ''CLOSE''} \<Longrightarrow> \<not> starts_with cmd ''NEG-'' \<Longrightarrow>
    answered L cfg now stored c ip (Some (cmd, arr)) (rs, out) (sendNoticeError L c ''bad msg: unknown cmd'' rs, out)"
| event: "arr ! 1 = JObject ms \<Longrightarrow> authentic L cfg now ms e \<Longrightarrow> CHR ''-'' \<notin> fst ` set (ev_tags e) \<Longrightarrow> ev_id e \<notin> ev_id ` snd ` stored \<Longrightarrow>
    (isEphemeral (ev_kind e) \<Longrightarrow> hasSubscribersForKind (rs_ephemeralTracker rs) (ev_kind e)) \<Longrightarrow>
    length j \<le> unat (events_maxEventSize cfg) \<Longrightarrow>
    answered L cfg now stored c ip (Some (''EVENT'', arr)) (rs, out) (rs, out @ [AddEvent c ip (pack e) j])"
| event_protected: "arr ! 1 = JObject ms \<Longrightarrow> authentic L cfg now ms e \<Longrightarrow> CHR ''-'' \<in> fst ` set (ev_tags e) \<Longrightarrow>
    answered L cfg now stored c ip (Some (''EVENT'', arr)) (rs, out)
      (sendOKResponse L c (to_hex L (ev_id e)) False ''blocked: event marked as protected'' rs, out)"
| event_stored: "arr ! 1 = JObject ms \<Longrightarrow> authentic L cfg now ms e \<Longrightarrow> CHR ''-'' \<notin> fst ` set (ev_tags e) \<Longrightarrow> ev_id e \<in> ev_id ` snd ` stored \<Longrightarrow>
    answered L cfg now stored c ip (Some (''EVENT'', arr)) (rs, out)
      (sendOKResponse L c (to_hex L (ev_id e)) True ''duplicate: have this event'' rs, out)"
| event_unheard: "json_find (arr ! 1) ''kind'' = Some (JUnsigned kind) \<Longrightarrow> isEphemeral kind \<Longrightarrow>
    \<not> hasSubscribersForKind (rs_ephemeralTracker rs) kind \<Longrightarrow>
    answered L cfg now stored c ip (Some (''EVENT'', arr)) (rs, out)
      (sendOKResponse L c (event_id_text (arr ! 1)) False ''blocked: no subscribers for ephemeral kind'' rs, out)"
| event_invalid: "parseAndVerifyEvent L cfg now (arr ! 1) True True = Inl e \<Longrightarrow>
    (is_object (arr ! 1) \<Longrightarrow> json_find (arr ! 1) ''id'' \<noteq> None) \<Longrightarrow>
    answered L cfg now stored c ip (Some (''EVENT'', arr)) (rs, out)
      (sendOKResponse L c (event_id_text (arr ! 1)) False (''invalid: '' @ why) rs, out)"
| event_without_id: "is_object (arr ! 1) \<Longrightarrow> json_find (arr ! 1) ''id'' = None \<Longrightarrow>
    answered L cfg now stored c ip (Some (''EVENT'', arr)) (rs, out) (sendNoticeError L c (''bad msg: '' @ why) rs, out)"
| query: "cmd = ''REQ'' \<or> cmd = ''COUNT'' \<Longrightarrow> asks_query L cfg c (cmd = ''COUNT'') arr sub \<Longrightarrow>
    answered L cfg now stored c ip (Some (cmd, arr)) (rs, out) (rs\<lparr>tpReqWorker := dispatch c (NewSub sub) (tpReqWorker rs)\<rparr>, out)"
| query_refused: "cmd = ''REQ'' \<or> cmd = ''COUNT'' \<Longrightarrow> \<nexists>sub. asks_query L cfg c (cmd = ''COUNT'') arr sub \<Longrightarrow>
    3 \<le> length arr \<Longrightarrow> arr ! 1 = JString s \<Longrightarrow> s \<noteq> [] \<Longrightarrow>
    answered L cfg now stored c ip (Some (cmd, arr)) (rs, out) (sendClosedError L c s (''bad req: '' @ why) rs, out)"
| query_without_id: "cmd = ''REQ'' \<or> cmd = ''COUNT'' \<Longrightarrow> \<nexists>sub. asks_query L cfg c (cmd = ''COUNT'') arr sub \<Longrightarrow>
    length arr < 3 \<or> (\<nexists>s. arr ! 1 = JString s \<and> s \<noteq> []) \<Longrightarrow>
    answered L cfg now stored c ip (Some (cmd, arr)) (rs, out) (sendNoticeError L c (''bad req: '' @ why) rs, out)"
| close: "asks_close arr subId \<Longrightarrow>
    answered L cfg now stored c ip (Some (''CLOSE'', arr)) (rs, out) (rs\<lparr>tpReqWorker := dispatch c (RemoveSub c subId) (tpReqWorker rs)\<rparr>, out)"
| close_refused: "\<nexists>subId. asks_close arr subId \<Longrightarrow>
    answered L cfg now stored c ip (Some (''CLOSE'', arr)) (rs, out) (sendNoticeError L c (''bad close: '' @ why) rs, out)"
| neg: "relay_negentropy_enabled cfg \<Longrightarrow> asks_neg L cfg c cmd arr m \<Longrightarrow>
    answered L cfg now stored c ip (Some (cmd, arr)) (rs, out) (rs\<lparr>tpNegentropy := dispatch c m (tpNegentropy rs)\<rparr>, out)"
| neg_refused: "relay_negentropy_enabled cfg \<Longrightarrow> starts_with cmd ''NEG-'' \<Longrightarrow> \<nexists>m. asks_neg L cfg c cmd arr m \<Longrightarrow>
    answered L cfg now stored c ip (Some (cmd, arr)) (rs, out) (sendNoticeError L c (''negentropy error: '' @ why) rs, out)"
| neg_disabled: "\<not> relay_negentropy_enabled cfg \<Longrightarrow> starts_with cmd ''NEG-'' \<Longrightarrow>
    answered L cfg now stored c ip (Some (cmd, arr)) (rs, out) (sendNoticeError L c ''bad msg: negentropy disabled'' rs, out)"

lemma answered_tpWriter: "answered L cfg now D c ip cmd (rs, out) (rs', out') \<Longrightarrow> tpWriter rs' = tpWriter rs"
  by (cases rule: answered.cases) (auto simp: send_defs)

lemma parsed_authentic:
  assumes "parseAndVerifyEvent L cfg now v True True = Inr (p, j)"
  obtains ms e where "v = JObject ms" "p = pack e" "authentic L cfg now ms e" "length j \<le> unat (events_maxEventSize cfg)"
proof -
  note P = parseAndVerifyEvent_Inr [OF assms]
  obtain ms where v: "v = JObject ms" using nostrJsonToPackedEvent_object [OF P(1)] by blast
  obtain e where e: "wf_event e" "p = pack e" "packed_from L ms e" using nostrJsonToPackedEvent_Inr P(1) v by blast
  have "in_window cfg (unat now) e" using P(2) e verifyEventTimestamp_pack [OF e(1)] by simp
  moreover have "verifyNostrEvent L (pack e) (JObject ms) = Inr ()" using P(3) e(2) v by simp
  ultimately have "authentic L cfg now ms e"
    using e(1,3) by (auto simp: authentic_def verifyNostrEvent_def nostrHash_def verifySig_def packed_simps split: if_splits)
  then show thesis using that v e(2) P(4) by simp
qed

lemma protected_event_pack:
  assumes "wf_event e"
  shows "protected_event (pack e) = Inr (CHR ''-'' \<in> fst ` set (ev_tags e))"
proof -
  have "iter_tags ts (\<lambda>tagName tagVal found. if tagName = CHR ''-'' then Inr (True, False) else Inr (found, True)) False
      = Inr (CHR ''-'' \<in> fst ` set ts)" for ts :: "(char \<times> bytes) list"
    by (induction ts) auto
  then show ?thesis using assms by (simp add: protected_event_def packed_simps)
qed

lemma ephemeral_drop_None:
  assumes "ephemeral_drop t (JObject ms) = Inr None" and "packed_from L ms e" and "isEphemeral (ev_kind e)"
  shows "hasSubscribersForKind t (ev_kind e)"
  using assms by (auto simp: ephemeral_drop_def packed_from_def split: if_splits)

lemma ingester_req_answered:
  assumes "cmd = ''REQ'' \<or> cmd = ''COUNT''"
  shows "answered L cfg now D c ip (Some (cmd, arr)) (rs, out) (ingester_req L cfg c arr (cmd = ''COUNT'') rs, out)"
proof -
  let ?cnt = "cmd = ''COUNT''"
  obtain s res where r: "ingesterProcessReq L cfg c arr ?cnt rs = (s, res)" by fastforce
  show ?thesis
  proof (cases res)
    case (Inl e)
    have no: "\<nexists>sub. asks_query L cfg c ?cnt arr sub"
      using r Inl by (auto simp: ingesterProcessReq_def asks_query_def Let_def jsonGetString_def)
    have id: "s \<noteq> [] \<Longrightarrow> 3 \<le> length arr \<and> arr ! 1 = JString s" "s = [] \<Longrightarrow> length arr < 3 \<or> (\<nexists>s. arr ! 1 = JString s \<and> s \<noteq> [])"
      using r by (auto simp: ingesterProcessReq_def jsonGetString_def split: if_split_asm sum.splits)
    have "ingester_req L cfg c arr ?cnt rs = (if s = [] then sendNoticeError L c (''bad req: '' @ what e) rs
        else sendClosedError L c s (''bad req: '' @ what e) rs)"
      using r Inl by (simp add: ingester_req_def)
    then show ?thesis
      using id query_refused [OF assms no] query_without_id [OF assms no] by presburger
  next
    case (Inr rs')
    then obtain sub where "rs' = rs\<lparr>tpReqWorker := dispatch c (NewSub sub) (tpReqWorker rs)\<rparr>" "asks_query L cfg c ?cnt arr sub"
      using r by (auto simp: ingesterProcessReq_def asks_query_def Let_def split: if_split_asm sum.splits)
    then show ?thesis using r Inr query [OF assms] by (simp add: ingester_req_def)
  qed
qed

lemma ingester_close_answered: "answered L cfg now D c ip (Some (''CLOSE'', arr)) (rs, out) (ingester_close L c arr rs, out)"
proof (cases "ingesterProcessClose c arr rs")
  case (Inl e)
  then have "\<nexists>subId. asks_close arr subId" by (auto simp: ingesterProcessClose_def asks_close_def jsonGetString_def)
  then show ?thesis unfolding ingester_close_def Inl sum.case by (rule close_refused)
next
  case (Inr rs')
  then obtain subId where "asks_close arr subId" "rs' = rs\<lparr>tpReqWorker := dispatch c (RemoveSub c subId) (tpReqWorker rs)\<rparr>"
    by (auto simp: ingesterProcessClose_def asks_close_def split: if_splits)
  then show ?thesis using Inr by (simp add: ingester_close_def close)
qed

lemma ingesterProcessNegentropy_iff:
  assumes "arr ! 0 = JString cmd"
  shows "ingesterProcessNegentropy L cfg c arr rs = Inr rs' \<longleftrightarrow>
    (\<exists>m. asks_neg L cfg c cmd arr m \<and> rs' = rs\<lparr>tpNegentropy := dispatch c m (tpNegentropy rs)\<rparr>)"
proof -
  have not_le: "(\<not> n \<le> length arr) = (length arr < n)" for n by auto
  consider "cmd = ''NEG-OPEN''" | "cmd = ''NEG-MSG''" | "cmd = ''NEG-CLOSE''" | "cmd \<notin> {''NEG-OPEN'', ''NEG-MSG'', ''NEG-CLOSE''}" by blast
  then show ?thesis
  proof cases
    case 1
    then show ?thesis
      using assms by (fastforce simp: ingesterProcessNegentropy_def asks_neg_def mkSubscription_def arr_at_def Let_def split: if_split_asm)
  next
    case 2
    then show ?thesis using assms by (fastforce simp: ingesterProcessNegentropy_def asks_neg_def arr_at_def split: if_split_asm)
  next
    case 3
    then show ?thesis using assms by (auto simp: ingesterProcessNegentropy_def asks_neg_def)
  next
    case 4
    then show ?thesis using assms by (simp add: ingesterProcessNegentropy_def asks_neg_def)
  qed
qed

lemma ingester_negentropy_answered:
  assumes "relay_negentropy_enabled cfg" and "starts_with cmd ''NEG-''" and "arr ! 0 = JString cmd"
  shows "answered L cfg now D c ip (Some (cmd, arr)) (rs, out) (ingester_negentropy L cfg c arr rs, out)"
proof (cases "ingesterProcessNegentropy L cfg c arr rs")
  case (Inl e)
  then have "\<nexists>m. asks_neg L cfg c cmd arr m" using ingesterProcessNegentropy_iff [OF assms(3), of L cfg c rs] by auto
  then show ?thesis unfolding ingester_negentropy_def Inl sum.case by (rule neg_refused [OF assms(1,2)])
next
  case (Inr rs')
  then obtain m where m: "asks_neg L cfg c cmd arr m" "rs' = rs\<lparr>tpNegentropy := dispatch c m (tpNegentropy rs)\<rparr>"
    using ingesterProcessNegentropy_iff [OF assms(3)] by blast
  show ?thesis unfolding ingester_negentropy_def Inr sum.case m(2) by (rule neg [OF assms(1) m(1)])
qed

text \<open>The ways through the outer \<open>try\<close> block.\<close>

lemma starts_with_1: "starts_with s [x] \<longleftrightarrow> s \<noteq> [] \<and> hd s = x"
  by (cases s) (simp_all add: starts_with_def)

lemma ingester_command_Some:
  assumes "client_command L payload = Some (cmd, arr)"
  shows "arr ! 0 = JString cmd" and "ingester_command E L cfg now txn c ip payload (rs, out) =
    (if cmd = ''EVENT'' then ingester_event E L cfg now txn c ip arr (rs, out)
     else if cmd = ''REQ'' \<or> cmd = ''COUNT'' then Inr (ingester_req L cfg c arr (cmd = ''COUNT'') rs, out)
     else if cmd = ''CLOSE'' then Inr (ingester_close L c arr rs, out)
     else if starts_with cmd ''NEG-'' then
       if \<not> relay_negentropy_enabled cfg then Inl (Herr ''negentropy disabled'')
       else Inr (ingester_negentropy L cfg c arr rs, out)
     else Inl (Herr ''unknown cmd''))"
proof -
  obtain x xs where "payload \<noteq> [] \<and> hd payload = CHR ''[''" "json_from_string L payload = Inr (JArray arr)" "arr = JString cmd # x # xs"
    using assms by (auto simp: client_command_def split: if_split_asm sum.splits json.splits list.splits)
  then show "arr ! 0 = JString cmd" "ingester_command E L cfg now txn c ip payload (rs, out) =
    (if cmd = ''EVENT'' then ingester_event E L cfg now txn c ip arr (rs, out)
     else if cmd = ''REQ'' \<or> cmd = ''COUNT'' then Inr (ingester_req L cfg c arr (cmd = ''COUNT'') rs, out)
     else if cmd = ''CLOSE'' then Inr (ingester_close L c arr rs, out)
     else if starts_with cmd ''NEG-'' then
       if \<not> relay_negentropy_enabled cfg then Inl (Herr ''negentropy disabled'')
       else Inr (ingester_negentropy L cfg c arr rs, out)
     else Inl (Herr ''unknown cmd''))"
    by (simp_all add: ingester_command_def starts_with_1 jsonGetArray_def jsonGetString_def)
qed

lemma ingester_command_None:
  assumes "client_command L payload = None"
  shows "if payload = [CHR 0x0A] then ingester_command E L cfg now txn c ip payload (rs, out) = Inr (rs, out)
    else \<exists>e. ingester_command E L cfg now txn c ip payload (rs, out) = Inl e"
proof (cases "payload \<noteq> [] \<and> hd payload = CHR ''[''")
  case False
  then show ?thesis by (auto simp: ingester_command_def starts_with_1)
next
  case True
  have "ingester_command E L cfg now txn c ip payload (rs, out) \<noteq> Inr r" for r
  proof
    assume R: "ingester_command E L cfg now txn c ip payload (rs, out) = Inr r"
    obtain arr where v: "json_from_string L payload = Inr (JArray arr)" using R True by (auto simp: ingester_command_def starts_with_1)
    then have len: "\<not> length arr < 2" using R True by (auto simp: ingester_command_def starts_with_1)
    then obtain cmd where cmd: "arr ! 0 = JString cmd" using R True v by (auto simp: ingester_command_def starts_with_1)
    from len cmd obtain x xs where "arr = JString cmd # x # xs" by (cases arr; cases "tl arr") auto
    then show False using assms True v by (simp add: client_command_def)
  qed
  then show ?thesis using True by (cases "ingester_command E L cfg now txn c ip payload (rs, out)") auto
qed

text \<open>An event whose kind is a negative number fails in both places.\<close>

lemma ephemeral_drop_Inl:
  assumes "ephemeral_drop t v = Inl e"
  shows "\<exists>e'. parseAndVerifyEvent L cfg now v True True = Inl e'"
proof (cases "parseAndVerifyEvent L cfg now v True True")
  case (Inr r)
  obtain p j where "r = (p, j)" by fastforce
  with Inr obtain ms e' where v: "v = JObject ms" and "authentic L cfg now ms e'" using parsed_authentic by blast
  then have "packed_from L ms e'" by (simp add: authentic_def)
  then show ?thesis using assms v by (auto simp: packed_from_def ephemeral_drop_def split: if_splits)
qed simp

lemma event_id_reply:
  "(if is_object v then rbind (json_at v ''id'') (\<lambda>i. if is_string i then get_string i else Inr ''?'') else Inr ''?'') =
    (if is_object v \<and> json_find v ''id'' = None then Inl OutOfRange else Inr (event_id_text v))"
  by (cases v) (auto simp: event_id_text_def split: option.splits json.splits)

context golpe_env
begin

lemma ingesterProcessEvent_answered:
  assumes T: "wf_store (view txn)" and v0: "arr ! 1 = v" and R: "ingesterProcessEvent E L cfg now txn c ip v (rs, out) = Inr r"
  shows "answered L cfg now (set (events_of (view txn))) c ip (Some (''EVENT'', arr)) (rs, out) r"
proof -
  obtain dr where dr: "ephemeral_drop (rs_ephemeralTracker rs) v = Inr dr" using R by (auto simp: ingesterProcessEvent_def)
  show ?thesis
  proof (cases dr)
    case (Some eventId)
    then obtain kind where "json_find v ''kind'' = Some (JUnsigned kind)" "isEphemeral kind" "\<not> hasSubscribersForKind (rs_ephemeralTracker rs) kind"
      "eventId = event_id_text v"
      using dr by (auto simp: ephemeral_drop_def event_id_text_def split: if_split_asm option.splits)
    then show ?thesis using R dr Some event_unheard [of arr, unfolded v0] by (auto simp: ingesterProcessEvent_def)
  next
    case None
    then obtain p j where pj: "parseAndVerifyEvent L cfg now v True True = Inr (p, j)" using R dr by (auto simp: ingesterProcessEvent_def)
    then obtain ms e where v: "v = JObject ms" "p = pack e" and a: "authentic L cfg now ms e" and j: "length j \<le> unat (events_maxEventSize cfg)"
      by (rule parsed_authentic)
    have e: "wf_event e" "packed_from L ms e" using a by (simp_all add: authentic_def)
    note simps = ingesterProcessEvent_def dr None pj v(2) PackedEventView_pack [OF e(1)] protected_event_pack [OF e(1)] packed_simps(1) [OF e(1)]
    have ex: "eventExistsById E txn (ev_id e) \<longleftrightarrow> ev_id e \<in> ev_id ` snd ` set (events_of (view txn))"
      using eventExistsById_wf [OF T, of "ev_id e"] e(1) by (force simp: wf_event_def image_image image_iff case_prod_beta)
    have cases: "r = (if CHR ''-'' \<in> fst ` set (ev_tags e) then
        (sendOKResponse L c (to_hex L (ev_id e)) False ''blocked: event marked as protected'' rs, out)
      else if eventExistsById E txn (ev_id e) then (sendOKResponse L c (to_hex L (ev_id e)) True ''duplicate: have this event'' rs, out)
      else (rs, out @ [AddEvent c ip (pack e) j]))"
      using R e(1) by (simp add: simps packed_simps split: if_split_asm)
    consider "CHR ''-'' \<in> fst ` set (ev_tags e)" | "CHR ''-'' \<notin> fst ` set (ev_tags e)" "eventExistsById E txn (ev_id e)"
      | "CHR ''-'' \<notin> fst ` set (ev_tags e)" "\<not> eventExistsById E txn (ev_id e)" by blast
    then show ?thesis
    proof cases
      case 1
      then show ?thesis unfolding cases using event_protected [OF v0 [unfolded v(1)] a 1] by simp
    next
      case 2
      then show ?thesis unfolding cases using event_stored [OF v0 [unfolded v(1)] a 2(1)] ex by simp
    next
      case 3
      then have "r = (rs, out @ [AddEvent c ip (pack e) j])" unfolding cases by simp
      then show ?thesis using 3 dr None v ex j by (auto intro!: answered.event [OF v0 [unfolded v(1)] a] ephemeral_drop_None [OF _ e(2)])
    qed
  qed
qed

lemma ingester_event_answered:
  assumes T: "wf_store (view txn)"
    and v: "arr ! 1 = v"
  shows "answered L cfg now (set (events_of (view txn))) c ip (Some (''EVENT'', arr)) (rs, out)
    (case ingester_event E L cfg now txn c ip arr (rs, out) of Inr r \<Rightarrow> r | Inl e \<Rightarrow> (sendNoticeError L c (''bad msg: '' @ what e) rs, out))"
proof (cases "ingesterProcessEvent E L cfg now txn c ip v (rs, out)")
  case (Inr r)
  then show ?thesis using ingesterProcessEvent_answered [OF T v Inr] unfolding ingester_event_def v by simp
next
  case (Inl e)
  have "\<exists>e'. parseAndVerifyEvent L cfg now v True True = Inl e'"
  proof (rule ccontr)
    assume "\<nexists>e'. parseAndVerifyEvent L cfg now v True True = Inl e'"
    then obtain p j where pj: "parseAndVerifyEvent L cfg now v True True = Inr (p, j)"
      by (cases "parseAndVerifyEvent L cfg now v True True") auto
    then obtain ms e' where "p = pack e'" "authentic L cfg now ms e'" using parsed_authentic by metis
    moreover obtain dr where "ephemeral_drop (rs_ephemeralTracker rs) v = Inr dr"
      using ephemeral_drop_Inl [where L = L and cfg = cfg and now = now] pj
      by (cases "ephemeral_drop (rs_ephemeralTracker rs) v") (metis Inl_Inr_False, blast)
    ultimately show False
      using Inl pj by (auto simp: ingesterProcessEvent_def authentic_def PackedEventView_pack protected_event_pack split: option.splits if_splits)
  qed
  then obtain e' where e': "parseAndVerifyEvent L cfg now v True True = Inl e'" by blast
  show ?thesis
  proof (cases "is_object v \<and> json_find v ''id'' = None")
    case True
    then have "ingester_event E L cfg now txn c ip arr (rs, out) = Inl OutOfRange" unfolding ingester_event_def v event_id_reply using Inl by simp
    then show ?thesis using True by (simp only: sum.case) (rule event_without_id, unfold v, blast+)
  next
    case False
    have "is_object v \<Longrightarrow> json_find v ''id'' \<noteq> None" using False by simp
    from event_invalid [of _ _ _ arr, unfolded v, OF e' this] show ?thesis
      unfolding ingester_event_def v event_id_reply Inl prod.case sum.case if_not_P [OF False] rbind_simps .
  qed
qed

end

section \<open>Properties\<close>

text \<open>C10: Every message of a client is dealt with in exactly the way its command calls for, and a lone newline is ignored.  An
  \<open>EVENT\<close> goes to the writer once, or else gets exactly one reply: \<open>OK\<close> false when it is invalid, protected or of an
  ephemeral kind that nobody listens for, \<open>OK\<close> true when it is stored already, and a \<open>NOTICE\<close> when it is invalid and has no
  id to name.  The writer only gets events that are well formed, inside the time window and of acceptable size, whose id is the hash of
  their fields and whose signature is valid, that are not protected, not stored yet, and for which someone listens if they
  are ephemeral.  A \<open>REQ\<close>, \<open>COUNT\<close>, \<open>CLOSE\<close> or \<open>NEG-\<close> command becomes one message to the thread that runs the
  queries or the negentropy sessions of its connection, exactly when it is acceptable, and else gets exactly one \<open>CLOSED\<close> or \<open>NOTICE\<close>; so
  does every other text.  Nothing a client sends makes the thread throw.\<close>

theorem ingester_answers_once:
  assumes "golpe_env E view" and "wf_store (view txn)"
  shows "if payload = [CHR 0x0A] then ingester_msg E L cfg now txn (ClientMessage connId ipAddr payload) (rs, output) = (rs, output)
    else answered L cfg now (set (events_of (view txn))) connId ipAddr (client_command L payload) (rs, output)
      (ingester_msg E L cfg now txn (ClientMessage connId ipAddr payload) (rs, output))"
proof (cases "client_command L payload")
  case None
  then show ?thesis
    using ingester_command_None [OF None, where E = E and cfg = cfg and now = now and txn = txn and c = connId and ip = ipAddr and rs = rs and out = "output"] unreadable
    by (auto simp: ingester_msg_def split: if_splits)
next
  case (Some m)
  obtain cmd arr where m: "m = (cmd, arr)" by fastforce
  note command = ingester_command_Some [OF Some [unfolded m]]
  have newline: "payload \<noteq> [CHR 0x0A]" using Some by (auto simp: client_command_def)
  note ev = golpe_env.ingester_event_answered [OF assms refl]
  show ?thesis
    using newline ev ingester_req_answered ingester_close_answered ingester_negentropy_answered [OF _ _ command(1)] unknown neg_disabled
    by (simp add: Some m ingester_msg_def command(2))
qed

definition empty_pool :: "'m ThreadPool" where
  "empty_pool = \<lparr>numThreads = 1, inbox = (\<lambda>_. [])\<rparr>"

definition sample_relay :: RelayServer where
  "sample_relay = \<lparr>rs_ephemeralTracker = new_EphemeralSubTracker, tpWebsocket = empty_pool, tpIngester = empty_pool,
     tpWriter = empty_pool, tpReqWorker = empty_pool, tpReqMonitor = empty_pool, tpNegentropy = empty_pool\<rparr>"

definition empty_tables :: tables where
  "empty_tables = \<lparr>t_events = [], t_payload = Map.empty, t_meta = None, t_negFilters = [], t_trees = (\<lambda>_. {})\<rparr>"

definition event_libs :: libs where
  "event_libs = sample_libs\<lparr>json_from_string := (\<lambda>_. Inr (JArray [JString ''EVENT'', sample_json]))\<rparr>"

lemma event_libs_parses: "parseAndVerifyEvent event_libs default_cfg 1010 sample_json True True = Inr (sample_packed, ''{}'')"
proof -
  have eqs: "from_hex event_libs = from_hex sample_libs" "json_to_string event_libs = json_to_string sample_libs" "SHA256 event_libs = SHA256 sample_libs"
    "xonly_pubkey_parse event_libs = xonly_pubkey_parse sample_libs" "schnorrsig_verify event_libs = schnorrsig_verify sample_libs"
    by (simp_all add: event_libs_def)
  have "parse_tag event_libs = parse_tag sample_libs" by (intro ext) (unfold parse_tag_def add_tag_def eqs, rule refl)
  then have "nostrJsonToPackedEvent event_libs = nostrJsonToPackedEvent sample_libs"
    by (intro ext) (simp only: nostrJsonToPackedEvent_def event_fields_def event_tags_def eqs)
  moreover have "verifyNostrEvent event_libs = verifyNostrEvent sample_libs"
    by (intro ext) (simp only: verifyNostrEvent_def nostrHash_def verifySig_def eqs)
  ultimately show ?thesis using sample_parses by (simp only: parseAndVerifyEvent_def eqs)
qed

lemma event_libs_command:
  assumes "t_events T = []"
  shows "ingester_command mem_env event_libs default_cfg 1010 T 7 ''ip'' ''[]'' (rs, out) = Inr (rs, out @ [AddEvent 7 ''ip'' sample_packed ''{}''])"
proof -
  have "ingester_command mem_env event_libs default_cfg 1010 T 7 ''ip'' ''[]'' (rs, out) =
      ingester_event mem_env event_libs default_cfg 1010 T 7 ''ip'' [JString ''EVENT'', sample_json] (rs, out)"
    by (simp add: ingester_command_def starts_with_def jsonGetArray_def jsonGetString_def) (simp add: event_libs_def jsonGetArray_def jsonGetString_def)
  moreover have "eventExistsById mem_env T x = False" for x
    using assms by (simp add: eventExistsById_def lookupEventById_def mem_env_def mem_foreachFull_def entries_def)
  moreover have "ephemeral_drop (rs_ephemeralTracker rs) sample_json = Inr None"
    by (simp add: ephemeral_drop_def sample_json_def isEphemeral_def)
  moreover have "protected_event sample_packed = Inr False" "PackedEventView sample_packed = Inr sample_packed"
    using protected_event_pack [OF sample_wf] PackedEventView_pack [OF sample_wf] by (simp_all add: sample_packed_def sample_ev_def)
  ultimately show ?thesis by (simp add: ingester_event_def ingesterProcessEvent_def event_libs_parses)
qed

theorem ingester_answers_once_witness:
  "\<exists>r. ingester_msg mem_env event_libs default_cfg 1010 empty_tables (ClientMessage 7 ''ip'' ''[]'') (sample_relay, []) = r \<and>
     snd r = [AddEvent 7 ''ip'' sample_packed ''{}''] \<and>
     answered event_libs default_cfg 1010 {} 7 ''ip'' (Some (''EVENT'', [JString ''EVENT'', sample_json])) (sample_relay, []) r"
proof -
  have W: "wf_store empty_tables" "events_of empty_tables = []" by (simp_all add: empty_tables_def wf_store_def tables_ok_def events_of_def)
  have "ingester_command mem_env event_libs default_cfg 1010 empty_tables 7 ''ip'' ''[]'' (sample_relay, []) =
      Inr (sample_relay, [AddEvent 7 ''ip'' sample_packed ''{}''])"
    using event_libs_command [of empty_tables sample_relay "[]"] by (simp add: empty_tables_def)
  moreover have "client_command event_libs ''[]'' = Some (''EVENT'', [JString ''EVENT'', sample_json])"
    by (simp add: client_command_def event_libs_def)
  ultimately show ?thesis
    using ingester_answers_once [OF mem.golpe_env_axioms W(1), of "''[]''" event_libs default_cfg 1010 7 "''ip''" sample_relay "[]"]
    by (simp add: ingester_msg_def W(2))
qed

end
