(* ===== verification/PluginEventSifter.thy ===== *)
theory PluginEventSifter
  imports Config
begin

text \<open>
  \<open>src/PluginEventSifter.h\<close> and the event sources of \<open>src/events.h\<close>: asking an external program whether an
  event may be written.  The program and the operating system are the parameter \<open>plugin_io\<close>: functions on
  a state of the outside world.  The loop that skips lines which are no JSON is a \<open>while_flow\<close> loop, so that
  \<open>None\<close> is a program that sends such lines forever.
\<close>

datatype EventSourceType = NoSource | IP4 | IP6 | Import | Stream | Sync | Stored

definition eventSourceTypeToStr :: "EventSourceType \<Rightarrow> string" where
  "eventSourceTypeToStr t =
     (if t = IP4 then ''IP4'' else if t = IP6 then ''IP6'' else if t = Import then ''Import''
      else if t = Stream then ''Stream'' else if t = Sync then ''Sync'' else ''?'')"

datatype PluginEventSifterResult = Accept | Reject | ShadowReject

text \<open>
  \<open>pio_stat\<close> is the time of the last modification, \<open>pio_spawn\<close> starts the program with its pipes, \<open>pio_kill\<close> ends
  it, \<open>pio_poll\<close> is false on a timeout, \<open>pio_fgets\<close> has no line when the pipe is closed.
\<close>

record 'w plugin_io =
  pio_stat :: "string \<Rightarrow> 'w \<Rightarrow> (int \<times> int) option \<times> 'w"
  pio_spawn :: "string \<Rightarrow> 'w \<Rightarrow> unit result \<times> 'w"
  pio_kill :: "'w \<Rightarrow> 'w"
  pio_time :: "'w \<Rightarrow> int \<times> 'w"
  pio_renderIP :: "string \<Rightarrow> string result"
  pio_fwrite :: "string \<Rightarrow> 'w \<Rightarrow> bool \<times> 'w"
  pio_poll :: "'w \<Rightarrow> bool \<times> 'w"
  pio_fgets :: "'w \<Rightarrow> string option \<times> 'w"

record RunningPlugin =
  currPluginCmd :: string
  lastModTime :: "(int \<times> int) option"

type_synonym 'w sifter = "RunningPlugin option \<times> 'w"

definition reset_plugin :: "'w plugin_io \<Rightarrow> 'w sifter \<Rightarrow> 'w sifter" where
  "reset_plugin io = (\<lambda>(running, w). (None, if running \<noteq> None then pio_kill io w else w))"

text \<open>A program whose command has no space is started again when its file has changed.\<close>

definition check_plugin :: "'w plugin_io \<Rightarrow> string \<Rightarrow> 'w sifter \<Rightarrow> unit result \<times> 'w sifter" where
  "check_plugin io pluginCmd = (\<lambda>(running, w).
     case running of
       None \<Rightarrow> (Inr (), running, w)
     | Some r \<Rightarrow>
         if pluginCmd \<noteq> currPluginCmd r then (Inr (), reset_plugin io (running, w))
         else if CHR '' '' \<notin> set pluginCmd then
           let (statbuf, w) = pio_stat io pluginCmd w in
           (case statbuf of
              None \<Rightarrow> (Inl (Herr (''couldn't stat plugin: '' @ pluginCmd)), running, w)
            | Some mtime \<Rightarrow> (Inr (), if Some mtime \<noteq> lastModTime r then reset_plugin io (running, w) else (running, w)))
         else (Inr (), running, w))"

definition setupPlugin :: "'w plugin_io \<Rightarrow> string \<Rightarrow> 'w sifter \<Rightarrow> unit result \<times> 'w sifter" where
  "setupPlugin io pluginCmd = (\<lambda>(running, w).
     let (res, w) = pio_spawn io pluginCmd w in
     case res of
       Inl e \<Rightarrow> (Inl e, running, w)
     | Inr _ \<Rightarrow>
         if CHR '' '' \<notin> set pluginCmd then
           let (statbuf, w) = pio_stat io pluginCmd w in
           (case statbuf of
              None \<Rightarrow> (Inl (Herr (''couldn't stat plugin: '' @ pluginCmd)), running, w)
            | Some mtime \<Rightarrow> (Inr (), Some \<lparr>currPluginCmd = pluginCmd, lastModTime = Some mtime\<rparr>, w))
         else (Inr (), Some \<lparr>currPluginCmd = pluginCmd, lastModTime = None\<rparr>, w))"

definition plugin_request :: "'w plugin_io \<Rightarrow> json \<Rightarrow> int \<Rightarrow> EventSourceType \<Rightarrow> string \<Rightarrow> json result" where
  "plugin_request io evJson receivedAt sourceType sourceInfo =
     rbind (if sourceType = IP4 \<or> sourceType = IP6 then pio_renderIP io sourceInfo else Inr sourceInfo) (\<lambda>info.
       Inr (JObject [(''event'', evJson), (''receivedAt'', JSigned receivedAt), (''sourceInfo'', JString info),
         (''sourceType'', JString (eventSourceTypeToStr sourceType)), (''type'', JString ''new'')]))"

definition check_response :: "json \<Rightarrow> json \<Rightarrow> json result" where
  "check_response request response =
     rbind (json_at response ''id'') (\<lambda>i. rbind (get_string i) (\<lambda>s.
     rbind (json_at request ''event'') (\<lambda>ev. rbind (json_at ev ''id'') (\<lambda>i'. rbind (get_string i') (\<lambda>s'.
       if s \<noteq> s' then Inl (Herr ''id mismatch'') else Inr response)))))"

definition read_body ::
  "libs \<Rightarrow> 'w plugin_io \<Rightarrow> string \<Rightarrow> json \<Rightarrow> 'w \<Rightarrow> ('w, json result \<times> 'w) flow option" where
  "read_body L io output request w =
     (let (readable, w) = pio_poll io w in
      if \<not> readable then Some (Done (Inl (Herr (''Timed out reading response from plugin. Request: '' @ output)), w))
      else
        let (line, w) = pio_fgets io w in
        case line of
          None \<Rightarrow> Some (Done (Inl (Herr ''pipe to plugin was closed (plugin crashed?)''), w))
        | Some buf \<Rightarrow>
            (case json_from_string L buf of
               Inl _ \<Rightarrow> Some (Next w)
             | Inr response \<Rightarrow> Some (Done (check_response request response, w))))"

definition read_response :: "libs \<Rightarrow> 'w plugin_io \<Rightarrow> string \<Rightarrow> json \<Rightarrow> 'w \<Rightarrow> (json result \<times> 'w) option" where
  "read_response L io output request w = while_flow (read_body L io output request) w"

text \<open>The message may be missing, but if it is there it has to be a string.\<close>

definition plugin_verdict :: "json \<Rightarrow> (PluginEventSifterResult \<times> string) result" where
  "plugin_verdict response =
     rbind (case json_find response ''msg'' of None \<Rightarrow> Inr '''' | Some v \<Rightarrow> get_string v) (\<lambda>okMsg.
     rbind (json_at response ''action'') (\<lambda>a. rbind (get_string a) (\<lambda>action.
       if action = ''accept'' then Inr (Accept, okMsg)
       else if action = ''reject'' then Inr (Reject, okMsg)
       else if action = ''shadowReject'' then Inr (ShadowReject, okMsg)
       else Inl (Herr (''unknown action: '' @ action)))))"

text \<open>The body of the \<open>try\<close> block: the program is checked and started, asked, and its answer is read.\<close>

definition ask_plugin ::
  "libs \<Rightarrow> 'w plugin_io \<Rightarrow> string \<Rightarrow> json \<Rightarrow> EventSourceType \<Rightarrow> string \<Rightarrow> 'w sifter \<Rightarrow>
   ((PluginEventSifterResult \<times> string) result \<times> 'w sifter) option" where
  "ask_plugin L io pluginCmd evJson sourceType sourceInfo s =
     (let (res, s) = check_plugin io pluginCmd s in
      case res of Inl e \<Rightarrow> Some (Inl e, s) | Inr _ \<Rightarrow>
      let (res, s) = (if fst s = None then setupPlugin io pluginCmd s else (Inr (), s)) in
      case res of Inl e \<Rightarrow> Some (Inl e, s) | Inr _ \<Rightarrow>
      let (receivedAt, w) = pio_time io (snd s) in
      case plugin_request io evJson receivedAt sourceType sourceInfo of
        Inl e \<Rightarrow> Some (Inl e, fst s, w)
      | Inr request \<Rightarrow>
          let output = json_to_string L request @ [CHR 0x0A]; (ok, w) = pio_fwrite io output w in
          if \<not> ok then Some (Inl (Herr ''error writing to plugin''), fst s, w)
          else map_option (\<lambda>(response, w). (rbind response plugin_verdict, fst s, w)) (read_response L io output request w))"

definition acceptEvent ::
  "libs \<Rightarrow> 'w plugin_io \<Rightarrow> string \<Rightarrow> json \<Rightarrow> EventSourceType \<Rightarrow> string \<Rightarrow> 'w sifter \<Rightarrow>
   (PluginEventSifterResult \<times> string \<times> 'w sifter) option" where
  "acceptEvent L io pluginCmd evJson sourceType sourceInfo s =
     (if length pluginCmd = 0 then Some (Accept, '''', reset_plugin io s)
      else map_option (\<lambda>(res, s). case res of
          Inr (verdict, okMsg) \<Rightarrow> (verdict, okMsg, s)
        | Inl e \<Rightarrow> (Reject, ''error: internal error'', reset_plugin io s))
        (ask_plugin L io pluginCmd evJson sourceType sourceInfo s))"

section \<open>Properties\<close>

text \<open>
  What the program answers, in the world \<open>w\<close> in which it has been asked: the first of the lines that \<open>fgets\<close> reads from it that
  is JSON.
\<close>

inductive hears :: "libs \<Rightarrow> 'w plugin_io \<Rightarrow> 'w \<Rightarrow> json \<Rightarrow> 'w \<Rightarrow> bool" for L io where
  hears_json: "pio_poll io w = (True, w1) \<Longrightarrow> pio_fgets io w1 = (Some line, w2) \<Longrightarrow> json_from_string L line = Inr v \<Longrightarrow> hears L io w v w2"
| hears_skip: "pio_poll io w = (True, w1) \<Longrightarrow> pio_fgets io w1 = (Some line, w2) \<Longrightarrow> json_from_string L line = Inl e \<Longrightarrow>
    hears L io w2 v w3 \<Longrightarrow> hears L io w v w3"

text \<open>The program of the command runs, started now if need be, and has been sent the event in one line; \<open>w\<close> is the world after that.\<close>

definition consulted ::
  "libs \<Rightarrow> 'w plugin_io \<Rightarrow> string \<Rightarrow> json \<Rightarrow> EventSourceType \<Rightarrow> string \<Rightarrow> 'w sifter \<Rightarrow> RunningPlugin \<Rightarrow> 'w \<Rightarrow> bool" where
  "consulted L io pluginCmd evJson sourceType sourceInfo s running w \<longleftrightarrow>
     (\<exists>s1 w1 now w2 request. check_plugin io pluginCmd s = (Inr (), s1) \<and>
       (if fst s1 = None then setupPlugin io pluginCmd s1 = (Inr (), Some running, w1) else s1 = (Some running, w1)) \<and>
       pio_time io w1 = (now, w2) \<and> plugin_request io evJson now sourceType sourceInfo = Inr request \<and>
       pio_fwrite io (json_to_string L request @ [CHR 0x0A]) w2 = (True, w))"

definition action_text :: "PluginEventSifterResult \<Rightarrow> string" where
  "action_text v = (case v of Accept \<Rightarrow> ''accept'' | Reject \<Rightarrow> ''reject'' | ShadowReject \<Rightarrow> ''shadowReject'')"

definition answers :: "json \<Rightarrow> json \<Rightarrow> PluginEventSifterResult \<Rightarrow> string \<Rightarrow> bool" where
  "answers evJson response verdict okMsg \<longleftrightarrow>
     (\<exists>eventId. json_find response ''id'' = Some (JString eventId) \<and> json_find evJson ''id'' = Some (JString eventId)) \<and>
     json_find response ''action'' = Some (JString (action_text verdict)) \<and>
     (case json_find response ''msg'' of None \<Rightarrow> okMsg = [] | Some v \<Rightarrow> v = JString okMsg)"

lemma read_response_hears:
  assumes "read_response L io output request w = Some (Inr response, w')"
  shows "check_response request response = Inr response \<and> hears L io w response w'"
proof -
  have "case (Inr response :: json result, w') of (Inl _, _) \<Rightarrow> True | (Inr v, w') \<Rightarrow>
      check_response request v = Inr v \<and> hears L io w v w'"
    using assms [unfolded read_response_def]
  proof (rule while_flow_partial [where I = "\<lambda>w0. \<forall>v w'. hears L io w0 v w' \<longrightarrow> hears L io w v w'"])
    fix w0 f assume I: "\<forall>v w'. hears L io w0 v w' \<longrightarrow> hears L io w v w'" and body: "read_body L io output request w0 = Some f"
    obtain b w1 where poll: "pio_poll io w0 = (b, w1)" by fastforce
    obtain line w2 where gets: "pio_fgets io w1 = (line, w2)" by fastforce
    have json: "hears L io w v w2" if "b" "line = Some buf" "json_from_string L buf = Inr v" for buf v
      using I hears_json [of io w0 w1 buf w2 L v] poll gets that by simp
    have skip: "hears L io w v w3" if "b" "line = Some buf" "json_from_string L buf = Inl e" "hears L io w2 v w3" for buf e v w3
      using I hears_skip [of io w0 w1 buf w2 L e v w3] poll gets that by simp
    show "case f of Done r \<Rightarrow> (case r of (Inl _, _) \<Rightarrow> True | (Inr v, w') \<Rightarrow> check_response request v = Inr v \<and> hears L io w v w')
        | Next w0 \<Rightarrow> \<forall>v w'. hears L io w0 v w' \<longrightarrow> hears L io w v w'"
      using body json skip
      by (auto simp: read_body_def check_response_def poll gets Let_def split: if_splits option.splits sum.splits)
  qed simp
  then show ?thesis by simp
qed

lemma check_plugin_running: "check_plugin io cmd s = (Inr (), Some r, w) \<Longrightarrow> currPluginCmd r = cmd"
  by (auto simp: check_plugin_def reset_plugin_def split: option.splits if_splits prod.splits)

lemma setupPlugin_running: "setupPlugin io cmd s = (Inr (), r, w) \<Longrightarrow> \<exists>r'. r = Some r' \<and> currPluginCmd r' = cmd"
  by (auto simp: setupPlugin_def split: option.splits if_splits prod.splits sum.splits)

lemma consulted_running:
  "consulted L io pluginCmd evJson sourceType sourceInfo s running w \<Longrightarrow> currPluginCmd running = pluginCmd"
  by (auto simp: consulted_def dest: check_plugin_running setupPlugin_running split: if_splits)

lemma plugin_verdict_answers:
  assumes "check_response request response = Inr response" and "plugin_request io evJson now src info = Inr request"
    and "plugin_verdict response = Inr (verdict, okMsg)"
  shows "answers evJson response verdict okMsg"
proof -
  have "json_at request ''event'' = Inr evJson" using assms(2) by (auto simp: plugin_request_def split: if_split_asm)
  then obtain eventId where "json_at response ''id'' = Inr (JString eventId)" "json_at evJson ''id'' = Inr (JString eventId)"
    using assms(1) by (auto simp: check_response_def simp del: json_at_eq_Inr split: if_splits)
  moreover have "json_find response ''action'' = Some (JString (action_text verdict))"
    "case json_find response ''msg'' of None \<Rightarrow> okMsg = [] | Some v \<Rightarrow> v = JString okMsg"
    using assms(3) by (auto simp: plugin_verdict_def action_text_def split: if_splits option.splits)
  ultimately show ?thesis by (auto simp: answers_def)
qed

lemma ask_plugin_Inr:
  assumes "ask_plugin L io pluginCmd evJson sourceType sourceInfo s = Some (Inr (verdict, okMsg), s')"
  obtains running w response w' where "s' = (Some running, w')" "consulted L io pluginCmd evJson sourceType sourceInfo s running w"
    "hears L io w response w'" "answers evJson response verdict okMsg"
proof -
  obtain s1 where s1: "check_plugin io pluginCmd s = (Inr (), s1)"
    using assms by (auto simp: ask_plugin_def Let_def split: prod.splits sum.splits)
  obtain r2 w2 where s2: "(if fst s1 = None then setupPlugin io pluginCmd s1 else (Inr (), s1)) = (Inr (), r2, w2)"
    using assms by (auto simp: ask_plugin_def Let_def s1 split: prod.splits sum.splits)
  then obtain running where r2: "r2 = Some running"
    using setupPlugin_running [of io pluginCmd s1 r2 w2] by (cases "fst s1") auto
  obtain now w3 where t: "pio_time io w2 = (now, w3)" by fastforce
  obtain request where q: "plugin_request io evJson now sourceType sourceInfo = Inr request"
    using assms by (auto simp: ask_plugin_def Let_def s1 s2 t split: sum.splits prod.splits)
  obtain w4 where f: "pio_fwrite io (json_to_string L request @ [CHR 0x0A]) w3 = (True, w4)"
    using assms by (auto simp: ask_plugin_def Let_def s1 s2 t q split: prod.splits if_splits)
  obtain response w' where rd: "read_response L io (json_to_string L request @ [CHR 0x0A]) request w4 = Some (Inr response, w')"
    and v: "plugin_verdict response = Inr (verdict, okMsg)" and s': "s' = (r2, w')"
    using assms by (auto simp: ask_plugin_def Let_def s1 s2 t q f)
  note h = read_response_hears [OF rd]
  have "if fst s1 = None then setupPlugin io pluginCmd s1 = (Inr (), Some running, w2) else s1 = (Some running, w2)"
    using s2 r2 by (auto split: if_splits)
  then have "consulted L io pluginCmd evJson sourceType sourceInfo s running w4"
    unfolding consulted_def using s1 t q f by blast
  then show thesis using that s' r2 h plugin_verdict_answers [OF conjunct1 [OF h] q v] by blast
qed

text \<open>C23: The write policy fails closed.  With a program configured, \<open>acceptEvent\<close> does not throw, and when it returns there are two
  cases.  Either the running program of that command has been sent the event, the first line of JSON that was then read from it repeats the id of
  the event and names the action that is the verdict (\<open>accept\<close> for \<open>Accept\<close>) with its message, and the program still runs.  Or something has failed, a timeout, a closed pipe, a wrong id or an
  unknown action: then the verdict is \<open>Reject\<close> with the message of an internal error, and the program that was running has been stopped.  (It does
  not return when the program sends lines that are not JSON forever.)\<close>

theorem plugin_fails_closed:
  assumes "acceptEvent L io pluginCmd evJson sourceType sourceInfo s = Some (verdict, okMsg, running', w')" and "pluginCmd \<noteq> []"
  shows "(\<exists>running w response. running' = Some running \<and> currPluginCmd running = pluginCmd \<and>
      consulted L io pluginCmd evJson sourceType sourceInfo s running w \<and> hears L io w response w' \<and> answers evJson response verdict okMsg) \<or>
    (\<exists>e running0 w0. ask_plugin L io pluginCmd evJson sourceType sourceInfo s = Some (Inl e, running0, w0) \<and>
      verdict = Reject \<and> okMsg = ''error: internal error'' \<and> running' = None \<and> w' = (if running0 = None then w0 else pio_kill io w0))"
proof -
  obtain res s1 where ask: "ask_plugin L io pluginCmd evJson sourceType sourceInfo s = Some (res, s1)"
    using assms by (auto simp: acceptEvent_def)
  show ?thesis
  proof (cases res)
    case (Inl e)
    obtain running0 w0 where s1: "s1 = (running0, w0)" by (cases s1)
    have "verdict = Reject \<and> okMsg = ''error: internal error'' \<and> running' = None \<and> w' = (if running0 = None then w0 else pio_kill io w0)"
      using assms ask Inl s1 by (auto simp: acceptEvent_def reset_plugin_def)
    then show ?thesis using ask Inl s1 by blast
  next
    case (Inr v)
    then have "ask_plugin L io pluginCmd evJson sourceType sourceInfo s = Some (Inr (verdict, okMsg), running', w')"
      using assms ask by (cases v) (auto simp: acceptEvent_def)
    then obtain running w response where h: "running' = Some running" "consulted L io pluginCmd evJson sourceType sourceInfo s running w"
      "hears L io w response w'" "answers evJson response verdict okMsg"
      by (rule ask_plugin_Inr) simp
    show ?thesis by (intro disjI1 exI conjI) (rule h(1), rule consulted_running [OF h(2)], rule h(2), rule h(3), rule h(4))
  qed
qed

definition sample_io :: "unit plugin_io" where
  "sample_io = \<lparr>pio_stat = (\<lambda>_ w. (None, w)), pio_spawn = (\<lambda>_ w. (Inr (), w)), pio_kill = (\<lambda>w. w), pio_time = (\<lambda>w. (1, w)),
     pio_renderIP = (\<lambda>_. Inr ''1.2.3.4''), pio_fwrite = (\<lambda>_ w. (True, w)), pio_poll = (\<lambda>w. (True, w)), pio_fgets = (\<lambda>w. (Some ''line'', w))\<rparr>"

definition plugin_libs :: libs where
  "plugin_libs = \<lparr>from_hex = Inr, to_hex = (\<lambda>s. s), json_from_string = (\<lambda>_. Inr (JObject [(''action'', JString ''accept''), (''id'', JString ''a'')])),
     json_to_string = (\<lambda>_. ''{}''), SHA256 = (\<lambda>s. s), xonly_pubkey_parse = (\<lambda>_. True), schnorrsig_verify = (\<lambda>_ _ _. True)\<rparr>"

lemma sample_io_accepts:
  "acceptEvent plugin_libs sample_io ''./policy arg'' (JObject [(''id'', JString ''a'')]) IP4 ''abcd'' (None, ()) =
    Some (Accept, [], Some \<lparr>currPluginCmd = ''./policy arg'', lastModTime = None\<rparr>, ())"
  by (simp add: acceptEvent_def ask_plugin_def check_plugin_def setupPlugin_def plugin_request_def read_response_def sample_io_def Let_def)
    (subst while_flow.simps, simp add: read_body_def check_response_def plugin_verdict_def plugin_libs_def Let_def)

lemma sample_io_mismatch:
  "acceptEvent plugin_libs sample_io ''./policy arg'' (JObject [(''id'', JString ''b'')]) IP4 ''abcd'' (None, ()) =
    Some (Reject, ''error: internal error'', None, ())"
  by (simp add: acceptEvent_def ask_plugin_def check_plugin_def setupPlugin_def plugin_request_def read_response_def sample_io_def Let_def)
    (subst while_flow.simps, simp add: read_body_def check_response_def plugin_verdict_def plugin_libs_def Let_def reset_plugin_def)

theorem plugin_fails_closed_witness:
  "(\<exists>running w response. consulted plugin_libs sample_io ''./policy arg'' (JObject [(''id'', JString ''a'')]) IP4 ''abcd'' (None, ()) running w \<and>
      hears plugin_libs sample_io w response () \<and> json_find response ''action'' = Some (JString ''accept'')) \<and>
   (\<exists>e running0 w0. ask_plugin plugin_libs sample_io ''./policy arg'' (JObject [(''id'', JString ''b'')]) IP4 ''abcd'' (None, ()) = Some (Inl e, running0, w0))"
  using plugin_fails_closed [OF sample_io_accepts] plugin_fails_closed [OF sample_io_mismatch] by (auto simp: answers_def action_text_def)

end
