(* ===== verification/RelayWriter.thy ===== *)
theory RelayWriter
  imports RelayServer PluginEventSifter EventsWriteProof
begin

text \<open>
  \<open>src/apps/relay/RelayWriter.cpp\<close>: the thread that writes.  A round takes the messages of the inbox, drops the
  events of connections that have been closed meanwhile, asks the write policy, writes the rest in
  one transaction and tells every author what became of the event.

  Beginning and committing a transaction are parameters; both may throw.  A transaction that is
  not committed leaves the database as it was.  Log lines are left out, and with them the rendering of the address of
  the client in the line about a rejected event, which would throw for an address that has neither 4 nor 16 bytes.
\<close>

section \<open>One round of the thread\<close>

fun closedConns :: "MsgWriter list \<Rightarrow> u64 list" where
  "closedConns [] = []"
| "closedConns (Writer_CloseConn c # ms) = c # closedConns ms"
| "closedConns (AddEvent c ip p j # ms) = closedConns ms"

fun survives :: "u64 list \<Rightarrow> MsgWriter \<Rightarrow> bool" where
  "survives closed (AddEvent c ip p j) = (c \<notin> set closed)"
| "survives closed (Writer_CloseConn c) = False"

definition filter_closed :: "MsgWriter list \<Rightarrow> MsgWriter list" where
  "filter_closed newMsgs =
     (let closed = closedConns newMsgs in if length closed \<noteq> 0 then filter (survives closed) newMsgs else newMsgs)"

text \<open>The loop that prepares the messages.  \<open>None\<close> is a plugin that never answers.\<close>

fun writer_prepare ::
  "libs \<Rightarrow> 'w plugin_io \<Rightarrow> string \<Rightarrow> MsgWriter list \<Rightarrow> RelayServer \<times> EventToWrite list \<times> 'w sifter \<Rightarrow>
   (RelayServer \<times> EventToWrite list \<times> 'w sifter) result option" where
  "writer_prepare L io pluginCmd [] st = Some (Inr st)"
| "writer_prepare L io pluginCmd (Writer_CloseConn c # ms) st = writer_prepare L io pluginCmd ms st"
| "writer_prepare L io pluginCmd (AddEvent connId ipAddr packedStr jsonStr # ms) (rs, newEvents, s) =
     (if pluginCmd = [] then
        writer_prepare L io pluginCmd ms (rs, newEvents @ [mkEventToWrite packedStr jsonStr connId ipAddr], s)
      else
        (case json_from_string L jsonStr of
           Inl e \<Rightarrow> Some (Inl e)
         | Inr evJson \<Rightarrow>
             let sourceType = (if length ipAddr = 4 then IP4 else IP6) in
             (case acceptEvent L io pluginCmd evJson sourceType ipAddr s of
                None \<Rightarrow> None
              | Some (res, okMsg, s) \<Rightarrow>
                  if res = Accept then
                    writer_prepare L io pluginCmd ms (rs, newEvents @ [mkEventToWrite packedStr jsonStr connId ipAddr], s)
                  else
                    (case PackedEventView packedStr of
                       Inl e \<Rightarrow> Some (Inl e)
                     | Inr packed \<Rightarrow>
                         writer_prepare L io pluginCmd ms
                           (sendOKResponse L connId (to_hex L (pv_id packed)) (res = ShadowReject) okMsg rs, newEvents, s)))))"

definition writer_status :: "EventWriteStatus \<Rightarrow> bool \<times> string" where
  "writer_status st =
     (if st = Written then (True, '''')
      else if st = Duplicate then (True, ''duplicate: have this event'')
      else if st = Replaced then (False, ''replaced: have newer event'')
      else if st = Deleted then (False, ''deleted: user requested deletion'')
      else (False, ''''))"

definition writer_replies :: "libs \<Rightarrow> (EventToWrite \<Rightarrow> bool \<times> string) \<Rightarrow> EventToWrite list \<Rightarrow> RelayServer \<Rightarrow> RelayServer result" where
  "writer_replies L answer evs rs =
     rfold (\<lambda>newEvent rs.
       rbind (PackedEventView (ew_packedStr newEvent)) (\<lambda>packed.
         let eventIdHex = to_hex L (pv_id packed); (written, message) = answer newEvent in
         Inr (sendOKResponse L (ew_connId newEvent) eventIdHex written message rs))) evs rs"

text \<open>
  When the transaction fails the events have been sorted and the cache may have been refreshed; both
  are references.
\<close>

definition writer_write ::
  "'t env \<Rightarrow> libs \<Rightarrow> ('t \<Rightarrow> 't result) \<Rightarrow> ('t \<Rightarrow> 't result) \<Rightarrow> EventToWrite list \<Rightarrow>
   RelayServer \<times> 't \<times> NegentropyFilterCache \<Rightarrow> (RelayServer \<times> 't \<times> NegentropyFilterCache) result" where
  "writer_write E L txn_rw commit newEvents = (\<lambda>(rs, db, cache).
     case rbind (txn_rw db) (\<lambda>txn. rbind (writeEvents E L txn cache newEvents) (\<lambda>(cache, evs, txn).
       rbind (commit txn) (\<lambda>db. Inr (db, cache, evs)))) of
       Inr (db, cache, evs) \<Rightarrow> rbind (writer_replies L (\<lambda>ev. writer_status (ew_status ev)) evs rs) (\<lambda>rs. Inr (rs, db, cache))
     | Inl e \<Rightarrow>
         let evs = (case rbind (txn_rw db) (\<lambda>_. sort_events newEvents) of Inr evs \<Rightarrow> evs | Inl _ \<Rightarrow> newEvents);
             cache = (case rbind (txn_rw db) (\<lambda>txn. rbind (sort_events newEvents) (\<lambda>_. freshenCache E L txn cache)) of
                        Inr cache \<Rightarrow> cache | Inl _ \<Rightarrow> cache) in
         rbind (writer_replies L (\<lambda>ev. (False, ''Write error: '' @ what e)) evs rs) (\<lambda>rs. Inr (rs, db, cache)))"

definition runWriter ::
  "'t env \<Rightarrow> libs \<Rightarrow> cfg \<Rightarrow> 'w plugin_io \<Rightarrow> ('t \<Rightarrow> 't result) \<Rightarrow> ('t \<Rightarrow> 't result) \<Rightarrow> nat \<Rightarrow>
   RelayServer \<times> 't \<times> NegentropyFilterCache \<times> 'w sifter \<Rightarrow>
   (RelayServer \<times> 't \<times> NegentropyFilterCache \<times> 'w sifter) result option" where
  "runWriter E L cfg io txn_rw commit thr = (\<lambda>(rs, db, cache, s).
     let (newMsgs, pool) = pop_all thr (tpWriter rs);
         newMsgs = filter_closed newMsgs in
     case writer_prepare L io (relay_writePolicy_plugin cfg) newMsgs (rs\<lparr>tpWriter := pool\<rparr>, [], s) of
       None \<Rightarrow> None
     | Some (Inl e) \<Rightarrow> Some (Inl e)
     | Some (Inr (rs, newEvents, s)) \<Rightarrow>
         if length newEvents = 0 then Some (Inr (rs, db, cache, s))
         else Some (rbind (writer_write E L txn_rw commit newEvents (rs, db, cache)) (\<lambda>(rs, db, cache). Inr (rs, db, cache, s))))"

section \<open>What the authors are told\<close>

text \<open>The events of a batch whose connection is still open.\<close>

fun to_write :: "MsgWriter list \<Rightarrow> EventToWrite list" where
  "to_write [] = []"
| "to_write (AddEvent c ip p j # ms) = mkEventToWrite p j c ip # to_write ms"
| "to_write (Writer_CloseConn c # ms) = to_write ms"

definition open_events :: "MsgWriter list \<Rightarrow> EventToWrite list" where
  "open_events ms = filter (\<lambda>ev. Writer_CloseConn (ew_connId ev) \<notin> set ms) (to_write ms)"

lemma closedConns_set: "c \<in> set (closedConns ms) \<longleftrightarrow> Writer_CloseConn c \<in> set ms"
  by (induction ms rule: closedConns.induct) auto

lemma to_write_filter_closed: "to_write (filter_closed ms) = open_events ms"
proof -
  have "to_write (filter (survives closed) ms) = filter (\<lambda>ev. ew_connId ev \<notin> set closed) (to_write ms)" for closed
    by (induction ms rule: to_write.induct) (auto simp: mkEventToWrite_def)
  moreover have "filter (\<lambda>ev. Writer_CloseConn (ew_connId ev) \<notin> set ms) (to_write ms) = to_write ms" if "closedConns ms = []"
    using closedConns_set [of _ ms] that by simp
  ultimately show ?thesis by (simp add: filter_closed_def open_events_def closedConns_set Let_def)
qed

lemma writer_prepare_no_plugin: "writer_prepare L io [] ms (rs, evs, s) = Some (Inr (rs, evs @ to_write ms, s))"
  by (induction ms arbitrary: evs rule: to_write.induct) auto

abbreviation ok_message :: "libs \<Rightarrow> EventToWrite \<Rightarrow> bool \<times> string \<Rightarrow> MsgWebsocket" where
  "ok_message L ev answer \<equiv> Send (ew_connId ev) (ok_reply L (to_hex L (ev_id (ew_event ev))) (fst answer) (snd answer))"

lemma writer_replies_ok:
  assumes "\<forall>ev \<in> set evs. wf_event (ew_event ev) \<and> ew_packedStr ev = pack (ew_event ev)"
  shows "\<exists>rs'. writer_replies L answer evs rs = Inr rs' \<and> rest_of rs' = rest_of rs \<and>
    websocket_out rs' = websocket_out rs @ map (\<lambda>ev. ok_message L ev (answer ev)) evs"
  using assms
proof (induction evs arbitrary: rs)
  case Nil
  then show ?case by (simp add: writer_replies_def)
next
  case (Cons ev evs)
  obtain w m where a: "answer ev = (w, m)" by fastforce
  have "PackedEventView (ew_packedStr ev) = Inr (pack (ew_event ev))" "pv_id (pack (ew_event ev)) = ev_id (ew_event ev)"
    using Cons.prems by (simp_all add: packed_simps)
  then have "writer_replies L answer (ev # evs) rs =
      writer_replies L answer evs (sendOKResponse L (ew_connId ev) (to_hex L (ev_id (ew_event ev))) w m rs)"
    by (simp add: writer_replies_def a)
  then show ?case using Cons.IH [of "sendOKResponse L (ew_connId ev) (to_hex L (ev_id (ew_event ev))) w m rs"] Cons.prems a by auto
qed

lemma settled_event: "settled ev ev' \<Longrightarrow> ew_event ev' = ew_event ev \<and> ew_packedStr ev' = ew_packedStr ev \<and> ew_connId ev' = ew_connId ev"
  unfolding settled_def ew_event_def by (metis EventToWrite.select_convs(1,4) EventToWrite.surjective EventToWrite.update_convs(5,6))

lemma settled_packed:
  assumes "list_all2 settled evs evs'" and "\<forall>ev \<in> set evs. pending ev"
  shows "\<forall>ev \<in> set evs'. wf_event (ew_event ev) \<and> ew_packedStr ev = pack (ew_event ev)"
    and "map (\<lambda>ev. (ew_connId ev, ew_event ev)) evs' = map (\<lambda>ev. (ew_connId ev, ew_event ev)) evs"
proof -
  show "\<forall>ev \<in> set evs'. wf_event (ew_event ev) \<and> ew_packedStr ev = pack (ew_event ev)"
  proof
    fix ev' assume "ev' \<in> set evs'"
    then obtain ev where "ev \<in> set evs" "settled ev ev'" using assms(1) by (metis in_set_conv_nth list_all2_conv_all_nth)
    then show "wf_event (ew_event ev') \<and> ew_packedStr ev' = pack (ew_event ev')"
      using assms(2) settled_event pending_packed by metis
  qed
  show "map (\<lambda>ev. (ew_connId ev, ew_event ev)) evs' = map (\<lambda>ev. (ew_connId ev, ew_event ev)) evs"
    using assms(1) by (induction rule: list_all2_induct) (auto dest: settled_event)
qed

text \<open>
  The outcome of a batch \<open>evs\<close>: either nothing is written and every author is told so, or the batch has been
  written as the specification says and every author is told what became of the event.
\<close>

definition batch_outcome ::
  "libs \<Rightarrow> EventToWrite list \<Rightarrow> tables \<Rightarrow> tables \<Rightarrow> MsgWebsocket list \<Rightarrow> bool" where
  "batch_outcome L evs T T' msgs \<longleftrightarrow> (\<exists>evs'.
     mset (map (\<lambda>ev. (ew_connId ev, ew_event ev)) evs') = mset (map (\<lambda>ev. (ew_connId ev, ew_event ev)) evs) \<and>
     (T' = T \<and> (\<exists>e. msgs = map (\<lambda>ev. ok_message L ev (False, ''Write error: '' @ what e)) evs') \<or>
      batch_spec (events_of T) None (map (\<lambda>ev. (ew_levId ev, ew_event ev)) evs') = (map ew_status evs', events_of T') \<and>
      (\<forall>ev \<in> set evs'. ew_status ev \<noteq> Pending) \<and>
      msgs = map (\<lambda>ev. ok_message L ev (writer_status (ew_status ev))) evs'))"

context golpe_env
begin

lemma writer_write_ok:
  assumes L: "json_ok L" and inv: "store_inv L cache (view db)" and evs: "\<forall>ev \<in> set evs. pending ev"
    and txn: "txn_ok view txn_rw" "txn_ok view commit"
  shows "\<exists>rs' db' cache' msgs. writer_write E L txn_rw commit evs (rs, db, cache) = Inr (rs', db', cache') \<and>
    rest_of rs' = rest_of rs \<and> websocket_out rs' = websocket_out rs @ msgs \<and> store_inv L cache' (view db') \<and>
    batch_outcome L evs (view db) (view db') msgs"
proof (cases "rbind (txn_rw db) (\<lambda>txn. rbind (writeEvents E L txn cache evs) (\<lambda>(cache, evs, txn).
       rbind (commit txn) (\<lambda>db. Inr (db, cache, evs))))")
  case (Inr x)
  then obtain txn cache' evs' txn' db' where x: "x = (db', cache', evs')" "txn_rw db = Inr txn"
    "writeEvents E L txn cache evs = Inr (cache', evs', txn')" "commit txn' = Inr db'" by auto
  have v: "view txn = view db" "view db' = view txn'" using txn x by (auto simp: txn_ok_def)
  note ok = writeEvents_ok [OF L inv [folded v(1)] evs x(3)]
  have p: "\<forall>ev \<in> set (sort_key write_order evs). pending ev" using evs by simp
  note st = settled_packed [OF ok(2) p]
  obtain rs' where r: "writer_replies L (\<lambda>ev. writer_status (ew_status ev)) evs' rs = Inr rs'" "rest_of rs' = rest_of rs"
    "websocket_out rs' = websocket_out rs @ map (\<lambda>ev. ok_message L ev (writer_status (ew_status ev))) evs'"
    using writer_replies_ok [OF st(1)] by blast
  have "mset (map (\<lambda>ev. (ew_connId ev, ew_event ev)) evs') = mset (map (\<lambda>ev. (ew_connId ev, ew_event ev)) evs)"
    unfolding st(2) by simp
  moreover have "\<forall>ev \<in> set evs'. ew_status ev \<noteq> Pending"
    using ok(2) by (metis in_set_conv_nth list_all2_conv_all_nth settled_def)
  ultimately have "batch_outcome L evs (view db) (view db') (map (\<lambda>ev. ok_message L ev (writer_status (ew_status ev))) evs')"
    using ok(3) unfolding batch_outcome_def v by blast
  moreover have "writer_write E L txn_rw commit evs (rs, db, cache) = Inr (rs', db', cache')"
    by (simp add: writer_write_def Inr [unfolded x(1)] r(1))
  ultimately show ?thesis using r(2,3) ok(1) v(2) by auto
next
  case (Inl e)
  define evs' where "evs' = (case rbind (txn_rw db) (\<lambda>_. sort_events evs) of Inr evs \<Rightarrow> evs | Inl _ \<Rightarrow> evs)"
  define cache' where "cache' = (case rbind (txn_rw db) (\<lambda>txn. rbind (sort_events evs) (\<lambda>_. freshenCache E L txn cache)) of
    Inr cache \<Rightarrow> cache | Inl _ \<Rightarrow> cache)"
  have perm: "mset evs' = mset evs" "set evs' = set evs"
    by (cases "txn_rw db"; simp add: evs'_def sort_events_ok [OF evs])+
  have "cache_inv L cache' (view db)"
  proof (cases "rbind (txn_rw db) (\<lambda>txn. rbind (sort_events evs) (\<lambda>_. freshenCache E L txn cache))")
    case (Inl e')
    then show ?thesis using inv by (simp add: cache'_def store_inv_def)
  next
    case (Inr c)
    then have c: "cache' = c" unfolding cache'_def by (simp del: rbind_eq_Inr)
    obtain txn where "txn_rw db = Inr txn" "freshenCache E L txn cache = Inr c" using Inr by auto
    moreover have "view txn = view db" using txn(1) calculation by (auto simp: txn_ok_def)
    ultimately show ?thesis using freshenCache_wf [of L cache txn c] L inv by (simp add: c store_inv_def)
  qed
  then have inv': "store_inv L cache' (view db)" using inv by (simp add: store_inv_def)
  obtain rs' where r: "writer_replies L (\<lambda>ev. (False, ''Write error: '' @ what e)) evs' rs = Inr rs'" "rest_of rs' = rest_of rs"
    "websocket_out rs' = websocket_out rs @ map (\<lambda>ev. ok_message L ev (False, ''Write error: '' @ what e)) evs'"
    using writer_replies_ok [of evs' L "\<lambda>ev. (False, ''Write error: '' @ what e)" rs] evs perm(2) pending_packed by auto
  have "mset (map (\<lambda>ev. (ew_connId ev, ew_event ev)) evs') = mset (map (\<lambda>ev. (ew_connId ev, ew_event ev)) evs)"
    using perm(1) by simp
  then have "batch_outcome L evs (view db) (view db) (map (\<lambda>ev. ok_message L ev (False, ''Write error: '' @ what e)) evs')"
    unfolding batch_outcome_def by blast
  moreover have "writer_write E L txn_rw commit evs (rs, db, cache) = Inr (rs', db, cache')"
    using r(1) by (simp add: writer_write_def Inl Let_def evs'_def [symmetric] cache'_def [symmetric])
  ultimately show ?thesis using r(2,3) inv' by auto
qed

end

section \<open>Properties\<close>

text \<open>C11: A round of the writer without a write policy never throws.  Every event of the batch whose connection has not been
  closed meanwhile gets exactly one reply.  Either the transaction has failed, the database is as it was and every reply is negative,
  or the database holds what the specification of a batch says and each reply tells the status that the specification gives its event.  The
  database keeps its invariant, and nothing else is posted to another thread.\<close>

theorem writer_round:
  assumes "golpe_env E view" and "json_ok L" and "store_inv L cache (view db)" and "txn_ok view txn_rw" and "txn_ok view commit"
    and "relay_writePolicy_plugin cfg = []" and "\<forall>ev \<in> set (to_write (inbox (tpWriter rs) thr)). pending ev"
  shows "\<exists>rs' db' cache' msgs. runWriter E L cfg io txn_rw commit thr (rs, db, cache, s) = Some (Inr (rs', db', cache', s)) \<and>
    rest_of rs' = rest_of (rs\<lparr>tpWriter := snd (pop_all thr (tpWriter rs))\<rparr>) \<and> store_inv L cache' (view db') \<and>
    websocket_out rs' = websocket_out rs @ msgs \<and>
    batch_outcome L (open_events (inbox (tpWriter rs) thr)) (view db) (view db') msgs"
proof -
  let ?ms = "inbox (tpWriter rs) thr"
  let ?rs = "rs\<lparr>tpWriter := snd (pop_all thr (tpWriter rs))\<rparr>"
  have ws: "websocket_out ?rs = websocket_out rs" by (simp add: websocket_out_def)
  have prep: "writer_prepare L io (relay_writePolicy_plugin cfg) (filter_closed ?ms) (?rs, [], s) = Some (Inr (?rs, open_events ?ms, s))"
    by (simp add: assms(6) writer_prepare_no_plugin to_write_filter_closed)
  have run: "runWriter E L cfg io txn_rw commit thr (rs, db, cache, s) =
      (if length (open_events ?ms) = 0 then Some (Inr (?rs, db, cache, s))
       else Some (rbind (writer_write E L txn_rw commit (open_events ?ms) (?rs, db, cache)) (\<lambda>(rs, db, cache). Inr (rs, db, cache, s))))"
    using prep by (simp add: runWriter_def pop_all_def Let_def)
  show ?thesis
  proof (cases "length (open_events ?ms) = 0")
    case True
    then have "batch_outcome L (open_events ?ms) (view db) (view db) []" by (simp add: batch_outcome_def)
    then show ?thesis using True run assms(3) ws by (intro exI [of _ ?rs] exI [of _ db] exI [of _ cache] exI [of _ "[]"]) simp
  next
    case False
    have "\<forall>ev \<in> set (open_events ?ms). pending ev" using assms(7) by (simp add: open_events_def)
    from golpe_env.writer_write_ok [OF assms(1-3) this assms(4,5), of ?rs] show ?thesis using run False ws by auto
  qed
qed

definition writer_relay :: RelayServer where
  "writer_relay = \<lparr>rs_ephemeralTracker = new_EphemeralSubTracker, tpWebsocket = \<lparr>numThreads = 1, inbox = (\<lambda>_. [])\<rparr>,
     tpIngester = \<lparr>numThreads = 1, inbox = (\<lambda>_. [])\<rparr>,
     tpWriter = \<lparr>numThreads = 1, inbox = (\<lambda>_. [AddEvent 7 '''' sample_packed ''{}'', AddEvent 8 '''' sample_packed ''{}'', Writer_CloseConn 8])\<rparr>,
     tpReqWorker = \<lparr>numThreads = 1, inbox = (\<lambda>_. [])\<rparr>, tpReqMonitor = \<lparr>numThreads = 1, inbox = (\<lambda>_. [])\<rparr>,
     tpNegentropy = \<lparr>numThreads = 1, inbox = (\<lambda>_. [])\<rparr>\<rparr>"

theorem writer_round_witness:
  "\<exists>rs' db' cache' msgs. runWriter mem_env sample_libs default_cfg sample_io Inr Inr 0
      (writer_relay, sample_tables, new_NegentropyFilterCache, (None, ())) = Some (Inr (rs', db', cache', (None, ()))) \<and>
     length (websocket_out rs') = 1 \<and> store_inv sample_libs cache' db'"
proof -
  have ms: "inbox (tpWriter writer_relay) 0 = [AddEvent 7 '''' sample_packed ''{}'', AddEvent 8 '''' sample_packed ''{}'', Writer_CloseConn 8]"
    by (simp add: writer_relay_def)
  have p: "\<forall>ev \<in> set (to_write (inbox (tpWriter writer_relay) 0)). pending ev"
    using sample_pending by (simp add: ms sample_write_def pending_def mkEventToWrite_def)
  have len: "length (open_events (inbox (tpWriter writer_relay) 0)) = 1" "websocket_out writer_relay = []"
    by (simp_all add: ms open_events_def mkEventToWrite_def) (simp add: writer_relay_def websocket_out_def)
  have t: "txn_ok (\<lambda>T. T) Inr" by (simp add: txn_ok_def)
  have "length msgs = 1" if b: "batch_outcome sample_libs (open_events (inbox (tpWriter writer_relay) 0)) T T' msgs" for T T' msgs
  proof -
    obtain evs' where e: "mset (map (\<lambda>ev. (ew_connId ev, ew_event ev)) evs') =
        mset (map (\<lambda>ev. (ew_connId ev, ew_event ev)) (open_events (inbox (tpWriter writer_relay) 0)))" and "length msgs = length evs'"
      using b unfolding batch_outcome_def by (elim exE conjE disjE) auto
    moreover have "length evs' = 1" using arg_cong [OF e, of size] len(1) by simp
    ultimately show ?thesis by simp
  qed
  moreover obtain rs' db' cache' msgs where r: "runWriter mem_env sample_libs default_cfg sample_io Inr Inr 0
      (writer_relay, sample_tables, new_NegentropyFilterCache, (None, ())) = Some (Inr (rs', db', cache', (None, ())))"
    "store_inv sample_libs cache' db'" "websocket_out rs' = websocket_out writer_relay @ msgs"
    "batch_outcome sample_libs (open_events (inbox (tpWriter writer_relay) 0)) sample_tables db' msgs"
    using writer_round [OF mem.golpe_env_axioms json_ok_sample store_inv_sample t t _ p, of default_cfg sample_io "(None, ())"]
    by (elim meta_impE) (simp add: default_cfg_def, elim exE conjE, blast)
  ultimately have "length (websocket_out rs') = 1" using len(2) by simp
  then show ?thesis using r(1,2) by blast
qed

end
