(* ===== verification/RelayCron.thy ===== *)
theory RelayCron
  imports RelayWriter
begin

text \<open>
  \<open>src/apps/relay/RelayCron.cpp\<close>: the job that deletes expired events.  It looks for them in the index of
  expiration times, which it visits in the order of the times, in one transaction, and deletes them in another.
  The time is an argument; opening and committing the second transaction may fail.  Both transactions see the same
  database: a batch that the writer commits between them is not considered.
\<close>

section \<open>The job\<close>

type_synonym expired = "u64 list \<times> u64 \<times> u64"

fun cron_scan :: "'t env \<Rightarrow> 't \<Rightarrow> u64 \<Rightarrow> u64 \<Rightarrow> u64 \<Rightarrow> (bytes \<times> u64) list \<Rightarrow> expired \<Rightarrow> expired result" where
  "cron_scan E txn mostRecent now ephemeralCutoff [] st = Inr st"
| "cron_scan E txn mostRecent now ephemeralCutoff ((k, levId) # rest) (expiredLevIds, numEphemeral, numExpired) =
     (let expiration = from_sv64 k in
      if expiration > now then Inr (expiredLevIds, numEphemeral, numExpired)
      else if levId = mostRecent then cron_scan E txn mostRecent now ephemeralCutoff rest (expiredLevIds, numEphemeral, numExpired)
      else if expiration = 1 then
        (case lookup_Event E txn levId of
           None \<Rightarrow> Inl (Herr ''missing event from index, corrupt DB?'')
         | Some buf \<Rightarrow>
             rbind (PackedEventView buf) (\<lambda>packed.
               if pv_created_at packed \<le> ephemeralCutoff then
                 cron_scan E txn mostRecent now ephemeralCutoff rest (expiredLevIds @ [levId], numEphemeral + 1, numExpired)
               else cron_scan E txn mostRecent now ephemeralCutoff rest (expiredLevIds, numEphemeral, numExpired)))
      else cron_scan E txn mostRecent now ephemeralCutoff rest (expiredLevIds @ [levId], numEphemeral, numExpired + 1))"

definition cron_expired :: "'t env \<Rightarrow> cfg \<Rightarrow> u64 \<Rightarrow> 't \<Rightarrow> expired result" where
  "cron_expired E cfg now txn =
     (let mostRecent = getMostRecentLevId E txn;
          ephemeralCutoff = now - events_ephemeralEventsLifetimeSeconds cfg in
      cron_scan E txn mostRecent now ephemeralCutoff (generic_foreachFull E txn Event_expiration (to_sv64 0) 0 False) ([], 0, 0))"

text \<open>The database after the job, and the number of events it has deleted.\<close>

definition cron_delete ::
  "'t env \<Rightarrow> libs \<Rightarrow> cfg \<Rightarrow> ('t \<Rightarrow> 't result) \<Rightarrow> ('t \<Rightarrow> 't result) \<Rightarrow> u64 \<Rightarrow> 't \<Rightarrow> (u64 \<times> 't) result" where
  "cron_delete E L cfg txn_rw commit now db =
     rbind (cron_expired E cfg now db) (\<lambda>(expiredLevIds, numEphemeral, numExpired).
       if length expiredLevIds > 0 then
         rbind (txn_rw db) (\<lambda>txn.
         rbind (deleteEvents E L txn new_NegentropyFilterCache expiredLevIds) (\<lambda>(cache, numDeleted, txn).
         rbind (commit txn) (\<lambda>db. Inr (numDeleted, db))))
       else Inr (0, db))"

section \<open>What it deletes\<close>

definition expired_event :: "u64 \<Rightarrow> u64 \<Rightarrow> event \<Rightarrow> bool" where
  "expired_event now cutoff e \<longleftrightarrow> ev_expiration e \<noteq> 0 \<and> ev_expiration e \<le> now \<and> (ev_expiration e = 1 \<longrightarrow> ev_created_at e \<le> cutoff)"

definition expired_levIds :: "tables \<Rightarrow> u64 \<Rightarrow> u64 \<Rightarrow> u64 \<Rightarrow> u64 set" where
  "expired_levIds T mostRecent now cutoff = {l. l \<noteq> mostRecent \<and> (\<exists>e. (l, e) \<in> set (events_of T) \<and> expired_event now cutoff e)}"

context golpe_env
begin

lemma cron_scan_ok:
  assumes T: "wf_store (view txn)" and "\<forall>x \<in> set xs. \<exists>e. (snd x, e) \<in> set (events_of (view txn)) \<and> fst x = to_sv64 (ev_expiration e) \<and> ev_expiration e \<noteq> 0"
    and "sorted (map (\<lambda>x. unat (from_sv64 (fst x))) xs)"
  shows "\<exists>ids a b. cron_scan E txn mr now cutoff xs (ids0, a0, b0) = Inr (ids, a, b) \<and>
    set ids = set ids0 \<union> {l. l \<noteq> mr \<and> (\<exists>e k. (k, l) \<in> set xs \<and> (l, e) \<in> set (events_of (view txn)) \<and> expired_event now cutoff e)}"
  using assms(2,3)
proof (induction xs arbitrary: ids0 a0 b0)
  case Nil
  then show ?case by simp
next
  case (Cons x xs)
  obtain k l where x: "x = (k, l)" by (cases x)
  obtain e where e: "(l, e) \<in> set (events_of (view txn))" "k = to_sv64 (ev_expiration e)" "ev_expiration e \<noteq> 0" using Cons.prems(1) x by auto
  have tab: "tables_ok (view txn)" using T by simp
  have one: "e' = e" if "(l, e') \<in> set (events_of (view txn))" for e' by (rule events_of_same_levId [OF tab that e(1)])
  have look: "lookup_Event E txn l = Some (pack e)" "PackedEventView (pack e) = Inr (pack e)" "pv_created_at (pack e) = ev_created_at e"
  proof -
    have "wf_event e" "(l, pack e) \<in> set (t_events (view txn))" using events_ofE [OF T e(1)] by blast+
    then show "lookup_Event E txn l = Some (pack e)" "PackedEventView (pack e) = Inr (pack e)" "pv_created_at (pack e) = ev_created_at e"
      using lookup_Event [OF tab] tables_ok_distinct [OF tab] by (simp_all add: PackedEventView_pack packed_simps)
  qed
  let ?S = "\<lambda>xs. {l. l \<noteq> mr \<and> (\<exists>e k. (k, l) \<in> set xs \<and> (l, e) \<in> set (events_of (view txn)) \<and> expired_event now cutoff e)}"
  show ?case
  proof (cases "ev_expiration e > now")
    case True
    have none: "?S (x # xs) = {}"
    proof -
      have "\<not> expired_event now cutoff e'" if m: "(k', l') \<in> set (x # xs)" "(l', e') \<in> set (events_of (view txn))" for k' l' e'
      proof -
        obtain e2 where e2: "(l', e2) \<in> set (events_of (view txn))" "k' = to_sv64 (ev_expiration e2)" using Cons.prems(1) m(1) by fastforce
        have same: "e' = e2" by (rule events_of_same_levId [OF tab m(2) e2(1)])
        have "unat (from_sv64 k) \<le> unat (from_sv64 k')" using Cons.prems(2) m(1) x by (auto simp: image_iff)
        then have "ev_expiration e \<le> ev_expiration e'" using e(2) e2(2) same by (simp add: word_le_nat_alt)
        then have "\<not> ev_expiration e' \<le> now" using True by simp
        then show ?thesis by (simp add: expired_event_def)
      qed
      then show ?thesis by blast
    qed
    have "cron_scan E txn mr now cutoff (x # xs) (ids0, a0, b0) = Inr (ids0, a0, b0)" using True e(2) by (simp add: x)
    then show ?thesis unfolding none by simp
  next
    case False
    then have le: "ev_expiration e \<le> now" by simp
    have IH: "\<exists>ids a b. cron_scan E txn mr now cutoff xs (ids1, a1, b1) = Inr (ids, a, b) \<and> set ids = set ids1 \<union> ?S xs" for ids1 a1 b1
      using Cons.IH Cons.prems by simp
    have S: "?S (x # xs) = (if l \<noteq> mr \<and> expired_event now cutoff e then insert l (?S xs) else ?S xs)"
    proof -
      have "?S (x # xs) = {l'. l' \<noteq> mr \<and> l' = l \<and> (\<exists>e. (l', e) \<in> set (events_of (view txn)) \<and> expired_event now cutoff e)} \<union> ?S xs"
        unfolding x by (rule set_eqI) (simp, blast)
      moreover have "(\<exists>e'. (l, e') \<in> set (events_of (view txn)) \<and> expired_event now cutoff e') \<longleftrightarrow> expired_event now cutoff e" using e(1) one by blast
      ultimately show ?thesis by auto
    qed
    show ?thesis
    proof (cases "l \<noteq> mr \<and> expired_event now cutoff e")
      case True
      then have "\<exists>a1 b1. cron_scan E txn mr now cutoff (x # xs) (ids0, a0, b0) = cron_scan E txn mr now cutoff xs (ids0 @ [l], a1, b1)"
        using False e(2,3) look by (cases "ev_expiration e = 1") (auto simp: x expired_event_def Let_def)
      then show ?thesis using IH S True by fastforce
    next
      case no: False
      then have "l = mr \<or> ev_expiration e = 1 \<and> \<not> ev_created_at e \<le> cutoff" using e(3) le by (auto simp: expired_event_def)
      then have "cron_scan E txn mr now cutoff (x # xs) (ids0, a0, b0) = cron_scan E txn mr now cutoff xs (ids0, a0, b0)"
        using False e(2) look by (auto simp: x Let_def)
      then show ?thesis using IH S no by simp
    qed
  qed
qed

lemma cron_expired_ok:
  assumes T: "wf_store (view txn)"
  shows "\<exists>ids a b. cron_expired E cfg now txn = Inr (ids, a, b) \<and>
    set ids = expired_levIds (view txn) (getMostRecentLevId E txn) now (now - events_ephemeralEventsLifetimeSeconds cfg)"
proof -
  let ?xs = "generic_foreachFull E txn Event_expiration (to_sv64 0) 0 False"
  have tab: "tables_ok (view txn)" using T by simp
  have "pos Event_expiration (to_sv64 0, 0) \<le> pos Event_expiration x" for x by (simp add: pos_def rank_def less_eq_prod_def)
  then have xs: "sorted (map (pos Event_expiration) ?xs)" "set ?xs = set (entries Event_expiration (view txn))"
    using foreachFull_fwd [OF tab, of Event_expiration "to_sv64 0" 0] by auto
  have ix: "(k, l) \<in> set ?xs \<longleftrightarrow> (\<exists>e. (l, e) \<in> set (events_of (view txn)) \<and> k = to_sv64 (ev_expiration e) \<and> ev_expiration e \<noteq> 0)" for k l
    unfolding xs(2) entries_events_of [OF T] using events_ofE [OF T] by (auto simp: index_keys_pack)
  then have all: "\<forall>x \<in> set ?xs. \<exists>e. (snd x, e) \<in> set (events_of (view txn)) \<and> fst x = to_sv64 (ev_expiration e) \<and> ev_expiration e \<noteq> 0" by (metis prod.collapse)
  have "sorted_wrt (\<lambda>x y. pos Event_expiration x \<le> pos Event_expiration y) ?xs" using xs(1) by (simp add: sorted_map)
  then have "sorted_wrt (\<lambda>x y. unat (from_sv64 (fst x)) \<le> unat (from_sv64 (fst y))) ?xs"
    by (rule sorted_wrt_mono_rel [rotated]) (auto simp: pos_def rank_def less_eq_prod_def)
  then have "sorted (map (\<lambda>x. unat (from_sv64 (fst x))) ?xs)" by (simp add: sorted_map)
  from cron_scan_ok [OF T all this, of "getMostRecentLevId E txn" now "now - events_ephemeralEventsLifetimeSeconds cfg" "[]" 0 0] obtain ids a b where
    scan: "cron_expired E cfg now txn = Inr (ids, a, b)"
    and ids: "set ids = {l. l \<noteq> getMostRecentLevId E txn \<and> (\<exists>e k. (k, l) \<in> set ?xs \<and> (l, e) \<in> set (events_of (view txn)) \<and>
      expired_event now (now - events_ephemeralEventsLifetimeSeconds cfg) e)}" by (auto simp: cron_expired_def Let_def)
  have "set ids = expired_levIds (view txn) (getMostRecentLevId E txn) now (now - events_ephemeralEventsLifetimeSeconds cfg)"
    unfolding ids expired_levIds_def using ix by (fastforce simp: expired_event_def)
  then show ?thesis using scan by blast
qed

end

section \<open>Property\<close>

lemma last_filter: "xs \<noteq> [] \<Longrightarrow> P (last xs) \<Longrightarrow> filter P xs \<noteq> [] \<and> last (filter P xs) = last xs"
  by (induction xs rule: rev_induct) auto

text \<open>C22: The cron job removes exactly the events whose expiration time has passed, and the ephemeral events (expiration
  1) that were created at or before the cut-off, except the newest event of the database; its search never fails, it
  keeps the invariant of the database, and the largest primary key stays the same, so that no key is used twice.  No
  other thread writes between the search and the deletion.\<close>

theorem cron_deletes_expired:
  assumes "golpe_env E view" and "json_ok L" and "store_inv L new_NegentropyFilterCache (view db)" and "txn_ok view txn_rw" and "txn_ok view commit"
  shows "(\<exists>ids a b. cron_expired E cfg now db = Inr (ids, a, b)) \<and>
    (\<forall>n db'. cron_delete E L cfg txn_rw commit now db = Inr (n, db') \<longrightarrow>
      (let newest = getMostRecentLevId E db; cutoff = now - events_ephemeralEventsLifetimeSeconds cfg in
       events_of (view db') = filter (\<lambda>(l, e). l = newest \<or> \<not> expired_event now cutoff e) (events_of (view db)) \<and>
       n = of_nat (card (expired_levIds (view db) newest now cutoff)) \<and> (\<exists>cache. store_inv L cache (view db')) \<and>
       getMostRecentLevId E db' = newest))"
proof -
  let ?newest = "getMostRecentLevId E db" and ?cutoff = "now - events_ephemeralEventsLifetimeSeconds cfg"
  let ?D = "events_of (view db)"
  have T: "wf_store (view db)" using assms(3) by (simp add: store_inv_def base_ok_def)
  then have tab: "tables_ok (view db)" by simp
  obtain ids a b where ids: "cron_expired E cfg now db = Inr (ids, a, b)" and S: "set ids = expired_levIds (view db) ?newest now ?cutoff"
    using golpe_env.cron_expired_ok [OF assms(1) T] by blast
  have keep: "fst x \<notin> set ids \<longleftrightarrow> fst x = ?newest \<or> \<not> expired_event now ?cutoff (snd x)" if "x \<in> set ?D" for x
  proof -
    have "(\<exists>e. (fst x, e) \<in> set ?D \<and> expired_event now ?cutoff e) \<longleftrightarrow> expired_event now ?cutoff (snd x)"
      using that events_of_same_levId [OF tab] by (metis prod.collapse)
    then show ?thesis by (simp add: S expired_levIds_def)
  qed
  have sub: "set ids \<inter> fst ` set (events_of (view db)) = expired_levIds (view db) ?newest now ?cutoff"
    unfolding S by (force simp: expired_levIds_def)
  have levs: "fst ` set (events_of T) = fst ` set (t_events T)" for T by (metis events_of_levIds set_map)
  have post: "events_of (view db') = filter (\<lambda>(l, e). l = ?newest \<or> \<not> expired_event now ?cutoff e) ?D \<and>
      n = of_nat (card (expired_levIds (view db) ?newest now ?cutoff)) \<and> (\<exists>cache. store_inv L cache (view db')) \<and> getMostRecentLevId E db' = ?newest"
    if run: "cron_delete E L cfg txn_rw commit now db = Inr (n, db')" for n db'
  proof -
    have core: "events_of (view db') = filter (\<lambda>x. fst x \<notin> set ids) ?D \<and> n = of_nat (card (expired_levIds (view db) ?newest now ?cutoff)) \<and>
        (\<exists>cache. store_inv L cache (view db'))"
    proof (cases "length ids > 0")
      case False
      then have "ids = []" "n = 0" "db' = db" using run ids by (auto simp: cron_delete_def)
      moreover have "expired_levIds (view db) ?newest now ?cutoff = {}" using S calculation(1) by simp
      ultimately show ?thesis using assms(3) by auto
    next
      case True
      then obtain txn c txn' where r: "txn_rw db = Inr txn" "deleteEvents E L txn new_NegentropyFilterCache ids = Inr (c, n, txn')" "commit txn' = Inr db'"
        using run ids by (auto simp: cron_delete_def)
      then have v: "view txn = view db" "view db' = view txn'" using assms(4,5) by (auto simp: txn_ok_def)
      note d = golpe_env.deleteEvents_inv [OF assms(1,2) _ r(2)]
      show ?thesis using d assms(3) sub levs unfolding v by auto
    qed
    have "filter (\<lambda>x. fst x \<notin> set ids) ?D = filter (\<lambda>(l, e). l = ?newest \<or> \<not> expired_event now ?cutoff e) ?D"
      by (rule filter_cong [OF refl]) (use keep in \<open>auto simp: case_prod_beta\<close>)
    moreover have "getMostRecentLevId E db' = ?newest"
    proof -
      have tab': "tables_ok (view db')" using core by (auto simp: store_inv_def base_ok_def)
      note new = golpe_env.getMostRecentLevId_ok [OF assms(1)]
      have m: "map fst (t_events (view db')) = map fst (filter (\<lambda>x. fst x \<notin> set ids) ?D)" using core events_of_levIds by metis
      show ?thesis
      proof (cases "?D = []")
        case True
        then have "t_events (view db) = []" "t_events (view db') = []" using m by (simp_all add: events_of_def)
        then show ?thesis using new [OF tab] new [OF tab'] by simp
      next
        case False
        then have ne: "t_events (view db) \<noteq> []" by (simp add: events_of_def)
        have l1: "fst (last ?D) = ?newest" using new [OF tab] ne False by (metis events_of_levIds last_map)
        then have "fst (last ?D) \<notin> set ids" by (simp add: S expired_levIds_def)
        from last_filter [OF False, of "\<lambda>x. fst x \<notin> set ids"] this
        have l2: "filter (\<lambda>x. fst x \<notin> set ids) ?D \<noteq> []" "last (filter (\<lambda>x. fst x \<notin> set ids) ?D) = last ?D" by auto
        then have ne': "t_events (view db') \<noteq> []" using m by (metis list.map_disc_iff)
        then have "fst (last (t_events (view db'))) = last (map fst (t_events (view db')))" by (simp add: last_map)
        then have "fst (last (t_events (view db'))) = fst (last ?D)" unfolding m using l2 by (simp add: last_map)
        then show ?thesis using new [OF tab'] ne' l1 by simp
      qed
    qed
    ultimately show ?thesis using core by simp
  qed
  then show ?thesis using ids by (auto simp: Let_def)
qed

lemma mem_deletes:
  assumes "updateNegentropy mem_env c = (\<lambda>_ _. Inr)"
  shows "\<forall>(l, p) \<in> set (t_events T). PackedEventView p = Inr p \<Longrightarrow>
    \<exists>r. rfold (\<lambda>levId (numDeleted, txn). rbind (delete_lev mem_env (updateNegentropy mem_env c) txn levId) (\<lambda>(deleted, txn).
             Inr (if deleted then numDeleted + 1 else numDeleted, txn))) ids (n :: u64, T) = Inr r"
proof (induction ids arbitrary: n T)
  case (Cons l ids)
  obtain d T' where "delete_lev mem_env (updateNegentropy mem_env c) T l = Inr (d, T')" "set (t_events T') \<subseteq> set (t_events T)"
    using Cons.prems assms by (cases "map_of (t_events T) l") (auto simp: delete_lev_def mem_env_def deleteEventBasic_def dest!: map_of_SomeD)
  then show ?case using Cons.IH [of T'] Cons.prems by (fastforce split: prod.split)
qed simp

theorem cron_deletes_expired_witness:
  "\<exists>T'. cron_delete mem_env sample_libs default_cfg Inr Inr 600 cron_tables = Inr (1, T') \<and> events_of T' = [(2, sample_event)]"
proof -
  have t: "txn_ok (\<lambda>T. T) Inr" by (simp add: txn_ok_def)
  note job = cron_deletes_expired [OF mem.golpe_env_axioms json_ok_sample cron_store_inv t t, where cfg = default_cfg and now = 600]
  obtain ids a b where ids: "cron_expired mem_env default_cfg 600 cron_tables = Inr (ids, a, b)" using job by blast
  let ?c = "\<lparr>nc_filters = [], modificationCounter = 1, kindToFilterIdx = Map.empty, noKindFilterIdxs = []\<rparr>"
  have c: "freshenCache mem_env sample_libs cron_tables new_NegentropyFilterCache = Inr ?c"
    by (simp add: freshenCache_def mem_env_def cron_tables_def new_NegentropyFilterCache_def)
  have "updateNegentropy mem_env ?c = (\<lambda>_ _. Inr)" by (auto simp: updateNegentropy_def fun_eq_iff)
  moreover have "\<forall>(l, p) \<in> set (t_events cron_tables). PackedEventView p = Inr p" by (simp add: cron_tables_def PackedEventView_pack)
  ultimately obtain r where "rfold (\<lambda>levId (numDeleted, txn). rbind (delete_lev mem_env (updateNegentropy mem_env ?c) txn levId) (\<lambda>(deleted, txn).
             Inr (if deleted then numDeleted + 1 else numDeleted, txn))) ids (0 :: u64, cron_tables) = Inr r" using mem_deletes by blast
  then have del: "deleteEvents mem_env sample_libs cron_tables new_NegentropyFilterCache ids = Inr (?c, r)" by (simp add: deleteEvents_def ctx_def c)
  obtain n T' where run: "cron_delete mem_env sample_libs default_cfg Inr Inr 600 cron_tables = Inr (n, T')"
    by (cases "ids = []"; cases r) (simp_all add: cron_delete_def ids del)
  have newest: "getMostRecentLevId mem_env cron_tables = 2" by (simp add: getMostRecentLevId_def mem_env_def cron_tables_def)
  let ?cut = "600 - events_ephemeralEventsLifetimeSeconds default_cfg"
  have ex: "expired_event 600 ?cut (sample_event\<lparr>ev_id := replicate 32 (CHR ''z''), ev_created_at := 900, ev_expiration := 500\<rparr>)" "\<not> expired_event 600 ?cut sample_event"
    by (simp_all add: expired_event_def) (simp add: sample_event_def)
  have "expired_levIds cron_tables 2 600 ?cut = {1}" unfolding expired_levIds_def cron_events using ex by auto
  with job [THEN conjunct2, rule_format, OF run] ex have "events_of T' = [(2, sample_event)]" "n = 1"
    unfolding Let_def newest cron_events by simp_all
  then show ?thesis using run by blast
qed

end
