(* ===== verification/QueryScheduler.thy ===== *)
theory QueryScheduler
  imports DBQuery Config
begin

text \<open>
  \<open>src/QueryScheduler.h\<close>: the queries of one thread take turns.  The queries are allocated with \<open>new\<close> and
  freed with \<open>delete\<close>, so the state has a heap: a \<open>DBQuery *\<close> is an address, and following the address of a
  query that has been freed is the error \<open>UseAfterFree\<close>.  The hash map of the queries of a connection is a list
  of pairs with distinct keys.  The callbacks act on a state of their own and may throw.
\<close>

type_synonym qptr = nat
type_synonym ConnQueries = "(SubId \<times> qptr) list"

record ('t, 's) callbacks =
  onEvent :: "('t \<Rightarrow> Subscription \<Rightarrow> u64 \<Rightarrow> bytes \<Rightarrow> 's \<Rightarrow> 's result) option"
  onEventBatch :: "('t \<Rightarrow> Subscription \<Rightarrow> u64 list \<Rightarrow> 's \<Rightarrow> 's result) option"
  onComplete :: "('t \<Rightarrow> Subscription \<Rightarrow> u64 \<Rightarrow> 's \<Rightarrow> 's result) option"

record QueryScheduler =
  ensureExists :: bool
  qs_heap :: "qptr \<Rightarrow> DBQuery option"
  qs_next :: qptr
  qs_conns :: "u64 \<Rightarrow> ConnQueries option"
  qs_running :: "qptr list"
  levIdBatch :: "u64 list"

definition new_QueryScheduler :: "bool \<Rightarrow> QueryScheduler" where
  "new_QueryScheduler ensure =
     \<lparr>ensureExists = ensure, qs_heap = Map.empty, qs_next = 0, qs_conns = Map.empty, qs_running = [], levIdBatch = []\<rparr>"

definition findQuery :: "QueryScheduler \<Rightarrow> u64 \<Rightarrow> SubId \<Rightarrow> qptr option" where
  "findQuery qs connId subId = (case qs_conns qs connId of None \<Rightarrow> None | Some m \<Rightarrow> map_of m subId)"

definition mark_dead :: "qptr \<Rightarrow> QueryScheduler \<Rightarrow> QueryScheduler result" where
  "mark_dead p qs =
     (case qs_heap qs p of
        None \<Rightarrow> Inl UseAfterFree
      | Some q \<Rightarrow> Inr (qs\<lparr>qs_heap := (qs_heap qs)(p \<mapsto> q\<lparr>q_dead := True\<rparr>)\<rparr>))"

definition qs_removeSub :: "u64 \<Rightarrow> SubId \<Rightarrow> QueryScheduler \<Rightarrow> QueryScheduler result" where
  "qs_removeSub connId subId qs =
     (case findQuery qs connId subId of
        None \<Rightarrow> Inr qs
      | Some query \<Rightarrow>
          rbind (mark_dead query qs) (\<lambda>qs.
            let m = filter (\<lambda>x. fst x \<noteq> subId) (case qs_conns qs connId of None \<Rightarrow> [] | Some m \<Rightarrow> m) in
            Inr (qs\<lparr>qs_conns := (qs_conns qs)(connId := if m = [] then None else Some m)\<rparr>)))"

definition qs_closeConn :: "u64 \<Rightarrow> QueryScheduler \<Rightarrow> QueryScheduler result" where
  "qs_closeConn connId qs =
     (case qs_conns qs connId of
        None \<Rightarrow> Inr qs
      | Some m \<Rightarrow> rbind (rfold (\<lambda>(k, v). mark_dead v) m qs) (\<lambda>qs. Inr (qs\<lparr>qs_conns := (qs_conns qs)(connId := None)\<rparr>)))"

definition qs_addSub :: "'t env \<Rightarrow> cfg \<Rightarrow> 't \<Rightarrow> Subscription \<Rightarrow> QueryScheduler \<Rightarrow> (bool \<times> QueryScheduler) result" where
  "qs_addSub E cfg txn sub qs =
     (let sub = sub\<lparr>sub_latestEventId := getMostRecentLevId E txn\<rparr>; c = sub_connId sub in
      rbind (if findQuery qs c (sub_subId sub) \<noteq> None then qs_removeSub c (sub_subId sub) qs else Inr qs) (\<lambda>qs.
      let connQueries = (case qs_conns qs c of None \<Rightarrow> [] | Some m \<Rightarrow> m);
          qs = qs\<lparr>qs_conns := (qs_conns qs)(c \<mapsto> connQueries)\<rparr> in
      if unat (relay_maxSubsPerConnection cfg) \<le> length connQueries then Inr (False, qs)
      else
        let q = qs_next qs in
        Inr (True, qs\<lparr>qs_heap := (qs_heap qs)(q \<mapsto> mkDBQuery sub), qs_next := q + 1,
          qs_conns := (qs_conns qs)(c \<mapsto> connQueries @ [(sub_subId sub, q)]), qs_running := q # qs_running qs\<rparr>)))"

text \<open>The callback of the query: what happens to an event that is found.\<close>

definition qs_event ::
  "'t env \<Rightarrow> ('t, 's) callbacks \<Rightarrow> 't \<Rightarrow> bool \<Rightarrow> Subscription \<Rightarrow> u64 \<Rightarrow> u64 list \<times> 's \<Rightarrow> (u64 list \<times> 's) result" where
  "qs_event E cbs txn ensure sub levId = (\<lambda>(batch, st).
     case (if ensure then EventPayload_get E txn levId else Some []) of
       None \<Rightarrow> Inr (batch, st)
     | Some eventPayload \<Rightarrow>
         rbind (case onEvent cbs of None \<Rightarrow> Inr st | Some f \<Rightarrow> f txn sub levId eventPayload st) (\<lambda>st.
           Inr (if onEventBatch cbs \<noteq> None then batch @ [levId] else batch, st)))"

text \<open>What follows a slice of the query at \<open>p\<close>.\<close>

definition qs_after ::
  "('t, 's) callbacks \<Rightarrow> 't \<Rightarrow> qptr \<Rightarrow> DBQuery \<Rightarrow> bool \<Rightarrow> QueryScheduler \<Rightarrow> 's \<Rightarrow> (QueryScheduler \<times> 's) result" where
  "qs_after cbs txn p q complete qs st =
     rbind (case onEventBatch cbs of
              None \<Rightarrow> Inr (qs, st)
            | Some f \<Rightarrow> rbind (f txn (q_sub q) (levIdBatch qs) st) (\<lambda>st. Inr (qs\<lparr>levIdBatch := []\<rparr>, st))) (\<lambda>(qs, st).
     if complete then
       rbind (qs_removeSub (sub_connId (q_sub q)) (sub_subId (q_sub q)) qs) (\<lambda>qs.
       rbind (case onComplete cbs of
                None \<Rightarrow> Inr st
              | Some f \<Rightarrow> f txn (q_sub q) (of_nat (card (sentEventsFull q))) st) (\<lambda>st.
         Inr (qs\<lparr>qs_heap := (qs_heap qs)(p := None)\<rparr>, st)))
     else Inr (qs\<lparr>qs_running := qs_running qs @ [p]\<rparr>, st))"

definition qs_process ::
  "'t env \<Rightarrow> cfg \<Rightarrow> (nat \<Rightarrow> u64) \<Rightarrow> 't \<Rightarrow> ('t, 's) callbacks \<Rightarrow> QueryScheduler \<times> nat \<times> 's \<Rightarrow>
   (QueryScheduler \<times> nat \<times> 's) result option" where
  "qs_process E cfg clock txn cbs = (\<lambda>(qs, t, st).
     case qs_running qs of
       [] \<Rightarrow> Some (Inr (qs, t, st))
     | p # rest \<Rightarrow>
         let qs = qs\<lparr>qs_running := rest\<rparr> in
         (case qs_heap qs p of
            None \<Rightarrow> Some (Inl UseAfterFree)
          | Some q \<Rightarrow>
              if q_dead q then Some (Inr (qs\<lparr>qs_heap := (qs_heap qs)(p := None)\<rparr>, t, st))
              else
                map_option (\<lambda>r. rbind r (\<lambda>(complete, q, t, batch, st).
                    rbind (qs_after cbs txn p q complete (qs\<lparr>qs_heap := (qs_heap qs)(p \<mapsto> q), levIdBatch := batch\<rparr>) st) (\<lambda>(qs, st).
                      Inr (qs, t, st))))
                  (query_process E clock txn (qs_event E cbs txn (ensureExists qs)) (relay_queryTimesliceBudgetMicroseconds cfg)
                    (q, t, (levIdBatch qs, st)))))"

end
