(* ===== verification/QuerySchedulerProof.thy ===== *)
theory QuerySchedulerProof
  imports QueryScheduler DBQueryRun
begin

text \<open>
  The pointers of the query scheduler.  \<open>sched_ok\<close> is the invariant of its state; every operation keeps it, a slice of a
  query changes neither the subscription nor the flag \<open>dead\<close>, and so in no reachable state (\<open>sched_run\<close>) a freed
  query is followed.
\<close>

section \<open>No pointer dangles\<close>

abbreviation q_conn :: "DBQuery \<Rightarrow> u64" where "q_conn q \<equiv> sub_connId (q_sub q)"
abbreviation q_sid :: "DBQuery \<Rightarrow> SubId" where "q_sid q \<equiv> sub_subId (q_sub q)"

text \<open>
  The invariant of a scheduler; \<open>X\<close> holds the query that is being processed.  The queries in the deque are
  exactly those on the heap, a query is found under its connection and id as long as it is alive, and
  nothing else is found.
\<close>

definition sched_ok :: "nat \<Rightarrow> qptr list \<Rightarrow> QueryScheduler \<Rightarrow> bool" where
  "sched_ok lim X qs \<longleftrightarrow> distinct (X @ qs_running qs) \<and> set (X @ qs_running qs) = dom (qs_heap qs) \<and> (\<forall>p \<in> dom (qs_heap qs). p < qs_next qs) \<and>
     (\<forall>p q. qs_heap qs p = Some q \<and> \<not> q_dead q \<longrightarrow> findQuery qs (q_conn q) (q_sid q) = Some p) \<and>
     (\<forall>c s p. findQuery qs c s = Some p \<longrightarrow> (\<exists>q. qs_heap qs p = Some q \<and> \<not> q_dead q \<and> q_conn q = c \<and> q_sid q = s)) \<and>
     (\<forall>c m. qs_conns qs c = Some m \<longrightarrow> distinct (map fst m) \<and> length m \<le> lim)"

lemma sched_new: "sched_ok lim [] (new_QueryScheduler b)"
  by (simp add: sched_ok_def new_QueryScheduler_def findQuery_def)

lemma qs_removeSub_ok:
  assumes ok: "sched_ok lim X qs"
  shows "\<exists>qs'. qs_removeSub c s qs = Inr qs' \<and> sched_ok lim X qs' \<and> findQuery qs' = (findQuery qs)(c := (findQuery qs c)(s := None)) \<and>
    qs_running qs' = qs_running qs \<and> dom (qs_heap qs') = dom (qs_heap qs) \<and> qs_next qs' = qs_next qs \<and>
    (\<forall>p. findQuery qs c s \<noteq> Some p \<longrightarrow> qs_heap qs' p = qs_heap qs p) \<and>
    (\<forall>c'. c' \<noteq> c \<longrightarrow> qs_conns qs' c' = qs_conns qs c') \<and>
    (\<forall>m. qs_conns qs' c = Some m \<longrightarrow> (\<exists>m'. qs_conns qs c = Some m' \<and> m = filter (\<lambda>x. fst x \<noteq> s) m')) \<and>
    levIdBatch qs' = levIdBatch qs \<and> ensureExists qs' = ensureExists qs"
proof (cases "findQuery qs c s")
  case None
  then have "(findQuery qs)(c := (findQuery qs c)(s := None)) = findQuery qs" by (intro ext) auto
  moreover have "\<exists>m'. qs_conns qs c = Some m' \<and> m = filter (\<lambda>x. fst x \<noteq> s) m'" if "qs_conns qs c = Some m" for m
  proof -
    have "filter (\<lambda>x. fst x \<noteq> s) m = m" by (rule filter_True) (use None that in \<open>auto simp: findQuery_def map_of_eq_None_iff\<close>)
    then show ?thesis using that by simp
  qed
  ultimately show ?thesis using ok None by (simp add: qs_removeSub_def)
next
  case (Some p)
  then obtain q where q: "qs_heap qs p = Some q" "\<not> q_dead q" "q_conn q = c" "q_sid q = s"
    using ok unfolding sched_ok_def by blast
  obtain m where m: "qs_conns qs c = Some m" "map_of m s = Some p" using Some by (auto simp: findQuery_def split: option.splits)
  define m' where "m' = filter (\<lambda>x. fst x \<noteq> s) m"
  define qs' where "qs' = qs\<lparr>qs_heap := (qs_heap qs)(p \<mapsto> q\<lparr>q_dead := True\<rparr>), qs_conns := (qs_conns qs)(c := if m' = [] then None else Some m')\<rparr>"
  have r: "qs_removeSub c s qs = Inr qs'"
    using Some q(1) m(1) by (simp add: qs_removeSub_def mark_dead_def qs'_def m'_def)
  have mo: "map_of m' s' = (if s' = s then None else map_of m s')" for s' by (simp add: m'_def map_of_filter_key)
  have f': "findQuery qs' = (findQuery qs)(c := (findQuery qs c)(s := None))"
  proof (intro ext)
    fix c' s'
    show "findQuery qs' c' s' = ((findQuery qs)(c := (findQuery qs c)(s := None))) c' s'"
      using m mo [of s'] by (cases "m' = []") (auto simp: findQuery_def qs'_def split: if_splits)
  qed
  have dm: "dom (qs_heap qs') = dom (qs_heap qs)" using q(1) by (auto simp: qs'_def)
  have conns: "distinct (map fst n) \<and> length n \<le> lim" if "qs_conns qs' c' = Some n" for c' n
  proof (cases "c' = c")
    case True
    then have n: "n = m'" using that by (auto simp: qs'_def split: if_splits)
    have "distinct (map fst m)" "length m \<le> lim" using ok m(1) unfolding sched_ok_def by blast+
    then show ?thesis unfolding n m'_def by (simp add: distinct_map_filter le_trans [OF length_filter_le])
  next
    case False
    then have "qs_conns qs c' = Some n" using that by (simp add: qs'_def)
    then show ?thesis using ok unfolding sched_ok_def by blast
  qed
  have "sched_ok lim X qs'"
    unfolding sched_ok_def dm
  proof (intro conjI allI impI)
    show "distinct (X @ qs_running qs')" "set (X @ qs_running qs') = dom (qs_heap qs)" "\<forall>p \<in> dom (qs_heap qs). p < qs_next qs'"
      using ok by (simp_all add: sched_ok_def qs'_def)
  next
    fix p' q' assume a: "qs_heap qs' p' = Some q' \<and> \<not> q_dead q'"
    then have p': "p' \<noteq> p" "qs_heap qs p' = Some q'" by (auto simp: qs'_def split: if_splits)
    then have "findQuery qs (q_conn q') (q_sid q') = Some p'" using ok a unfolding sched_ok_def by blast
    then show "findQuery qs' (q_conn q') (q_sid q') = Some p'" using p'(1) Some unfolding f' by auto
  next
    fix c' s' p' assume a: "findQuery qs' c' s' = Some p'"
    then have old: "findQuery qs c' s' = Some p'" "(c', s') \<noteq> (c, s)" unfolding f' by (auto split: if_splits)
    then obtain q' where q': "qs_heap qs p' = Some q' \<and> \<not> q_dead q' \<and> q_conn q' = c' \<and> q_sid q' = s'"
      using ok unfolding sched_ok_def by blast
    then have "p' \<noteq> p" using q old(2) by auto
    then show "\<exists>q. qs_heap qs' p' = Some q \<and> \<not> q_dead q \<and> q_conn q = c' \<and> q_sid q = s'" using q' by (simp add: qs'_def)
  qed (use conns in auto)
  moreover have "\<exists>n'. qs_conns qs c = Some n' \<and> n = filter (\<lambda>x. fst x \<noteq> s) n'" if "qs_conns qs' c = Some n" for n
    using that m(1) by (auto simp: qs'_def m'_def split: if_splits)
  moreover have "\<forall>p'. findQuery qs c s \<noteq> Some p' \<longrightarrow> qs_heap qs' p' = qs_heap qs p'" using Some by (simp add: qs'_def)
  ultimately show ?thesis using r f' dm by (simp add: qs'_def)
qed

lemma qs_closeConn_ok:
  assumes ok: "sched_ok lim X qs"
  shows "\<exists>qs'. qs_closeConn c qs = Inr qs' \<and> sched_ok lim X qs' \<and> findQuery qs' = (findQuery qs)(c := Map.empty) \<and>
    qs_running qs' = qs_running qs"
proof (cases "qs_conns qs c")
  case None
  then have "(findQuery qs)(c := Map.empty) = findQuery qs" by (auto simp: findQuery_def fun_eq_iff)
  then show ?thesis using ok None by (simp add: qs_closeConn_def)
next
  case (Some m)
  have dist: "distinct (map fst m)" using ok Some unfolding sched_ok_def by blast
  then have found: "findQuery qs c s = Some p \<longleftrightarrow> (s, p) \<in> set m" for s p by (simp add: findQuery_def Some)
  have mark: "rfold (\<lambda>(k, v). mark_dead v) n qs1 =
      Inr (qs1\<lparr>qs_heap := (\<lambda>p. if p \<in> snd ` set n then map_option (\<lambda>q. q\<lparr>q_dead := True\<rparr>) (qs_heap qs1 p) else qs_heap qs1 p)\<rparr>)"
    if "\<forall>x \<in> set n. snd x \<in> dom (qs_heap qs1)" for n and qs1 :: QueryScheduler
    using that
  proof (induction n arbitrary: qs1)
    case Nil
    then show ?case by simp
  next
    case (Cons x n)
    obtain k v where x: "x = (k, v)" by (cases x)
    obtain q where q: "qs_heap qs1 v = Some q" using Cons.prems by (auto simp: x)
    let ?qs2 = "qs1\<lparr>qs_heap := (qs_heap qs1)(v \<mapsto> q\<lparr>q_dead := True\<rparr>)\<rparr>"
    have "\<forall>x \<in> set n. snd x \<in> dom (qs_heap ?qs2)" using Cons.prems by auto
    note IH = Cons.IH [OF this]
    have "(\<lambda>p. if p \<in> snd ` set n then map_option (\<lambda>q. q\<lparr>q_dead := True\<rparr>) (qs_heap ?qs2 p) else qs_heap ?qs2 p) =
        (\<lambda>p. if p \<in> snd ` set (x # n) then map_option (\<lambda>q. q\<lparr>q_dead := True\<rparr>) (qs_heap qs1 p) else qs_heap qs1 p)"
      using q by (auto simp: x)
    then show ?case using q IH by (simp add: x mark_dead_def)
  qed
  have alloc: "\<forall>x \<in> set m. snd x \<in> dom (qs_heap qs)"
  proof
    fix x assume "x \<in> set m"
    then have "findQuery qs c (fst x) = Some (snd x)" by (simp add: found)
    then show "snd x \<in> dom (qs_heap qs)" using ok unfolding sched_ok_def by blast
  qed
  define h where "h = (\<lambda>p. if p \<in> snd ` set m then map_option (\<lambda>q. q\<lparr>q_dead := True\<rparr>) (qs_heap qs p) else qs_heap qs p)"
  define qs' where "qs' = qs\<lparr>qs_heap := h, qs_conns := (qs_conns qs)(c := None)\<rparr>"
  have r: "qs_closeConn c qs = Inr qs'" using Some mark [OF alloc] by (simp add: qs_closeConn_def qs'_def h_def)
  have dm: "dom (qs_heap qs') = dom (qs_heap qs)" by (auto simp: qs'_def h_def split: if_splits)
  have f': "findQuery qs' = (findQuery qs)(c := Map.empty)" by (auto simp: findQuery_def qs'_def fun_eq_iff)
  have "sched_ok lim X qs'"
    unfolding sched_ok_def dm
  proof (intro conjI allI impI)
    show "distinct (X @ qs_running qs')" "set (X @ qs_running qs') = dom (qs_heap qs)" "\<forall>p \<in> dom (qs_heap qs). p < qs_next qs'"
      using ok by (simp_all add: sched_ok_def qs'_def)
  next
    fix p q assume a: "qs_heap qs' p = Some q \<and> \<not> q_dead q"
    then have p: "p \<notin> snd ` set m" "qs_heap qs p = Some q" by (auto simp: qs'_def h_def split: if_splits)
    then have f: "findQuery qs (q_conn q) (q_sid q) = Some p" using ok a unfolding sched_ok_def by blast
    then have "q_conn q \<noteq> c" using p(1) found by force
    then show "findQuery qs' (q_conn q) (q_sid q) = Some p" using f by (simp add: f')
  next
    fix c' s p assume "findQuery qs' c' s = Some p"
    then have f: "c' \<noteq> c" "findQuery qs c' s = Some p" by (auto simp: f' split: if_splits)
    then obtain q where q: "qs_heap qs p = Some q \<and> \<not> q_dead q \<and> q_conn q = c' \<and> q_sid q = s"
      using ok unfolding sched_ok_def by blast
    have "p \<notin> snd ` set m"
    proof
      assume "p \<in> snd ` set m"
      then obtain s' where "findQuery qs c s' = Some p" using found by auto
      then obtain q' where "qs_heap qs p = Some q' \<and> q_conn q' = c" using ok unfolding sched_ok_def by blast
      then show False using q f(1) by simp
    qed
    then show "\<exists>q. qs_heap qs' p = Some q \<and> \<not> q_dead q \<and> q_conn q = c' \<and> q_sid q = s" using q by (simp add: qs'_def h_def)
  next
    fix c' n assume "qs_conns qs' c' = Some n"
    then have "qs_conns qs c' = Some n" by (simp add: qs'_def split: if_splits)
    then show "distinct (map fst n)" "length n \<le> lim" using ok unfolding sched_ok_def by blast+
  qed
  then show ?thesis using r f' by (simp add: qs'_def)
qed

lemma qs_addSub_ok:
  assumes ok: "sched_ok lim [] qs" and lim: "lim = unat (relay_maxSubsPerConnection cfg)"
  shows "\<exists>b qs'. qs_addSub E cfg txn sub qs = Inr (b, qs') \<and> sched_ok lim [] qs' \<and>
    findQuery qs' = (findQuery qs)(sub_connId sub := (findQuery qs (sub_connId sub))(sub_subId sub := if b then Some (qs_next qs) else None)) \<and>
    qs_running qs' = (if b then [qs_next qs] else []) @ qs_running qs \<and>
    (b \<longrightarrow> qs_heap qs' (qs_next qs) = Some (mkDBQuery (sub\<lparr>sub_latestEventId := getMostRecentLevId E txn\<rparr>)))"
proof -
  let ?c = "sub_connId sub" and ?s = "sub_subId sub"
  let ?sub = "sub\<lparr>sub_latestEventId := getMostRecentLevId E txn\<rparr>"
  obtain qs1 where r1: "qs_removeSub ?c ?s qs = Inr qs1" and ok1: "sched_ok lim [] qs1"
    and f1: "findQuery qs1 = (findQuery qs)(?c := (findQuery qs ?c)(?s := None))"
    and run1: "qs_running qs1 = qs_running qs" "qs_next qs1 = qs_next qs" using qs_removeSub_ok [OF ok, of ?c ?s] by blast
  define m where "m = (case qs_conns qs1 ?c of None \<Rightarrow> [] | Some m \<Rightarrow> m)"
  have body: "qs_addSub E cfg txn sub qs =
      (if unat (relay_maxSubsPerConnection cfg) \<le> length m then Inr (False, qs1\<lparr>qs_conns := (qs_conns qs1)(?c \<mapsto> m)\<rparr>)
       else Inr (True, qs1\<lparr>qs_heap := (qs_heap qs1)(qs_next qs1 \<mapsto> mkDBQuery ?sub), qs_next := qs_next qs1 + 1,
          qs_conns := (qs_conns qs1)(?c \<mapsto> m @ [(?s, qs_next qs1)]), qs_running := qs_next qs1 # qs_running qs1\<rparr>))"
  proof (cases "findQuery qs ?c ?s")
    case None
    then have "qs1 = qs" using r1 by (simp add: qs_removeSub_def)
    then show ?thesis using None by (simp add: qs_addSub_def Let_def m_def)
  next
    case (Some p)
    then show ?thesis using r1 by (simp add: qs_addSub_def Let_def m_def)
  qed
  have m: "distinct (map fst m)" "length m \<le> lim" using ok1 by (auto simp: m_def sched_ok_def split: option.split)
  have mo: "map_of m s = findQuery qs1 ?c s" for s by (simp add: m_def findQuery_def split: option.split)
  define qs2 where "qs2 = qs1\<lparr>qs_conns := (qs_conns qs1)(?c \<mapsto> m)\<rparr>"
  have f2: "findQuery qs2 = findQuery qs1" by (auto simp: findQuery_def qs2_def fun_eq_iff m_def split: option.split)
  have ok2: "sched_ok lim [] qs2"
    using ok1 m unfolding sched_ok_def f2 by (auto simp: qs2_def split: if_splits)
  show ?thesis
  proof (cases "lim \<le> length m")
    case True
    then have "qs_addSub E cfg txn sub qs = Inr (False, qs2)"
      by (simp add: body lim qs2_def)
    then show ?thesis using ok2 f1 f2 run1 by (simp add: ex_bool_eq) (simp add: qs2_def run1)
  next
    case False
    define p where "p = qs_next qs"
    define qs3 where "qs3 = qs2\<lparr>qs_heap := (qs_heap qs2)(p \<mapsto> mkDBQuery ?sub), qs_next := p + 1,
        qs_conns := (qs_conns qs2)(?c \<mapsto> m @ [(?s, p)]), qs_running := p # qs_running qs2\<rparr>"
    have r: "qs_addSub E cfg txn sub qs = Inr (True, qs3)"
      using False run1 by (simp add: body lim qs2_def qs3_def p_def)
    have p2: "qs_next qs2 = p" "qs_running qs2 = qs_running qs" by (simp_all add: qs2_def run1 p_def)
    have fresh: "p \<notin> dom (qs_heap qs2)" using ok2 p2(1) unfolding sched_ok_def by blast
    have none: "findQuery qs1 ?c ?s = None" by (simp add: f1)
    have s: "?s \<notin> fst ` set m" using none mo [of ?s] by (simp add: map_of_eq_None_iff)
    have f3: "findQuery qs3 = (findQuery qs2)(?c := (findQuery qs2 ?c)(?s \<mapsto> p))"
    proof (intro ext)
      fix c' s'
      have "map_of (m @ [(?s, p)]) s' = (if s' = ?s then Some p else map_of m s')"
        using none mo [of ?s] by (simp add: map_add_def split: option.split)
      then show "findQuery qs3 c' s' = ((findQuery qs2)(?c := (findQuery qs2 ?c)(?s \<mapsto> p))) c' s'"
        using mo [of s'] f2 by (auto simp: findQuery_def qs3_def qs2_def)
    qed
    have old: "findQuery qs2 c' s' \<noteq> Some p" for c' s'
    proof
      assume "findQuery qs2 c' s' = Some p"
      then have "p \<in> dom (qs_heap qs2)" using ok2 unfolding sched_ok_def by blast
      then show False using fresh by blast
    qed
    have "sched_ok lim [] qs3"
      unfolding sched_ok_def
    proof (intro conjI allI impI)
      have run: "distinct (qs_running qs2)" "set (qs_running qs2) = dom (qs_heap qs2)" "\<forall>p \<in> dom (qs_heap qs2). p < qs_next qs2"
        using ok2 by (simp_all add: sched_ok_def)
      show "distinct ([] @ qs_running qs3)" "set ([] @ qs_running qs3) = dom (qs_heap qs3)"
        using run fresh by (simp_all add: qs3_def)
      show "\<forall>p \<in> dom (qs_heap qs3). p < qs_next qs3" using run(3) p2(1) by (auto simp: qs3_def less_Suc_eq)
    next
      fix p' q' assume a: "qs_heap qs3 p' = Some q' \<and> \<not> q_dead q'"
      show "findQuery qs3 (q_conn q') (q_sid q') = Some p'"
      proof (cases "p' = p")
        case True
        then show ?thesis using a by (simp add: f3) (auto simp: qs3_def mkDBQuery_def)
      next
        case no: False
        then have h: "qs_heap qs2 p' = Some q'" using a by (simp add: qs3_def)
        then have "findQuery qs2 (q_conn q') (q_sid q') = Some p'" using ok2 a unfolding sched_ok_def by blast
        moreover have "(q_conn q', q_sid q') \<noteq> (?c, ?s)" using calculation none by (auto simp: f2)
        ultimately show ?thesis by (auto simp: f3)
      qed
    next
      fix c' s' p' assume a: "findQuery qs3 c' s' = Some p'"
      show "\<exists>q. qs_heap qs3 p' = Some q \<and> \<not> q_dead q \<and> q_conn q = c' \<and> q_sid q = s'"
      proof (cases "(c', s') = (?c, ?s)")
        case True
        then show ?thesis using a by (simp add: f3) (simp add: qs3_def mkDBQuery_def)
      next
        case no: False
        then have f: "findQuery qs2 c' s' = Some p'" using a by (auto simp: f3 split: if_splits)
        then obtain q where "qs_heap qs2 p' = Some q \<and> \<not> q_dead q \<and> q_conn q = c' \<and> q_sid q = s'" using ok2 unfolding sched_ok_def by blast
        moreover have "p' \<noteq> p" using f old by metis
        ultimately show ?thesis by (simp add: qs3_def)
      qed
    next
      fix c' n assume n: "qs_conns qs3 c' = Some n"
      show "distinct (map fst n)" "length n \<le> lim"
      proof (atomize (full), cases "c' = ?c")
        case True
        then have "n = m @ [(?s, p)]" using n by (simp add: qs3_def)
        then show "distinct (map fst n) \<and> length n \<le> lim" using m s False by simp
      next
        case no: False
        then have "qs_conns qs2 c' = Some n" using n by (simp add: qs3_def)
        then show "distinct (map fst n) \<and> length n \<le> lim" using ok2 unfolding sched_ok_def by blast
      qed
    qed
    moreover have "findQuery qs3 = (findQuery qs)(?c := (findQuery qs ?c)(?s \<mapsto> p))" unfolding f3 f2 f1 by (simp add: fun_eq_iff)
    ultimately show ?thesis using r p2(2) by (simp add: ex_bool_eq p_def) (simp add: qs3_def p_def)
  qed
qed

text \<open>A slice of a query changes neither its subscription nor its \<open>dead\<close> flag.\<close>

definition same_query :: "DBQuery \<Rightarrow> DBQuery \<Rightarrow> bool" where
  "same_query q q' \<longleftrightarrow> q_sub q' = q_sub q \<and> q_dead q' = q_dead q"

text \<open>More generally, it keeps every property of the state of the callback that the callback keeps.\<close>

definition keeps :: "('s \<Rightarrow> bool) \<Rightarrow> (Subscription \<Rightarrow> u64 \<Rightarrow> 's \<Rightarrow> 's result) \<Rightarrow> bool" where
  "keeps P cb \<longleftrightarrow> (\<forall>sub l st st'. P st \<longrightarrow> cb sub l st = Inr st' \<longrightarrow> P st')"

definition kept :: "('s \<Rightarrow> bool) \<Rightarrow> DBQuery \<times> 's \<Rightarrow> DBQuery \<times> 's \<Rightarrow> bool" where
  "kept P x y \<longleftrightarrow> same_query (fst x) (fst y) \<and> (P (snd x) \<longrightarrow> P (snd y))"

lemma kept_refl [simp]: "kept P x x"
  by (simp add: kept_def same_query_def)

lemma kept_trans: "kept P x y \<Longrightarrow> kept P y z \<Longrightarrow> kept P x z"
  by (simp add: kept_def same_query_def)

lemma query_handle_kept:
  assumes "keeps P cb" and "query_handle cb f levId (q, t, st) = Inr (stop, q', t', st')"
  shows "kept P (q, st) (q', st')"
proof -
  have "same_query q q'" using assms(2) by (auto simp: query_handle_def same_query_def Let_def split: if_split_asm)
  moreover have "st' = st \<or> (\<exists>sub. cb sub levId st = Inr st')"
    using assms(2) by (auto simp: query_handle_def Let_def split: if_split_asm)
  ultimately show ?thesis using assms(1) by (auto simp: kept_def keeps_def)
qed

lemma query_pause_kept: "query_pause clock s b w (q, t, st) = (stop, q', t', st') \<Longrightarrow> kept P (q, st) (q', st')"
  by (auto simp: query_pause_def kept_def same_query_def split: if_split_asm)

lemma scan_next_kept:
  assumes cb: "keeps P cb" and run: "scan_next E txn (query_handle cb f) s (q, t, st) = Some fl"
  shows "case fl of Done r \<Rightarrow> (\<forall>b s' q' t' st'. r = Inr (b, s', q', t', st') \<longrightarrow> kept P (q, st) (q', st')) | Next (s', q', t', st') \<Rightarrow> kept P (q, st) (q', st')"
proof (cases "unat (nextInitIndex s) < length (cursors s)")
  case True
  then show ?thesis using run by (auto simp: scan_next_def)
next
  case False
  show ?thesis
  proof (cases "eventQueue s")
    case Nil
    then show ?thesis using run False by (auto simp: scan_next_def)
  next
    case (Cons ev rest)
    let ?s = "s\<lparr>eventQueue := rest, approxWork := if indexOnly s then approxWork s else approxWork s + 10\<rparr>"
    let ?r = "rbind (doSend E txn ?s ev) (\<lambda>b. if b then query_handle cb f (ce_levId ev) (q, t, st) else Inr (False, q, t, st))"
    have same: "kept P (q, st) (q', st')" if r: "?r = Inr (stop, q', t', st')" for stop q' t' st'
    proof -
      obtain b where "(if b then query_handle cb f (ce_levId ev) (q, t, st) else Inr (False, q, t, st)) = Inr (stop, q', t', st')"
        using r unfolding rbind_eq_Inr by blast
      then show ?thesis by (cases b) (auto dest: query_handle_kept [OF cb])
    qed
    have fl: "Some fl = (case ?r of Inl e \<Rightarrow> Some (Done (Inl e)) | Inr (stop, st) \<Rightarrow>
        if stop then Some (Done (Inr (True, ?s, st)))
        else map_option (\<lambda>r. case r of Inl e \<Rightarrow> Done (Inl e) | Inr s \<Rightarrow> Next (s, st)) (scan_refill E txn ev ?s))"
      using run False Cons by (simp only: scan_next_def Let_def if_False list.case)
    show ?thesis
    proof (cases ?r)
      case (Inl e)
      then show ?thesis using fl by simp
    next
      case (Inr y)
      obtain stop q' t' st' where y: "y = (stop, q', t', st')" by (cases y)
      have q': "kept P (q, st) (q', st')" using same Inr y by blast
      have fl': "Some fl = (if stop then Some (Done (Inr (True, ?s, q', t', st')))
          else map_option (\<lambda>r. case r of Inl e \<Rightarrow> Done (Inl e) | Inr s \<Rightarrow> Next (s, q', t', st')) (scan_refill E txn ev ?s))"
        using fl unfolding Inr y by simp
      show ?thesis
      proof (cases stop)
        case True
        then show ?thesis using q' fl' by simp
      next
        case False
        obtain z where "fl = (case z of Inl e \<Rightarrow> Done (Inl e) | Inr s \<Rightarrow> Next (s, q', t', st'))"
          using fl' [symmetric] unfolding if_not_P [OF False] map_option_eq_Some by metis
        then show ?thesis using q' by (cases z) auto
      qed
    qed
  qed
qed

lemma scan_kept:
  assumes cb: "keeps P cb" and run: "scan E txn (query_handle cb f) (query_pause clock b0 b1) s (q, t, st) = Some (Inr (c, s', q', t', st'))"
  shows "kept P (q, st) (q', st')"
proof -
  define Q where "Q r \<longleftrightarrow> (\<forall>c s' q' t' st'. r = Inr (c, s', q', t', st') \<longrightarrow> kept P (q, st) (q', st'))" for r :: "(bool \<times> DBScan \<times> DBQuery \<times> nat \<times> 'a) result"
  have "Q (Inr (c, s', q', t', st'))"
  proof (rule while_flow_partial [OF run [unfolded scan_def], where I = "\<lambda>(s, q', t, st'). kept P (q, st) (q', st')"])
    fix x fl assume I: "case x of (s, q', t, st') \<Rightarrow> kept P (q, st) (q', st')"
      and step: "scan_body E txn (query_handle cb f) (query_pause clock b0 b1) x = Some fl"
    obtain s1 q1 t1 st1 where x: "x = (s1, q1, t1, st1)" by (cases x)
    let ?s = "s1\<lparr>approxWork := approxWork s1 + 1\<rparr>"
    obtain p q2 t2 st2 where pz: "query_pause clock b0 b1 (approxWork ?s) (q1, t1, st1) = (p, q2, t2, st2)" by (metis prod_cases4)
    have s2: "kept P (q, st) (q2, st2)" using I query_pause_kept [OF pz, of P] by (auto simp: x intro: kept_trans)
    have st: "(if p then Some (Done (Inr (False, ?s, q2, t2, st2))) else scan_next E txn (query_handle cb f) ?s (q2, t2, st2)) = Some fl"
      using step pz by (simp add: scan_body_def x Let_def)
    show "case fl of Done r \<Rightarrow> Q r | Next x \<Rightarrow> (case x of (s, q', t, st') \<Rightarrow> kept P (q, st) (q', st'))"
    proof (cases p)
      case True
      then show ?thesis using st s2 by (auto simp: Q_def)
    next
      case False
      then have "scan_next E txn (query_handle cb f) ?s (q2, t2, st2) = Some fl" using st by simp
      from scan_next_kept [OF cb this] show ?thesis using s2 by (cases fl) (auto simp: Q_def intro: kept_trans)
    qed
  qed simp
  then show ?thesis unfolding Q_def by blast
qed

lemma query_process_kept:
  assumes cb: "keeps P cb" and run: "query_process E clock txn cb budget (q, t, st) = Some (Inr (c, q', t', st'))"
  shows "kept P (q, st) (q', st')"
proof -
  define Q where "Q r \<longleftrightarrow> (\<forall>c q' t' st'. r = Inr (c, q', t', st') \<longrightarrow> kept P (q, st) (q', st'))" for r :: "(bool \<times> DBQuery \<times> nat \<times> 'a) result"
  have "Q (Inr (c, q', t', st'))"
  proof (rule while_flow_partial [OF run [unfolded query_process_def], where I = "\<lambda>(q', t, st'). kept P (q, st) (q', st')"])
    fix x fl assume I: "case x of (q', t, st') \<Rightarrow> kept P (q, st) (q', st')" and step: "query_body E clock txn cb budget x = Some fl"
    obtain q1 t1 st1 where x: "x = (q1, t1, st1)" by (cases x)
    let ?f = "fg_filters (sub_filterGroup (q_sub q1)) ! filterGroupIndex q1"
    show "case fl of Done r \<Rightarrow> Q r | Next x \<Rightarrow> (case x of (q', t, st') \<Rightarrow> kept P (q, st) (q', st'))"
    proof (cases "filterGroupIndex q1 < fg_size (sub_filterGroup (q_sub q1))")
      case False
      then show ?thesis using step I by (auto simp: Q_def query_body_def x)
    next
      case True
      show ?thesis
      proof (cases "case scanner q1 of Some s \<Rightarrow> Inr s | None \<Rightarrow> mkDBScan E ?f")
        case (Inl e)
        then show ?thesis using step True by (auto simp: Q_def query_body_def x Let_def)
      next
        case (Inr s)
        then obtain r where r: "scan E txn (query_handle cb ?f) (query_pause clock (clock t1) budget) s (q1, t1 + 1, st1) = Some r"
          using step True by (auto simp: query_body_def x Let_def)
        show ?thesis
        proof (cases r)
          case (Inl e)
          then show ?thesis using step True \<open>_ = Inr s\<close> r by (auto simp: Q_def query_body_def x Let_def)
        next
          case rr: (Inr y)
          obtain c2 s2 q2 t2 st2 where y: "y = (c2, s2, q2, t2, st2)" by (cases y)
          have "kept P (q1, st1) (q2, st2)" by (rule scan_kept [OF cb]) (use r rr y in auto)
          then have q2: "kept P (q, st) (q2, st2)" using I by (auto simp: x intro: kept_trans)
          then have upd: "kept P (q, st) (q3, st2)" if "q_sub q3 = q_sub q2" "q_dead q3 = q_dead q2" for q3 using that by (simp add: kept_def same_query_def)
          show ?thesis using step True Inr r rr by (auto simp: Q_def query_body_def x Let_def y intro!: upd split: if_split_asm)
        qed
      qed
    qed
  qed simp
  then show ?thesis unfolding Q_def by blast
qed

lemma query_process_same:
  assumes "query_process E clock txn cb budget (q, t, st) = Some (Inr (c, q', t', st'))"
  shows "same_query q q'"
  using query_process_kept [OF _ assms, of "\<lambda>_. True"] by (simp add: kept_def keeps_def)

text \<open>
  \<open>onEvent\<close>, \<open>onEventBatch\<close>, \<open>onComplete\<close> and the scan may throw; the scheduler itself does not.
  \<open>raised\<close> says that an exception comes from one of them.
\<close>

definition raised :: "'t env \<Rightarrow> cfg \<Rightarrow> (nat \<Rightarrow> u64) \<Rightarrow> 't \<Rightarrow> ('t, 's) callbacks \<Rightarrow> exn \<Rightarrow> bool" where
  "raised E cfg clock txn cbs e \<longleftrightarrow>
     (\<exists>b q t batch st. query_process E clock txn (qs_event E cbs txn b) (relay_queryTimesliceBudgetMicroseconds cfg) (q, t, (batch, st)) = Some (Inl e)) \<or>
     (\<exists>f sub ids st. onEventBatch cbs = Some f \<and> f txn sub ids st = Inl e) \<or>
     (\<exists>f sub n st. onComplete cbs = Some f \<and> f txn sub n st = Inl e)"

lemma sched_ok_batch [simp]: "sched_ok lim X (qs\<lparr>levIdBatch := b\<rparr>) = sched_ok lim X qs"
  by (simp add: sched_ok_def findQuery_def)

lemma sched_ok_take: "sched_ok lim [] qs \<Longrightarrow> qs_running qs = p # rest \<Longrightarrow> sched_ok lim [p] (qs\<lparr>qs_running := rest\<rparr>)"
  by (simp add: sched_ok_def findQuery_def)

lemma sched_ok_put: "sched_ok lim [p] qs \<Longrightarrow> sched_ok lim [] (qs\<lparr>qs_running := qs_running qs @ [p]\<rparr>)"
  by (simp add: sched_ok_def findQuery_def)

lemma sched_ok_heap:
  assumes ok: "sched_ok lim X qs" and q: "qs_heap qs p = Some q" and same: "same_query q q'"
  shows "sched_ok lim X (qs\<lparr>qs_heap := (qs_heap qs)(p \<mapsto> q')\<rparr>)"
proof -
  let ?qs = "qs\<lparr>qs_heap := (qs_heap qs)(p \<mapsto> q')\<rparr>"
  have dm: "dom (qs_heap ?qs) = dom (qs_heap qs)" using q by auto
  have f: "findQuery ?qs = findQuery qs" by (simp add: findQuery_def fun_eq_iff)
  have like: "qs_heap ?qs p' = Some x \<Longrightarrow> \<exists>y. qs_heap qs p' = Some y \<and> same_query y x"
    "qs_heap qs p' = Some x \<Longrightarrow> \<exists>y. qs_heap ?qs p' = Some y \<and> same_query x y" for p' x
    using q same by (auto simp: same_query_def split: if_split_asm)
  show ?thesis
    unfolding sched_ok_def dm f
  proof (intro conjI allI impI)
    fix p' x assume a: "qs_heap ?qs p' = Some x \<and> \<not> q_dead x"
    then obtain y where "qs_heap qs p' = Some y" "same_query y x" using like(1) by blast
    then show "findQuery qs (q_conn x) (q_sid x) = Some p'" using ok a unfolding sched_ok_def same_query_def by metis
  next
    fix c s p' assume "findQuery qs c s = Some p'"
    then obtain y where "qs_heap qs p' = Some y \<and> \<not> q_dead y \<and> q_conn y = c \<and> q_sid y = s" using ok unfolding sched_ok_def by blast
    then show "\<exists>x. qs_heap ?qs p' = Some x \<and> \<not> q_dead x \<and> q_conn x = c \<and> q_sid x = s" using like(2) unfolding same_query_def by metis
  qed (use ok in \<open>auto simp: sched_ok_def\<close>)
qed

text \<open>A query that is freed is not found any more, because it is dead.\<close>

lemma sched_ok_free:
  assumes ok: "sched_ok lim [p] qs" and q: "qs_heap qs p = Some q" and dead: "q_dead q"
  shows "sched_ok lim [] (qs\<lparr>qs_heap := (qs_heap qs)(p := None)\<rparr>)"
proof -
  have gone: "findQuery qs c s \<noteq> Some p" for c s
  proof
    assume "findQuery qs c s = Some p"
    then obtain q' where "qs_heap qs p = Some q'" "\<not> q_dead q'" using ok unfolding sched_ok_def by blast
    then show False using q dead by simp
  qed
  have f: "findQuery (qs\<lparr>qs_heap := h\<rparr>) = findQuery qs" for h by (simp add: findQuery_def fun_eq_iff)
  have run: "distinct (p # qs_running qs)" "insert p (set (qs_running qs)) = dom (qs_heap qs)" using ok by (simp_all add: sched_ok_def)
  show ?thesis
    unfolding sched_ok_def f
  proof (intro conjI allI impI)
    show "distinct ([] @ qs_running (qs\<lparr>qs_heap := (qs_heap qs)(p := None)\<rparr>))" using run by simp
    show "set ([] @ qs_running (qs\<lparr>qs_heap := (qs_heap qs)(p := None)\<rparr>)) = dom (qs_heap (qs\<lparr>qs_heap := (qs_heap qs)(p := None)\<rparr>))"
      using run by auto
    show "\<forall>p' \<in> dom (qs_heap (qs\<lparr>qs_heap := (qs_heap qs)(p := None)\<rparr>)). p' < qs_next (qs\<lparr>qs_heap := (qs_heap qs)(p := None)\<rparr>)"
      using ok by (auto simp: sched_ok_def)
  next
    fix p' q' assume "qs_heap (qs\<lparr>qs_heap := (qs_heap qs)(p := None)\<rparr>) p' = Some q' \<and> \<not> q_dead q'"
    then have "qs_heap qs p' = Some q' \<and> \<not> q_dead q'" by (simp split: if_split_asm)
    then show "findQuery qs (q_conn q') (q_sid q') = Some p'" using ok unfolding sched_ok_def by blast
  next
    fix c s p' assume a: "findQuery qs c s = Some p'"
    then obtain q' where "qs_heap qs p' = Some q' \<and> \<not> q_dead q' \<and> q_conn q' = c \<and> q_sid q' = s" using ok unfolding sched_ok_def by blast
    then show "\<exists>q. qs_heap (qs\<lparr>qs_heap := (qs_heap qs)(p := None)\<rparr>) p' = Some q \<and> \<not> q_dead q \<and> q_conn q = c \<and> q_sid q = s"
      using a gone by auto
  next
    fix c m assume "qs_conns (qs\<lparr>qs_heap := (qs_heap qs)(p := None)\<rparr>) c = Some m"
    then show "distinct (map fst m)" "length m \<le> lim" using ok unfolding sched_ok_def by auto
  qed
qed

lemma qs_after_ok:
  assumes ok: "sched_ok lim [p] qs" and q: "qs_heap qs p = Some q" "\<not> q_dead q"
  shows "case qs_after cbs txn p q complete qs st of
      Inr (qs', st') \<Rightarrow> sched_ok lim [] qs'
    | Inl e \<Rightarrow> (\<exists>f sub ids st. onEventBatch cbs = Some f \<and> f txn sub ids st = Inl e) \<or> (\<exists>f sub n st. onComplete cbs = Some f \<and> f txn sub n st = Inl e)"
proof -
  let ?b = "case onEventBatch cbs of None \<Rightarrow> Inr (qs, st) | Some f \<Rightarrow> rbind (f txn (q_sub q) (levIdBatch qs) st) (\<lambda>st. Inr (qs\<lparr>levIdBatch := []\<rparr>, st))"
  show ?thesis
  proof (cases ?b)
    case (Inl e)
    then have "\<exists>f sub ids st. onEventBatch cbs = Some f \<and> f txn sub ids st = Inl e" by (auto simp: rbind_eq_Inl split: option.splits)
    then show ?thesis using Inl by (simp add: qs_after_def)
  next
    case (Inr y)
    then obtain b st1 where y: "?b = Inr (qs\<lparr>levIdBatch := b\<rparr>, st1)"
      by (cases "onEventBatch cbs") (auto intro: that [of "levIdBatch qs"])
    define qs1 where "qs1 = qs\<lparr>levIdBatch := b\<rparr>"
    have ok1: "sched_ok lim [p] qs1" using ok by (simp add: qs1_def)
    have q1: "qs_heap qs1 p = Some q" using q by (simp add: qs1_def)
    have found: "findQuery qs1 (q_conn q) (q_sid q) = Some p" using ok1 q1 q(2) unfolding sched_ok_def by blast
    show ?thesis
    proof (cases complete)
      case False
      then show ?thesis using y sched_ok_put [OF ok1] by (simp add: qs_after_def qs1_def)
    next
      case True
      obtain qs2 where r2: "qs_removeSub (q_conn q) (q_sid q) qs1 = Inr qs2" "sched_ok lim [p] qs2"
        and d: "dom (qs_heap qs2) = dom (qs_heap qs1)" and f2: "findQuery qs2 = (findQuery qs1)(q_conn q := (findQuery qs1 (q_conn q))(q_sid q := None))"
        using qs_removeSub_ok [OF ok1, of "q_conn q" "q_sid q"] by blast
      have q2: "qs_heap qs2 p = Some (q\<lparr>q_dead := True\<rparr>)"
        using r2(1) found q1 by (auto simp: qs_removeSub_def mark_dead_def Let_def)
      have free: "sched_ok lim [] (qs2\<lparr>qs_heap := (qs_heap qs2)(p := None)\<rparr>)" by (rule sched_ok_free [OF r2(2) q2]) simp
      let ?c = "case onComplete cbs of None \<Rightarrow> Inr st1 | Some f \<Rightarrow> f txn (q_sub q) (of_nat (card (sentEventsFull q))) st1"
      have run: "qs_after cbs txn p q complete qs st = rbind ?c (\<lambda>st. Inr (qs2\<lparr>qs_heap := (qs_heap qs2)(p := None)\<rparr>, st))"
        using y r2(1) True by (simp add: qs_after_def qs1_def)
      show ?thesis
      proof (cases ?c)
        case (Inl e)
        then show ?thesis unfolding run by (auto split: option.splits)
      next
        case (Inr st2)
        then show ?thesis unfolding run using free by simp
      qed
    qed
  qed
qed

lemma qs_process_ok:
  assumes ok: "sched_ok lim [] qs" and run: "qs_process E cfg clock txn cbs (qs, t, st) = Some r"
  shows "case r of Inr (qs', t', st') \<Rightarrow> sched_ok lim [] qs' | Inl e \<Rightarrow> raised E cfg clock txn cbs e"
proof (cases "qs_running qs")
  case Nil
  then show ?thesis using ok run by (auto simp: qs_process_def)
next
  case (Cons p rest)
  let ?qs = "qs\<lparr>qs_running := rest\<rparr>"
  have ok1: "sched_ok lim [p] ?qs" by (rule sched_ok_take [OF ok Cons])
  have "p \<in> dom (qs_heap qs)" using ok Cons by (auto simp: sched_ok_def)
  then obtain q where q: "qs_heap qs p = Some q" by blast
  show ?thesis
  proof (cases "q_dead q")
    case True
    have "sched_ok lim [] (?qs\<lparr>qs_heap := (qs_heap ?qs)(p := None)\<rparr>)" by (rule sched_ok_free [OF ok1]) (use q True in auto)
    then show ?thesis using run Cons q True by (auto simp: qs_process_def)
  next
    case False
    let ?call = "query_process E clock txn (qs_event E cbs txn (ensureExists qs)) (relay_queryTimesliceBudgetMicroseconds cfg) (q, t, (levIdBatch qs, st))"
    have run': "map_option (\<lambda>r. rbind r (\<lambda>(complete, q, t, batch, st).
        rbind (qs_after cbs txn p q complete (?qs\<lparr>qs_heap := (qs_heap ?qs)(p \<mapsto> q), levIdBatch := batch\<rparr>) st) (\<lambda>(qs, st). Inr (qs, t, st)))) ?call = Some r"
      using run Cons q False by (simp add: qs_process_def)
    then obtain r1 where r1: "?call = Some r1" by blast
    show ?thesis
    proof (cases r1)
      case (Inl e)
      then have "raised E cfg clock txn cbs e" using r1 unfolding raised_def by blast
      then show ?thesis using run' r1 Inl by auto
    next
      case (Inr y)
      obtain complete q1 t1 batch st1 where y: "y = (complete, q1, t1, batch, st1)" by (cases y)
      have same: "same_query q q1" by (rule query_process_same) (use r1 Inr y in auto)
      let ?qs1 = "?qs\<lparr>qs_heap := (qs_heap ?qs)(p \<mapsto> q1), levIdBatch := batch\<rparr>"
      have ok2: "sched_ok lim [p] ?qs1" using sched_ok_heap [OF ok1 _ same, of p] q by simp
      have r: "r = rbind (qs_after cbs txn p q1 complete ?qs1 st1) (\<lambda>(qs, st). Inr (qs, t1, st))"
        using run' r1 Inr y by auto
      have "qs_heap ?qs1 p = Some q1" "\<not> q_dead q1" using same False by (simp_all add: same_query_def)
      from qs_after_ok [OF ok2 this, of cbs txn complete st1]
      show ?thesis unfolding r by (cases "qs_after cbs txn p q1 complete ?qs1 st1") (auto simp: raised_def)
    qed
  qed
qed

section \<open>Every state the scheduler reaches\<close>

text \<open>The transaction, the number of clock readings and the state of the callbacks are free at every step: the worker opens a new transaction for each round.\<close>

inductive sched_run :: "'t env \<Rightarrow> cfg \<Rightarrow> (nat \<Rightarrow> u64) \<Rightarrow> ('t, 's) callbacks \<Rightarrow> QueryScheduler \<Rightarrow> bool"
  for E :: "'t env" and cfg :: cfg and clock :: "nat \<Rightarrow> u64" and cbs :: "('t, 's) callbacks" where
  run_new: "sched_run E cfg clock cbs (new_QueryScheduler ensure)"
| run_add: "sched_run E cfg clock cbs qs \<Longrightarrow> qs_addSub E cfg txn sub qs = Inr (b, qs') \<Longrightarrow> sched_run E cfg clock cbs qs'"
| run_remove: "sched_run E cfg clock cbs qs \<Longrightarrow> qs_removeSub c s qs = Inr qs' \<Longrightarrow> sched_run E cfg clock cbs qs'"
| run_close: "sched_run E cfg clock cbs qs \<Longrightarrow> qs_closeConn c qs = Inr qs' \<Longrightarrow> sched_run E cfg clock cbs qs'"
| run_process: "sched_run E cfg clock cbs qs \<Longrightarrow> qs_process E cfg clock txn cbs (qs, t, st) = Some (Inr (qs', t', st')) \<Longrightarrow>
    sched_run E cfg clock cbs qs'"

lemma sched_run_ok: "sched_run E cfg clock cbs qs \<Longrightarrow> sched_ok (unat (relay_maxSubsPerConnection cfg)) [] qs"
proof (induction rule: sched_run.induct)
  case (run_new ensure)
  show ?case by (rule sched_new)
next
  case (run_add qs txn sub b qs')
  then show ?case using qs_addSub_ok [OF run_add.IH refl, of E txn sub] by auto
next
  case (run_remove qs c s qs')
  then show ?case using qs_removeSub_ok [OF run_remove.IH, of c s] by auto
next
  case (run_close qs c qs')
  then show ?case using qs_closeConn_ok [OF run_close.IH, of c] by auto
next
  case (run_process qs txn t st qs' t' st')
  then show ?case using qs_process_ok [OF run_process.IH run_process.hyps(2)] by simp
qed

text \<open>C18: In every state that a query scheduler reaches by adding and removing subscriptions, closing
  connections and processing slices, every query that is allocated waits in the deque exactly once and every
  waiting pointer is valid; a live query is found under its connection and its id, and only live queries are
  found; no connection has more queries than \<open>maxSubsPerConnection\<close>.  From such a state adding, removing and
  closing succeed, the subscription that was added is found under its id exactly if \<open>addSub\<close> returned true, and
  a slice fails only with an exception that a scan or a callback threw: no freed query is followed.\<close>

theorem scheduler_pointers:
  assumes "sched_run E cfg clock cbs qs"
  shows "sched_ok (unat (relay_maxSubsPerConnection cfg)) [] qs \<and>
    (\<exists>b qs'. qs_addSub E cfg txn sub qs = Inr (b, qs') \<and>
       findQuery qs' = (findQuery qs)(sub_connId sub := (findQuery qs (sub_connId sub))(sub_subId sub := if b then Some (qs_next qs) else None))) \<and>
    (\<exists>qs'. qs_removeSub c s qs = Inr qs' \<and> findQuery qs' = (findQuery qs)(c := (findQuery qs c)(s := None))) \<and>
    (\<exists>qs'. qs_closeConn c qs = Inr qs' \<and> findQuery qs' = (findQuery qs)(c := Map.empty)) \<and>
    (\<forall>e. qs_process E cfg clock txn cbs (qs, t, st) = Some (Inl e) \<longrightarrow> raised E cfg clock txn cbs e)"
proof (intro conjI allI impI)
  show ok: "sched_ok (unat (relay_maxSubsPerConnection cfg)) [] qs" by (rule sched_run_ok [OF assms])
  show "\<exists>b qs'. qs_addSub E cfg txn sub qs = Inr (b, qs') \<and>
       findQuery qs' = (findQuery qs)(sub_connId sub := (findQuery qs (sub_connId sub))(sub_subId sub := if b then Some (qs_next qs) else None))"
    using qs_addSub_ok [OF ok refl, of E txn sub] by blast
  show "\<exists>qs'. qs_removeSub c s qs = Inr qs' \<and> findQuery qs' = (findQuery qs)(c := (findQuery qs c)(s := None))"
    using qs_removeSub_ok [OF ok, of c s] by blast
  show "\<exists>qs'. qs_closeConn c qs = Inr qs' \<and> findQuery qs' = (findQuery qs)(c := Map.empty)"
    using qs_closeConn_ok [OF ok, of c] by blast
  fix e assume "qs_process E cfg clock txn cbs (qs, t, st) = Some (Inl e)"
  from qs_process_ok [OF ok this] show "raised E cfg clock txn cbs e" by simp
qed

theorem scheduler_pointers_witness:
  "\<exists>b qs qs'. qs_addSub mem_env default_cfg sample_store sample_query (new_QueryScheduler True) = Inr (b, qs) \<and>
     sched_ok 200 [] qs \<and> qs_closeConn (sub_connId sample_query) qs = Inr qs' \<and>
     findQuery qs' (sub_connId sample_query) (sub_subId sample_query) = None"
proof -
  let ?cbs = "\<lparr>onEvent = None, onEventBatch = None, onComplete = None\<rparr> :: (tables, unit) callbacks"
  have new: "sched_run mem_env default_cfg (\<lambda>_. 0) ?cbs (new_QueryScheduler True)" by (rule run_new)
  obtain b qs where add: "qs_addSub mem_env default_cfg sample_store sample_query (new_QueryScheduler True) = Inr (b, qs)"
    using scheduler_pointers [OF new] by blast
  have run: "sched_run mem_env default_cfg (\<lambda>_. 0) ?cbs qs" by (rule run_add [OF new add])
  have lim: "unat (relay_maxSubsPerConnection default_cfg) = 200" by (simp add: default_cfg_def)
  have ok: "sched_ok 200 [] qs" using scheduler_pointers [OF run] unfolding lim by blast
  obtain qs' where "qs_closeConn (sub_connId sample_query) qs = Inr qs'" "findQuery qs' = (findQuery qs)(sub_connId sample_query := Map.empty)"
    using scheduler_pointers [OF run, where c = "sub_connId sample_query"] by blast
  then show ?thesis using add ok by auto
qed

end
