(* ===== verification/RelayReqWorker.thy ===== *)
theory RelayReqWorker
  imports QuerySchedulerProof RelayServer
begin

text \<open>
  \<open>src/apps/relay/RelayReqWorker.cpp\<close>: the thread that answers requests from the database.  The state of the
  thread is its query scheduler; the callbacks of the scheduler act on the state of the relay.  A round of the
  loop takes the messages of the inbox, opens a transaction and gives a slice to a query after each new
  subscription and at the end.  An exception ends the program, so it is the result of the round.  The checks of
  the life cycle, which release builds leave out, are those of \<open>Subscription\<close>.
\<close>

section \<open>The callbacks\<close>

definition req_onEvent ::
  "(u32 \<Rightarrow> bytes \<Rightarrow> bytes result) \<Rightarrow> 't \<Rightarrow> Subscription \<Rightarrow> u64 \<Rightarrow> bytes \<Rightarrow> RelayServer \<Rightarrow> RelayServer result" where
  "req_onEvent decomp txn sub levId eventPayload rs =
     (if sub_countOnly sub then Inr rs
      else rbind (decodeEventPayload decomp eventPayload) (\<lambda>(evJson, _). Inr (sendEvent (sub_connId sub) (sub_subId sub) evJson rs)))"

definition count_reply :: "libs \<Rightarrow> cfg \<Rightarrow> SubId \<Rightarrow> u64 \<Rightarrow> string" where
  "count_reply L cfg subId tot =
     (let limited = tot > relay_maxFilterLimitCount cfg;
          tot = (if limited then relay_maxFilterLimitCount cfg else tot);
          countBody = [(''count'', JUnsigned tot)] @ (if limited then [(''limited'', JBool True)] else []) in
      json_to_string L (JArray [JString ''COUNT'', JString (subid_sv subId), JObject countBody]))"

definition eose_reply :: "libs \<Rightarrow> SubId \<Rightarrow> string" where
  "eose_reply L subId = json_to_string L (JArray [JString ''EOSE'', JString (subid_sv subId)])"

definition req_onComplete :: "libs \<Rightarrow> cfg \<Rightarrow> 't \<Rightarrow> Subscription \<Rightarrow> u64 \<Rightarrow> RelayServer \<Rightarrow> RelayServer result" where
  "req_onComplete L cfg txn sub tot rs =
     (if sub_countOnly sub then Inr (sendToConn (sub_connId sub) (count_reply L cfg (sub_subId sub) tot) rs)
      else
        let rs = sendToConn (sub_connId sub) (eose_reply L (sub_subId sub)) rs in
        Inr (rs\<lparr>tpReqMonitor := dispatch (sub_connId sub) (Monitor_NewSub sub) (tpReqMonitor rs)\<rparr>))"

definition req_callbacks :: "libs \<Rightarrow> cfg \<Rightarrow> (u32 \<Rightarrow> bytes \<Rightarrow> bytes result) \<Rightarrow> ('t, RelayServer) callbacks" where
  "req_callbacks L cfg decomp = \<lparr>onEvent = Some (req_onEvent decomp), onEventBatch = None, onComplete = Some (req_onComplete L cfg)\<rparr>"

section \<open>The loop\<close>

type_synonym worker = "QueryScheduler \<times> nat \<times> RelayServer"

definition reqWorker_msg ::
  "'t env \<Rightarrow> libs \<Rightarrow> cfg \<Rightarrow> (u32 \<Rightarrow> bytes \<Rightarrow> bytes result) \<Rightarrow> (nat \<Rightarrow> u64) \<Rightarrow> 't \<Rightarrow> MsgReqWorker \<Rightarrow> worker \<Rightarrow> worker result option" where
  "reqWorker_msg E L cfg decomp clock txn m = (\<lambda>(queries, t, rs).
     case m of
       NewSub sub \<Rightarrow>
         (case qs_addSub E cfg txn sub queries of
            Inl e \<Rightarrow> Some (Inl e)
          | Inr (ok, queries) \<Rightarrow>
              let rs = (if \<not> ok then sendNoticeError L (sub_connId sub) ''too many concurrent REQs'' rs else rs) in
              qs_process E cfg clock txn (req_callbacks L cfg decomp) (queries, t, rs))
     | RemoveSub connId subId \<Rightarrow>
         Some (rbind (qs_removeSub connId subId queries) (\<lambda>queries.
           Inr (queries, t, rs\<lparr>tpReqMonitor := dispatch connId (Monitor_RemoveSub connId subId) (tpReqMonitor rs)\<rparr>)))
     | CloseConn connId \<Rightarrow>
         Some (rbind (qs_closeConn connId queries) (\<lambda>queries.
           Inr (queries, t, rs\<lparr>tpReqMonitor := dispatch connId (Monitor_CloseConn connId) (tpReqMonitor rs)\<rparr>))))"

fun reqWorker_msgs ::
  "'t env \<Rightarrow> libs \<Rightarrow> cfg \<Rightarrow> (u32 \<Rightarrow> bytes \<Rightarrow> bytes result) \<Rightarrow> (nat \<Rightarrow> u64) \<Rightarrow> 't \<Rightarrow> MsgReqWorker list \<Rightarrow> worker \<Rightarrow> worker result option" where
  "reqWorker_msgs E L cfg decomp clock txn [] w = Some (Inr w)"
| "reqWorker_msgs E L cfg decomp clock txn (m # ms) w =
     (case reqWorker_msg E L cfg decomp clock txn m w of
        Some (Inr w) \<Rightarrow> reqWorker_msgs E L cfg decomp clock txn ms w
      | x \<Rightarrow> x)"

text \<open>One round; the wait for a message while no query is running is a round that does nothing.\<close>

definition runReqWorker ::
  "'t env \<Rightarrow> libs \<Rightarrow> cfg \<Rightarrow> (u32 \<Rightarrow> bytes \<Rightarrow> bytes result) \<Rightarrow> (nat \<Rightarrow> u64) \<Rightarrow> nat \<Rightarrow> 't \<Rightarrow> worker \<Rightarrow> worker result option" where
  "runReqWorker E L cfg decomp clock thr txn = (\<lambda>(queries, t, rs).
     let (newMsgs, pool) = pop_all thr (tpReqWorker rs) in
     case reqWorker_msgs E L cfg decomp clock txn newMsgs (queries, t, rs\<lparr>tpReqWorker := pool\<rparr>) of
       Some (Inr w) \<Rightarrow> qs_process E cfg clock txn (req_callbacks L cfg decomp) w
     | x \<Rightarrow> x)"

text \<open>Several rounds on a database that does not change meanwhile.\<close>

fun worker_rounds ::
  "'t env \<Rightarrow> libs \<Rightarrow> cfg \<Rightarrow> (u32 \<Rightarrow> bytes \<Rightarrow> bytes result) \<Rightarrow> (nat \<Rightarrow> u64) \<Rightarrow> nat \<Rightarrow> 't \<Rightarrow> nat \<Rightarrow> worker \<Rightarrow> worker result option" where
  "worker_rounds E L cfg decomp clock thr txn 0 w = Some (Inr w)"
| "worker_rounds E L cfg decomp clock thr txn (Suc n) w =
     (case runReqWorker E L cfg decomp clock thr txn w of
        Some (Inr w) \<Rightarrow> worker_rounds E L cfg decomp clock thr txn n w
      | x \<Rightarrow> x)"

section \<open>What a request is sent\<close>

definition send_stored :: "(u32 \<Rightarrow> bytes \<Rightarrow> bytes result) \<Rightarrow> tables \<Rightarrow> Subscription \<Rightarrow> u64 \<Rightarrow> u64 list \<times> RelayServer \<Rightarrow> u64 list \<times> RelayServer" where
  "send_stored decomp T sub l = (\<lambda>(batch, rs). (batch,
     if sub_countOnly sub then rs
     else case stored_json decomp T l of None \<Rightarrow> rs | Some j \<Rightarrow> sendEvent (sub_connId sub) (sub_subId sub) j rs))"

lemma event_callback:
  assumes "golpe_env E view" and "payloads_ok decomp (view txn)"
  shows "qs_event E (req_callbacks L cfg decomp) txn True sub l st = Inr (send_stored decomp (view txn) sub l st)"
proof (cases "t_payload (view txn) l")
  case None
  then show ?thesis by (cases st) (simp add: qs_event_def golpe_env.payload_get [OF assms(1)] send_stored_def stored_json_def)
next
  case (Some b)
  with payloads_okD [OF assms(2) this] show ?thesis
    by (cases st) (auto simp: qs_event_def golpe_env.payload_get [OF assms(1)] send_stored_def req_callbacks_def req_onEvent_def)
qed

definition completed :: "libs \<Rightarrow> cfg \<Rightarrow> Subscription \<Rightarrow> nat \<Rightarrow> RelayServer \<Rightarrow> RelayServer" where
  "completed L cfg sub n rs =
     (if sub_countOnly sub then sendToConn (sub_connId sub) (count_reply L cfg (sub_subId sub) (of_nat n)) rs
      else
        let rs = sendToConn (sub_connId sub) (eose_reply L (sub_subId sub)) rs in
        rs\<lparr>tpReqMonitor := dispatch (sub_connId sub) (Monitor_NewSub sub) (tpReqMonitor rs)\<rparr>)"

text \<open>A scheduler without queries, and one whose only query is \<open>q\<close>, at \<open>p\<close>.\<close>

definition idle :: "nat \<Rightarrow> QueryScheduler \<Rightarrow> bool" where
  "idle lim qs \<longleftrightarrow> sched_ok lim [] qs \<and> qs_running qs = [] \<and> levIdBatch qs = [] \<and> ensureExists qs"

definition busy :: "nat \<Rightarrow> QueryScheduler \<Rightarrow> qptr \<Rightarrow> DBQuery \<Rightarrow> bool" where
  "busy lim qs p q \<longleftrightarrow> sched_ok lim [] qs \<and> qs_running qs = [p] \<and> qs_heap qs p = Some q \<and> \<not> q_dead q \<and> levIdBatch qs = [] \<and> ensureExists qs"

lemma send_stored_batch: "fst (fold (send_stored decomp T sub) ls x) = fst x"
  by (induction ls arbitrary: x) (simp_all add: send_stored_def split: prod.split)

lemma process_slice:
  assumes E: "golpe_env E view" and T: "wf_store (view txn)" "small_times (view txn)" and pay: "payloads_ok decomp (view txn)"
    and fs: "\<forall>f \<in> set fs. scannable f" "fg_filters (sub_filterGroup sub) = fs"
    and qs: "busy lim qs p q"
    and I: "query_inv (view txn) fs sub (send_stored decomp (view txn) sub) ([], rs0) n (q, t, ([], rs))"
  shows "\<exists>qs' t' rs'. qs_process E cfg clock txn (req_callbacks L cfg decomp) (qs, t, rs) = Some (Inr (qs', t', rs')) \<and>
    (let res = query_result (view txn) (sub_latestEventId sub) fs in
     (idle lim qs' \<and> rs' = completed L cfg sub (card (set res)) (snd (fold (send_stored decomp (view txn) sub) res ([], rs0)))) \<or>
     (\<exists>q' n'. busy lim qs' p q' \<and> query_inv (view txn) fs sub (send_stored decomp (view txn) sub) ([], rs0) n' (q', t', ([], rs')) \<and>
        (query_rank fs n' (q', t', ([] :: u64 list, rs')), query_rank fs n (q, t, ([] :: u64 list, rs))) \<in> rank_less))"
proof -
  let ?g = "send_stored decomp (view txn) sub" and ?cbs = "req_callbacks L cfg decomp :: ('a, RelayServer) callbacks"
  let ?res = "query_result (view txn) (sub_latestEventId sub) fs"
  let ?b = "relay_queryTimesliceBudgetMicroseconds cfg"
  define post where "post b r' \<longleftrightarrow> (if b then snd (snd r') = fold ?g ?res ([], rs0) \<and> sentEventsFull (fst r') = set ?res
      else ?b \<noteq> MAX_U64 \<and> (\<exists>n'. query_inv (view txn) fs sub ?g ([], rs0) n' r' \<and> (query_rank fs n' r', query_rank fs n (q, t, ([] :: u64 list, rs))) \<in> rank_less))"
    for b and r' :: "(u64 list \<times> RelayServer) running"
  have "\<exists>b r'. query_process E clock txn (qs_event E ?cbs txn True) ?b (q, t, ([], rs)) = Some (Inr (b, r')) \<and> post b r'"
    unfolding post_def by (rule golpe_env.query_slice_full [where cb = "qs_event E ?cbs txn True", OF E T fs _ I]) (rule event_callback [OF E pay])
  then obtain b r' where r': "query_process E clock txn (qs_event E ?cbs txn True) ?b (q, t, ([], rs)) = Some (Inr (b, r'))" "post b r'" by blast
  obtain q' t' batch rs' where d: "r' = (q', t', batch, rs')" by (cases r')
  have run: "query_process E clock txn (qs_event E ?cbs txn True) ?b (q, t, ([], rs)) = Some (Inr (b, q', t', batch, rs'))" using r'(1) d by simp
  have post: "if b then (batch, rs') = fold ?g ?res ([], rs0) \<and> sentEventsFull q' = set ?res
      else \<exists>n'. query_inv (view txn) fs sub ?g ([], rs0) n' (q', t', batch, rs') \<and>
        (query_rank fs n' (q', t', batch, rs'), query_rank fs n (q, t, ([] :: u64 list, rs))) \<in> rank_less"
    using r'(2) unfolding d post_def by (auto split: if_split_asm)
  have batch: "batch = []"
  proof (cases b)
    case True
    then show ?thesis using post by (metis fst_conv send_stored_batch)
  next
    case False
    then obtain n' where "query_inv (view txn) fs sub ?g ([], rs0) n' (q', t', batch, rs')" using post by auto
    from query_inv_prefix [OF this] obtain sent where "(batch, rs') = fold ?g sent ([], rs0)" by auto
    then show ?thesis by (metis fst_conv send_stored_batch)
  qed
  have same: "same_query q q'" by (rule query_process_same [OF run])
  have q: "q_sub q = sub" using I by (simp add: query_inv_def)
  let ?qs = "qs\<lparr>qs_running := [], qs_heap := (qs_heap qs)(p \<mapsto> q'), levIdBatch := []\<rparr>"
  have proc: "qs_process E cfg clock txn ?cbs (qs, t, rs) = Some (rbind (qs_after ?cbs txn p q' b ?qs rs') (\<lambda>(qs, st). Inr (qs, t', st)))"
    using qs run by (simp add: qs_process_def busy_def batch)
  have ok: "sched_ok lim [p] ?qs"
    using sched_ok_heap [OF sched_ok_take, of lim qs p "[]" p q q'] qs same by (simp add: busy_def)
  show ?thesis
  proof (cases b)
    case False
    then obtain n' where I': "query_inv (view txn) fs sub ?g ([], rs0) n' (q', t', ([], rs'))"
      "(query_rank fs n' (q', t', ([] :: u64 list, rs')), query_rank fs n (q, t, ([] :: u64 list, rs))) \<in> rank_less" using post batch by auto
    let ?qs' = "?qs\<lparr>qs_running := [p]\<rparr>"
    have "qs_after ?cbs txn p q' b ?qs rs' = Inr (?qs', rs')" using False by (simp add: qs_after_def req_callbacks_def)
    moreover have "busy lim ?qs' p q'" using sched_ok_put [OF ok] same qs by (simp add: busy_def same_query_def)
    ultimately show ?thesis using proc I' unfolding Let_def by auto
  next
    case True
    have q'sub: "q_sub q' = sub" "\<not> q_dead q'" using same q qs by (simp_all add: same_query_def busy_def)
    obtain qs2 where r2: "qs_removeSub (sub_connId sub) (sub_subId sub) ?qs = Inr qs2" "qs_running qs2 = []" "levIdBatch qs2 = []" "ensureExists qs2"
      using qs_removeSub_ok [OF ok, of "sub_connId sub" "sub_subId sub"] qs by (auto simp: busy_def)
    have after: "qs_after ?cbs txn p q' b ?qs rs' = Inr (qs2\<lparr>qs_heap := (qs_heap qs2)(p := None)\<rparr>, completed L cfg sub (card (set ?res)) rs')"
      using True r2(1) q'sub post by (simp add: qs_after_def req_callbacks_def req_onComplete_def completed_def Let_def)
    have "qs_heap ?qs p = Some q'" by simp
    from qs_after_ok [OF ok this q'sub(2), of ?cbs txn b rs'] after have "sched_ok lim [] (qs2\<lparr>qs_heap := (qs_heap qs2)(p := None)\<rparr>)" by simp
    moreover have "rs' = snd (fold ?g ?res ([], rs0))" using post True by (metis snd_conv)
    ultimately show ?thesis using proc after r2(2-4) by (auto simp: Let_def idle_def)
  qed
qed

lemma query_result_events:
  assumes "tables_ok T"
  shows "distinct (query_result T n fs) \<and> set (query_result T n fs) \<subseteq> fst ` set (t_events T)"
proof (induction fs rule: rev_induct)
  case Nil
  then show ?case by (simp add: query_result_def)
next
  case (snoc f fs)
  note D = eligible_props [OF assms, of f n]
  have "distinct (newest f T n)" using D(3) by (simp add: newest_def take_map [symmetric] distinct_take)
  moreover have "set (newest f T n) \<subseteq> fst ` set (events_of T)"
    using D(2) by (auto simp: newest_def matching_def image_iff dest!: in_set_takeD) (force simp: image_iff)
  moreover have "fst ` set (events_of T) = fst ` set (t_events T)" by (metis events_of_levIds set_map)
  moreover have "query_result T n (fs @ [f]) = send_new (query_result T n fs) (newest f T n)" by (simp add: query_result_def)
  ultimately show ?case using snoc.IH by (auto simp: send_new_def)
qed

text \<open>The replies to a request.\<close>

definition req_replies :: "libs \<Rightarrow> cfg \<Rightarrow> (u32 \<Rightarrow> bytes \<Rightarrow> bytes result) \<Rightarrow> tables \<Rightarrow> Subscription \<Rightarrow> u64 list \<Rightarrow> MsgWebsocket list" where
  "req_replies L cfg decomp T sub res =
     (if sub_countOnly sub then [Send (sub_connId sub) (count_reply L cfg (sub_subId sub) (of_nat (length res)))]
      else map (\<lambda>l. Send (sub_connId sub) (event_reply (sub_subId sub) (the (stored_json decomp T l)))) res @
        [Send (sub_connId sub) (eose_reply L (sub_subId sub))])"

lemma fold_send_stored:
  assumes "\<forall>l \<in> set ls. stored_json decomp T l \<noteq> None"
  shows "websocket_out (snd (fold (send_stored decomp T sub) ls (b, rs))) = websocket_out rs @
      (if sub_countOnly sub then [] else map (\<lambda>l. Send (sub_connId sub) (event_reply (sub_subId sub) (the (stored_json decomp T l)))) ls)"
    "rest_of (snd (fold (send_stored decomp T sub) ls (b, rs))) = rest_of rs"
  using assms by (induction ls arbitrary: b rs) (auto simp: send_stored_def)

lemma fold_send_stored_worker: "tpReqWorker (snd (fold (send_stored decomp T sub) ls x)) = tpReqWorker (snd x)"
proof (induction ls arbitrary: x)
  case (Cons l ls)
  have "tpReqWorker (snd (send_stored decomp T sub l x)) = tpReqWorker (snd x)"
    by (cases x) (simp add: send_stored_def send_defs split: option.split)
  then show ?case using Cons by simp
qed simp

section \<open>Serving a request\<close>

definition serving ::
  "nat \<Rightarrow> (u32 \<Rightarrow> bytes \<Rightarrow> bytes result) \<Rightarrow> tables \<Rightarrow> Subscription \<Rightarrow> RelayServer \<Rightarrow> nat \<times> nat \<times> nat \<Rightarrow> worker \<Rightarrow> bool" where
  "serving lim decomp T sub rs0 rk = (\<lambda>(qs, t, rs). \<exists>p q n. let fs = fg_filters (sub_filterGroup sub) in
     busy lim qs p q \<and> query_inv T fs sub (send_stored decomp T sub) ([], rs0) n (q, t, ([], rs)) \<and> rk = query_rank fs n (q, t, ([] :: u64 list, rs)))"

definition served :: "nat \<Rightarrow> libs \<Rightarrow> cfg \<Rightarrow> (u32 \<Rightarrow> bytes \<Rightarrow> bytes result) \<Rightarrow> tables \<Rightarrow> Subscription \<Rightarrow> RelayServer \<Rightarrow> worker \<Rightarrow> bool" where
  "served lim L cfg decomp T sub rs0 = (\<lambda>(qs, t, rs).
     let res = query_result T (sub_latestEventId sub) (fg_filters (sub_filterGroup sub)) in
     idle lim qs \<and> rs = completed L cfg sub (card (set res)) (snd (fold (send_stored decomp T sub) res ([], rs0))))"

lemma serve_step:
  assumes E: "golpe_env E view" and T: "wf_store (view txn)" "small_times (view txn)" and pay: "payloads_ok decomp (view txn)"
    and fs: "\<forall>f \<in> set (fg_filters (sub_filterGroup sub)). scannable f" and w: "serving lim decomp (view txn) sub rs0 rk w"
  shows "\<exists>w'. qs_process E cfg clock txn (req_callbacks L cfg decomp) w = Some (Inr w') \<and>
    (served lim L cfg decomp (view txn) sub rs0 w' \<or> (\<exists>rk'. serving lim decomp (view txn) sub rs0 rk' w' \<and> (rk', rk) \<in> rank_less))"
proof -
  obtain qs t rs where x: "w = (qs, t, rs)" by (cases w)
  obtain p q n where qs: "busy lim qs p q"
    and I: "query_inv (view txn) (fg_filters (sub_filterGroup sub)) sub (send_stored decomp (view txn) sub) ([], rs0) n (q, t, ([], rs))"
    and rk: "rk = query_rank (fg_filters (sub_filterGroup sub)) n (q, t, ([] :: u64 list, rs))" using w by (auto simp: serving_def x Let_def)
  from process_slice [OF E T pay fs refl qs I, of cfg clock L] obtain qs' t' rs' where
    run: "qs_process E cfg clock txn (req_callbacks L cfg decomp) (qs, t, rs) = Some (Inr (qs', t', rs'))"
    and post: "served lim L cfg decomp (view txn) sub rs0 (qs', t', rs') \<or> (\<exists>rk'. serving lim decomp (view txn) sub rs0 rk' (qs', t', rs') \<and> (rk', rk) \<in> rank_less)"
    unfolding served_def serving_def rk Let_def prod.case by blast
  then show ?thesis unfolding x by blast
qed

lemma served_step: "served lim L cfg decomp T sub rs0 w \<Longrightarrow> qs_process E cfg clock txn cbs w = Some (Inr w)"
  by (cases w) (simp add: served_def idle_def qs_process_def Let_def)

lemma serving_inbox: "serving lim decomp T sub rs0 rk (qs, t, rs) \<Longrightarrow> tpReqWorker rs = tpReqWorker rs0"
  unfolding serving_def Let_def prod.case
  by (elim exE conjE, drule query_inv_prefix, elim exE conjE) (metis fold_send_stored_worker snd_conv)

lemma quiet_round:
  "inbox (tpReqWorker rs) thr = [] \<Longrightarrow>
   runReqWorker E L cfg decomp clock thr txn (qs, t, rs) = qs_process E cfg clock txn (req_callbacks L cfg decomp) (qs, t, rs)"
  by (simp add: runReqWorker_def pop_all_def fun_upd_idem)

lemma serve_rounds:
  assumes E: "golpe_env E view" and T: "wf_store (view txn)" "small_times (view txn)" and pay: "payloads_ok decomp (view txn)"
    and fs: "\<forall>f \<in> set (fg_filters (sub_filterGroup sub)). scannable f" and quiet: "inbox (tpReqWorker rs0) thr = []"
  shows "serving lim decomp (view txn) sub rs0 rk w \<Longrightarrow>
    \<exists>k w'. worker_rounds E L cfg decomp clock thr txn k w = Some (Inr w') \<and> served lim L cfg decomp (view txn) sub rs0 w'"
proof (induction rk arbitrary: w rule: wf_induct_rule [OF wf_lex_prod [OF wf_less_than wf_lex_prod [OF wf_less_than wf_less_than]]])
  case (1 rk)
  obtain qs t rs where x: "w = (qs, t, rs)" by (cases w)
  have "inbox (tpReqWorker rs) thr = []" using serving_inbox 1(2) quiet unfolding x by metis
  note round = quiet_round [OF this, of E L cfg decomp clock txn qs t]
  obtain w1 where run: "qs_process E cfg clock txn (req_callbacks L cfg decomp) w = Some (Inr w1)"
    and post: "served lim L cfg decomp (view txn) sub rs0 w1 \<or> (\<exists>rk'. serving lim decomp (view txn) sub rs0 rk' w1 \<and> (rk', rk) \<in> rank_less)"
    using serve_step [OF E T pay fs 1(2)] by blast
  from post obtain k w' where "worker_rounds E L cfg decomp clock thr txn k w1 = Some (Inr w')" "served lim L cfg decomp (view txn) sub rs0 w'"
  proof
    assume "served lim L cfg decomp (view txn) sub rs0 w1"
    then show thesis by (intro that [of 0 w1]) simp_all
  next
    assume "\<exists>rk'. serving lim decomp (view txn) sub rs0 rk' w1 \<and> (rk', rk) \<in> rank_less"
    then show thesis using 1(1) that by blast
  qed
  then have "worker_rounds E L cfg decomp clock thr txn (Suc k) w = Some (Inr w') \<and> served lim L cfg decomp (view txn) sub rs0 w'"
    using run round by (simp add: x)
  then show ?case by blast
qed

lemma idle_empty:
  assumes "idle lim qs"
  shows "qs_heap qs = Map.empty" "findQuery qs c s = None" "qs_conns qs c = None \<or> qs_conns qs c = Some []"
proof -
  have "set ([] @ qs_running qs) = dom (qs_heap qs)" "qs_running qs = []" using assms unfolding idle_def sched_ok_def by blast+
  then have "dom (qs_heap qs) = {}" by simp
  then show h: "qs_heap qs = Map.empty" by simp
  have f: "findQuery qs c s = None" for s
    using assms h by (cases "findQuery qs c s") (auto simp: idle_def sched_ok_def)
  then show "findQuery qs c s = None" .
  show "qs_conns qs c = None \<or> qs_conns qs c = Some []"
  proof (cases "qs_conns qs c")
    case (Some m)
    have "map_of m s = None" for s using f [of s] Some by (simp add: findQuery_def)
    then show ?thesis using Some by (cases m) (auto, metis option.discI)
  qed simp
qed

lemma idle_add:
  assumes qs: "idle lim qs" and lim: "lim = unat (relay_maxSubsPerConnection cfg)" "0 < lim"
  shows "\<exists>qs'. qs_addSub E cfg txn sub qs = Inr (True, qs') \<and> busy lim qs' (qs_next qs) (mkDBQuery (sub\<lparr>sub_latestEventId := getMostRecentLevId E txn\<rparr>))"
proof -
  have ok: "sched_ok lim [] qs" using qs by (simp add: idle_def)
  obtain b qs' where add: "qs_addSub E cfg txn sub qs = Inr (b, qs')" and ok': "sched_ok lim [] qs'"
    using qs_addSub_ok [OF ok lim(1), of E txn sub] by blast
  have "(case qs_conns qs c of None \<Rightarrow> [] | Some m \<Rightarrow> m) = []" for c using idle_empty(3) [OF qs, of c] by auto
  then have "b \<and> qs_running qs' = [qs_next qs] \<and> qs_heap qs' (qs_next qs) = Some (mkDBQuery (sub\<lparr>sub_latestEventId := getMostRecentLevId E txn\<rparr>)) \<and>
      levIdBatch qs' = [] \<and> ensureExists qs'"
    using add lim qs by (auto simp: qs_addSub_def Let_def idle_empty(2) [OF qs] idle_def split: if_split_asm)
  then show ?thesis using add ok' by (auto simp: busy_def mkDBQuery_def)
qed

text \<open>What the relay looks like when a request has been served.\<close>

lemma served_state:
  assumes T: "tables_ok T" and pay: "payloads_ok decomp T" and w: "served lim L cfg decomp T sub rs0 (qs, t, rs)"
  shows "idle lim qs \<and> websocket_out rs = websocket_out rs0 @ req_replies L cfg decomp T sub (query_result T (sub_latestEventId sub) (fg_filters (sub_filterGroup sub))) \<and>
    rest_of rs = rest_of (rs0\<lparr>tpReqMonitor := if sub_countOnly sub then tpReqMonitor rs0 else dispatch (sub_connId sub) (Monitor_NewSub sub) (tpReqMonitor rs0)\<rparr>)"
proof -
  let ?res = "query_result T (sub_latestEventId sub) (fg_filters (sub_filterGroup sub))"
  let ?rs = "snd (fold (send_stored decomp T sub) ?res ([], rs0))"
  have res: "distinct ?res" "set ?res \<subseteq> fst ` set (t_events T)" using query_result_events [OF T] by blast+
  have js: "\<forall>l \<in> set ?res. stored_json decomp T l \<noteq> None"
  proof
    fix l assume "l \<in> set ?res"
    then have "l \<in> fst ` set (t_events T)" using res(2) by blast
    then show "stored_json decomp T l \<noteq> None" using pay unfolding payloads_ok_def by presburger
  qed
  note f = fold_send_stored [OF js, of sub "[]" rs0]
  have rs: "rs = completed L cfg sub (length ?res) ?rs" "idle lim qs" using w res(1) by (simp_all add: served_def Let_def distinct_card)
  have upd: "rest_of (rs\<lparr>tpReqMonitor := p\<rparr>) = rest_of (rs'\<lparr>tpReqMonitor := p\<rparr>)" if "rest_of rs = rest_of rs'" for rs rs' p
    using that by (simp add: rest_of_def)
  have mon: "tpReqMonitor rs = tpReqMonitor rs'" if "rest_of rs = rest_of rs'" for rs rs' using that by (simp add: rest_of_def)
  show ?thesis
  proof (cases "sub_countOnly sub")
    case True
    then show ?thesis using rs f by (simp add: completed_def req_replies_def)
  next
    case False
    have ws: "websocket_out (r\<lparr>tpReqMonitor := p\<rparr>) = websocket_out r" for r p by (simp add: websocket_out_def)
    have r: "rest_of (sendToConn (sub_connId sub) (eose_reply L (sub_subId sub)) ?rs) = rest_of rs0" using f(2) by simp
    show ?thesis using rs f(1) False upd [OF r] mon [OF r] by (simp add: completed_def req_replies_def ws Let_def)
  qed
qed

section \<open>Properties\<close>

text \<open>C3: A worker without queries that finds a new subscription in its inbox serves it in finitely many
  rounds, whatever the clock says, if the database does not change meanwhile.  For a \<open>REQ\<close> the client is sent the
  text of the events the filters ask for, in the order of the query and each event once, then \<open>EOSE\<close>, and the
  monitor gets the subscription with the id of the newest stored event; for a \<open>COUNT\<close> the client is sent their number,
  cut off at the limit, and the monitor gets nothing.  Nothing else changes, and the worker is without queries again.\<close>

theorem request_served:
  assumes "golpe_env E view" and "wf_store (view txn)" and "small_times (view txn)" and "payloads_ok decomp (view txn)"
    and "mkNostrFilterGroup fh (JArray arr) limit = Inr (sub_filterGroup sub)" and "\<forall>v \<in> set (drop 2 arr). obj_distinct v"
    and "few_kinds (sub_filterGroup sub)" and "lim = unat (relay_maxSubsPerConnection cfg)" and "0 < lim"
    and "idle lim queries" and "inbox (tpReqWorker rs) thr = [NewSub sub]"
  shows "\<exists>n queries' t' rs'. worker_rounds E L cfg decomp clock thr txn n (queries, t, rs) = Some (Inr (queries', t', rs')) \<and>
    idle lim queries' \<and>
    (let sub = sub\<lparr>sub_latestEventId := getMostRecentLevId E txn\<rparr>;
         res = query_result (view txn) (sub_latestEventId sub) (fg_filters (sub_filterGroup sub)) in
     websocket_out rs' = websocket_out rs @ req_replies L cfg decomp (view txn) sub res \<and>
     rest_of rs' = rest_of (rs\<lparr>tpReqWorker := snd (pop_all thr (tpReqWorker rs)),
       tpReqMonitor := if sub_countOnly sub then tpReqMonitor rs else dispatch (sub_connId sub) (Monitor_NewSub sub) (tpReqMonitor rs)\<rparr>))"
proof -
  let ?cbs = "req_callbacks L cfg decomp :: ('a, RelayServer) callbacks"
  define sub' where "sub' = sub\<lparr>sub_latestEventId := getMostRecentLevId E txn\<rparr>"
  define rs0 where "rs0 = rs\<lparr>tpReqWorker := snd (pop_all thr (tpReqWorker rs))\<rparr>"
  let ?serving = "serving lim decomp (view txn) sub' rs0" and ?served = "served lim L cfg decomp (view txn) sub' rs0"
  have fg: "sub_filterGroup sub' = sub_filterGroup sub" by (simp add: sub'_def)
  have fs: "\<forall>f \<in> set (fg_filters (sub_filterGroup sub')). scannable f"
    unfolding fg by (rule mkNostrFilterGroup_scannable [OF assms(5-7)])
  have quiet: "inbox (tpReqWorker rs0) thr = []" by (simp add: rs0_def pop_all_def)
  obtain qs1 where add: "qs_addSub E cfg txn sub queries = Inr (True, qs1)" and busy: "busy lim qs1 (qs_next queries) (mkDBQuery sub')"
    using idle_add [OF assms(10,8,9), of E txn sub] unfolding sub'_def by blast
  have "?serving (query_rank (fg_filters (sub_filterGroup sub')) 0 (mkDBQuery sub', t, ([] :: u64 list, rs0))) (qs1, t, rs0)"
    unfolding serving_def Let_def prod.case
    by (rule exI [of _ "qs_next queries"], rule exI [of _ "mkDBQuery sub'"], rule exI [of _ 0]) (intro conjI busy golpe_env.query_start [OF assms(1)] refl)
  then have s0: "\<exists>rk. ?serving rk (qs1, t, rs0)" by blast
  have step: "\<exists>w'. qs_process E cfg clock txn ?cbs w = Some (Inr w') \<and> (?served w' \<or> (\<exists>rk. ?serving rk w'))" if "?served w \<or> (\<exists>rk. ?serving rk w)" for w
    using that
  proof
    assume s: "?served w"
    then have "qs_process E cfg clock txn ?cbs w = Some (Inr w)" by (rule served_step)
    then show ?thesis using s by blast
  next
    assume "\<exists>rk. ?serving rk w"
    then obtain rk where "?serving rk w" by blast
    from serve_step [OF assms(1-4) fs this, of cfg clock L] show ?thesis by blast
  qed
  obtain w1 where w1: "qs_process E cfg clock txn ?cbs (qs1, t, rs0) = Some (Inr w1)" "?served w1 \<or> (\<exists>rk. ?serving rk w1)" using step s0 by blast
  obtain w2 where w2: "qs_process E cfg clock txn ?cbs w1 = Some (Inr w2)" "?served w2 \<or> (\<exists>rk. ?serving rk w2)" using step w1(2) by blast
  have first: "runReqWorker E L cfg decomp clock thr txn (queries, t, rs) = Some (Inr w2)"
    using assms(11) add w1(1) w2(1) by (simp add: runReqWorker_def reqWorker_msg_def pop_all_def rs0_def)
  obtain k w3 where w3: "worker_rounds E L cfg decomp clock thr txn k w2 = Some (Inr w3)" "?served w3"
  proof (cases "?served w2")
    case True
    then show thesis by (intro that [of 0 w2]) simp_all
  next
    case False
    then show thesis using w2(2) serve_rounds [OF assms(1-4) fs quiet] that by blast
  qed
  obtain queries' t' rs' where x: "w3 = (queries', t', rs')" by (cases w3)
  have "worker_rounds E L cfg decomp clock thr txn (Suc k) (queries, t, rs) = Some (Inr (queries', t', rs'))" using first w3(1) x by simp
  moreover note served_state [OF wf_store_ok [OF assms(2)] assms(4) w3(2) [unfolded x]]
  moreover have "websocket_out rs0 = websocket_out rs" "tpReqMonitor rs0 = tpReqMonitor rs" by (simp_all add: rs0_def websocket_out_def)
  ultimately show ?thesis unfolding Let_def sub'_def [symmetric] by (intro exI [of _ "Suc k"] exI [of _ queries'] exI [of _ t'] exI [of _ rs']) (auto simp: rs0_def)
qed

section \<open>Witness\<close>

definition sample_payloads :: tables where
  "sample_payloads = sample_store\<lparr>t_payload := [3 \<mapsto> CHR 0x00 # ''{}'']\<rparr>"

definition req_relay :: RelayServer where
  "req_relay = \<lparr>rs_ephemeralTracker = new_EphemeralSubTracker, tpWebsocket = \<lparr>numThreads = 1, inbox = (\<lambda>_. [])\<rparr>,
     tpIngester = \<lparr>numThreads = 1, inbox = (\<lambda>_. [])\<rparr>, tpWriter = \<lparr>numThreads = 1, inbox = (\<lambda>_. [])\<rparr>,
     tpReqWorker = \<lparr>numThreads = 1, inbox = (\<lambda>_. [NewSub sample_query])\<rparr>,
     tpReqMonitor = \<lparr>numThreads = 1, inbox = (\<lambda>_. [])\<rparr>, tpNegentropy = \<lparr>numThreads = 1, inbox = (\<lambda>_. [])\<rparr>\<rparr>"

lemma sample_payloads_ok:
  "wf_store sample_payloads" "small_times sample_payloads" "payloads_ok (\<lambda>_. Inr) sample_payloads"
  "query_result sample_payloads 3 (fg_filters (sub_filterGroup sample_query)) = [3]"
proof -
  have ev: "t_events sample_payloads = t_events sample_store" "events_of sample_payloads = events_of sample_store"
    by (simp_all add: sample_payloads_def events_of_def)
  show "wf_store sample_payloads" using sample_store_ok(2) by (simp add: wf_store_def tables_ok_def ev)
  show "small_times sample_payloads" using sample_store_ok(3) by (simp add: small_times_def ev)
  show "payloads_ok (\<lambda>_. Inr) sample_payloads"
    by (auto simp: payloads_ok_def stored_json_def sample_payloads_def sample_store_def decodeEventPayload_def)
  have "matching (empty_filter\<lparr>nf_limit := 500, nf_indexOnlyScans := True\<rparr>) sample_payloads = {(1000, 3)}"
    by (auto simp: matching_def ev sample_store_ok matches_def empty_filter_def sample_event_def)
  then show "query_result sample_payloads 3 (fg_filters (sub_filterGroup sample_query)) = [3]"
    by (simp add: query_result_def sample_query_def newest_def eligible_def send_new_def desc_list_def)
qed

theorem request_served_witness:
  "\<exists>n queries t rs. worker_rounds mem_env sample_libs default_cfg (\<lambda>_. Inr) (\<lambda>_. 0) 0 sample_payloads n (new_QueryScheduler True, 0, req_relay) =
      Some (Inr (queries, t, rs)) \<and>
    websocket_out rs = [Send 1 (event_reply (sub_subId sample_query) ''{}''), Send 1 (eose_reply sample_libs (sub_subId sample_query))]"
proof -
  have idle: "idle 200 (new_QueryScheduler True)" using sched_new [of 200 True] by (simp add: idle_def new_QueryScheduler_def)
  have lim: "200 = unat (relay_maxSubsPerConnection default_cfg)" by (simp add: default_cfg_def)
  have box: "inbox (tpReqWorker req_relay) 0 = [NewSub sample_query]" "websocket_out req_relay = []" by (simp_all add: req_relay_def websocket_out_def)
  have "tables_ok sample_payloads" using sample_payloads_ok(1) by simp
  then have newest: "getMostRecentLevId mem_env sample_payloads = 3"
    by (subst golpe_env.getMostRecentLevId_ok [OF mem_golpe]) (simp_all add: sample_payloads_def sample_store_def)
  have json: "stored_json (\<lambda>_. Inr) sample_payloads 3 = Some ''{}''" by (simp add: stored_json_def sample_payloads_def decodeEventPayload_def)
  have conn: "sub_connId sample_query = 1" "\<not> sub_countOnly sample_query" by (simp_all add: sample_query_def)
  show ?thesis
    using request_served [OF mem_golpe sample_payloads_ok(1-3) sample_query_ok lim _ idle box(1), of sample_libs "\<lambda>_. 0" 0]
    by (auto simp: Let_def newest sample_payloads_ok(4) req_replies_def json conn box(2))
qed

end
