(* ===== verification/ActiveMonitorsProof.thy ===== *)
theory ActiveMonitorsProof
  imports ActiveMonitors
begin

text \<open>
  The tables of \<open>src/ActiveMonitors.h\<close> are indexes of the live subscriptions: after any sequence
  of operations a table entry holds exactly the filters that have its key, so that no pointer
  dangles, removal never misses its entry, and an event reaches exactly the subscriptions with
  a filter that matches it.
\<close>

declare exact_loop.simps [simp del]

section \<open>The tables as one function\<close>

text \<open>The key under which a filter is found, over the five tables.\<close>

datatype lookup = LId Bytes32 | LAuthor Bytes32 | LTag string | LKind u64 | LOther

definition bt_get :: "'k btree \<Rightarrow> 'k \<Rightarrow> MonitorSet" where
  "bt_get m k = (case map_of m k of None \<Rightarrow> [] | Some ms \<Rightarrow> ms)"

fun am_set :: "ActiveMonitors \<Rightarrow> lookup \<Rightarrow> MonitorSet" where
  "am_set am (LId b) = bt_get (allIds am) b"
| "am_set am (LAuthor b) = bt_get (allAuthors am) b"
| "am_set am (LTag s) = bt_get (allTags am) s"
| "am_set am (LKind k) = bt_get (allKinds am) k"
| "am_set am LOther = allOthers am"

definition bt_sorted :: "'k :: linorder btree \<Rightarrow> bool" where
  "bt_sorted m \<longleftrightarrow> sorted_wrt (<) (map fst m)"

definition am_sorted :: "ActiveMonitors \<Rightarrow> bool" where
  "am_sorted am \<longleftrightarrow> bt_sorted (allIds am) \<and> bt_sorted (allAuthors am) \<and> bt_sorted (allTags am) \<and> bt_sorted (allKinds am)"

lemma bt_keys_modify [simp]: "map fst (bt_modify k g m) = map fst m"
  by (auto simp: bt_modify_def)

lemma bt_sorted_modify [simp]: "bt_sorted (bt_modify k g m) = bt_sorted m"
  by (simp add: bt_sorted_def)

lemma map_of_modify: "map_of (bt_modify k g m) k' = (if k' = k then map_option g (map_of m k') else map_of m k')"
  by (induction m) (auto simp: bt_modify_def)

lemma bt_try_emplace_keys: "fst ` set (bt_try_emplace k m) = insert k (fst ` set m)"
  by (induction m rule: bt_try_emplace.induct) auto

lemma bt_sorted_emplace: "bt_sorted m \<Longrightarrow> bt_sorted (bt_try_emplace k m)"
proof (induction k m rule: bt_try_emplace.induct)
  case (2 k k' ms m)
  then show ?case
    using bt_try_emplace_keys [of k m] by (fastforce simp: bt_sorted_def)
qed (simp add: bt_sorted_def)

lemma map_of_emplace:
  "bt_sorted m \<Longrightarrow> map_of (bt_try_emplace k m) k' = (if k' = k \<and> map_of m k = None then Some [] else map_of m k')"
proof (induction k m rule: bt_try_emplace.induct)
  case (2 k k'' ms m)
  then have "k < k'' \<Longrightarrow> map_of m k = None"
    by (auto simp: bt_sorted_def map_of_eq_None_iff)
  with 2 show ?case by (auto simp: bt_sorted_def)
qed auto

lemma bt_get_add:
  "bt_sorted m \<Longrightarrow> bt_get (bt_add k p it m) k' = (if k' = k then ms_try_emplace p it (bt_get m k) else bt_get m k')"
  by (cases "map_of m k") (auto simp: bt_get_def bt_add_def map_of_modify map_of_emplace option.map_id split: option.splits)

lemma bt_sorted_add [simp]: "bt_sorted m \<Longrightarrow> bt_sorted (bt_add k p it m)"
  by (simp add: bt_add_def bt_sorted_emplace)

lemma bt_sorted_filter: "bt_sorted m \<Longrightarrow> bt_sorted (filter P m)"
  by (simp add: bt_sorted_def sorted_wrt_map_filter)

lemma bt_remove_ok:
  assumes "p \<in> fst ` set (bt_get m k)" and "bt_sorted m"
  shows "\<exists>m'. bt_remove k p m = Inr m' \<and> bt_sorted m' \<and>
    (\<forall>k'. bt_get m' k' = (if k' = k then filter (\<lambda>x. fst x \<noteq> p) (bt_get m k) else bt_get m k'))"
proof -
  obtain ms where ms: "map_of m k = Some ms" using assms(1) by (cases "map_of m k") (auto simp: bt_get_def)
  show ?thesis
    using assms(2) by (auto simp: bt_remove_def ms Let_def bt_get_def map_of_modify map_of_filter_key bt_sorted_filter)
qed

section \<open>The keys of a filter\<close>

definition keys_of :: "NostrFilter \<Rightarrow> lookup list" where
  "keys_of f =
     (case nf_ids f of Some s \<Rightarrow> map (\<lambda>v. LId (Bytes32 v)) (fsb_vals s)
      | None \<Rightarrow> (case nf_authors f of Some s \<Rightarrow> map (\<lambda>v. LAuthor (Bytes32 v)) (fsb_vals s)
      | None \<Rightarrow> if nf_tags f \<noteq> [] then concat (map (\<lambda>(t, s). map (\<lambda>v. LTag (t # v)) (fsb_vals s)) (nf_tags f))
      else (case nf_kinds f of Some s \<Rightarrow> map LKind (fsu_items s) | None \<Rightarrow> [LOther])))"

definition track :: "(u64 \<Rightarrow> EphemeralSubTracker \<Rightarrow> EphemeralSubTracker) \<Rightarrow> (EphemeralSubTracker \<Rightarrow> EphemeralSubTracker) \<Rightarrow>
    lookup \<Rightarrow> EphemeralSubTracker \<Rightarrow> EphemeralSubTracker" where
  "track kind all K t = (case K of LKind k \<Rightarrow> if isEphemeral k then kind k t else t | LOther \<Rightarrow> all t | _ \<Rightarrow> t)"

definition am_add :: "fptr \<Rightarrow> MonitorItem \<Rightarrow> lookup \<Rightarrow> ActiveMonitors \<Rightarrow> ActiveMonitors" where
  "am_add p it K am = (case K of
       LId b \<Rightarrow> am\<lparr>allIds := bt_add b p it (allIds am)\<rparr>
     | LAuthor b \<Rightarrow> am\<lparr>allAuthors := bt_add b p it (allAuthors am)\<rparr>
     | LTag s \<Rightarrow> am\<lparr>allTags := bt_add s p it (allTags am)\<rparr>
     | LKind k \<Rightarrow> am\<lparr>allKinds := bt_add k p it (allKinds am)\<rparr>
     | LOther \<Rightarrow> am\<lparr>allOthers := ms_try_emplace p it (allOthers am)\<rparr>)
     \<lparr>ephemeralTracker := map_option (track addKind addCatchAll K) (ephemeralTracker am)\<rparr>"

definition am_del :: "fptr \<Rightarrow> lookup \<Rightarrow> ActiveMonitors \<Rightarrow> ActiveMonitors result" where
  "am_del p K am =
     rbind (case K of
       LId b \<Rightarrow> rbind (bt_remove b p (allIds am)) (\<lambda>t. Inr (am\<lparr>allIds := t\<rparr>))
     | LAuthor b \<Rightarrow> rbind (bt_remove b p (allAuthors am)) (\<lambda>t. Inr (am\<lparr>allAuthors := t\<rparr>))
     | LTag s \<Rightarrow> rbind (bt_remove s p (allTags am)) (\<lambda>t. Inr (am\<lparr>allTags := t\<rparr>))
     | LKind k \<Rightarrow> rbind (bt_remove k p (allKinds am)) (\<lambda>t. Inr (am\<lparr>allKinds := t\<rparr>))
     | LOther \<Rightarrow> Inr (am\<lparr>allOthers := filter (\<lambda>x. fst x \<noteq> p) (allOthers am)\<rparr>)) (\<lambda>am'.
       Inr (am'\<lparr>ephemeralTracker := map_option (track removeKind removeCatchAll K) (ephemeralTracker am)\<rparr>))"


text \<open>Installing a filter adds its pointer under each of its keys; removing takes it out again.\<close>

lemma mkBytes32_ok: "length v = 32 \<Longrightarrow> mkBytes32 v = Inr (Bytes32 v)"
  by (simp add: mkBytes32_def)

lemma rfold_cong_Inr:
  "(\<And>x s. x \<in> set xs \<Longrightarrow> f x s = g x s) \<Longrightarrow> rfold f xs s = rfold g xs s"
  by (induction xs arbitrary: s) (auto intro: rbind_cong)

lemma rfold_map: "rfold f (map h xs) s = rfold (\<lambda>x. f (h x)) xs s"
  by (induction xs arbitrary: s) (auto intro: rbind_cong)

lemma rfold_concat: "rfold f (concat xss) s = rfold (\<lambda>xs. rfold f xs) xss s"
  by (induction xss arbitrary: s) (auto simp: rfold_append intro: rbind_cong)

lemma track_simps [simp]:
  "track kind all (LId b) = (\<lambda>t. t)" "track kind all (LAuthor b) = (\<lambda>t. t)" "track kind all (LTag s) = (\<lambda>t. t)"
  "track kind all (LKind k) = (if isEphemeral k then kind k else (\<lambda>t. t))" "track kind all LOther = all"
  by (auto simp: track_def)

lemma am_add_simps:
  "am_add p it (LId b) am = am\<lparr>allIds := bt_add b p it (allIds am)\<rparr>"
  "am_add p it (LAuthor b) am = am\<lparr>allAuthors := bt_add b p it (allAuthors am)\<rparr>"
  "am_add p it (LTag s) am = am\<lparr>allTags := bt_add s p it (allTags am)\<rparr>"
  "am_add p it (LKind k) am = (let am = am\<lparr>allKinds := bt_add k p it (allKinds am)\<rparr> in
     if isEphemeral k then am\<lparr>ephemeralTracker := map_option (addKind k) (ephemeralTracker am)\<rparr> else am)"
  "am_add p it LOther am = am\<lparr>allOthers := ms_try_emplace p it (allOthers am),
     ephemeralTracker := map_option addCatchAll (ephemeralTracker am)\<rparr>"
  by (cases am; simp add: am_add_def option.map_ident Let_def)+

lemma am_del_simps:
  "am_del p (LId b) am = rbind (bt_remove b p (allIds am)) (\<lambda>t. Inr (am\<lparr>allIds := t\<rparr>))"
  "am_del p (LAuthor b) am = rbind (bt_remove b p (allAuthors am)) (\<lambda>t. Inr (am\<lparr>allAuthors := t\<rparr>))"
  "am_del p (LTag s) am = rbind (bt_remove s p (allTags am)) (\<lambda>t. Inr (am\<lparr>allTags := t\<rparr>))"
  "am_del p (LKind k) am = rbind (bt_remove k p (allKinds am)) (\<lambda>t. let am = am\<lparr>allKinds := t\<rparr> in
     Inr (if isEphemeral k then am\<lparr>ephemeralTracker := map_option (removeKind k) (ephemeralTracker am)\<rparr> else am))"
  "am_del p LOther am = Inr (am\<lparr>allOthers := filter (\<lambda>x. fst x \<noteq> p) (allOthers am),
     ephemeralTracker := map_option removeCatchAll (ephemeralTracker am)\<rparr>)"
  by (cases am; auto simp: am_del_def rbind_assoc option.map_ident Let_def intro!: rbind_cong)+

lemma wf_filter_ids32:
  "wf_filter f \<Longrightarrow> nf_ids f = Some s \<Longrightarrow> \<forall>v \<in> set (fsb_vals s). length v = 32"
  "wf_filter f \<Longrightarrow> nf_authors f = Some s \<Longrightarrow> \<forall>v \<in> set (fsb_vals s). length v = 32"
  by (auto simp: wf_filter_def)

lemma bytes32_loop:
  assumes "\<forall>v \<in> set (fsb_vals s). length v = 32"
  shows "rfold (\<lambda>i am. rbind (fsb_at s i) (\<lambda>v. rbind (mkBytes32 v) (\<lambda>b. g b am))) [0..<fsb_size s] am =
    rfold (\<lambda>v. g (Bytes32 v)) (fsb_vals s) am"
proof -
  have "rfold (\<lambda>i am. rbind (fsb_at s i) (\<lambda>v. rbind (mkBytes32 v) (\<lambda>b. g b am))) [0..<fsb_size s] am =
      rfold (\<lambda>v am. rbind (mkBytes32 v) (\<lambda>b. g b am)) (fsb_vals s) am"
    by (rule fsb.indexed_loop)
  also have "\<dots> = rfold (\<lambda>v. g (Bytes32 v)) (fsb_vals s) am"
    using assms by (intro rfold_cong_Inr) (simp add: mkBytes32_ok)
  finally show ?thesis .
qed

lemma installFilter_eq:
  assumes "wf_filter f"
  shows "installFilter m cur n f am =
    rfold (\<lambda>K am. Inr (am_add (fst m, snd m, n) \<lparr>mi_mon = m, mi_latestEventId = cur\<rparr> K am)) (keys_of f) am"
proof (cases "nf_ids f")
  case (Some s)
  then show ?thesis
    using wf_filter_ids32(1) [OF assms Some]
    by (simp add: installFilter_def keys_of_def Let_def bytes32_loop rfold_map am_add_simps)
next
  case ids: None
  show ?thesis
  proof (cases "nf_authors f")
    case (Some s)
    then show ?thesis
      using wf_filter_ids32(2) [OF assms Some] ids
      by (simp add: installFilter_def keys_of_def Let_def bytes32_loop rfold_map am_add_simps)
  next
    case authors: None
    show ?thesis
    proof (cases "nf_tags f = []")
      case False
      then show ?thesis
        using ids authors
        by (auto simp: installFilter_def keys_of_def Let_def fsb.indexed_loop rfold_map rfold_concat am_add_simps
            getTagSpec_def case_prod_beta intro!: rfold_cong_Inr)
    next
      case True
      then show ?thesis
        using ids authors
        by (simp add: installFilter_def keys_of_def fsu.indexed_loop rfold_map am_add_simps Let_def split: option.split)
    qed
  qed
qed

lemma uninstallFilter_eq:
  assumes "wf_filter f"
  shows "uninstallFilter m n f am = rfold (am_del (fst m, snd m, n)) (keys_of f) am"
proof (cases "nf_ids f")
  case (Some s)
  then show ?thesis
    using wf_filter_ids32(1) [OF assms Some]
    by (auto simp: uninstallFilter_def keys_of_def Let_def bytes32_loop rfold_map am_del_simps intro!: rfold_cong_Inr)
next
  case ids: None
  show ?thesis
  proof (cases "nf_authors f")
    case (Some s)
    then show ?thesis
      using wf_filter_ids32(2) [OF assms Some] ids
      by (auto simp: uninstallFilter_def keys_of_def Let_def bytes32_loop rfold_map am_del_simps intro!: rfold_cong_Inr)
  next
    case authors: None
    show ?thesis
    proof (cases "nf_tags f = []")
      case False
      then show ?thesis
        using ids authors
        by (auto simp: uninstallFilter_def keys_of_def Let_def fsb.indexed_loop rfold_map rfold_concat am_del_simps
            getTagSpec_def case_prod_beta intro!: rfold_cong_Inr)
    next
      case True
      then show ?thesis
        using ids authors
        by (auto simp: uninstallFilter_def keys_of_def fsu.indexed_loop rfold_map am_del_simps Let_def split: option.split intro!: rfold_cong_Inr)
    qed
  qed
qed

declare am_set.simps [simp del]

section \<open>The tables hold what they should\<close>

text \<open>
  \<open>tables_for B am D\<close>: under each key \<open>K\<close> the tables of \<open>am\<close> hold the pointers \<open>D K\<close>, each once and each
  with the monitor it belongs to, and the tracker counts the pointers under the ephemeral kinds
  and those of the filters without keys.  The tracker is one object that all \<open>reqMonitor\<close> threads of
  the relay share (\<open>src/apps/relay/RelayServer.h\<close>), so it counts the pointers in the tables of the other
  threads as well: \<open>B K\<close> is their number under the key \<open>K\<close>.
\<close>

definition tracker_ok :: "(lookup \<Rightarrow> nat) \<Rightarrow> ActiveMonitors \<Rightarrow> bool" where
  "tracker_ok B am \<longleftrightarrow> (\<forall>t. ephemeralTracker am = Some t \<longrightarrow> counts_ok t \<and>
     (\<forall>k. kind_cnt t k = (if isEphemeral k then length (am_set am (LKind k)) + B (LKind k) else 0)) \<and>
     unat (catchAllCount t) = length (am_set am LOther) + B LOther)"

definition tables_for :: "(lookup \<Rightarrow> nat) \<Rightarrow> ActiveMonitors \<Rightarrow> (lookup \<Rightarrow> fptr set) \<Rightarrow> bool" where
  "tables_for B am D \<longleftrightarrow> am_sorted am \<and>
     (\<forall>K. distinct (map fst (am_set am K)) \<and> fst ` set (am_set am K) = D K \<and>
       (\<forall>(p, it) \<in> set (am_set am K). mi_mon it = (fst p, fst (snd p)))) \<and> tracker_ok B am"

lemma am_set_frame [simp]:
  "am_set (am\<lparr>ephemeralTracker := t\<rparr>) K = am_set am K" "am_set (am\<lparr>am_conns := c\<rparr>) K = am_set am K"
  by (cases K; simp add: am_set.simps)+

lemma am_sorted_frame [simp]:
  "am_sorted (am\<lparr>ephemeralTracker := t\<rparr>) = am_sorted am" "am_sorted (am\<lparr>am_conns := c\<rparr>) = am_sorted am"
  by (simp_all add: am_sorted_def)

lemma am_set_add:
  "am_sorted am \<Longrightarrow> am_set (am_add p it K am) K' = (if K' = K then ms_try_emplace p it (am_set am K) else am_set am K')"
  by (cases K; cases K') (auto simp: am_set.simps am_sorted_def am_add_def bt_get_add)

lemma am_sorted_add: "am_sorted am \<Longrightarrow> am_sorted (am_add p it K am)"
  by (cases K) (auto simp: am_sorted_def am_add_def)

lemma am_add_conns [simp]: "am_conns (am_add p it K am) = am_conns am"
  by (cases K) (auto simp: am_add_def)

lemma am_add_tracker: "ephemeralTracker (am_add p it K am) = map_option (track addKind addCatchAll K) (ephemeralTracker am)"
  by (cases K) (auto simp: am_add_def)

lemma tables_for_add:
  assumes T: "tables_for B am D" and p: "p \<notin> D K" and m: "mi_mon it = (fst p, fst (snd p))"
    and small: "length (am_set am K) + B K < 2 ^ 64 - 1"
  shows "tables_for B (am_add p it K am) (D(K := insert p (D K)))"
proof -
  have s: "am_sorted am" and set: "\<And>K. fst ` set (am_set am K) = D K" using T by (auto simp: tables_for_def)
  have "p \<notin> fst ` set (am_set am K)" using p set by simp
  then have ms: "ms_try_emplace p it (am_set am K) = am_set am K @ [(p, it)]" by (simp add: ms_try_emplace_def)
  note eq = am_set_add [OF s, of p it K, unfolded ms]
  have "tracker_ok B (am_add p it K am)"
    unfolding tracker_ok_def
  proof (intro allI impI)
    fix t' assume "ephemeralTracker (am_add p it K am) = Some t'"
    then obtain t where t: "ephemeralTracker am = Some t" and t': "t' = track addKind addCatchAll K t"
      by (auto simp: am_add_tracker)
    have ok: "counts_ok t" "\<And>k. kind_cnt t k = (if isEphemeral k then length (am_set am (LKind k)) + B (LKind k) else 0)"
      "unat (catchAllCount t) = length (am_set am LOther) + B LOther"
      using T t by (auto simp: tables_for_def tracker_ok_def)
    show "counts_ok t' \<and> (\<forall>k. kind_cnt t' k = (if isEphemeral k then length (am_set (am_add p it K am) (LKind k)) + B (LKind k) else 0)) \<and>
       unat (catchAllCount t') = length (am_set (am_add p it K am) LOther) + B LOther"
    proof (cases K)
      case (LKind k)
      show ?thesis
      proof (cases "isEphemeral k")
        case True
        have "kind_cnt t k < 2 ^ 64 - 1" using small ok(2) True LKind by simp
        then show ?thesis
          using True ok LKind eq kinds.ok_add [OF ok(1)] kinds.cnt_add [OF ok(1)] by (auto simp: t')
      qed (use ok LKind eq in \<open>auto simp: t'\<close>)
    next
      case LOther
      have "unat (catchAllCount t) < 2 ^ 64 - 1" using small ok(3) LOther by simp
      then show ?thesis
        using ok LOther eq catch.cnt_add [of t "()" "()"] by (auto simp: t')
    qed (use ok eq in \<open>auto simp: t'\<close>)
  qed
  then show ?thesis
    using T p set m am_sorted_add [OF s] by (auto simp: tables_for_def eq)
qed

lemma am_del_ok:
  assumes "am_sorted am" and "p \<in> fst ` set (am_set am K)"
  shows "\<exists>am'. am_del p K am = Inr am' \<and> am_sorted am' \<and> am_conns am' = am_conns am \<and>
    (\<forall>K'. am_set am' K' = (if K' = K then filter (\<lambda>x. fst x \<noteq> p) (am_set am K) else am_set am K')) \<and>
    ephemeralTracker am' = map_option (track removeKind removeCatchAll K) (ephemeralTracker am)"
proof (cases K)
  case (LId b)
  with assms obtain m where "bt_remove b p (allIds am) = Inr m" "bt_sorted m"
    "\<forall>k. bt_get m k = (if k = b then filter (\<lambda>x. fst x \<noteq> p) (bt_get (allIds am) b) else bt_get (allIds am) k)"
    using bt_remove_ok [of p "allIds am" b] by (auto simp: am_set.simps am_sorted_def)
  moreover have "am_set (am\<lparr>allIds := m\<rparr>) K' = (if K' = K then bt_get m b else case K' of LId k \<Rightarrow> bt_get m k | _ \<Rightarrow> am_set am K')" for K'
    using LId by (cases K') (auto simp: am_set.simps)
  ultimately show ?thesis
    using assms LId by (auto simp: am_set.simps am_del_simps am_sorted_def option.map_ident split: lookup.splits)
next
  case (LAuthor b)
  with assms obtain m where "bt_remove b p (allAuthors am) = Inr m" "bt_sorted m"
    "\<forall>k. bt_get m k = (if k = b then filter (\<lambda>x. fst x \<noteq> p) (bt_get (allAuthors am) b) else bt_get (allAuthors am) k)"
    using bt_remove_ok [of p "allAuthors am" b] by (auto simp: am_set.simps am_sorted_def)
  moreover have "am_set (am\<lparr>allAuthors := m\<rparr>) K' = (if K' = K then bt_get m b else case K' of LAuthor k \<Rightarrow> bt_get m k | _ \<Rightarrow> am_set am K')" for K'
    using LAuthor by (cases K') (auto simp: am_set.simps)
  ultimately show ?thesis
    using assms LAuthor by (auto simp: am_set.simps am_del_simps am_sorted_def option.map_ident split: lookup.splits)
next
  case (LTag s)
  with assms obtain m where "bt_remove s p (allTags am) = Inr m" "bt_sorted m"
    "\<forall>k. bt_get m k = (if k = s then filter (\<lambda>x. fst x \<noteq> p) (bt_get (allTags am) s) else bt_get (allTags am) k)"
    using bt_remove_ok [of p "allTags am" s] by (auto simp: am_set.simps am_sorted_def)
  moreover have "am_set (am\<lparr>allTags := m\<rparr>) K' = (if K' = K then bt_get m s else case K' of LTag k \<Rightarrow> bt_get m k | _ \<Rightarrow> am_set am K')" for K'
    using LTag by (cases K') (auto simp: am_set.simps)
  ultimately show ?thesis
    using assms LTag by (auto simp: am_set.simps am_del_simps am_sorted_def option.map_ident split: lookup.splits)
next
  case (LKind s)
  with assms obtain m where "bt_remove s p (allKinds am) = Inr m" "bt_sorted m"
    "\<forall>k. bt_get m k = (if k = s then filter (\<lambda>x. fst x \<noteq> p) (bt_get (allKinds am) s) else bt_get (allKinds am) k)"
    using bt_remove_ok [of p "allKinds am" s] by (auto simp: am_set.simps am_sorted_def)
  moreover have "am_set (am\<lparr>allKinds := m\<rparr>) K' = (if K' = K then bt_get m s else case K' of LKind k \<Rightarrow> bt_get m k | _ \<Rightarrow> am_set am K')" for K'
    using LKind by (cases K') (auto simp: am_set.simps)
  ultimately show ?thesis
    using assms LKind by (auto simp: am_set.simps am_del_simps am_sorted_def option.map_ident Let_def split: lookup.splits)
next
  case LOther
  moreover have "am_set (am\<lparr>allOthers := m, ephemeralTracker := t\<rparr>) K' = (if K' = K then m else am_set am K')" for K' m t
    using LOther by (cases K') (auto simp: am_set.simps)
  ultimately show ?thesis
    using assms by (auto simp: am_set.simps am_del_simps am_sorted_def)
qed


lemma length_filter_key:
  "distinct (map fst xs) \<Longrightarrow> p \<in> fst ` set xs \<Longrightarrow> length (filter (\<lambda>x. fst x \<noteq> p) xs) = length xs - 1"
proof (induction xs)
  case (Cons x xs)
  show ?case
  proof (cases "fst x = p")
    case True
    then have "p \<notin> fst ` set xs" using Cons.prems(1) by auto
    then have "\<forall>y \<in> set xs. fst y \<noteq> p" by (metis imageI)
    then have "filter (\<lambda>x. fst x \<noteq> p) xs = xs" by simp
    then show ?thesis using True by simp
  next
    case False
    then have "p \<in> fst ` set xs" using Cons.prems(2) by auto
    then show ?thesis using False Cons by (cases xs) auto
  qed
qed simp

lemma tables_for_del:
  assumes T: "tables_for B am D" and p: "p \<in> D K"
  shows "\<exists>am'. am_del p K am = Inr am' \<and> tables_for B am' (D(K := D K - {p})) \<and> am_conns am' = am_conns am \<and>
    (\<forall>K'. set (am_set am' K') \<subseteq> set (am_set am K'))"
proof -
  have s: "am_sorted am" and set: "\<And>K. fst ` set (am_set am K) = D K"
    and dist: "\<And>K. distinct (map fst (am_set am K))" using T by (auto simp: tables_for_def)
  have mem: "p \<in> fst ` set (am_set am K)" using p set by simp
  from am_del_ok [OF s this] obtain am' where am': "am_del p K am = Inr am'" "am_sorted am'" "am_conns am' = am_conns am"
    and eq: "\<And>K'. am_set am' K' = (if K' = K then filter (\<lambda>x. fst x \<noteq> p) (am_set am K) else am_set am K')"
    and tr: "ephemeralTracker am' = map_option (track removeKind removeCatchAll K) (ephemeralTracker am)" by blast
  have len: "length (am_set am' K) = length (am_set am K) - 1" "0 < length (am_set am K)"
    using length_filter_key [OF dist mem] mem eq by (auto simp: length_pos_if_in_set)
  then have len': "length (am_set am K) = Suc (length (am_set am' K))" by linarith
  have "tracker_ok B am'"
    unfolding tracker_ok_def
  proof (intro allI impI)
    fix t' assume "ephemeralTracker am' = Some t'"
    then obtain t where t: "ephemeralTracker am = Some t" and t': "t' = track removeKind removeCatchAll K t"
      by (auto simp: tr)
    have ok: "counts_ok t" "\<And>k. kind_cnt t k = (if isEphemeral k then length (am_set am (LKind k)) + B (LKind k) else 0)"
      "unat (catchAllCount t) = length (am_set am LOther) + B LOther"
      using T t by (auto simp: tables_for_def tracker_ok_def)
    have same: "am_set am' K' = am_set am K'" if "K' \<noteq> K" for K' using eq that by simp
    show "counts_ok t' \<and> (\<forall>k. kind_cnt t' k = (if isEphemeral k then length (am_set am' (LKind k)) + B (LKind k) else 0)) \<and>
       unat (catchAllCount t') = length (am_set am' LOther) + B LOther"
    proof (cases K)
      case (LKind k)
      show ?thesis
      proof (cases "isEphemeral k")
        case True
        have pos: "0 < kind_cnt t k" using len ok(2) True LKind by simp
        have "kind_cnt t' k' = (if isEphemeral k' then length (am_set am' (LKind k')) + B (LKind k') else 0)" for k'
          using kinds.cnt_remove [OF ok(1) pos, of k'] ok(2) [of k'] len' True LKind same [of "LKind k'"]
          by (cases "k' = k") (simp_all add: t')
        then show ?thesis
          using True ok(3) LKind same [of LOther] kinds.ok_remove [OF ok(1), of k] by (simp add: t')
      next
        case False
        then have "kind_cnt t' k' = (if isEphemeral k' then length (am_set am' (LKind k')) + B (LKind k') else 0)" for k'
          using ok(2) [of k'] LKind same [of "LKind k'"] by (cases "k' = k") (simp_all add: t')
        then show ?thesis using False ok LKind same [of LOther] by (simp add: t')
      qed
    next
      case LOther
      have "unat (catchAllCount t') = length (am_set am' LOther) + B LOther"
        using catch.cnt_remove [of t "()" "()"] ok(3) LOther len' by (cases "am_set am LOther = []") (simp_all add: t')
      then show ?thesis using ok LOther same by (simp add: t')
    qed (use ok same in \<open>simp_all add: t'\<close>)
  qed
  moreover have "\<forall>K'. distinct (map fst (am_set am' K')) \<and> fst ` set (am_set am' K') = (D(K := D K - {p})) K' \<and>
       (\<forall>(p, it) \<in> set (am_set am' K'). mi_mon it = (fst p, fst (snd p)))"
  proof
    fix K'
    have "\<forall>(p, it) \<in> set (am_set am K'). mi_mon it = (fst p, fst (snd p))" using T by (simp add: tables_for_def)
    then show "distinct (map fst (am_set am' K')) \<and> fst ` set (am_set am' K') = (D(K := D K - {p})) K' \<and>
       (\<forall>(p, it) \<in> set (am_set am' K'). mi_mon it = (fst p, fst (snd p)))"
      using dist [of K'] set [of K'] by (cases "K' = K") (auto simp: eq distinct_map_filter)
  qed
  ultimately have "tables_for B am' (D(K := D K - {p}))"
    using am'(2) by (simp add: tables_for_def)
  moreover have "set (am_set am' K') \<subseteq> set (am_set am K')" for K' by (auto simp: eq)
  ultimately show ?thesis using am' by blast
qed

section \<open>Monitors and their pointers\<close>

text \<open>The pointers to filters that belong under a key: those of a filter list, and those of all connections.\<close>

definition ptrs :: "mptr \<Rightarrow> nat \<Rightarrow> NostrFilter list \<Rightarrow> lookup \<Rightarrow> fptr set" where
  "ptrs m k fs K = {(fst m, snd m, k + i) | i. i < length fs \<and> K \<in> set (keys_of (fs ! i))}"

definition desired :: "conn_map \<Rightarrow> lookup \<Rightarrow> fptr set" where
  "desired conns K = {(c, s, n). \<exists>sub. findMonitor conns c s = Some sub \<and> n < length (sub_filters sub) \<and>
     K \<in> set (keys_of (sub_filters sub ! n))}"

definition conns_ok :: "conn_map \<Rightarrow> bool" where
  "conns_ok conns \<longleftrightarrow> (\<forall>c cm. conns c = Some cm \<longrightarrow> distinct (map fst cm) \<and>
     (\<forall>(s, sub) \<in> set cm. sub_connId sub = c \<and> sub_subId sub = s \<and> wf_group (sub_filterGroup sub)))"

definition am_ok :: "(lookup \<Rightarrow> nat) \<Rightarrow> ActiveMonitors \<Rightarrow> bool" where
  "am_ok B am \<longleftrightarrow> conns_ok (am_conns am) \<and> tables_for B am (desired (am_conns am))"

lemma ptrs_Nil [simp]: "ptrs m k [] K = {}"
  by (simp add: ptrs_def)

lemma ptrs_Cons: "ptrs m k (f # fs) K = (if K \<in> set (keys_of f) then {(fst m, snd m, k)} else {}) \<union> ptrs m (Suc k) fs K"
proof -
  have "(\<exists>i. n = k + i \<and> i < length (f # fs) \<and> K \<in> set (keys_of ((f # fs) ! i))) \<longleftrightarrow>
      n = k \<and> K \<in> set (keys_of f) \<or> (\<exists>i. n = Suc k + i \<and> i < length fs \<and> K \<in> set (keys_of (fs ! i)))" for n
    by (auto simp: less_Suc_eq_0_disj)
  then show ?thesis unfolding ptrs_def by auto
qed

lemma ptrs_head: "K \<in> set (keys_of f) \<Longrightarrow> (fst m, snd m, k) \<in> ptrs m k (f # fs) K"
  and ptrs_tail: "ptrs m (Suc k) fs K \<subseteq> ptrs m k (f # fs) K" and ptrs_new: "(c, s, k) \<notin> ptrs m (Suc k) fs K"
  by (auto simp: ptrs_Cons) (auto simp: ptrs_def)

lemma keys_of_distinct:
  assumes "wf_filter f"
  shows "distinct (keys_of f)"
proof -
  have vals: "distinct (fsb_vals s)" if "nf_ids f = Some s \<or> nf_authors f = Some s" for s
    using assms that by (auto simp: wf_filter_def intro: fsb.distinct_elems)
  have kinds: "distinct (fsu_items s)" if "nf_kinds f = Some s" for s
    using assms that by (auto simp: wf_filter_def intro: fsu.distinct_elems)
  have "distinct (concat (map (\<lambda>(t, s). map (\<lambda>v. LTag (t # v)) (fsb_vals s)) ts))"
    if "distinct (map fst ts)" "\<forall>(t, s) \<in> set ts. wf_fsb s" for ts
    using that by (induction ts) (auto simp: distinct_map inj_on_def image_iff dest: fsb.distinct_elems)
  then have tags: "distinct (concat (map (\<lambda>(t, s). map (\<lambda>v. LTag (t # v)) (fsb_vals s)) (nf_tags f)))"
    using assms by (simp add: wf_filter_def)
  show ?thesis
    using vals kinds tags by (auto simp: keys_of_def distinct_map inj_on_def split: option.splits)
qed

lemma tables_for_cong: "tables_for B am D \<Longrightarrow> (\<And>K. D K = D' K) \<Longrightarrow> tables_for B am D'"
  by (simp add: tables_for_def)

lemma install_keys:
  assumes "tables_for B am D" and "distinct Ks" and "\<forall>K \<in> set Ks. p \<notin> D K" and "mi_mon it = (fst p, fst (snd p))"
    and "\<forall>K \<in> set Ks. length (am_set am K) + B K < 2 ^ 64 - 1"
  shows "\<exists>am'. rfold (\<lambda>K am. Inr (am_add p it K am)) Ks am = Inr am' \<and>
    tables_for B am' (\<lambda>K. if K \<in> set Ks then insert p (D K) else D K) \<and> am_conns am' = am_conns am \<and>
    (\<forall>K. am_set am' K = (if K \<in> set Ks then am_set am K @ [(p, it)] else am_set am K))"
  using assms(1-3,5)
proof (induction Ks arbitrary: am D)
  case (Cons K Ks)
  let ?am = "am_add p it K am" and ?D = "D(K := insert p (D K))"
  have s: "am_sorted am" and "p \<notin> fst ` set (am_set am K)"
    using Cons.prems(1,3) by (auto simp: tables_for_def)
  then have set: "am_set ?am K' = (if K' = K then am_set am K @ [(p, it)] else am_set am K')" for K'
    by (simp add: am_set_add ms_try_emplace_def)
  have T: "tables_for B ?am ?D"
    using Cons.prems by (intro tables_for_add assms(4)) auto
  have "distinct Ks" "\<forall>K' \<in> set Ks. p \<notin> ?D K'" "\<forall>K' \<in> set Ks. length (am_set ?am K') + B K' < 2 ^ 64 - 1"
    using Cons.prems(2-4) by (auto simp: set)
  from Cons.IH [OF T this] obtain am' where
    am': "rfold (\<lambda>K am. Inr (am_add p it K am)) Ks ?am = Inr am'" "am_conns am' = am_conns ?am"
    and T': "tables_for B am' (\<lambda>K'. if K' \<in> set Ks then insert p (?D K') else ?D K')"
    and set': "\<forall>K'. am_set am' K' = (if K' \<in> set Ks then am_set ?am K' @ [(p, it)] else am_set ?am K')"
    by blast
  have "tables_for B am' (\<lambda>K'. if K' \<in> set (K # Ks) then insert p (D K') else D K')"
    by (rule tables_for_cong [OF T']) auto
  moreover have "am_set am' K' = (if K' \<in> set (K # Ks) then am_set am K' @ [(p, it)] else am_set am K')" for K'
    using set' set Cons.prems(2) by auto
  ultimately show ?case using am' by simp
qed simp

lemma uninstall_keys:
  assumes "tables_for B am D" and "distinct Ks" and "\<forall>K \<in> set Ks. p \<in> D K"
  shows "\<exists>am'. rfold (am_del p) Ks am = Inr am' \<and>
    tables_for B am' (\<lambda>K. if K \<in> set Ks then D K - {p} else D K) \<and> am_conns am' = am_conns am \<and>
    (\<forall>K. set (am_set am' K) \<subseteq> set (am_set am K))"
  using assms
proof (induction Ks arbitrary: am D)
  case (Cons K Ks)
  let ?D = "D(K := D K - {p})"
  obtain am1 where am1: "am_del p K am = Inr am1" "am_conns am1 = am_conns am" "\<forall>K. set (am_set am1 K) \<subseteq> set (am_set am K)"
    and T1: "tables_for B am1 ?D"
    using tables_for_del [OF Cons.prems(1), of p K] Cons.prems(3) by auto
  have "distinct Ks" "\<forall>K' \<in> set Ks. p \<in> ?D K'" using Cons.prems(2,3) by auto
  from Cons.IH [OF T1 this] obtain am' where
    am': "rfold (am_del p) Ks am1 = Inr am'" "am_conns am' = am_conns am1" "\<forall>K. set (am_set am' K) \<subseteq> set (am_set am1 K)"
    and T': "tables_for B am' (\<lambda>K'. if K' \<in> set Ks then ?D K' - {p} else ?D K')" by blast
  have "tables_for B am' (\<lambda>K'. if K' \<in> set (K # Ks) then D K' - {p} else D K')"
    by (rule tables_for_cong [OF T']) auto
  then show ?case using am1 am' by auto
qed simp

lemma install_filters:
  assumes "tables_for B am D" and "\<forall>f \<in> set fs. wf_filter f" and "\<forall>K. ptrs m k fs K \<inter> D K = {}"
    and "\<forall>K. length (am_set am K) + B K + length fs < 2 ^ 64"
  shows "\<exists>am'. rfold (\<lambda>(n, f). installFilter m cur n f) (enumerate k fs) am = Inr am' \<and>
    tables_for B am' (\<lambda>K. D K \<union> ptrs m k fs K) \<and> am_conns am' = am_conns am \<and>
    (\<forall>K. set (am_set am' K) \<subseteq> set (am_set am K) \<union> {x. snd x = \<lparr>mi_mon = m, mi_latestEventId = cur\<rparr>})"
  using assms
proof (induction fs arbitrary: am D k)
  case (Cons f fs)
  let ?p = "(fst m, snd m, k)" and ?it = "\<lparr>mi_mon = m, mi_latestEventId = cur\<rparr>"
  have wf: "wf_filter f" using Cons.prems(2) by simp
  have new: "\<forall>K \<in> set (keys_of f). ?p \<notin> D K" using Cons.prems(3) ptrs_head by blast
  have small: "\<forall>K \<in> set (keys_of f). length (am_set am K) + B K < 2 ^ 64 - 1"
  proof
    fix K show "length (am_set am K) + B K < 2 ^ 64 - 1" using Cons.prems(4) [rule_format, of K] by simp
  qed
  obtain am1 where am1: "installFilter m cur k f am = Inr am1" "am_conns am1 = am_conns am"
    and T1: "tables_for B am1 (\<lambda>K. if K \<in> set (keys_of f) then insert ?p (D K) else D K)"
    and set1: "\<forall>K. am_set am1 K = (if K \<in> set (keys_of f) then am_set am K @ [(?p, ?it)] else am_set am K)"
    using install_keys [OF Cons.prems(1) keys_of_distinct [OF wf] new _ small, of ?it] installFilter_eq [OF wf, of m cur k am]
    by auto
  have disj: "\<forall>K. ptrs m (Suc k) fs K \<inter> (if K \<in> set (keys_of f) then insert ?p (D K) else D K) = {}"
  proof
    fix K show "ptrs m (Suc k) fs K \<inter> (if K \<in> set (keys_of f) then insert ?p (D K) else D K) = {}"
      using Cons.prems(3) [rule_format, of K] ptrs_tail [of m k fs K f] ptrs_new [of "fst m" "snd m" k m fs K] by auto
  qed
  have "\<forall>K. length (am_set am1 K) + B K + length fs < 2 ^ 64"
  proof
    fix K show "length (am_set am1 K) + B K + length fs < 2 ^ 64"
      using Cons.prems(4) [rule_format, of K] set1 by auto
  qed
  from Cons.IH [OF T1 _ disj this] Cons.prems(2) obtain am' where
    am': "rfold (\<lambda>(n, f). installFilter m cur n f) (enumerate (Suc k) fs) am1 = Inr am'" "am_conns am' = am_conns am1"
    and T': "tables_for B am' (\<lambda>K. (if K \<in> set (keys_of f) then insert ?p (D K) else D K) \<union> ptrs m (Suc k) fs K)"
    and set': "\<forall>K. set (am_set am' K) \<subseteq> set (am_set am1 K) \<union> {x. snd x = \<lparr>mi_mon = m, mi_latestEventId = cur\<rparr>}" by auto
  have "tables_for B am' (\<lambda>K. D K \<union> ptrs m k (f # fs) K)"
    by (rule tables_for_cong [OF T']) (auto simp: ptrs_Cons)
  moreover have "set (am_set am' K) \<subseteq> set (am_set am K) \<union> {x. snd x = \<lparr>mi_mon = m, mi_latestEventId = cur\<rparr>}" for K
    using set' [rule_format, of K] set1 by (auto split: if_splits)
  ultimately show ?case using am1 am' by auto
qed simp

lemma uninstall_filters:
  assumes "tables_for B am D" and "\<forall>f \<in> set fs. wf_filter f" and "\<forall>K. ptrs m k fs K \<subseteq> D K"
  shows "\<exists>am'. rfold (\<lambda>(n, f). uninstallFilter m n f) (enumerate k fs) am = Inr am' \<and>
    tables_for B am' (\<lambda>K. D K - ptrs m k fs K) \<and> am_conns am' = am_conns am \<and>
    (\<forall>K. set (am_set am' K) \<subseteq> set (am_set am K))"
  using assms
proof (induction fs arbitrary: am D k)
  case (Cons f fs)
  let ?p = "(fst m, snd m, k)"
  have wf: "wf_filter f" using Cons.prems(2) by simp
  have held: "\<forall>K \<in> set (keys_of f). ?p \<in> D K" using Cons.prems(3) ptrs_head by blast
  obtain am1 where am1: "uninstallFilter m k f am = Inr am1" "am_conns am1 = am_conns am"
    "\<forall>K. set (am_set am1 K) \<subseteq> set (am_set am K)"
    and T1: "tables_for B am1 (\<lambda>K. if K \<in> set (keys_of f) then D K - {?p} else D K)"
    using uninstall_keys [OF Cons.prems(1) keys_of_distinct [OF wf] held] uninstallFilter_eq [OF wf, of m k am] by auto
  have sub: "\<forall>K. ptrs m (Suc k) fs K \<subseteq> (if K \<in> set (keys_of f) then D K - {?p} else D K)"
  proof
    fix K show "ptrs m (Suc k) fs K \<subseteq> (if K \<in> set (keys_of f) then D K - {?p} else D K)"
      using Cons.prems(3) [rule_format, of K] ptrs_tail [of m k fs K f] ptrs_new [of "fst m" "snd m" k m fs K] by auto
  qed
  from Cons.IH [OF T1 _ sub] Cons.prems(2) obtain am' where
    am': "rfold (\<lambda>(n, f). uninstallFilter m n f) (enumerate (Suc k) fs) am1 = Inr am'" "am_conns am' = am_conns am1"
      "\<forall>K. set (am_set am' K) \<subseteq> set (am_set am1 K)"
    and T': "tables_for B am' (\<lambda>K. (if K \<in> set (keys_of f) then D K - {?p} else D K) - ptrs m (Suc k) fs K)" by auto
  have "tables_for B am' (\<lambda>K. D K - ptrs m k (f # fs) K)"
    by (rule tables_for_cong [OF T']) (auto simp: ptrs_Cons)
  then show ?case using am1 am' by auto
qed simp

section \<open>Adding and removing keep the invariant\<close>

lemma desired_remove:
  assumes "findMonitor conns c s = Some sub"
    and "\<And>c' s'. findMonitor conns' c' s' = (if c' = c \<and> s' = s then None else findMonitor conns c' s')"
  shows "desired conns' K = desired conns K - ptrs (c, s) 0 (sub_filters sub) K"
  using assms by (auto simp: desired_def ptrs_def split: if_splits)

lemma desired_insert:
  assumes "findMonitor conns c s = None"
    and "\<And>c' s'. findMonitor conns' c' s' = (if c' = c \<and> s' = s then Some sub else findMonitor conns c' s')"
  shows "desired conns' K = desired conns K \<union> ptrs (c, s) 0 (sub_filters sub) K"
    and "ptrs (c, s) 0 (sub_filters sub) K \<inter> desired conns K = {}"
  using assms by (auto simp: desired_def ptrs_def split: if_splits)

lemma ptrs_desired: "findMonitor conns c s = Some sub \<Longrightarrow> ptrs (c, s) 0 (sub_filters sub) K \<subseteq> desired conns K"
  by (auto simp: desired_def ptrs_def)

lemma conns_okD:
  "conns_ok conns \<Longrightarrow> findMonitor conns c s = Some sub \<Longrightarrow>
   sub_connId sub = c \<and> sub_subId sub = s \<and> (\<forall>f \<in> set (sub_filters sub). wf_filter f)"
  by (fastforce simp: conns_ok_def findMonitor_def sub_filters_def wf_group_def split: option.splits dest: map_of_SomeD)

lemma tables_for_conns [simp]: "tables_for B (am\<lparr>am_conns := c\<rparr>) D = tables_for B am D"
  by (simp add: tables_for_def tracker_ok_def)

lemma tables_for_ext: "tables_for B am D \<Longrightarrow> D = D' \<Longrightarrow> tables_for B am D'"
  by simp

lemma tables_for_length_mono:
  assumes "tables_for B am D" and "tables_for B am' D'" and "set (am_set am K) \<subseteq> set (am_set am' K)"
  shows "length (am_set am K) \<le> length (am_set am' K)"
proof -
  have "distinct (am_set am K)" "distinct (am_set am' K)"
    using assms(1,2) by (auto simp: tables_for_def distinct_map)
  then show ?thesis using assms(3) by (metis List.finite_set card_mono distinct_card)
qed

lemma removeSub_ok:
  assumes ok: "am_ok B am"
  shows "\<exists>am'. removeSub c s am = Inr am' \<and> am_ok B am' \<and>
    (\<forall>c' s'. findMonitor (am_conns am') c' s' = (if c' = c \<and> s' = s then None else findMonitor (am_conns am) c' s')) \<and>
    (\<forall>K. set (am_set am' K) \<subseteq> set (am_set am K))"
proof (cases "findMonitor (am_conns am) c s")
  case None
  then show ?thesis using ok by (auto simp: removeSub_def)
next
  case (Some sub)
  let ?conns = "am_conns am"
  obtain cm where cm: "?conns c = Some cm" "map_of cm s = Some sub"
    using Some by (auto simp: findMonitor_def split: option.splits)
  have T: "tables_for B am (desired ?conns)" and C: "conns_ok ?conns" using ok by (auto simp: am_ok_def)
  have wf: "\<forall>f \<in> set (sub_filters sub). wf_filter f" using conns_okD [OF C Some] by simp
  from uninstall_filters [OF T wf, of "(c, s)" 0] ptrs_desired [OF Some]
  obtain am1 where am1: "uninstallLookups (c, s) (sub_filters sub) am = Inr am1" "am_conns am1 = ?conns"
    "\<forall>K. set (am_set am1 K) \<subseteq> set (am_set am K)"
    and T1: "tables_for B am1 (\<lambda>K. desired ?conns K - ptrs (c, s) 0 (sub_filters sub) K)"
    by (auto simp: uninstallLookups_def)
  let ?cm = "filter (\<lambda>x. fst x \<noteq> s) cm"
  let ?conns' = "?conns(c := if ?cm = [] then None else Some ?cm)"
  have find: "findMonitor ?conns' c' s' = (if c' = c \<and> s' = s then None else findMonitor ?conns c' s')" for c' s'
  proof (cases "c' = c")
    case True
    have "findMonitor ?conns' c s' = map_of ?cm s'" by (simp add: findMonitor_def)
    also have "\<dots> = (if s' = s then None else map_of cm s')" by (rule map_of_filter_key)
    finally show ?thesis using True cm by (simp add: findMonitor_def)
  qed (simp add: findMonitor_def)
  have "distinct (map fst cm)" and subs: "\<forall>(s, sub) \<in> set cm. sub_connId sub = c \<and> sub_subId sub = s \<and> wf_group (sub_filterGroup sub)"
    using C cm(1) by (auto simp: conns_ok_def)
  then have "distinct (map fst ?cm)" by (simp add: distinct_map_filter)
  then have "conns_ok ?conns'" using C subs by (auto simp: conns_ok_def)
  moreover have "tables_for B (am1\<lparr>am_conns := ?conns'\<rparr>) (desired ?conns')"
    using tables_for_cong [OF T1] desired_remove [OF Some find] by simp
  ultimately have "am_ok B (am1\<lparr>am_conns := ?conns'\<rparr>)" by (simp add: am_ok_def)
  moreover have "removeSub c s am = Inr (am1\<lparr>am_conns := ?conns'\<rparr>)"
    using Some am1 cm by (simp add: removeSub_def Let_def)
  ultimately show ?thesis using find am1(3) by auto
qed

lemma addSub_ok:
  assumes ok: "am_ok B am" and wf: "wf_group (sub_filterGroup sub)" and cur: "sub_latestEventId sub = cur"
    and small: "\<forall>K. length (am_set am K) + B K + length (sub_filters sub) < 2 ^ 64"
  shows "\<exists>b am'. addSub cfg sub cur am = Inr (b, am') \<and> am_ok B am' \<and>
    (\<forall>c' s'. findMonitor (am_conns am') c' s' =
      (if c' = sub_connId sub \<and> s' = sub_subId sub then if b then Some sub else None else findMonitor (am_conns am) c' s')) \<and>
    (\<forall>K. \<forall>(p, it) \<in> set (am_set am' K). it = \<lparr>mi_mon = (sub_connId sub, sub_subId sub), mi_latestEventId = cur\<rparr> \<or>
      (p, it) \<in> set (am_set am K) \<and> (fst p, fst (snd p)) \<noteq> (sub_connId sub, sub_subId sub)) \<and>
    (b \<longleftrightarrow> card {s. s \<noteq> sub_subId sub \<and> findMonitor (am_conns am) (sub_connId sub) s \<noteq> None} < unat (relay_maxSubsPerConnection cfg))"
proof -
  let ?c = "sub_connId sub" and ?s = "sub_subId sub"
  obtain am0 where am0: "removeSub ?c ?s am = Inr am0" "am_ok B am0"
    "\<forall>c' s'. findMonitor (am_conns am0) c' s' = (if c' = ?c \<and> s' = ?s then None else findMonitor (am_conns am) c' s')"
    and sub0: "\<forall>K. set (am_set am0 K) \<subseteq> set (am_set am K)"
    using removeSub_ok [OF ok, of ?c ?s] by blast
  have step: "(if findMonitor (am_conns am) ?c ?s \<noteq> None then removeSub ?c ?s am else Inr am) = Inr am0"
  proof (cases "findMonitor (am_conns am) ?c ?s = None")
    case True
    then have "am0 = am" using am0(1) by (simp add: removeSub_def)
    then show ?thesis using True by simp
  qed (use am0 in simp)
  define cm where "cm = (case am_conns am0 ?c of None \<Rightarrow> [] | Some cm \<Rightarrow> cm)"
  have C0: "conns_ok (am_conns am0)" and T0: "tables_for B am0 (desired (am_conns am0))"
    using am0(2) by (auto simp: am_ok_def)
  have old: "\<forall>(p, it) \<in> set (am_set am0 K). (p, it) \<in> set (am_set am K) \<and> (fst p, fst (snd p)) \<noteq> (?c, ?s)" for K
  proof (intro ballI, clarify, intro conjI notI)
    fix c s n it assume m: "((c, s, n), it) \<in> set (am_set am0 K)"
    then show "((c, s, n), it) \<in> set (am_set am K)" using sub0 by blast
    have "(c, s, n) \<in> desired (am_conns am0) K" using T0 m by (force simp: tables_for_def)
    then show False if "(fst (c, s, n), fst (snd (c, s, n))) = (?c, ?s)" using am0(3) that by (simp add: desired_def)
  qed
  have cm: "distinct (map fst cm)" "\<forall>(s, sub) \<in> set cm. sub_connId sub = ?c \<and> sub_subId sub = s \<and> wf_group (sub_filterGroup sub)"
    using C0 by (cases "am_conns am0 ?c"; simp add: conns_ok_def cm_def)+
  have mapcm: "map_of cm s = findMonitor (am_conns am0) ?c s" for s
    by (simp add: cm_def findMonitor_def split: option.splits)
  have new: "?s \<notin> fst ` set cm" using mapcm [of ?s] am0(3) by (simp add: map_of_eq_None_iff)
  have "fst ` set cm = {s. s \<noteq> ?s \<and> findMonitor (am_conns am) ?c s \<noteq> None}"
    using am0(3) by (auto simp: dom_map_of_conv_image_fst [symmetric] dom_def mapcm)
  then have size: "length cm = card {s. s \<noteq> ?s \<and> findMonitor (am_conns am) ?c s \<noteq> None}"
    using cm(1) by (metis distinct_card length_map set_map)
  show ?thesis
  proof (cases "length cm \<ge> unat (relay_maxSubsPerConnection cfg)")
    case True
    let ?conns' = "(am_conns am0)(?c \<mapsto> cm)"
    have find: "findMonitor ?conns' c' s' = findMonitor (am_conns am0) c' s'" for c' s'
      by (auto simp: findMonitor_def cm_def split: option.splits)
    have "conns_ok ?conns'" using C0 cm by (auto simp: conns_ok_def)
    moreover have "desired ?conns' = desired (am_conns am0)" by (simp add: desired_def find fun_eq_iff)
    ultimately have "am_ok B (am0\<lparr>am_conns := ?conns'\<rparr>)" using T0 by (simp add: am_ok_def)
    moreover have "addSub cfg sub cur am = Inr (False, am0\<lparr>am_conns := ?conns'\<rparr>)"
      unfolding addSub_def step rbind_simps Let_def cm_def [symmetric] using True cur by simp
    moreover have "\<forall>K. \<forall>(p, it) \<in> set (am_set (am0\<lparr>am_conns := ?conns'\<rparr>) K). it = \<lparr>mi_mon = (?c, ?s), mi_latestEventId = cur\<rparr> \<or>
      (p, it) \<in> set (am_set am K) \<and> (fst p, fst (snd p)) \<noteq> (?c, ?s)"
      using old by fastforce
    ultimately show ?thesis using True size am0(3) find by (intro exI [of _ False] exI [of _ "am0\<lparr>am_conns := ?conns'\<rparr>"] conjI) simp_all
  next
    case False
    let ?conns' = "(am_conns am0)(?c \<mapsto> cm @ [(?s, sub)])"
    have find: "findMonitor ?conns' c' s' = (if c' = ?c \<and> s' = ?s then Some sub else findMonitor (am_conns am0) c' s')" for c' s'
    proof (cases "c' = ?c")
      case True
      have none: "map_of cm ?s = None" using new by (simp add: map_of_eq_None_iff)
      have "findMonitor ?conns' ?c s' = map_of (cm @ [(?s, sub)]) s'" by (simp add: findMonitor_def)
      also have "\<dots> = (if s' = ?s then Some sub else map_of cm s')"
        using none by (simp add: map_add_def split: option.split)
      finally show ?thesis using True by (simp add: mapcm)
    qed (simp add: findMonitor_def)
    have C': "conns_ok ?conns'" using C0 cm new wf by (auto simp: conns_ok_def)
    have none: "findMonitor (am_conns am0) ?c ?s = None" using am0(3) by simp
    have T1: "tables_for B (am0\<lparr>am_conns := ?conns'\<rparr>) (desired (am_conns am0))" using T0 by simp
    have "\<forall>f \<in> set (sub_filters sub). wf_filter f" using wf by (simp add: wf_group_def sub_filters_def)
    moreover have "\<forall>K. ptrs (?c, ?s) 0 (sub_filters sub) K \<inter> desired (am_conns am0) K = {}"
      using desired_insert(2) [OF none find] by simp
    moreover have "\<forall>K. length (am_set (am0\<lparr>am_conns := ?conns'\<rparr>) K) + B K + length (sub_filters sub) < 2 ^ 64"
    proof
      fix K
      have "length (am_set am0 K) \<le> length (am_set am K)"
        using tables_for_length_mono [OF T0 _ sub0 [rule_format, of K]] ok unfolding am_ok_def by blast
      then show "length (am_set (am0\<lparr>am_conns := ?conns'\<rparr>) K) + B K + length (sub_filters sub) < 2 ^ 64"
        using small [rule_format, of K] by simp
    qed
    ultimately obtain am' where am': "installLookups (?c, ?s) (sub_filters sub) cur (am0\<lparr>am_conns := ?conns'\<rparr>) = Inr am'"
      "am_conns am' = ?conns'" "\<forall>K. set (am_set am' K) \<subseteq> set (am_set am0 K) \<union> {x. snd x = \<lparr>mi_mon = (?c, ?s), mi_latestEventId = cur\<rparr>}"
      and T': "tables_for B am' (\<lambda>K. desired (am_conns am0) K \<union> ptrs (?c, ?s) 0 (sub_filters sub) K)"
      using install_filters [OF T1, of "sub_filters sub" "(?c, ?s)" 0 cur] by (auto simp: installLookups_def)
    have "tables_for B am' (desired ?conns')"
      using tables_for_cong [OF T'] desired_insert(1) [OF none find] by simp
    then have "am_ok B am'" using C' am'(2) by (simp add: am_ok_def)
    moreover have "addSub cfg sub cur am = Inr (True, am')"
      unfolding addSub_def step rbind_simps Let_def cm_def [symmetric] using False cur new am'(1) by simp
    moreover have "\<forall>(p, it) \<in> set (am_set am' K). it = \<lparr>mi_mon = (?c, ?s), mi_latestEventId = cur\<rparr> \<or>
      (p, it) \<in> set (am_set am K) \<and> (fst p, fst (snd p)) \<noteq> (?c, ?s)" for K
      using am'(3) old [of K] by fastforce
    ultimately show ?thesis using False size am'(2) find am0(3) by auto
  qed
qed


lemma uninstall_subs:
  assumes "tables_for B am D" and "distinct (map fst cm)"
    and "\<forall>(s, sub) \<in> set cm. (\<forall>f \<in> set (sub_filters sub). wf_filter f) \<and> (\<forall>K. ptrs (c, s) 0 (sub_filters sub) K \<subseteq> D K)"
  shows "\<exists>am'. rfold (\<lambda>(s, sub). uninstallLookups (c, s) (sub_filters sub)) cm am = Inr am' \<and>
    tables_for B am' (\<lambda>K. D K - (\<Union>(s, sub) \<in> set cm. ptrs (c, s) 0 (sub_filters sub) K)) \<and> am_conns am' = am_conns am \<and>
    (\<forall>K. set (am_set am' K) \<subseteq> set (am_set am K))"
  using assms
proof (induction cm arbitrary: am D)
  case (Cons x cm)
  obtain s sub where x: "x = (s, sub)" by fastforce
  let ?P = "ptrs (c, s) 0 (sub_filters sub)"
  have "\<forall>f \<in> set (sub_filters sub). wf_filter f" "\<forall>K. ?P K \<subseteq> D K" using Cons.prems(3) by (auto simp: x)
  from uninstall_filters [OF Cons.prems(1) this] obtain am1 where
    am1: "uninstallLookups (c, s) (sub_filters sub) am = Inr am1" "am_conns am1 = am_conns am"
      "\<forall>K. set (am_set am1 K) \<subseteq> set (am_set am K)" and T1: "tables_for B am1 (\<lambda>K. D K - ?P K)"
    by (auto simp: uninstallLookups_def)
  have "\<forall>(s', sub') \<in> set cm. (\<forall>f \<in> set (sub_filters sub'). wf_filter f) \<and> (\<forall>K. ptrs (c, s') 0 (sub_filters sub') K \<subseteq> D K - ?P K)"
  proof (intro ballI, clarsimp, intro conjI ballI allI subsetI DiffI)
    fix s' sub' assume m: "(s', sub') \<in> set cm"
    then show "wf_filter f" if "f \<in> set (sub_filters sub')" for f using Cons.prems(3) that by auto
    have "s' \<noteq> s" using Cons.prems(2) m by (force simp: x)
    fix K p assume p: "p \<in> ptrs (c, s') 0 (sub_filters sub') K"
    moreover have "ptrs (c, s') 0 (sub_filters sub') K \<subseteq> D K" using Cons.prems(3) m by fastforce
    ultimately show "p \<in> D K" by blast
    show "p \<notin> ?P K" using p \<open>s' \<noteq> s\<close> by (auto simp: ptrs_def)
  qed
  from Cons.IH [OF T1 _ this] Cons.prems(2) obtain am' where
    am': "rfold (\<lambda>(s, sub). uninstallLookups (c, s) (sub_filters sub)) cm am1 = Inr am'" "am_conns am' = am_conns am1"
      "\<forall>K. set (am_set am' K) \<subseteq> set (am_set am1 K)"
    and T': "tables_for B am' (\<lambda>K. D K - ?P K - (\<Union>(s, sub) \<in> set cm. ptrs (c, s) 0 (sub_filters sub) K))" by auto
  have "tables_for B am' (\<lambda>K. D K - (\<Union>(s, sub) \<in> set (x # cm). ptrs (c, s) 0 (sub_filters sub) K))"
    by (rule tables_for_cong [OF T']) (auto simp: x)
  then show ?case using am1 am' by (auto simp: x)
qed simp

lemma closeConn_ok:
  assumes ok: "am_ok B am"
  shows "\<exists>am'. closeConn c am = Inr am' \<and> am_ok B am' \<and>
    (\<forall>c' s'. findMonitor (am_conns am') c' s' = (if c' = c then None else findMonitor (am_conns am) c' s')) \<and>
    (\<forall>K. set (am_set am' K) \<subseteq> set (am_set am K))"
proof (cases "am_conns am c")
  case None
  then show ?thesis using ok by (auto simp: closeConn_def findMonitor_def)
next
  case (Some cm)
  let ?conns = "am_conns am"
  have T: "tables_for B am (desired ?conns)" and C: "conns_ok ?conns" using ok by (auto simp: am_ok_def)
  have dist: "distinct (map fst cm)" using C Some by (simp add: conns_ok_def)
  have find: "findMonitor ?conns c s = Some sub \<longleftrightarrow> (s, sub) \<in> set cm" for s sub
    using dist by (simp add: findMonitor_def Some)
  have "\<forall>(s, sub) \<in> set cm. (\<forall>f \<in> set (sub_filters sub). wf_filter f) \<and> (\<forall>K. ptrs (c, s) 0 (sub_filters sub) K \<subseteq> desired ?conns K)"
    using conns_okD [OF C] ptrs_desired find by blast
  from uninstall_subs [OF T dist this] obtain am1 where
    am1: "rfold (\<lambda>(s, sub). uninstallLookups (c, s) (sub_filters sub)) cm am = Inr am1" "am_conns am1 = ?conns"
      "\<forall>K. set (am_set am1 K) \<subseteq> set (am_set am K)"
    and T1: "tables_for B am1 (\<lambda>K. desired ?conns K - (\<Union>(s, sub) \<in> set cm. ptrs (c, s) 0 (sub_filters sub) K))" by blast
  let ?conns' = "?conns(c := None)"
  have find': "findMonitor ?conns' c' s' = (if c' = c then None else findMonitor ?conns c' s')" for c' s'
    by (simp add: findMonitor_def)
  have des: "desired ?conns K - (\<Union>(s, sub) \<in> set cm. ptrs (c, s) 0 (sub_filters sub) K) = desired ?conns' K" for K
  proof -
    have "(\<Union>(s, sub) \<in> set cm. ptrs (c, s) 0 (sub_filters sub) K) = {p \<in> desired ?conns K. fst p = c}"
      by (fastforce simp: desired_def ptrs_def find)
    moreover have "desired ?conns' K = {p \<in> desired ?conns K. fst p \<noteq> c}"
      by (auto simp: desired_def find' split: if_splits)
    ultimately show ?thesis by auto
  qed
  have "tables_for B am1 (desired ?conns')" by (rule tables_for_cong [OF T1 des])
  moreover have "conns_ok ?conns'" using C by (simp add: conns_ok_def)
  ultimately have "am_ok B (am1\<lparr>am_conns := ?conns'\<rparr>)" by (simp add: am_ok_def)
  moreover have "closeConn c am = Inr (am1\<lparr>am_conns := ?conns'\<rparr>)"
    using am1 by (simp add: closeConn_def Some)
  ultimately show ?thesis using find' am1(3) by auto
qed

section \<open>Processing an event\<close>

text \<open>The loop over a sorted table visits the entry of the key and no other.\<close>

lemma takeWhile_sorted:
  assumes "bt_sorted m" and "k \<in> fst ` set m"
  shows "\<exists>n. length (takeWhile (\<lambda>x. fst x \<le> k) m) = Suc n \<and> n < length m \<and> fst (m ! n) = k"
  using assms
proof (induction m)
  case (Cons x m)
  have s: "bt_sorted m" and above: "\<forall>y \<in> fst ` set m. fst x < y" using Cons.prems(1) by (auto simp: bt_sorted_def)
  show ?case
  proof (cases "fst x = k")
    case True
    then have "takeWhile (\<lambda>x. fst x \<le> k) m = []" using above by (cases m) auto
    then show ?thesis using True by simp
  next
    case False
    then have k: "k \<in> fst ` set m" using Cons.prems(2) by auto
    have "fst x < k" using above k by blast
    then have "fst x \<le> k" by simp
    with Cons.IH [OF s k] show ?thesis by auto
  qed
qed simp

lemma processMonitorsExact_eq:
  assumes s: "bt_sorted m"
  shows "processMonitorsExact levId buf k m st =
    rbind (processMonitorSet levId buf (bt_get m k) st) (\<lambda>(ms, st). Inr (bt_modify k (\<lambda>_. ms) m, st))"
proof (cases "k \<in> fst ` set m")
  case False
  have "bt_get m k = []" using False by (simp add: bt_get_def map_of_eq_None_iff [THEN iffD2])
  moreover have "bt_modify k g m = m" for g
    using False by (force simp: bt_modify_def intro!: map_idI)
  moreover have "processMonitorsExact levId buf k m st = Inr (m, st)"
  proof (cases "length (takeWhile (\<lambda>x. fst x \<le> k) m)")
    case (Suc n)
    then have "n < length m" using length_takeWhile_le [of "\<lambda>x. fst x \<le> k" m] by simp
    then have "fst (m ! n) \<noteq> k" using False by (metis imageI nth_mem)
    then show ?thesis by (simp add: processMonitorsExact_def Suc exact_loop.simps)
  qed (simp add: processMonitorsExact_def)
  ultimately show ?thesis by simp
next
  case True
  then obtain n where n: "length (takeWhile (\<lambda>x. fst x \<le> k) m) = Suc n" "n < length m" "fst (m ! n) = k"
    using takeWhile_sorted [OF s] by blast
  have dist: "distinct (map fst m)" using s by (simp add: bt_sorted_def strict_sorted_iff)
  have other: "fst (m ! i) \<noteq> k" if "i < length m" "i \<noteq> n" for i
    using nth_eq_iff_index_eq [OF dist, of i n] n that by auto
  have get: "bt_get m k = snd (m ! n)"
  proof -
    have "(k, snd (m ! n)) \<in> set m" using n by (metis nth_mem prod.collapse)
    then show ?thesis using dist by (simp add: bt_get_def)
  qed
  have upd: "m[n := (k, ms)] = bt_modify k (\<lambda>_. ms) m" for ms
  proof (rule nth_equalityI)
    fix i assume "i < length (m[n := (k, ms)])"
    then show "m[n := (k, ms)] ! i = bt_modify k (\<lambda>_. ms) m ! i"
      using n other [of i] by (cases "i = n") (auto simp: bt_modify_def split: prod.split)
  qed (simp add: bt_modify_def)
  have "exact_loop levId buf k n m st =
    rbind (processMonitorSet levId buf (snd (m ! n)) st) (\<lambda>(ms, st). Inr (m[n := (k, ms)], st))"
  proof -
    have "exact_loop levId buf k i (m[n := (k, ms)]) st' = Inr (m[n := (k, ms)], st')" if "n = Suc i" for i ms st'
      using other [of i] n that by (simp add: exact_loop.simps [of _ _ _ i])
    then show ?thesis
      using n(3) by (simp add: exact_loop.simps [of _ _ _ n] Let_def split: nat.split) (auto intro!: rbind_cong split: nat.split)
  qed
  then show ?thesis using n(1) by (simp add: processMonitorsExact_def get upd)
qed

section \<open>The walk over the keys of an event\<close>

definition event_keys :: "event \<Rightarrow> lookup list" where
  "event_keys e = [LId (Bytes32 (ev_id e)), LAuthor (Bytes32 (ev_pubkey e))] @
     map (\<lambda>(n, v). LTag (n # v)) (ev_tags e) @ [LKind (ev_kind e), LOther]"

fun am_put :: "lookup \<Rightarrow> MonitorSet \<Rightarrow> ActiveMonitors \<Rightarrow> ActiveMonitors" where
  "am_put (LId b) ms am = am\<lparr>allIds := bt_modify b (\<lambda>_. ms) (allIds am)\<rparr>"
| "am_put (LAuthor b) ms am = am\<lparr>allAuthors := bt_modify b (\<lambda>_. ms) (allAuthors am)\<rparr>"
| "am_put (LTag s) ms am = am\<lparr>allTags := bt_modify s (\<lambda>_. ms) (allTags am)\<rparr>"
| "am_put (LKind k) ms am = am\<lparr>allKinds := bt_modify k (\<lambda>_. ms) (allKinds am)\<rparr>"
| "am_put LOther ms am = am\<lparr>allOthers := ms\<rparr>"

definition proc1 :: "u64 \<Rightarrow> bytes \<Rightarrow> lookup \<Rightarrow> ActiveMonitors \<times> RecipientList \<Rightarrow> (ActiveMonitors \<times> RecipientList) result" where
  "proc1 levId buf K = (\<lambda>(am, rs). rbind (processMonitorSet levId buf (am_set am K) (am_conns am, rs)) (\<lambda>(ms, conns, rs).
     Inr ((am_put K ms am)\<lparr>am_conns := conns\<rparr>, rs)))"

lemma bt_get_modify: "ms \<noteq> [] \<longrightarrow> bt_get m k \<noteq> [] \<Longrightarrow> bt_get (bt_modify k (\<lambda>_. ms) m) k' = (if k' = k then ms else bt_get m k')"
  by (auto simp: bt_get_def map_of_modify split: option.splits)

lemma am_set_put:
  "ms \<noteq> [] \<longrightarrow> am_set am K \<noteq> [] \<Longrightarrow> am_set (am_put K ms am) K' = (if K' = K then ms else am_set am K')"
  by (cases K; cases K') (auto simp: am_set.simps bt_get_modify)

lemma am_put_frame [simp]:
  "am_conns (am_put K ms am) = am_conns am" "ephemeralTracker (am_put K ms am) = ephemeralTracker am"
  "am_sorted (am_put K ms am) = am_sorted am"
  by (cases K; simp add: am_sorted_def)+

lemma proc_tags:
  assumes "bt_sorted (allTags am)"
  shows "rfold (proc1 levId buf) (map (\<lambda>(n, v). LTag (n # v)) ts) (am, rs) =
    rbind (iter_tags ts (\<lambda>tagName tagVal (tags, st).
        rbind (processMonitorsExact levId buf (getTagSpec tagName tagVal) tags st) (\<lambda>r. Inr (r, True)))
      (allTags am, am_conns am, rs)) (\<lambda>(tags, conns, rs). Inr (am\<lparr>allTags := tags, am_conns := conns\<rparr>, rs))"
  using assms
proof (induction ts arbitrary: am rs)
  case (Cons t ts)
  obtain n v where t: "t = (n, v)" by fastforce
  show ?case
  proof (cases "processMonitorSet levId buf (bt_get (allTags am) (n # v)) (am_conns am, rs)")
    case (Inl x)
    then show ?thesis
      using Cons.prems by (simp add: t proc1_def am_set.simps getTagSpec_def processMonitorsExact_eq)
  next
    case (Inr r)
    obtain ms conns rs' where r: "r = (ms, conns, rs')" by (cases r) auto
    let ?am = "am\<lparr>allTags := bt_modify (n # v) (\<lambda>_. ms) (allTags am), am_conns := conns\<rparr>"
    have "bt_sorted (allTags ?am)" using Cons.prems by simp
    from Cons.IH [OF this, of rs'] Inr Cons.prems show ?thesis
      by (simp add: t proc1_def am_set.simps getTagSpec_def processMonitorsExact_eq r)
  qed
qed simp

lemma process_eq:
  assumes s: "am_sorted am" and e: "wf_event e"
  shows "process (levId, pack e) am = rbind (rfold (proc1 levId (pack e)) (event_keys e) (am, [])) (\<lambda>(am, rs).
    Inr (am, if rs \<noteq> [] then Some (rs, levId) else None))"
proof -
  have ids: "mkBytes32 (ev_id e) = Inr (Bytes32 (ev_id e))" "mkBytes32 (ev_pubkey e) = Inr (Bytes32 (ev_pubkey e))"
    using e by (auto simp: wf_event_def mkBytes32_ok)
  show ?thesis
    using s unfolding process_def event_keys_def fst_conv snd_conv Let_def PackedEventView_pack [OF e] pack_accessors [OF e]
      foreachTag_pack [OF e] ids rbind_simps
    by (simp add: rfold_append rbind_assoc processMonitorsExact_eq am_sorted_def proc1_def [of _ _ "LId b" for b]
        proc1_def [of _ _ "LAuthor b" for b] proc1_def [of _ _ "LKind k" for k] proc1_def [of _ _ LOther] am_set.simps)
      (auto simp: rbind_assoc am_set.simps processMonitorsExact_eq proc_tags intro!: rbind_cong)
qed

text \<open>The connections after the subscriptions in \<open>R\<close> have received the event \<open>lev\<close>.\<close>

definition mark :: "u64 \<Rightarrow> mptr set \<Rightarrow> conn_map \<Rightarrow> conn_map" where
  "mark lev R conns = (\<lambda>c. map_option (map (\<lambda>(s, sub). (s, if (c, s) \<in> R then sub\<lparr>sub_latestEventId := lev\<rparr> else sub))) (conns c))"

lemma map_of_map_snd: "map_of (map (\<lambda>(s, x). (s, g s x)) m) k = map_option (g k) (map_of m k)"
  by (induction m) auto

lemma findMonitor_mark [simp]:
  "findMonitor (mark lev R conns) c s =
   map_option (\<lambda>sub. if (c, s) \<in> R then sub\<lparr>sub_latestEventId := lev\<rparr> else sub) (findMonitor conns c s)"
  by (auto simp: findMonitor_def mark_def map_of_map_snd split: option.splits)

lemma mark_empty [simp]: "mark lev {} conns = conns"
proof -
  have "(\<lambda>(s, sub). (s, sub)) = (id :: SubId \<times> Subscription \<Rightarrow> _)" by auto
  then show ?thesis by (simp add: mark_def option.map_id)
qed

lemma set_latest_mark: "set_latest m lev (mark lev R conns) = mark lev (insert m R) conns"
proof
  fix c
  show "set_latest m lev (mark lev R conns) c = mark lev (insert m R) conns c"
    by (cases m; cases "conns c") (auto simp: set_latest_def mark_def split: option.split)
qed

lemma sub_filters_latest [simp]: "sub_filters (sub\<lparr>sub_latestEventId := lev\<rparr>) = sub_filters sub"
  by (simp add: sub_filters_def)

lemma deref_filter_mark [simp]: "deref_filter (mark lev R conns) p = deref_filter conns p"
  by (cases p) (auto simp: deref_filter_def split: option.splits)

lemma desired_mark [simp]: "desired (mark lev R conns) = desired conns"
  by (auto simp: desired_def fun_eq_iff) (metis (no_types, lifting) sub_filters_latest)

lemma conns_ok_mark: "conns_ok conns \<Longrightarrow> conns_ok (mark lev R conns)"
  by (fastforce simp: conns_ok_def mark_def comp_def case_prod_beta)

lemma deref_filter_wf: "conns_ok conns \<Longrightarrow> deref_filter conns p = Some f \<Longrightarrow> wf_filter f"
  by (cases p) (auto simp: deref_filter_def dest!: conns_okD split: option.splits if_splits)

text \<open>The subscriptions that a set of pointers makes recipients of an event.\<close>

definition hits :: "conn_map \<Rightarrow> event \<Rightarrow> u64 \<Rightarrow> fptr set \<Rightarrow> mptr set" where
  "hits conns e lev P = {(c, s). \<exists>n f sub. (c, s, n) \<in> P \<and> findMonitor conns c s = Some sub \<and> sub_latestEventId sub < lev \<and>
     deref_filter conns (c, s, n) = Some f \<and> matches f e}"

definition entry_ok :: "conn_map \<Rightarrow> event \<Rightarrow> u64 \<Rightarrow> mptr set \<Rightarrow> fptr \<times> MonitorItem \<Rightarrow> bool" where
  "entry_ok conns e lev R = (\<lambda>(p, it). mi_mon it = (fst p, fst (snd p)) \<and>
     (\<exists>f sub. deref_filter conns p = Some f \<and> findMonitor conns (fst p) (fst (snd p)) = Some sub \<and>
       mi_latestEventId it \<le> max lev (sub_latestEventId sub) \<and>
       (sub_latestEventId sub < lev \<longrightarrow> mi_latestEventId it < lev \<or> (matches f e \<longrightarrow> mi_mon it \<in> R))))"

lemma hits_Un: "hits conns e lev (P \<union> Q) = hits conns e lev P \<union> hits conns e lev Q"
  by (auto simp: hits_def)

lemma hits_insert:
  "deref_filter conns p = Some f \<Longrightarrow> findMonitor conns (fst p) (fst (snd p)) = Some sub \<Longrightarrow>
   hits conns e lev (insert p P) = (if matches f e \<and> sub_latestEventId sub < lev then {(fst p, fst (snd p))} else {}) \<union> hits conns e lev P"
  by (cases p) (auto simp: hits_def)

lemma entry_ok_mono: "entry_ok conns e lev R x \<Longrightarrow> R \<subseteq> R' \<Longrightarrow> entry_ok conns e lev R' x"
  by (fastforce simp: entry_ok_def)

lemma processMonitorSet_ok:
  assumes C: "conns_ok conns" and e: "wf_event e" and "\<forall>x \<in> set ms. entry_ok conns e lev (set rs) x" and "distinct rs"
    and "\<forall>(c, s) \<in> set rs. \<exists>sub. findMonitor conns c s = Some sub \<and> sub_latestEventId sub < lev"
  shows "\<exists>ms' rs'. processMonitorSet lev (pack e) ms (mark lev (set rs) conns, rs) = Inr (ms', mark lev (set rs') conns, rs') \<and>
    map fst ms' = map fst ms \<and> distinct rs' \<and> set rs' = set rs \<union> hits conns e lev (fst ` set ms) \<and>
    (\<forall>x \<in> set ms'. entry_ok conns e lev (set rs') x)"
  using assms(3-5)
proof (induction ms arbitrary: rs)
  case Nil
  then show ?case by (simp add: hits_def)
next
  case (Cons x ms)
  obtain p it where x: "x = (p, it)" by fastforce
  obtain c s n where p: "p = (c, s, n)" by (cases p)
  have "entry_ok conns e lev (set rs) (p, it)" using Cons.prems(1) by (simp add: x)
  then obtain f sub where f: "deref_filter conns p = Some f" and sub: "findMonitor conns c s = Some sub"
    and mon: "mi_mon it = (c, s)" and le: "mi_latestEventId it \<le> max lev (sub_latestEventId sub)"
    and seen: "sub_latestEventId sub < lev \<longrightarrow> mi_latestEventId it < lev \<or> (matches f e \<longrightarrow> (c, s) \<in> set rs)"
    by (auto simp: entry_ok_def p)
  have subid: "sub_connId sub = c" "sub_subId sub = s"
    using conns_okD [OF C sub] by auto
  have wf: "wf_filter f" by (rule deref_filter_wf [OF C f])
  have fsub: "findMonitor conns (fst p) (fst (snd p)) = Some sub" using sub by (simp add: p)
  have old: "sub_latestEventId sub < lev" if "(c, s) \<in> set rs" using Cons.prems(3) sub that by force
  define it' where "it' = (if mi_latestEventId it \<ge> lev \<or> (c, s) \<in> set rs \<or> sub_latestEventId sub \<ge> lev then it
    else it\<lparr>mi_latestEventId := lev\<rparr>)"
  define rs1 where "rs1 = (if matches f e \<and> sub_latestEventId sub < lev \<and> (c, s) \<notin> set rs then rs @ [(c, s)] else rs)"
  have rs1: "distinct rs1" "set rs1 = set rs \<union> (if matches f e \<and> sub_latestEventId sub < lev then {(c, s)} else {})"
    using Cons.prems(2) by (auto simp: rs1_def)
  have ent1: "\<forall>x \<in> set ms. entry_ok conns e lev (set rs1) x"
    using Cons.prems(1) rs1(2) entry_ok_mono [of conns e lev "set rs" _ "set rs1"] by simp
  have old1: "\<forall>(c, s) \<in> set rs1. \<exists>sub. findMonitor conns c s = Some sub \<and> sub_latestEventId sub < lev"
    using Cons.prems(3) rs1(2) sub by (auto split: if_splits)
  from Cons.IH [OF ent1 rs1(1) old1] obtain ms' rs' where
    IH: "processMonitorSet lev (pack e) ms (mark lev (set rs1) conns, rs1) = Inr (ms', mark lev (set rs') conns, rs')"
    "map fst ms' = map fst ms" "distinct rs'" "set rs' = set rs1 \<union> hits conns e lev (fst ` set ms)"
    "\<forall>x \<in> set ms'. entry_ok conns e lev (set rs') x" by (elim exE conjE)
  have "processMonitorSet lev (pack e) (x # ms) (mark lev (set rs) conns, rs) =
      Inr ((p, it') # ms', mark lev (set rs') conns, rs')"
    using seen IH(1) mon f sub subid old
    by (auto simp: x it'_def rs1_def nf_doesMatch_pack [OF wf e] set_latest_mark not_le split: if_splits)
  moreover have "set rs' = set rs \<union> hits conns e lev (fst ` set (x # ms))"
    using IH(4) rs1(2) by (simp add: x hits_insert [OF f fsub]) (simp add: p Un_assoc)
  moreover have "entry_ok conns e lev (set rs') (p, it')"
    using IH(4) rs1(2) f mon seen sub le by (auto simp: entry_ok_def it'_def p)
  ultimately show ?case using IH(2,3,5) by (simp add: x)
qed

text \<open>The walk over the keys.\<close>

definition walk_ok :: "ActiveMonitors \<Rightarrow> event \<Rightarrow> u64 \<Rightarrow> ActiveMonitors \<Rightarrow> RecipientList \<Rightarrow> bool" where
  "walk_ok am0 e lev am rs \<longleftrightarrow> distinct rs \<and> am_conns am = mark lev (set rs) (am_conns am0) \<and>
     (\<forall>(c, s) \<in> set rs. \<exists>sub. findMonitor (am_conns am0) c s = Some sub \<and> sub_latestEventId sub < lev) \<and>
     ephemeralTracker am = ephemeralTracker am0 \<and> am_sorted am \<and>
     (\<forall>K. map fst (am_set am K) = map fst (am_set am0 K) \<and> (\<forall>x \<in> set (am_set am K). entry_ok (am_conns am0) e lev (set rs) x))"

lemma proc1_ok:
  assumes C: "conns_ok (am_conns am0)" and e: "wf_event e" and W: "walk_ok am0 e lev am rs"
  shows "\<exists>am' rs'. proc1 lev (pack e) K (am, rs) = Inr (am', rs') \<and> walk_ok am0 e lev am' rs' \<and>
    set rs' = set rs \<union> hits (am_conns am0) e lev (fst ` set (am_set am0 K))"
proof -
  have keys: "fst ` set (am_set am K) = fst ` set (am_set am0 K)"
  proof -
    have "map fst (am_set am K) = map fst (am_set am0 K)" using W unfolding walk_ok_def by (elim conjE) simp
    then show ?thesis by (metis set_map)
  qed
  have pre: "\<forall>x \<in> set (am_set am K). entry_ok (am_conns am0) e lev (set rs) x" "distinct rs"
    "\<forall>(c, s) \<in> set rs. \<exists>sub. findMonitor (am_conns am0) c s = Some sub \<and> sub_latestEventId sub < lev"
    using W by (simp_all add: walk_ok_def)
  from processMonitorSet_ok [OF C e pre] obtain ms rs' where
    p: "processMonitorSet lev (pack e) (am_set am K) (mark lev (set rs) (am_conns am0), rs) = Inr (ms, mark lev (set rs') (am_conns am0), rs')"
    "map fst ms = map fst (am_set am K)" "distinct rs'"
    "set rs' = set rs \<union> hits (am_conns am0) e lev (fst ` set (am_set am K))" "\<forall>x \<in> set ms. entry_ok (am_conns am0) e lev (set rs') x"
    by (elim exE conjE)
  let ?am = "(am_put K ms am)\<lparr>am_conns := mark lev (set rs') (am_conns am0)\<rparr>"
  have "ms \<noteq> [] \<longrightarrow> am_set am K \<noteq> []" using p(2) by auto
  note set = am_set_put [OF this]
  have "entry_ok (am_conns am0) e lev (set rs') x" if "x \<in> set (am_set am K')" for K' x
    by (rule entry_ok_mono [of _ _ _ "set rs"]) (use W p(4) that in \<open>auto simp: walk_ok_def\<close>)
  moreover have "\<forall>(c, s) \<in> set rs'. \<exists>sub. findMonitor (am_conns am0) c s = Some sub \<and> sub_latestEventId sub < lev"
    using W p(4) by (auto simp: walk_ok_def hits_def)
  ultimately have "walk_ok am0 e lev ?am rs'"
    using W p(2,3,5) by (simp add: walk_ok_def set)
  moreover have "proc1 lev (pack e) K (am, rs) = Inr (?am, rs')"
    using W p(1) by (simp add: proc1_def walk_ok_def)
  ultimately show ?thesis using p(4) keys by auto
qed

lemma proc_keys_ok:
  assumes C: "conns_ok (am_conns am0)" and e: "wf_event e" and "walk_ok am0 e lev am rs"
  shows "\<exists>am' rs'. rfold (proc1 lev (pack e)) Ks (am, rs) = Inr (am', rs') \<and> walk_ok am0 e lev am' rs' \<and>
    set rs' = set rs \<union> hits (am_conns am0) e lev (\<Union>K \<in> set Ks. fst ` set (am_set am0 K))"
  using assms(3)
proof (induction Ks arbitrary: am rs)
  case Nil
  then show ?case by (simp add: hits_def)
next
  case (Cons K Ks)
  obtain am1 rs1 where 1: "proc1 lev (pack e) K (am, rs) = Inr (am1, rs1)" "walk_ok am0 e lev am1 rs1"
    "set rs1 = set rs \<union> hits (am_conns am0) e lev (fst ` set (am_set am0 K))"
    using proc1_ok [OF C e Cons.prems] by blast
  obtain am' rs' where "rfold (proc1 lev (pack e)) Ks (am1, rs1) = Inr (am', rs')" "walk_ok am0 e lev am' rs'"
    "set rs' = set rs1 \<union> hits (am_conns am0) e lev (\<Union>K \<in> set Ks. fst ` set (am_set am0 K))"
    using Cons.IH [OF 1(2)] by blast
  then show ?case using 1 by (auto simp: hits_Un)
qed

text \<open>A filter that matches an event is found under one of the keys of the event.\<close>

lemma event_keys_complete:
  assumes f: "wf_filter f" and m: "matches f e"
  shows "\<exists>K \<in> set (event_keys e). K \<in> set (keys_of f)"
proof -
  have "tag_in e t (set (fsb_vals s))" if "(t, s) \<in> set (nf_tags f)" for t s
    using m that by (auto simp: matches_def)
  then show ?thesis
    using m by (cases "nf_tags f") (fastforce simp: keys_of_def event_keys_def matches_def tag_in_def split: option.split)+
qed

text \<open>Who shall receive an event: the subscriptions that have not seen it and have a filter that matches.\<close>

definition subscribers :: "conn_map \<Rightarrow> u64 \<Rightarrow> event \<Rightarrow> (u64 \<times> SubId) set" where
  "subscribers conns lev e = {(c, s). \<exists>sub. findMonitor conns c s = Some sub \<and> sub_latestEventId sub < lev \<and>
     (\<exists>f \<in> set (sub_filters sub). matches f e)}"

lemma hits_subscribers:
  assumes "conns_ok conns"
  shows "hits conns e lev (\<Union>K \<in> set (event_keys e). desired conns K) = subscribers conns lev e"
proof (intro equalityI subsetI)
  fix m assume "m \<in> hits conns e lev (\<Union>K \<in> set (event_keys e). desired conns K)"
  then show "m \<in> subscribers conns lev e"
    by (fastforce simp: hits_def subscribers_def deref_filter_def split: option.splits if_splits)
next
  fix m assume "m \<in> subscribers conns lev e"
  then obtain c s sub f where m: "m = (c, s)" "findMonitor conns c s = Some sub" "f \<in> set (sub_filters sub)" "matches f e"
    "sub_latestEventId sub < lev"
    by (auto simp: subscribers_def)
  obtain n where n: "n < length (sub_filters sub)" "sub_filters sub ! n = f" using m(3) by (auto simp: in_set_conv_nth)
  have "wf_filter f" using conns_okD [OF assms m(2)] m(3) by blast
  then obtain K where K: "K \<in> set (event_keys e)" "K \<in> set (keys_of f)" using event_keys_complete m(4) by blast
  have "(c, s, n) \<in> desired conns K" using m(2) n K(2) by (auto simp: desired_def)
  moreover have "deref_filter conns (c, s, n) = Some f" using m(2) n by (simp add: deref_filter_def)
  ultimately show "m \<in> hits conns e lev (\<Union>K \<in> set (event_keys e). desired conns K)"
    unfolding hits_def m(1) using K(1) m(2,4,5) by blast
qed

text \<open>\<open>b\<close> is the last event processed: no item is ahead of both it and its subscription.\<close>

definition items_fresh :: "ActiveMonitors \<Rightarrow> u64 \<Rightarrow> bool" where
  "items_fresh am b \<longleftrightarrow> (\<forall>K. \<forall>(p, it) \<in> set (am_set am K). \<forall>sub.
     findMonitor (am_conns am) (fst p) (fst (snd p)) = Some sub \<longrightarrow> mi_latestEventId it \<le> max b (sub_latestEventId sub))"

lemma process_ok:
  assumes ok: "am_ok B am" and b: "items_fresh am b" "b < lev" and e: "wf_event e"
  shows "\<exists>am' rs. process (lev, pack e) am = Inr (am', if rs = [] then None else Some (rs, lev)) \<and>
    distinct rs \<and> set rs = subscribers (am_conns am) lev e \<and> am_conns am' = mark lev (set rs) (am_conns am) \<and>
    am_ok B am' \<and> items_fresh am' lev \<and> (\<forall>K. length (am_set am' K) = length (am_set am K))"
proof -
  have C: "conns_ok (am_conns am)" and T: "tables_for B am (desired (am_conns am))" using ok by (auto simp: am_ok_def)
  have s: "am_sorted am" and des: "fst ` set (am_set am K) = desired (am_conns am) K" for K
    using T by (auto simp: tables_for_def)
  have "entry_ok (am_conns am) e lev {} ((c, s, n), it)" if m: "((c, s, n), it) \<in> set (am_set am K)" for K c s n it
  proof -
    have "(c, s, n) \<in> desired (am_conns am) K" using des m by force
    then obtain sub f where sub: "findMonitor (am_conns am) c s = Some sub" "deref_filter (am_conns am) (c, s, n) = Some f"
      by (auto simp: desired_def deref_filter_def)
    have "mi_latestEventId it \<le> max b (sub_latestEventId sub)" using b(1) m sub(1) by (fastforce simp: items_fresh_def)
    moreover have "mi_mon it = (c, s)" using T m by (fastforce simp: tables_for_def)
    ultimately show ?thesis using sub b(2) by (auto simp: entry_ok_def max_def split: if_splits)
  qed
  then have "\<forall>x \<in> set (am_set am K). entry_ok (am_conns am) e lev {} x" for K by (metis prod_cases3 prod.exhaust)
  then have "walk_ok am e lev am []" using s by (simp add: walk_ok_def)
  from proc_keys_ok [OF C e this, of "event_keys e"]
  obtain am' rs where r: "rfold (proc1 lev (pack e)) (event_keys e) (am, []) = Inr (am', rs)" and W: "walk_ok am e lev am' rs"
    and rs: "set rs = subscribers (am_conns am) lev e" by (auto simp: des hits_subscribers [OF C])
  have conns: "am_conns am' = mark lev (set rs) (am_conns am)" "ephemeralTracker am' = ephemeralTracker am" "distinct rs"
    and keys: "\<And>K. map fst (am_set am' K) = map fst (am_set am K)"
    and ent: "\<And>K x. x \<in> set (am_set am' K) \<Longrightarrow> entry_ok (am_conns am) e lev (set rs) x" "am_sorted am'"
    using W by (auto simp: walk_ok_def)
  have len: "length (am_set am' K) = length (am_set am K)" and "fst ` set (am_set am' K) = desired (am_conns am) K" for K
    using keys [of K] des [of K] by (metis length_map, metis set_map)
  note this(2)
  moreover have "\<forall>(p, it) \<in> set (am_set am' K). mi_mon it = (fst p, fst (snd p))" for K
    using ent(1) [of _ K] by (fastforce simp: entry_ok_def)
  ultimately have "tables_for B am' (desired (am_conns am))"
    using T conns(2) keys ent(2) len by (simp add: tables_for_def tracker_ok_def)
  then have "am_ok B am'" using conns_ok_mark [OF C] conns(1) by (simp add: am_ok_def)
  moreover have "items_fresh am' lev"
    unfolding items_fresh_def
  proof (intro allI ballI, clarify)
    fix K c s n it sub assume m: "((c, s, n), it) \<in> set (am_set am' K)"
      and "findMonitor (am_conns am') (fst (c, s, n)) (fst (snd (c, s, n))) = Some sub"
    with ent(1) [OF m] show "mi_latestEventId it \<le> max lev (sub_latestEventId sub)"
      using rs by (auto simp: entry_ok_def conns(1) subscribers_def max_def split: if_splits)
  qed
  ultimately show ?thesis
    using process_eq [OF s e, of lev] r conns rs len by auto
qed

section \<open>Sequences of operations\<close>

text \<open>
  The states that the operations of one thread reach, in any order and for any number of connections;
  \<open>b\<close> is the last event that was processed.  Events come in the order of their ids; a subscription may be
  added with the id of a later event, when it has been caught up with the database before.  Between
  two operations the other threads may change the shared tracker, to any state in which it counts
  what they hold then.
\<close>

inductive am_op :: "cfg \<Rightarrow> (lookup \<Rightarrow> nat) \<Rightarrow> u64 \<Rightarrow> ActiveMonitors \<Rightarrow> u64 \<Rightarrow> ActiveMonitors \<Rightarrow> bool" for cfg B b am where
  op_addSub: "wf_group (sub_filterGroup sub) \<Longrightarrow> \<forall>K. length (am_set am K) + B K + length (sub_filters sub) < 2 ^ 64 \<Longrightarrow>
    addSub cfg sub cur am = Inr (added, am') \<Longrightarrow> am_op cfg B b am b am'"
| op_removeSub: "removeSub c s am = Inr am' \<Longrightarrow> am_op cfg B b am b am'"
| op_closeConn: "closeConn c am = Inr am' \<Longrightarrow> am_op cfg B b am b am'"
| op_process: "b < lev \<Longrightarrow> wf_event e \<Longrightarrow> process (lev, pack e) am = Inr (am', r) \<Longrightarrow> am_op cfg B b am lev am'"

inductive am_run :: "cfg \<Rightarrow> (lookup \<Rightarrow> nat) \<Rightarrow> u64 \<Rightarrow> ActiveMonitors \<Rightarrow> bool" for cfg where
  am_init: "tracker_ok B (new_ActiveMonitors t) \<Longrightarrow> am_run cfg B 0 (new_ActiveMonitors t)"
| am_step: "am_run cfg B b am \<Longrightarrow> am_op cfg B b am b' am' \<Longrightarrow> am_run cfg B b' am'"
| am_others: "am_run cfg B b am \<Longrightarrow> tracker_ok B' (am\<lparr>ephemeralTracker := t\<rparr>) \<Longrightarrow>
    am_run cfg B' b (am\<lparr>ephemeralTracker := t\<rparr>)"

definition live_subs :: "conn_map \<Rightarrow> u64 \<Rightarrow> SubId set" where
  "live_subs conns c = {s. findMonitor conns c s \<noteq> None}"

lemma live_subs_finite: "finite (live_subs conns c)"
proof (cases "conns c")
  case (Some cm)
  have "live_subs conns c \<subseteq> fst ` set cm"
    by (auto simp: live_subs_def findMonitor_def Some dest!: map_of_SomeD) (metis fst_conv image_eqI)
  then show ?thesis by (rule finite_subset) simp
qed (simp add: live_subs_def findMonitor_def)

lemma addSub_current: "addSub cfg sub cur am = Inr r \<Longrightarrow> sub_latestEventId sub = cur"
  by (auto simp: addSub_def split: if_splits)

lemma items_fresh_subset:
  assumes "items_fresh am b" and "\<forall>K. set (am_set am' K) \<subseteq> set (am_set am K)"
    and "\<And>c s sub. findMonitor (am_conns am') c s = Some sub \<Longrightarrow> findMonitor (am_conns am) c s = Some sub"
  shows "items_fresh am' b"
  unfolding items_fresh_def
proof (intro allI ballI, clarify)
  fix K c s n it sub assume m: "((c, s, n), it) \<in> set (am_set am' K)"
    and "findMonitor (am_conns am') (fst (c, s, n)) (fst (snd (c, s, n))) = Some sub"
  then have "((c, s, n), it) \<in> set (am_set am K)" "findMonitor (am_conns am) c s = Some sub" using assms(2,3) by auto
  then show "mi_latestEventId it \<le> max b (sub_latestEventId sub)" using assms(1) by (fastforce simp: items_fresh_def)
qed

text \<open>What every reachable state satisfies.\<close>

definition run_ok :: "cfg \<Rightarrow> (lookup \<Rightarrow> nat) \<Rightarrow> u64 \<Rightarrow> ActiveMonitors \<Rightarrow> bool" where
  "run_ok cfg B b am \<longleftrightarrow> am_ok B am \<and> items_fresh am b \<and>
     (\<forall>c. card (live_subs (am_conns am) c) \<le> unat (relay_maxSubsPerConnection cfg))"

lemma new_set [simp]: "am_set (new_ActiveMonitors t) K = []"
  by (cases K) (simp_all add: new_ActiveMonitors_def am_set.simps bt_get_def)

lemma new_tracker [simp]: "ephemeralTracker (new_ActiveMonitors t) = t"
  by (simp add: new_ActiveMonitors_def)

lemma tracker_ok_new: "tracker_ok (\<lambda>_. 0) (new_ActiveMonitors (Some new_EphemeralSubTracker))"
  by (simp add: tracker_ok_def new_EphemeralSubTracker_def counts_ok_def kind_cnt_def)

lemma new_ok:
  assumes "tracker_ok B (new_ActiveMonitors t)"
  shows "run_ok cfg B 0 (new_ActiveMonitors t)"
proof -
  let ?am = "new_ActiveMonitors t"
  have find: "findMonitor (am_conns ?am) c s = None" for c s by (simp add: new_ActiveMonitors_def findMonitor_def)
  have "am_sorted ?am" by (simp add: new_ActiveMonitors_def am_sorted_def bt_sorted_def)
  then have "am_ok B ?am"
    using assms by (simp add: am_ok_def tables_for_def desired_def find conns_ok_def) (simp add: new_ActiveMonitors_def)
  then show ?thesis by (simp add: run_ok_def items_fresh_def live_subs_def find)
qed

lemma run_ok_others:
  "run_ok cfg B b am \<Longrightarrow> tracker_ok B' (am\<lparr>ephemeralTracker := t\<rparr>) \<Longrightarrow> run_ok cfg B' b (am\<lparr>ephemeralTracker := t\<rparr>)"
  by (simp add: run_ok_def am_ok_def tables_for_def items_fresh_def)

lemma addSub_run:
  assumes R: "run_ok cfg B b am" and wf: "wf_group (sub_filterGroup sub)"
    and small: "\<forall>K. length (am_set am K) + B K + length (sub_filters sub) < 2 ^ 64"
    and add: "addSub cfg sub cur am = Inr (added, am')"
  shows "run_ok cfg B b am'"
proof -
  let ?c = "sub_connId sub" and ?s = "sub_subId sub"
  have ok: "am_ok B am" and fresh: "items_fresh am b" using R by (simp_all add: run_ok_def)
  have cur: "sub_latestEventId sub = cur" by (rule addSub_current [OF add])
  from addSub_ok [OF ok wf cur small, of cfg] add have ok': "am_ok B am'"
    and find: "\<And>c' s'. findMonitor (am_conns am') c' s' =
      (if c' = ?c \<and> s' = ?s then if added then Some sub else None else findMonitor (am_conns am) c' s')"
    and items: "\<And>K p it. (p, it) \<in> set (am_set am' K) \<Longrightarrow> it = \<lparr>mi_mon = (?c, ?s), mi_latestEventId = cur\<rparr> \<or>
      (p, it) \<in> set (am_set am K) \<and> (fst p, fst (snd p)) \<noteq> (?c, ?s)"
    and size: "added \<longleftrightarrow> card {s. s \<noteq> ?s \<and> findMonitor (am_conns am) ?c s \<noteq> None} < unat (relay_maxSubsPerConnection cfg)"
    by auto
  have "items_fresh am' b"
    unfolding items_fresh_def
  proof (intro allI ballI, clarify)
    fix K c s n it sub' assume m: "((c, s, n), it) \<in> set (am_set am' K)"
      and f: "findMonitor (am_conns am') (fst (c, s, n)) (fst (snd (c, s, n))) = Some sub'"
    have mon: "mi_mon it = (c, s)" using ok' m by (fastforce simp: am_ok_def tables_for_def)
    show "mi_latestEventId it \<le> max b (sub_latestEventId sub')"
      using items [OF m]
    proof
      assume "it = \<lparr>mi_mon = (?c, ?s), mi_latestEventId = cur\<rparr>"
      then show ?thesis using mon f find cur by (auto split: if_splits)
    next
      assume old: "((c, s, n), it) \<in> set (am_set am K) \<and> (fst (c, s, n), fst (snd (c, s, n))) \<noteq> (?c, ?s)"
      then have "findMonitor (am_conns am) c s = Some sub'" using f find by (auto split: if_splits)
      then show ?thesis using fresh old by (fastforce simp: items_fresh_def)
    qed
  qed
  moreover have "card (live_subs (am_conns am') c) \<le> unat (relay_maxSubsPerConnection cfg)" for c
  proof (cases "c = ?c")
    case True
    let ?old = "{s. s \<noteq> ?s \<and> findMonitor (am_conns am) ?c s \<noteq> None}"
    have "?old \<subseteq> live_subs (am_conns am) ?c" by (auto simp: live_subs_def)
    then have "finite ?old" "card ?old \<le> card (live_subs (am_conns am) ?c)"
      using live_subs_finite [of "am_conns am" ?c] by (auto intro: finite_subset card_mono)
    moreover have "live_subs (am_conns am') ?c = (if added then insert ?s ?old else ?old)"
      by (auto simp: live_subs_def find split: if_splits)
    moreover have "card (live_subs (am_conns am) ?c) \<le> unat (relay_maxSubsPerConnection cfg)"
      using R by (simp add: run_ok_def)
    ultimately show ?thesis using size True by (auto simp: card_insert_if)
  next
    case False
    then have "live_subs (am_conns am') c = live_subs (am_conns am) c" by (simp add: live_subs_def find)
    then show ?thesis using R by (simp add: run_ok_def)
  qed
  ultimately show ?thesis using ok' by (simp add: run_ok_def)
qed

lemma shrink_run:
  assumes R: "run_ok cfg B b am" and "am_ok B am'" and "\<forall>K. set (am_set am' K) \<subseteq> set (am_set am K)"
    and find: "\<And>c s sub. findMonitor (am_conns am') c s = Some sub \<Longrightarrow> findMonitor (am_conns am) c s = Some sub"
  shows "run_ok cfg B b am'"
proof -
  have "live_subs (am_conns am') c \<subseteq> live_subs (am_conns am) c" for c
  proof
    fix s assume "s \<in> live_subs (am_conns am') c"
    then show "s \<in> live_subs (am_conns am) c" using find [of c s] by (auto simp: live_subs_def)
  qed
  then have "card (live_subs (am_conns am') c) \<le> card (live_subs (am_conns am) c)" for c
    by (rule card_mono [OF live_subs_finite])
  then have "card (live_subs (am_conns am') c) \<le> unat (relay_maxSubsPerConnection cfg)" for c
    using R le_trans by (fastforce simp: run_ok_def)
  moreover have "items_fresh am' b" 
    by (rule items_fresh_subset [OF _ assms(3) find]) (use R in \<open>simp_all add: run_ok_def\<close>)
  ultimately show ?thesis using assms(2) by (simp add: run_ok_def)
qed

lemma live_subs_mark: "live_subs (mark lev R conns) c = live_subs conns c"
  by (simp add: live_subs_def)

lemma am_op_ok: "am_op cfg B b am b' am' \<Longrightarrow> run_ok cfg B b am \<Longrightarrow> run_ok cfg B b' am'"
proof (induction rule: am_op.induct)
  case (op_addSub sub cur added am')
  show ?case by (rule addSub_run [OF op_addSub.prems op_addSub.hyps])
next
  case (op_removeSub c s am')
  then obtain "am_ok B am'" and find: "\<forall>c' s'. findMonitor (am_conns am') c' s' =
      (if c' = c \<and> s' = s then None else findMonitor (am_conns am) c' s')" and "\<forall>K. set (am_set am' K) \<subseteq> set (am_set am K)"
    using removeSub_ok [of B am c s] by (auto simp: run_ok_def)
  then show ?case by (intro shrink_run [OF op_removeSub.prems]) (auto split: if_splits)
next
  case (op_closeConn c am')
  then obtain "am_ok B am'" and find: "\<forall>c' s'. findMonitor (am_conns am') c' s' =
      (if c' = c then None else findMonitor (am_conns am) c' s')" and "\<forall>K. set (am_set am' K) \<subseteq> set (am_set am K)"
    using closeConn_ok [of B am c] by (auto simp: run_ok_def)
  then show ?case by (intro shrink_run [OF op_closeConn.prems]) (auto split: if_splits)
next
  case (op_process lev e am' r)
  then show ?case
    using process_ok [of B am b lev e] by (auto simp: run_ok_def live_subs_mark)
qed

lemma run_ok: "am_run cfg B b am \<Longrightarrow> run_ok cfg B b am"
  by (induction rule: am_run.induct) (auto intro: new_ok am_op_ok run_ok_others)

text \<open>No operation drops the pointer to the tracker.\<close>

definition keeps_tracker :: "(ActiveMonitors \<Rightarrow> ActiveMonitors result) \<Rightarrow> bool" where
  "keeps_tracker f \<longleftrightarrow> (\<forall>am am'. f am = Inr am' \<longrightarrow> (ephemeralTracker am' = None) = (ephemeralTracker am = None))"

lemma keeps_rfold: "(\<And>x. x \<in> set xs \<Longrightarrow> keeps_tracker (f x)) \<Longrightarrow> keeps_tracker (rfold f xs)"
proof (induction xs)
  case (Cons x xs)
  then have "keeps_tracker (f x)" "keeps_tracker (rfold f xs)" by simp_all
  then show ?case unfolding keeps_tracker_def by (metis rbind_eq_Inr rfold.simps(2))
qed (simp add: keeps_tracker_def)

lemma keeps_install:
  assumes "\<forall>f \<in> set fs. wf_filter f"
  shows "keeps_tracker (installLookups m fs cur)"
proof -
  have "keeps_tracker (installFilter m cur n f)" if "f \<in> set fs" for n f
    using keeps_rfold [of "keys_of f" "\<lambda>K am. Inr (am_add (fst m, snd m, n) \<lparr>mi_mon = m, mi_latestEventId = cur\<rparr> K am)"] assms that
    by (simp add: keeps_tracker_def installFilter_eq am_add_tracker)
  then have "keeps_tracker (rfold (\<lambda>(n, f). installFilter m cur n f) (enumerate 0 fs))"
    by (intro keeps_rfold) (auto simp: in_set_enumerate_eq)
  then show ?thesis by (simp add: keeps_tracker_def installLookups_def)
qed

lemma keeps_uninstall:
  assumes "\<forall>f \<in> set fs. wf_filter f"
  shows "keeps_tracker (uninstallLookups m fs)"
proof -
  have "keeps_tracker (am_del p K)" for p K by (auto simp: keeps_tracker_def am_del_def)
  then have "keeps_tracker (uninstallFilter m n f)" if "f \<in> set fs" for n f
    using keeps_rfold [of "keys_of f" "am_del (fst m, snd m, n)"] assms that by (simp add: keeps_tracker_def uninstallFilter_eq)
  then have "keeps_tracker (rfold (\<lambda>(n, f). uninstallFilter m n f) (enumerate 0 fs))"
    by (intro keeps_rfold) (auto simp: in_set_enumerate_eq)
  then show ?thesis by (simp add: keeps_tracker_def uninstallLookups_def)
qed

lemma conns_ok_filters:
  assumes "conns_ok conns" and "findMonitor conns c s = Some sub"
  shows "\<forall>f \<in> set (sub_filters sub). wf_filter f"
  using assms by (fastforce simp: conns_ok_def findMonitor_def wf_group_def sub_filters_def split: option.splits dest: map_of_SomeD)

lemma addSub_tracker:
  assumes "conns_ok (am_conns am)" and wf: "wf_group (sub_filterGroup sub)" and add: "addSub cfg sub cur am = Inr (b, am')"
  shows "(ephemeralTracker am' = None) = (ephemeralTracker am = None)"
proof -
  have "(ephemeralTracker am1 = None) = (ephemeralTracker am = None)" if "removeSub c s am = Inr am1" for c s am1
    using that keeps_uninstall [OF conns_ok_filters [OF assms(1), of c s]]
    by (auto simp: removeSub_def keeps_tracker_def Let_def split: option.splits)
  moreover have "keeps_tracker (installLookups m (sub_filters sub) cur)" for m
    by (rule keeps_install) (use wf in \<open>simp add: wf_group_def sub_filters_def\<close>)
  ultimately show ?thesis
    using add by (auto simp: addSub_def Let_def keeps_tracker_def split: if_splits)
qed

section \<open>The monitor threads\<close>

text \<open>
  The relay runs \<open>n\<close> threads of the class \<open>RelayReqMonitor\<close> (\<open>relay.numThreads.reqMonitor\<close>, 3 by default).
  Thread \<open>i\<close> owns the monitors \<open>snd (M i)\<close>, and all of them hold a pointer to the one tracker \<open>t\<close>
  (\<open>src/apps/relay/RelayReqMonitor.cpp:19\<close>), which the relation passes to the thread that runs next.  One
  operation of a thread is one step: the tracker takes its lock for each change, and the changes
  are increments and decrements, so another thread that interleaves with the operation leaves the
  same counts.  \<open>others n M i\<close> is what the threads other than \<open>i\<close> have in the tracker.
\<close>

definition others :: "nat \<Rightarrow> (nat \<Rightarrow> u64 \<times> ActiveMonitors) \<Rightarrow> nat \<Rightarrow> lookup \<Rightarrow> nat" where
  "others n M i K = (\<Sum>j \<in> {..<n} - {i}. length (am_set (snd (M j)) K))"

abbreviation thread_am :: "(nat \<Rightarrow> u64 \<times> ActiveMonitors) \<Rightarrow> EphemeralSubTracker \<Rightarrow> nat \<Rightarrow> ActiveMonitors" where
  "thread_am M t i \<equiv> (snd (M i))\<lparr>ephemeralTracker := Some t\<rparr>"

inductive threads_run :: "cfg \<Rightarrow> nat \<Rightarrow> (nat \<Rightarrow> u64 \<times> ActiveMonitors) \<Rightarrow> EphemeralSubTracker \<Rightarrow> bool" for cfg n where
  threads_init: "threads_run cfg n (\<lambda>_. (0, new_ActiveMonitors (Some new_EphemeralSubTracker))) new_EphemeralSubTracker"
| threads_step: "threads_run cfg n M t \<Longrightarrow> i < n \<Longrightarrow> am_op cfg (others n M i) (fst (M i)) (thread_am M t i) b' am' \<Longrightarrow>
    ephemeralTracker am' = Some t' \<Longrightarrow> threads_run cfg n (M(i := (b', am'))) t'"

definition threads_ok :: "cfg \<Rightarrow> nat \<Rightarrow> (nat \<Rightarrow> u64 \<times> ActiveMonitors) \<Rightarrow> EphemeralSubTracker \<Rightarrow> bool" where
  "threads_ok cfg n M t \<longleftrightarrow>
     tracker_ok (\<lambda>K. \<Sum>j<n. length (am_set (snd (M j)) K)) (new_ActiveMonitors (Some t)) \<and>
     (\<forall>i<n. run_ok cfg (others n M i) (fst (M i)) (thread_am M t i))"

lemma others_total: "i < n \<Longrightarrow> length (am_set (snd (M i)) K) + others n M i K = (\<Sum>j<n. length (am_set (snd (M j)) K))"
  unfolding others_def by (rule sum.remove [symmetric]) simp_all

lemma others_self [simp]: "others n (M(i := x)) i = others n M i"
  by (auto simp: others_def fun_eq_iff intro: sum.cong)

lemma tracker_total:
  assumes "i < n"
  shows "tracker_ok (others n M i) (thread_am M t i) \<longleftrightarrow>
    tracker_ok (\<lambda>K. \<Sum>j<n. length (am_set (snd (M j)) K)) (new_ActiveMonitors (Some t))"
  by (simp add: tracker_ok_def others_total [OF assms])

lemma run_ok_tracker: "run_ok cfg B b am \<Longrightarrow> tracker_ok B am"
  by (simp add: run_ok_def am_ok_def tables_for_def)

lemma threads_ok: "threads_run cfg n M t \<Longrightarrow> threads_ok cfg n M t"
proof (induction rule: threads_run.induct)
  case threads_init
  have "new_ActiveMonitors t\<lparr>ephemeralTracker := Some t'\<rparr> = new_ActiveMonitors (Some t')" for t t'
    by (simp add: new_ActiveMonitors_def)
  moreover have "others n sample i = (\<lambda>_. 0)" if "sample = (\<lambda>_. (0, new_ActiveMonitors u))" for i u sample
    using that by (simp add: others_def fun_eq_iff)
  ultimately show ?case using tracker_ok_new by (simp add: threads_ok_def new_ok)
next
  case (threads_step M t i b' am' t')
  let ?M = "M(i := (b', am'))"
  have R: "run_ok cfg (others n ?M i) b' am'"
    using am_op_ok [OF threads_step.hyps(3)] threads_step.IH threads_step.hyps(2) by (simp add: threads_ok_def)
  have same: "am'\<lparr>ephemeralTracker := Some t'\<rparr> = am'" using threads_step.hyps(4) by simp
  have T: "tracker_ok (\<lambda>K. \<Sum>j<n. length (am_set (snd (?M j)) K)) (new_ActiveMonitors (Some t'))"
    using tracker_total [OF threads_step.hyps(2), of ?M t'] run_ok_tracker [OF R] same by simp
  have "run_ok cfg (others n ?M j) (fst (?M j)) (thread_am ?M t' j)" if "j < n" for j
  proof (cases "j = i")
    case False
    have "run_ok cfg (others n M j) (fst (M j)) (thread_am M t j)" using threads_step.IH that by (simp add: threads_ok_def)
    from run_ok_others [OF this, of "others n ?M j" "Some t'"] show ?thesis
      using tracker_total [OF that, of ?M t'] T False by simp
  qed (use R same in simp)
  then show ?case using T unfolding threads_ok_def by blast
qed

lemma key_of_kind:
  "LKind k \<in> set (keys_of f) \<or> LOther \<in> set (keys_of f) \<longleftrightarrow> nf_ids f = None \<and> nf_authors f = None \<and>
    nf_tags f = [] \<and> (case nf_kinds f of None \<Rightarrow> True | Some ks \<Rightarrow> k \<in> set (fsu_items ks))"
  by (auto simp: keys_of_def split: option.split)

lemma desired_kind:
  "desired conns LOther \<noteq> {} \<or> desired conns (LKind k) \<noteq> {} \<longleftrightarrow>
    (\<exists>c s sub f. findMonitor conns c s = Some sub \<and> f \<in> set (sub_filters sub) \<and>
      nf_ids f = None \<and> nf_authors f = None \<and> nf_tags f = [] \<and>
      (case nf_kinds f of None \<Rightarrow> True | Some ks \<Rightarrow> k \<in> set (fsu_items ks)))"
  unfolding desired_def key_of_kind [symmetric] by (auto simp: in_set_conv_nth) metis+

section \<open>Properties\<close>

text \<open>C20: In every reachable state the five tables index exactly the filters of the live
  subscriptions, the reference counts agree with them, no connection has more subscriptions than
  \<open>maxSubsPerConnection\<close>, and no removal fails: a pointer never dangles and the \<open>at\<close> of an
  uninstall never misses.\<close>

theorem monitors_invariant:
  assumes "am_run cfg B b am"
  shows "conns_ok (am_conns am) \<and> tables_for B am (desired (am_conns am)) \<and>
    card (live_subs (am_conns am) c) \<le> unat (relay_maxSubsPerConnection cfg) \<and>
    (\<exists>am'. removeSub c s am = Inr am') \<and> (\<exists>am'. closeConn c am = Inr am')"
  using run_ok [OF assms] removeSub_ok [of B am c s] closeConn_ok [of B am c] by (auto simp: run_ok_def am_ok_def)

text \<open>C19: A new event is handed, once each, to exactly the subscriptions that have a filter matching it
  and have not been caught up beyond it, and to no callback when there is none; processing never
  fails, whatever subscriptions were added, replaced and removed before.\<close>

theorem monitors_deliver_exactly:
  assumes "am_run cfg B b am" and "b < lev" and "wf_event e"
  shows "\<exists>am' rs. process (lev, pack e) am = Inr (am', if rs = [] then None else Some (rs, lev)) \<and>
    distinct rs \<and> set rs = subscribers (am_conns am) lev e \<and> am_run cfg B lev am'"
proof -
  have "am_ok B am" "items_fresh am b" using run_ok [OF assms(1)] by (simp_all add: run_ok_def)
  from process_ok [OF this assms(2,3)] obtain am' rs where
    "process (lev, pack e) am = Inr (am', if rs = [] then None else Some (rs, lev))" "distinct rs"
    "set rs = subscribers (am_conns am) lev e" by blast
  then show ?thesis using am_step [OF assms(1) op_process [OF assms(2,3)]] by blast
qed

text \<open>In a reachable state an added subscription is live afterwards exactly when the connection is below
  its limit, replacing one of the same id; a removed one is not; a closed connection has none;
  all other subscriptions stay as they are.\<close>

theorem subscription_lifecycle:
  assumes "am_run cfg B b am" and "wf_group (sub_filterGroup sub)"
    and "\<forall>K. length (am_set am K) + B K + length (sub_filters sub) < 2 ^ 64"
  shows "(\<exists>added am'. addSub cfg sub (sub_latestEventId sub) am = Inr (added, am') \<and>
      added = (card (live_subs (am_conns am) (sub_connId sub) - {sub_subId sub}) < unat (relay_maxSubsPerConnection cfg)) \<and>
      (\<forall>c s. findMonitor (am_conns am') c s =
        (if (c, s) = (sub_connId sub, sub_subId sub) then if added then Some sub else None else findMonitor (am_conns am) c s))) \<and>
    (\<exists>am'. removeSub c0 s0 am = Inr am' \<and>
      (\<forall>c s. findMonitor (am_conns am') c s = (if (c, s) = (c0, s0) then None else findMonitor (am_conns am) c s))) \<and>
    (\<exists>am'. closeConn c0 am = Inr am' \<and>
      (\<forall>c s. findMonitor (am_conns am') c s = (if c = c0 then None else findMonitor (am_conns am) c s)))"
proof -
  have ok: "am_ok B am" using run_ok [OF assms(1)] by (simp add: run_ok_def)
  have "live_subs (am_conns am) (sub_connId sub) - {sub_subId sub} =
      {s. s \<noteq> sub_subId sub \<and> findMonitor (am_conns am) (sub_connId sub) s \<noteq> None}" by (auto simp: live_subs_def)
  with addSub_ok [OF ok assms(2) refl assms(3), of cfg] removeSub_ok [OF ok, of c0 s0] closeConn_ok [OF ok, of c0]
  show ?thesis by auto
qed

text \<open>C31: Whatever the monitor threads of the relay have done, in any interleaving of their operations, the
  tracker that they share answers yes for an ephemeral kind exactly when some thread has a live
  subscription with a filter that has neither ids, nor authors, nor tags, and whose kinds are
  absent or contain the kind.\<close>

theorem ephemeral_tracker_exact:
  assumes "threads_run cfg n M t" and "isEphemeral k"
  shows "hasSubscribersForKind t k \<longleftrightarrow>
    (\<exists>i<n. \<exists>c s sub f. findMonitor (am_conns (snd (M i))) c s = Some sub \<and> f \<in> set (sub_filters sub) \<and>
      nf_ids f = None \<and> nf_authors f = None \<and> nf_tags f = [] \<and>
      (case nf_kinds f of None \<Rightarrow> True | Some ks \<Rightarrow> k \<in> set (fsu_items ks)))"
proof -
  have ok: "threads_ok cfg n M t" by (rule threads_ok [OF assms(1)])
  have t: "counts_ok t" "kind_cnt t k = (\<Sum>j<n. length (am_set (snd (M j)) (LKind k)))"
    "unat (catchAllCount t) = (\<Sum>j<n. length (am_set (snd (M j)) LOther))"
    using ok assms(2) by (auto simp: threads_ok_def tracker_ok_def)
  have "fst ` set (am_set (snd (M i)) K) = desired (am_conns (snd (M i))) K" if "i < n" for i K
    using ok that by (auto simp: threads_ok_def run_ok_def am_ok_def tables_for_def)
  then have "0 < length (am_set (snd (M i)) K) \<longleftrightarrow> desired (am_conns (snd (M i))) K \<noteq> {}" if "i < n" for i K
    using that by (metis image_is_empty length_greater_0_conv set_empty)
  then have "0 < (\<Sum>j<n. length (am_set (snd (M j)) K)) \<longleftrightarrow> (\<exists>i<n. desired (am_conns (snd (M i))) K \<noteq> {})" for K
    by (auto simp: sum_nonneg_eq_0_iff simp flip: neq0_conv)
  then show ?thesis
    unfolding desired_kind [symmetric] by (auto simp: hasSubscribersForKind_iff [OF t(1)] t(2,3))
qed

section \<open>An instance\<close>

definition sample_sub :: Subscription where
  "sample_sub = \<lparr>sub_connId = 1, sub_subId = SubId [CHR 0x01, CHR ''s''],
     sub_filterGroup = \<lparr>fg_filters = [empty_filter\<lparr>nf_kinds := Some \<lparr>fsu_items = [1, 20001]\<rparr>\<rparr>]\<rparr>,
     sub_countOnly = False, sub_latestEventId = 0\<rparr>"

definition sample_am :: ActiveMonitors where
  "sample_am = (let item = ((1, SubId [CHR 0x01, CHR ''s''], 0), \<lparr>mi_mon = (1, SubId [CHR 0x01, CHR ''s'']), mi_latestEventId = 0\<rparr>) in
     \<lparr>ephemeralTracker = Some \<lparr>kindRefcounts = [20001 \<mapsto> 1], catchAllCount = 0\<rparr>,
      am_conns = [1 \<mapsto> [(SubId [CHR 0x01, CHR ''s''], sample_sub)]], allIds = [], allAuthors = [], allTags = [],
      allKinds = [(1, [item]), (20001, [item])], allOthers = []\<rparr>)"

lemma sample_filter_wf: "wf_group (sub_filterGroup sample_sub)"
  by (simp add: wf_group_def sample_sub_def wf_filter_def empty_filter_def wf_fsu_def)

lemma sample_kinds: "\<not> isEphemeral 1" "isEphemeral 20001" "isEphemeral 20002"
  by (simp_all add: isEphemeral_def word_le_nat_alt)

lemma sample_addSub: "addSub default_cfg sample_sub 0 (new_ActiveMonitors (Some new_EphemeralSubTracker)) = Inr (True, sample_am)"
  by (simp add: addSub_def sample_sub_def new_ActiveMonitors_def findMonitor_def default_cfg_def installLookups_def sub_filters_def
      installFilter_def empty_filter_def fsu_at_def fsu_size_def upt_rec bt_add_def bt_modify_def ms_try_emplace_def
      sample_kinds addKind_def new_EphemeralSubTracker_def sample_am_def Let_def)

lemma sample_run: "am_run default_cfg (\<lambda>_. 0) 0 sample_am"
  by (rule am_step [OF am_init [OF tracker_ok_new] op_addSub [OF sample_filter_wf _ sample_addSub]])
    (simp add: sub_filters_def sample_sub_def)

lemma sample_find: "findMonitor (am_conns sample_am) c s = (if c = 1 \<and> s = SubId [CHR 0x01, CHR ''s''] then Some sample_sub else None)"
  by (simp add: sample_am_def findMonitor_def Let_def)

theorem monitors_invariant_witness:
  "am_run default_cfg (\<lambda>_. 0) 0 sample_am \<and> (\<exists>am'. closeConn 1 sample_am = Inr am') \<and> card (live_subs (am_conns sample_am) 1) \<le> 200"
  using monitors_invariant [OF sample_run, of 1] sample_run by (simp add: default_cfg_def)

theorem monitors_deliver_exactly_witness:
  "\<exists>am'. process (7, pack sample_event) sample_am = Inr (am', Some ([(1, SubId [CHR 0x01, CHR ''s''])], 7))"
proof -
  have "subscribers (am_conns sample_am) 7 sample_event = {(1, SubId [CHR 0x01, CHR ''s''])}"
    by (auto simp: subscribers_def sample_find sub_filters_def sample_sub_def matches_def empty_filter_def sample_event_def
        split: if_splits)
  moreover obtain am' rs where "process (7, pack sample_event) sample_am = Inr (am', if rs = [] then None else Some (rs, 7))"
    "distinct rs" "set rs = subscribers (am_conns sample_am) 7 sample_event"
    using monitors_deliver_exactly [OF sample_run _ wf_sample_event, of 7] by auto
  moreover have "rs = [x]" if "distinct rs" "set rs = {x}" for rs and x :: "u64 \<times> SubId"
    using that distinct_card [of rs] by (cases rs; cases "tl rs") auto
  ultimately show ?thesis by auto
qed

theorem subscription_lifecycle_witness:
  "\<exists>am'. addSub default_cfg sample_sub 0 sample_am = Inr (True, am') \<and>
    findMonitor (am_conns am') 1 (SubId [CHR 0x01, CHR ''s'']) = Some sample_sub"
proof -
  have "length (am_set sample_am K) \<le> 1" for K
    by (cases K) (auto simp: am_set.simps sample_am_def bt_get_def Let_def)
  then have "\<forall>K. length (am_set sample_am K) + 0 + length (sub_filters sample_sub) < 2 ^ 64"
    by (simp add: sub_filters_def sample_sub_def le_less_trans [of _ 1])
  from subscription_lifecycle [OF sample_run sample_filter_wf this, THEN conjunct1] obtain added am' where
    a: "addSub default_cfg sample_sub (sub_latestEventId sample_sub) sample_am = Inr (added, am')"
    "added = (card (live_subs (am_conns sample_am) (sub_connId sample_sub) - {sub_subId sample_sub}) <
      unat (relay_maxSubsPerConnection default_cfg))"
    "\<forall>c s. findMonitor (am_conns am') c s = (if (c, s) = (sub_connId sample_sub, sub_subId sample_sub)
      then if added then Some sample_sub else None else findMonitor (am_conns sample_am) c s)"
    by blast
  have none: "live_subs (am_conns sample_am) (sub_connId sample_sub) - {sub_subId sample_sub} = {}"
    by (auto simp: live_subs_def sample_find sample_sub_def split: if_splits)
  have "added" using a(2) unfolding none by (simp add: default_cfg_def)
  moreover have "sub_latestEventId sample_sub = 0" "sub_connId sample_sub = 1" "sub_subId sample_sub = SubId [CHR 0x01, CHR ''s'']"
    by (simp_all add: sample_sub_def)
  ultimately show ?thesis using a by auto
qed

text \<open>
  Three threads: threads 2 and 1 add a subscription each, both to the ephemeral kind 20001, and the
  connection of the first is closed again.  The kind is still subscribed to, by thread 1 alone.
\<close>

definition sample_tracker :: "u64 \<Rightarrow> EphemeralSubTracker" where
  "sample_tracker n = \<lparr>kindRefcounts = [20001 \<mapsto> n], catchAllCount = 0\<rparr>"

abbreviation sample_M0 :: "nat \<Rightarrow> u64 \<times> ActiveMonitors" where
  "sample_M0 \<equiv> (\<lambda>_. (0, new_ActiveMonitors (Some new_EphemeralSubTracker)))"

definition sample_am2 :: ActiveMonitors where
  "sample_am2 = sample_am\<lparr>ephemeralTracker := Some (sample_tracker 2)\<rparr>"

definition sample_closed :: ActiveMonitors where
  "sample_closed = new_ActiveMonitors (Some (sample_tracker 1))"

lemma sample_addSub2:
  "addSub default_cfg sample_sub 0 (new_ActiveMonitors (Some (sample_tracker 1))) = Inr (True, sample_am2)"
  by (simp add: addSub_def sample_sub_def new_ActiveMonitors_def findMonitor_def default_cfg_def installLookups_def sub_filters_def
      installFilter_def empty_filter_def fsu_at_def fsu_size_def upt_rec bt_add_def bt_modify_def ms_try_emplace_def
      sample_kinds addKind_def sample_tracker_def sample_am2_def sample_am_def Let_def)

lemma sample_closeConn: "closeConn 1 sample_am2 = Inr sample_closed"
  by (simp add: closeConn_def sample_sub_def new_ActiveMonitors_def uninstallLookups_def sub_filters_def
      uninstallFilter_def empty_filter_def fsu_at_def fsu_size_def upt_rec bt_remove_def bt_modify_def
      sample_kinds removeKind_def sample_tracker_def sample_am2_def sample_am_def sample_closed_def Let_def)

lemma sample_threads:
  "threads_run default_cfg 3 (sample_M0(2 := (0, sample_am), 1 := (0, sample_am2), 2 := (0, sample_closed))) (sample_tracker 1)"
proof -
  have small: "length (am_set (new_ActiveMonitors t) K) + others 3 M i K + length (sub_filters sample_sub) < 2 ^ 64"
    if "\<forall>j. length (am_set (snd (M j)) K) \<le> 1" for M i t K
  proof -
    have "others 3 M i K \<le> (\<Sum>j \<in> {..<3} - {i}. 1)" unfolding others_def by (rule sum_mono) (use that in simp)
    also have "\<dots> \<le> 3" by (simp add: card_Diff_singleton_if)
    finally show ?thesis by (simp add: sub_filters_def sample_sub_def)
  qed
  have len: "length (am_set sample_am K) \<le> Suc 0" for K
    by (cases K) (auto simp: am_set.simps sample_am_def bt_get_def Let_def)
  have tr: "ephemeralTracker sample_am = Some (sample_tracker 1)" "ephemeralTracker sample_am2 = Some (sample_tracker 2)"
    "ephemeralTracker sample_closed = Some (sample_tracker 1)"
    by (simp_all add: sample_am_def sample_am2_def sample_closed_def sample_tracker_def Let_def)
  have new: "(new_ActiveMonitors u)\<lparr>ephemeralTracker := t\<rparr> = new_ActiveMonitors t" for t u by (simp add: new_ActiveMonitors_def)
  have 1: "threads_run default_cfg 3 (sample_M0(2 := (0, sample_am))) (sample_tracker 1)"
    by (rule threads_step [OF threads_init, of 2])
      (auto simp: tr new intro!: op_addSub [OF sample_filter_wf _ sample_addSub] small)
  have 2: "threads_run default_cfg 3 (sample_M0(2 := (0, sample_am), 1 := (0, sample_am2))) (sample_tracker 2)"
    by (rule threads_step [OF 1, of 1])
      (auto simp: tr new intro!: op_addSub [OF sample_filter_wf _ sample_addSub2] small len)
  show ?thesis
    by (rule threads_step [OF 2, of 2])
      (auto simp: tr sample_am2_def [symmetric] intro!: op_closeConn [OF sample_closeConn])
qed

theorem ephemeral_tracker_exact_witness:
  "hasSubscribersForKind (sample_tracker 1) 20001 \<and> \<not> hasSubscribersForKind (sample_tracker 1) 20002"
proof -
  note ex = ephemeral_tracker_exact [OF sample_threads]
  have none: "findMonitor (am_conns (new_ActiveMonitors t)) c s = None" for t c s
    by (simp add: new_ActiveMonitors_def findMonitor_def)
  have conns: "am_conns sample_am2 = am_conns sample_am" by (simp add: sample_am2_def)
  have "hasSubscribersForKind (sample_tracker 1) 20001"
    unfolding ex [OF sample_kinds(2)]
    by (rule exI [of _ 1]) (auto simp: conns sample_find sub_filters_def sample_sub_def empty_filter_def)
  moreover have "\<not> hasSubscribersForKind (sample_tracker 1) 20002"
    unfolding ex [OF sample_kinds(3)]
    by (auto simp: conns sample_find none sample_closed_def sub_filters_def sample_sub_def empty_filter_def split: if_splits)
  ultimately show ?thesis by blast
qed

end
