(* ===== verification/RelayReqMonitor.thy ===== *)
theory RelayReqMonitor
  imports ActiveMonitorsProof RelayServer
begin

text \<open>
  \<open>src/apps/relay/RelayReqMonitor.cpp\<close>: the thread that sends new events to the subscriptions that are waiting for
  them.  The state of the thread is its monitors and the last event it has processed; the tracker of ephemeral
  subscriptions belongs to the relay, so each call hands it to the monitors and takes it back.  An exception ends
  the program, so it is the result of the round.
\<close>

section \<open>The messages\<close>

type_synonym monitor = "ActiveMonitors \<times> u64 \<times> RelayServer"

definition with_tracker :: "(ActiveMonitors \<Rightarrow> ('a \<times> ActiveMonitors) result) \<Rightarrow> ActiveMonitors \<times> RelayServer \<Rightarrow> ('a \<times> ActiveMonitors \<times> RelayServer) result" where
  "with_tracker f = (\<lambda>(monitors, rs).
     rbind (f (monitors\<lparr>ephemeralTracker := Some (rs_ephemeralTracker rs)\<rparr>)) (\<lambda>(x, monitors).
       Inr (x, monitors, rs\<lparr>rs_ephemeralTracker := (case ephemeralTracker monitors of None \<Rightarrow> rs_ephemeralTracker rs | Some t \<Rightarrow> t)\<rparr>)))"

text \<open>The events that were written after the query of the subscription.\<close>

definition catch_up ::
  "'t env \<Rightarrow> (u32 \<Rightarrow> bytes \<Rightarrow> bytes result) \<Rightarrow> 't \<Rightarrow> Subscription \<Rightarrow> View_Event \<Rightarrow> RelayServer \<Rightarrow> RelayServer result" where
  "catch_up E decomp txn sub ev rs =
     rbind (PackedEventView (snd ev)) (\<lambda>packed.
     rbind (fg_doesMatch (sub_filterGroup sub) packed) (\<lambda>matched.
       if matched then rbind (getEventJson E decomp txn (fst ev)) (\<lambda>json. Inr (sendEvent (sub_connId sub) (sub_subId sub) json rs))
       else Inr rs))"

definition monitor_newSub ::
  "'t env \<Rightarrow> libs \<Rightarrow> cfg \<Rightarrow> (u32 \<Rightarrow> bytes \<Rightarrow> bytes result) \<Rightarrow> 't \<Rightarrow> u64 \<Rightarrow> Subscription \<Rightarrow> monitor \<Rightarrow> monitor result" where
  "monitor_newSub E L cfg decomp txn latestEventId sub = (\<lambda>(monitors, currEventId, rs).
     rbind (rfold (catch_up E decomp txn sub) (foreach_Event E txn False (Some (sub_latestEventId sub + 1))) rs) (\<lambda>rs.
     rbind (with_tracker (addSub cfg (sub\<lparr>sub_latestEventId := latestEventId\<rparr>) latestEventId) (monitors, rs)) (\<lambda>(ok, monitors, rs).
       Inr (monitors, currEventId, if \<not> ok then sendNoticeError L (sub_connId sub) ''too many concurrent REQs'' rs else rs))))"

definition monitor_event ::
  "'t env \<Rightarrow> (u32 \<Rightarrow> bytes \<Rightarrow> bytes result) \<Rightarrow> 't \<Rightarrow> View_Event \<Rightarrow> ActiveMonitors \<times> RelayServer \<Rightarrow> (ActiveMonitors \<times> RelayServer) result" where
  "monitor_event E decomp txn ev = (\<lambda>(monitors, rs).
     rbind (process ev monitors) (\<lambda>(monitors, r).
       case r of
         None \<Rightarrow> Inr (monitors, rs)
       | Some (recipients, levId) \<Rightarrow>
           rbind (getEventJson E decomp txn levId) (\<lambda>json. Inr (monitors, sendEventToBatch recipients json rs))))"

definition monitor_dbChange ::
  "'t env \<Rightarrow> (u32 \<Rightarrow> bytes \<Rightarrow> bytes result) \<Rightarrow> 't \<Rightarrow> u64 \<Rightarrow> monitor \<Rightarrow> monitor result" where
  "monitor_dbChange E decomp txn latestEventId = (\<lambda>(monitors, currEventId, rs).
     rbind (rfold (monitor_event E decomp txn) (foreach_Event E txn False (Some (currEventId + 1))) (monitors, rs)) (\<lambda>(monitors, rs).
       Inr (monitors, latestEventId, rs)))"

definition monitor_msg ::
  "'t env \<Rightarrow> libs \<Rightarrow> cfg \<Rightarrow> (u32 \<Rightarrow> bytes \<Rightarrow> bytes result) \<Rightarrow> 't \<Rightarrow> u64 \<Rightarrow> MsgReqMonitor \<Rightarrow> monitor \<Rightarrow> monitor result" where
  "monitor_msg E L cfg decomp txn latestEventId m = (\<lambda>(monitors, currEventId, rs).
     case m of
       Monitor_NewSub sub \<Rightarrow> monitor_newSub E L cfg decomp txn latestEventId sub (monitors, currEventId, rs)
     | Monitor_RemoveSub connId subId \<Rightarrow>
         rbind (with_tracker (\<lambda>am. rbind (removeSub connId subId am) (\<lambda>am. Inr ((), am))) (monitors, rs)) (\<lambda>(_, monitors, rs).
           Inr (monitors, currEventId, rs))
     | Monitor_CloseConn connId \<Rightarrow>
         rbind (with_tracker (\<lambda>am. rbind (closeConn connId am) (\<lambda>am. Inr ((), am))) (monitors, rs)) (\<lambda>(_, monitors, rs).
           Inr (monitors, currEventId, rs))
     | DBChange \<Rightarrow> monitor_dbChange E decomp txn latestEventId (monitors, currEventId, rs))"

text \<open>One round of the loop.\<close>

definition runReqMonitor ::
  "'t env \<Rightarrow> libs \<Rightarrow> cfg \<Rightarrow> (u32 \<Rightarrow> bytes \<Rightarrow> bytes result) \<Rightarrow> nat \<Rightarrow> 't \<Rightarrow> monitor \<Rightarrow> monitor result" where
  "runReqMonitor E L cfg decomp thr txn = (\<lambda>(monitors, currEventId, rs).
     let (newMsgs, pool) = pop_all thr (tpReqMonitor rs);
         latestEventId = getMostRecentLevId E txn;
         currEventId = (if currEventId > latestEventId then latestEventId else currEventId) in
     rfold (monitor_msg E L cfg decomp txn latestEventId) newMsgs (monitors, currEventId, rs\<lparr>tpReqMonitor := pool\<rparr>))"

definition new_monitor :: "RelayServer \<Rightarrow> monitor" where
  "new_monitor rs = (new_ActiveMonitors (Some (rs_ephemeralTracker rs)), MAX_U64, rs)"

text \<open>The watcher of the database file.\<close>

definition dbChangeWatcher :: "RelayServer \<Rightarrow> RelayServer" where
  "dbChangeWatcher rs = rs\<lparr>tpReqMonitor := dispatchToAll DBChange (tpReqMonitor rs)\<rparr>"

section \<open>What a subscription is sent\<close>

definition sub_matches :: "Subscription \<Rightarrow> View_Event \<Rightarrow> bool" where
  "sub_matches sub ev \<longleftrightarrow> (\<exists>f \<in> set (sub_filters sub). matches f (unpack (snd ev)))"

text \<open>The texts that the messages to the websocket thread carry to a subscription.\<close>

fun sub_text :: "u64 \<Rightarrow> SubId \<Rightarrow> MsgWebsocket \<Rightarrow> string list" where
  "sub_text c s (Send c' payload) = (if c' = c then [payload] else [])"
| "sub_text c s (SendEventToBatch recipients evJson) = (if (c, s) \<in> set recipients then [event_reply s evJson] else [])"
| "sub_text c s m = []"

definition sub_out :: "u64 \<Rightarrow> SubId \<Rightarrow> MsgWebsocket list \<Rightarrow> string list" where
  "sub_out c s msgs = concat (map (sub_text c s) msgs)"

lemma sub_out_append [simp]: "sub_out c s (xs @ ys) = sub_out c s xs @ sub_out c s ys" "sub_out c s [] = []"
  by (simp_all add: sub_out_def)

definition event_texts :: "(u32 \<Rightarrow> bytes \<Rightarrow> bytes result) \<Rightarrow> tables \<Rightarrow> SubId \<Rightarrow> View_Event list \<Rightarrow> string list" where
  "event_texts decomp T s evs = map (\<lambda>ev. event_reply s (the (stored_json decomp T (fst ev)))) evs"

context golpe_env
begin

lemma catch_up_loop:
  assumes T: "wf_store (view txn)" and pay: "payloads_ok decomp (view txn)" and sub: "wf_group (sub_filterGroup sub)"
    and evs: "set evs \<subseteq> set (t_events (view txn))"
  shows "\<exists>rs'. rfold (catch_up E decomp txn sub) evs rs = Inr rs' \<and> rest_of rs' = rest_of rs \<and>
    websocket_out rs' = websocket_out rs @ map (Send (sub_connId sub)) (event_texts decomp (view txn) (sub_subId sub) (filter (sub_matches sub) evs))"
  using evs
proof (induction evs arbitrary: rs)
  case Nil
  then show ?case by (simp add: event_texts_def)
next
  case (Cons ev evs)
  obtain l p where ev: "ev = (l, p)" by (cases ev)
  have mem: "(l, p) \<in> set (t_events (view txn))" using Cons.prems ev by auto
  then have e: "wf_event (unpack p)" "p = pack (unpack p)" using events_of_packed [OF T] by blast+
  have v: "PackedEventView p = Inr p" "fg_doesMatch (sub_filterGroup sub) p = Inr (sub_matches sub ev)"
    using PackedEventView_pack [OF e(1)] fg_doesMatch_pack [OF sub e(1)] e(2) by (simp_all add: sub_matches_def ev sub_filters_def)
  have json: "getEventJson E decomp txn l = Inr (the (stored_json decomp (view txn) l))"
    by (rule getEventJson_stored [OF pay]) (use mem in force)
  have step: "catch_up E decomp txn sub ev rs = Inr (if sub_matches sub ev
      then sendEvent (sub_connId sub) (sub_subId sub) (the (stored_json decomp (view txn) l)) rs else rs)"
    using v json by (simp add: catch_up_def ev)
  show ?case
  proof (cases "sub_matches sub ev")
    case True
    let ?rs = "sendEvent (sub_connId sub) (sub_subId sub) (the (stored_json decomp (view txn) l)) rs"
    from Cons.IH [of ?rs] Cons.prems obtain rs' where "rfold (catch_up E decomp txn sub) evs ?rs = Inr rs'" "rest_of rs' = rest_of rs"
      "websocket_out rs' = websocket_out ?rs @ map (Send (sub_connId sub)) (event_texts decomp (view txn) (sub_subId sub) (filter (sub_matches sub) evs))" by auto
    then show ?thesis using step True by (simp add: event_texts_def ev)
  next
    case False
    then show ?thesis using step Cons.IH [of rs] Cons.prems by simp
  qed
qed

end

lemma process_tracker: "process ev am = Inr (am', r) \<Longrightarrow> ephemeralTracker am' = ephemeralTracker am"
  by (auto simp: process_def Let_def)

lemma items_fresh_mono: "items_fresh am b \<Longrightarrow> b \<le> b' \<Longrightarrow> items_fresh am b'"
  unfolding items_fresh_def
proof (intro allI ballI, clarify)
  fix K c s n it sub
  assume a: "\<forall>K. \<forall>(p, it) \<in> set (am_set am K). \<forall>sub. findMonitor (am_conns am) (fst p) (fst (snd p)) = Some sub \<longrightarrow>
      mi_latestEventId it \<le> max b (sub_latestEventId sub)"
    and m: "((c, s, n), it) \<in> set (am_set am K)" "findMonitor (am_conns am) (fst (c, s, n)) (fst (snd (c, s, n))) = Some sub" and "b \<le> b'"
  have "mi_latestEventId it \<le> max b (sub_latestEventId sub)" using a m by fastforce
  also have "\<dots> \<le> max b' (sub_latestEventId sub)" by (rule max.mono [OF \<open>b \<le> b'\<close> order_refl])
  finally show "mi_latestEventId it \<le> max b' (sub_latestEventId sub)" .
qed

lemma run_ok_mono: "run_ok cfg B b am \<Longrightarrow> b \<le> b' \<Longrightarrow> run_ok cfg B b' am"
  by (auto simp: run_ok_def intro: items_fresh_mono)

lemma run_ok_process:
  assumes "run_ok cfg B b am" and "b < lev" and "wf_event e"
  shows "\<exists>am' rs. process (lev, pack e) am = Inr (am', if rs = [] then None else Some (rs, lev)) \<and>
    set rs = subscribers (am_conns am) lev e \<and> am_conns am' = mark lev (set rs) (am_conns am) \<and> run_ok cfg B lev am' \<and>
    (\<forall>K. length (am_set am' K) = length (am_set am K))"
  using assms process_ok [of B am b lev e] by (fastforce simp: run_ok_def live_subs_mark)

text \<open>The events that are due to a subscription.\<close>

definition due :: "conn_map \<Rightarrow> u64 \<Rightarrow> SubId \<Rightarrow> View_Event \<Rightarrow> bool" where
  "due conns c s ev \<longleftrightarrow> (\<exists>sub. findMonitor conns c s = Some sub \<and> sub_latestEventId sub < fst ev \<and> sub_matches sub ev)"

lemma due_subscribers: "due conns c s (l, p) \<longleftrightarrow> (c, s) \<in> subscribers conns l (unpack p)"
  by (auto simp: due_def subscribers_def sub_matches_def)

lemma due_mark:
  assumes "fst ev < fst ev'"
  shows "due (mark (fst ev) {m. case m of (c, s) \<Rightarrow> due conns c s ev} conns) c s ev' \<longleftrightarrow> due conns c s ev'"
proof (cases "findMonitor conns c s")
  case None
  then show ?thesis by (simp add: due_def)
next
  case (Some sub)
  show ?thesis
  proof (cases "due conns c s ev")
    case True
    then have "sub_latestEventId sub < fst ev'" using Some assms by (auto simp: due_def)
    then show ?thesis using True Some assms by (simp add: due_def sub_matches_def)
  next
    case False
    then show ?thesis using Some by (auto simp: due_def sub_matches_def)
  qed
qed

context golpe_env
begin

lemma monitor_loop:
  assumes T: "wf_store (view txn)" and pay: "payloads_ok decomp (view txn)"
    and "set evs \<subseteq> set (t_events (view txn))" and "sorted_wrt (<) (map fst evs)" and "\<forall>ev \<in> set evs. b < fst ev" and "run_ok cfg B b am"
  shows "\<exists>am' rs' msgs b'. rfold (monitor_event E decomp txn) evs (am, rs) = Inr (am', rs') \<and>
    run_ok cfg B b' am' \<and> (b' = b \<or> b' \<in> fst ` set evs) \<and> rest_of rs' = rest_of rs \<and> websocket_out rs' = websocket_out rs @ msgs \<and>
    (\<forall>K. length (am_set am' K) = length (am_set am K)) \<and>
    (\<forall>c s. sub_out c s msgs = event_texts decomp (view txn) s (filter (due (am_conns am) c s) evs))"
  using assms(3-)
proof (induction evs arbitrary: am rs b)
  case Nil
  then show ?case by (auto simp: event_texts_def)
next
  case (Cons ev evs)
  obtain l p where ev: "ev = (l, p)" by (cases ev)
  have mem: "(l, p) \<in> set (t_events (view txn))" using Cons.prems(1) ev by auto
  then have e: "wf_event (unpack p)" "p = pack (unpack p)" using events_of_packed [OF T] by blast+
  have "b < l" using Cons.prems(3) ev by simp
  then obtain am1 rl where proc: "process (l, p) am = Inr (am1, if rl = [] then None else Some (rl, l))"
    and rl: "set rl = subscribers (am_conns am) l (unpack p)" and conns: "am_conns am1 = mark l (set rl) (am_conns am)" and ok1: "run_ok cfg B l am1" and len1: "\<forall>K. length (am_set am1 K) = length (am_set am K)"
    using run_ok_process [OF Cons.prems(4) _ e(1), of l] e(2) by metis
  have json: "getEventJson E decomp txn l = Inr (the (stored_json decomp (view txn) l))"
    by (rule getEventJson_stored [OF pay]) (use mem in force)
  define m1 where "m1 = (if rl = [] then [] else [SendEventToBatch rl (the (stored_json decomp (view txn) l))])"
  obtain rs1 where step: "monitor_event E decomp txn ev (am, rs) = Inr (am1, rs1)" "rest_of rs1 = rest_of rs" "websocket_out rs1 = websocket_out rs @ m1"
    using proc json by (cases "rl = []") (simp_all add: monitor_event_def ev m1_def)
  have "set rl = {m. case m of (c, s) \<Rightarrow> due (am_conns am) c s ev}" unfolding rl by (auto simp: ev due_subscribers)
  note conns' = conns [unfolded this]
  have later: "l < fst ev'" if "ev' \<in> set evs" for ev' using Cons.prems(2) that ev by auto
  have due1: "filter (due (am_conns am1) c s) evs = filter (due (am_conns am) c s) evs" for c s
  proof (rule filter_cong [OF refl])
    fix ev' assume "ev' \<in> set evs"
    then have "fst ev < fst ev'" using later ev by simp
    from due_mark [OF this, of "am_conns am" c s] show "due (am_conns am1) c s ev' = due (am_conns am) c s ev'" using conns' ev by simp
  qed
  have pre: "set evs \<subseteq> set (t_events (view txn))" "sorted_wrt (<) (map fst evs)" using Cons.prems(1,2) by simp_all
  obtain am' rs' msgs b' where IH: "rfold (monitor_event E decomp txn) evs (am1, rs1) = Inr (am', rs')" "run_ok cfg B b' am'"
    "b' = l \<or> b' \<in> fst ` set evs" "rest_of rs' = rest_of rs1" "websocket_out rs' = websocket_out rs1 @ msgs"
    and len: "\<forall>K. length (am_set am' K) = length (am_set am1 K)"
    and out: "\<forall>c s. sub_out c s msgs = event_texts decomp (view txn) s (filter (due (am_conns am1) c s) evs)"
    using Cons.IH [OF pre(1,2) _ ok1, of rs1] later by blast
  have "sub_out c s m1 = event_texts decomp (view txn) s (filter (due (am_conns am) c s) [ev])" for c s
    using rl by (auto simp: m1_def sub_out_def ev due_subscribers event_texts_def)
  then have "sub_out c s (m1 @ msgs) = event_texts decomp (view txn) s (filter (due (am_conns am) c s) (ev # evs))" for c s
    using out due1 by (simp add: event_texts_def)
  moreover have "rfold (monitor_event E decomp txn) (ev # evs) (am, rs) = Inr (am', rs')" using step(1) IH(1) by simp
  moreover have "b' = b \<or> b' \<in> fst ` set (ev # evs)" using IH(3) ev by auto
  ultimately show ?case using IH(2,4,5) step(2,3) len len1
    by (intro exI [of _ am'] exI [of _ rs'] exI [of _ "m1 @ msgs"] exI [of _ b']) auto
qed

end

lemma am_conns_tracker [simp]: "am_conns (am\<lparr>ephemeralTracker := t\<rparr>) = am_conns am"
  by simp

context golpe_env
begin

text \<open>The round that takes over a subscription from the query.\<close>

lemma newSub_round:
  assumes T: "wf_store (view txn)" and pay: "payloads_ok decomp (view txn)" and L1: "L1 = getMostRecentLevId E txn" "L1 \<noteq> MAX_U64"
    and sub: "wf_group (sub_filterGroup sub)" "sub_latestEventId sub \<le> L1"
    and ok: "run_ok cfg B (min cur L1) (am\<lparr>ephemeralTracker := Some (rs_ephemeralTracker rs)\<rparr>)"
    and small: "\<forall>K. length (am_set (am\<lparr>ephemeralTracker := Some (rs_ephemeralTracker rs)\<rparr>) K) + B K + length (sub_filters sub) < 2 ^ 64"
    and room: "card {s. s \<noteq> sub_subId sub \<and> findMonitor (am_conns am) (sub_connId sub) s \<noteq> None} < unat (relay_maxSubsPerConnection cfg)"
    and box: "inbox (tpReqMonitor rs) thr = [Monitor_NewSub sub]"
  shows "\<exists>am1 rs1. runReqMonitor E L cfg decomp thr txn (am, cur, rs) = Inr (am1, min cur L1, rs1) \<and> run_ok cfg B (min cur L1) am1 \<and>
    ephemeralTracker am1 = Some (rs_ephemeralTracker rs1) \<and> tpReqMonitor rs1 = snd (pop_all thr (tpReqMonitor rs)) \<and>
    websocket_out rs1 = websocket_out rs @ map (Send (sub_connId sub)) (event_texts decomp (view txn) (sub_subId sub)
      (filter (\<lambda>ev. sub_latestEventId sub < fst ev \<and> sub_matches sub ev) (t_events (view txn)))) \<and>
    (\<forall>c s. findMonitor (am_conns am1) c s =
      (if (c, s) = (sub_connId sub, sub_subId sub) then Some (sub\<lparr>sub_latestEventId := L1\<rparr>) else findMonitor (am_conns am) c s))"
proof -
  let ?c = "sub_connId sub" and ?s = "sub_subId sub" and ?sub = "sub\<lparr>sub_latestEventId := L1\<rparr>"
  let ?am = "am\<lparr>ephemeralTracker := Some (rs_ephemeralTracker rs)\<rparr>"
  let ?rs0 = "rs\<lparr>tpReqMonitor := snd (pop_all thr (tpReqMonitor rs))\<rparr>"
  let ?evs = "foreach_Event E txn False (Some (sub_latestEventId sub + 1))"
  have cur: "(if cur > L1 then L1 else cur) = min cur L1" by (auto simp: min_def)
  have "sub_latestEventId sub \<noteq> MAX_U64" using sub(2) L1(2) by (metis max_word_max order_antisym)
  then have evs: "?evs = filter (\<lambda>ev. sub_latestEventId sub < fst ev) (t_events (view txn))" using newer_events [OF T] sub(2) L1(1) by blast
  then have "set ?evs \<subseteq> set (t_events (view txn))" by auto
  from catch_up_loop [OF T pay sub(1) this, of ?rs0] obtain rs' where
    up: "rfold (catch_up E decomp txn sub) ?evs ?rs0 = Inr rs'" "rest_of rs' = rest_of ?rs0"
    "websocket_out rs' = websocket_out rs @ map (Send ?c) (event_texts decomp (view txn) ?s (filter (sub_matches sub) ?evs))"
    by (auto simp: websocket_out_def)
  have tr: "rs_ephemeralTracker rs' = rs_ephemeralTracker rs" "tpReqMonitor rs' = snd (pop_all thr (tpReqMonitor rs))"
    using up(2) by (simp_all add: rest_of_def)
  have wf: "wf_group (sub_filterGroup ?sub)" and cur': "sub_latestEventId ?sub = L1" using sub(1) by simp_all
  have small': "\<forall>K. length (am_set ?am K) + B K + length (sub_filters ?sub) < 2 ^ 64" using small by simp
  have amok: "am_ok B ?am" using ok by (simp add: run_ok_def)
  from addSub_ok [OF amok wf cur' small', of cfg] room obtain am1 where
    add: "addSub cfg ?sub L1 ?am = Inr (True, am1)"
    and find: "\<forall>c s. findMonitor (am_conns am1) c s = (if c = ?c \<and> s = ?s then Some ?sub else findMonitor (am_conns am) c s)"
    by auto
  have ok1: "run_ok cfg B (min cur L1) am1" by (rule addSub_run [OF ok wf small' add])
  let ?rs1 = "rs'\<lparr>rs_ephemeralTracker := case ephemeralTracker am1 of None \<Rightarrow> rs_ephemeralTracker rs' | Some t \<Rightarrow> t\<rparr>"
  have "runReqMonitor E L cfg decomp thr txn (am, cur, rs) = Inr (am1, min cur L1, ?rs1)"
    using box up(1) add tr(1) cur
    by (simp add: runReqMonitor_def monitor_msg_def monitor_newSub_def with_tracker_def pop_all_def Let_def L1(1) [symmetric])
  moreover have "ephemeralTracker am1 \<noteq> None"
    using addSub_tracker [OF _ wf add] amok by (simp add: am_ok_def)
  then have "ephemeralTracker am1 = Some (rs_ephemeralTracker ?rs1)" by auto
  moreover have "websocket_out ?rs1 = websocket_out rs'" "tpReqMonitor ?rs1 = tpReqMonitor rs'" by (simp_all add: websocket_out_def)
  moreover have "filter (sub_matches sub) ?evs = filter (\<lambda>ev. sub_latestEventId sub < fst ev \<and> sub_matches sub ev) (t_events (view txn))"
    unfolding evs by simp
  ultimately show ?thesis using up(3) tr(2) ok1 find by (intro exI [of _ am1] exI [of _ ?rs1]) auto
qed

text \<open>The round that follows a change of the database.\<close>

lemma dbChange_round:
  assumes T: "wf_store (view txn)" and pay: "payloads_ok decomp (view txn)" and L2: "L2 = getMostRecentLevId E txn" "L2 \<noteq> MAX_U64"
    and cur: "cur \<le> L2" and ok: "run_ok cfg B cur am" and box: "inbox (tpReqMonitor rs) thr = []" "thr < unat (numThreads (tpReqMonitor rs))"
  shows "\<exists>am2 rs2 msgs. runReqMonitor E L cfg decomp thr txn (am, cur, dbChangeWatcher rs) = Inr (am2, L2, rs2) \<and> run_ok cfg B L2 am2 \<and>
    (\<forall>K. length (am_set am2 K) = length (am_set am K)) \<and> rs_ephemeralTracker rs2 = rs_ephemeralTracker rs \<and>
    websocket_out rs2 = websocket_out rs @ msgs \<and>
    (\<forall>c s. sub_out c s msgs = event_texts decomp (view txn) s (filter (\<lambda>ev. cur < fst ev \<and> due (am_conns am) c s ev) (t_events (view txn))))"
proof -
  let ?rs0 = "(dbChangeWatcher rs)\<lparr>tpReqMonitor := snd (pop_all thr (tpReqMonitor (dbChangeWatcher rs)))\<rparr>"
  let ?evs = "foreach_Event E txn False (Some (cur + 1))"
  have "cur \<noteq> MAX_U64" using cur L2(2) by (metis max_word_max order_antisym)
  then have evs: "?evs = filter (\<lambda>ev. cur < fst ev) (t_events (view txn))" using newer_events [OF T] cur L2(1) by blast
  have ok': "tables_ok (view txn)" using T by simp
  have sorted: "sorted_wrt (<) (map fst ?evs)" using ok' unfolding evs tables_ok_def by (simp add: sorted_wrt_map sorted_wrt_filter)
  have sub: "set ?evs \<subseteq> set (t_events (view txn))" "\<forall>ev \<in> set ?evs. cur < fst ev" unfolding evs by auto
  obtain am' rs' msgs b' where run: "rfold (monitor_event E decomp txn) ?evs (am, ?rs0) = Inr (am', rs')"
    "run_ok cfg B b' am'" "b' = cur \<or> b' \<in> fst ` set ?evs" "websocket_out rs' = websocket_out ?rs0 @ msgs"
    "\<forall>K. length (am_set am' K) = length (am_set am K)" "rest_of rs' = rest_of ?rs0"
    "\<forall>c s. sub_out c s msgs = event_texts decomp (view txn) s (filter (due (am_conns am) c s) ?evs)"
    using monitor_loop [OF T pay sub(1) sorted sub(2) ok, of ?rs0] by blast
  have "b' \<le> L2" using run(3) cur sub(1) getMostRecentLevId_max [OF ok'] L2(1) by fastforce
  then have ok2: "run_ok cfg B L2 am'" by (rule run_ok_mono [OF run(2)])
  have msgs: "inbox (tpReqMonitor (dbChangeWatcher rs)) thr = [DBChange]" using box by (simp add: dbChangeWatcher_def dispatchToAll_def)
  have "\<not> cur > L2" using cur by simp
  then have "runReqMonitor E L cfg decomp thr txn (am, cur, dbChangeWatcher rs) = Inr (am', L2, rs')"
    using msgs run(1) L2(1) by (simp add: runReqMonitor_def monitor_msg_def monitor_dbChange_def pop_all_def Let_def)
  moreover have "websocket_out ?rs0 = websocket_out rs" by (simp add: websocket_out_def dbChangeWatcher_def)
  moreover have "filter (due (am_conns am) c s) ?evs = filter (\<lambda>ev. cur < fst ev \<and> due (am_conns am) c s ev) (t_events (view txn))" for c s
    unfolding evs by simp
  moreover have "rs_ephemeralTracker rs' = rs_ephemeralTracker rs" using run(6) by (simp add: rest_of_def dbChangeWatcher_def)
  ultimately show ?thesis using run(4,5,7) ok2 by auto
qed

end

section \<open>Properties\<close>

text \<open>C4: A subscription whose query saw the events up to \<open>latestEventId\<close> misses none and gets none twice when it is
  handed to the monitor: the round that takes it over sends the matching events stored by then that are newer than
  that, in the order of their ids, and the next change of the database sends it exactly the matching events that
  are newer than those, although the thread itself may still be behind; each other subscription gets the matching
  events that the thread had not processed and the subscription had not got.  The tracker of ephemeral kinds
  is shared with the other monitor threads: it counts the filters of this thread and \<open>B K\<close> filters of the others under
  each key (\<open>others\<close> in every state that the threads reach, by \<open>threads_ok\<close>), with no count at the largest number, and
  between the two rounds the other threads may change it to any state \<open>t\<close> that counts \<open>B'\<close> of theirs.  The ids of
  the newest events must not have gone down and must not be the largest number.\<close>

theorem monitor_no_gap:
  assumes "golpe_env E view" and "wf_store (view txn1)" and "wf_store (view txn2)" and "payloads_ok decomp (view txn1)" and "payloads_ok decomp (view txn2)"
    and "L1 = getMostRecentLevId E txn1" and "L2 = getMostRecentLevId E txn2" and "L1 \<le> L2" and "L2 \<noteq> MAX_U64"
    and "wf_group (sub_filterGroup sub)" and "sub_latestEventId sub \<le> L1"
    and "run_ok cfg B (min cur L1) (am\<lparr>ephemeralTracker := Some (rs_ephemeralTracker rs)\<rparr>)"
    and "\<forall>K. length (am_set (am\<lparr>ephemeralTracker := Some (rs_ephemeralTracker rs)\<rparr>) K) + B K + length (sub_filters sub) < 2 ^ 64"
    and "card {s. s \<noteq> sub_subId sub \<and> findMonitor (am_conns am) (sub_connId sub) s \<noteq> None} < unat (relay_maxSubsPerConnection cfg)"
    and "inbox (tpReqMonitor rs) thr = [Monitor_NewSub sub]" and "thr < unat (numThreads (tpReqMonitor rs))"
  shows "\<exists>am1 rs1 msgs1. runReqMonitor E L cfg decomp thr txn1 (am, cur, rs) = Inr (am1, min cur L1, rs1) \<and>
    run_ok cfg B (min cur L1) (am1\<lparr>ephemeralTracker := Some (rs_ephemeralTracker rs1)\<rparr>) \<and> websocket_out rs1 = websocket_out rs @ msgs1 \<and>
    sub_out (sub_connId sub) (sub_subId sub) msgs1 = event_texts decomp (view txn1) (sub_subId sub)
      (filter (\<lambda>ev. sub_latestEventId sub < fst ev \<and> sub_matches sub ev) (t_events (view txn1))) \<and>
    (\<forall>t B'. tracker_ok B' (am1\<lparr>ephemeralTracker := Some t\<rparr>) \<longrightarrow>
      (\<exists>am2 rs2 msgs2. runReqMonitor E L cfg decomp thr txn2 (am1, min cur L1, dbChangeWatcher (rs1\<lparr>rs_ephemeralTracker := t\<rparr>)) = Inr (am2, L2, rs2) \<and>
        run_ok cfg B' L2 (am2\<lparr>ephemeralTracker := Some (rs_ephemeralTracker rs2)\<rparr>) \<and> websocket_out rs2 = websocket_out rs1 @ msgs2 \<and>
        sub_out (sub_connId sub) (sub_subId sub) msgs2 = event_texts decomp (view txn2) (sub_subId sub)
          (filter (\<lambda>ev. L1 < fst ev \<and> sub_matches sub ev) (t_events (view txn2))) \<and>
        (\<forall>c s. (c, s) \<noteq> (sub_connId sub, sub_subId sub) \<longrightarrow> sub_out c s msgs2 = event_texts decomp (view txn2) s
          (filter (\<lambda>ev. min cur L1 < fst ev \<and> due (am_conns am) c s ev) (t_events (view txn2))))))"
proof -
  have L1: "L1 \<noteq> MAX_U64" using assms(8,9) by (metis max_word_max order_antisym)
  obtain am1 rs1 where r1: "runReqMonitor E L cfg decomp thr txn1 (am, cur, rs) = Inr (am1, min cur L1, rs1)" "run_ok cfg B (min cur L1) am1"
    "ephemeralTracker am1 = Some (rs_ephemeralTracker rs1)" "tpReqMonitor rs1 = snd (pop_all thr (tpReqMonitor rs))"
    "websocket_out rs1 = websocket_out rs @ map (Send (sub_connId sub)) (event_texts decomp (view txn1) (sub_subId sub)
      (filter (\<lambda>ev. sub_latestEventId sub < fst ev \<and> sub_matches sub ev) (t_events (view txn1))))"
    and find: "\<forall>c s. findMonitor (am_conns am1) c s =
      (if (c, s) = (sub_connId sub, sub_subId sub) then Some (sub\<lparr>sub_latestEventId := L1\<rparr>) else findMonitor (am_conns am) c s)"
    using golpe_env.newSub_round [OF assms(1,2,4,6) L1 assms(10-15)] by blast
  have le: "min cur L1 \<le> L2" using assms(8) by (meson min.cobounded2 order_trans)
  have due: "due (am_conns am1) c s ev \<longleftrightarrow> due (am_conns am) c s ev" if "(c, s) \<noteq> (sub_connId sub, sub_subId sub)" for c s ev
    using find that by (auto simp: due_def)
  have own: "min cur L1 < fst ev \<and> due (am_conns am1) (sub_connId sub) (sub_subId sub) ev \<longleftrightarrow> L1 < fst ev \<and> sub_matches sub ev" for ev
    using find by (auto simp: due_def sub_matches_def min_def)
  have second: "\<exists>am2 rs2 msgs2. runReqMonitor E L cfg decomp thr txn2 (am1, min cur L1, dbChangeWatcher (rs1\<lparr>rs_ephemeralTracker := t\<rparr>)) = Inr (am2, L2, rs2) \<and>
      run_ok cfg B' L2 (am2\<lparr>ephemeralTracker := Some (rs_ephemeralTracker rs2)\<rparr>) \<and> websocket_out rs2 = websocket_out rs1 @ msgs2 \<and>
      sub_out (sub_connId sub) (sub_subId sub) msgs2 = event_texts decomp (view txn2) (sub_subId sub)
        (filter (\<lambda>ev. L1 < fst ev \<and> sub_matches sub ev) (t_events (view txn2))) \<and>
      (\<forall>c s. (c, s) \<noteq> (sub_connId sub, sub_subId sub) \<longrightarrow> sub_out c s msgs2 = event_texts decomp (view txn2) s
        (filter (\<lambda>ev. min cur L1 < fst ev \<and> due (am_conns am) c s ev) (t_events (view txn2))))"
    if t: "tracker_ok B' (am1\<lparr>ephemeralTracker := Some t\<rparr>)" for t B'
  proof -
    let ?rs = "rs1\<lparr>rs_ephemeralTracker := t\<rparr>"
    have box: "inbox (tpReqMonitor ?rs) thr = []" "thr < unat (numThreads (tpReqMonitor ?rs))" using assms(16) by (simp_all add: r1(4) pop_all_def)
    from golpe_env.dbChange_round [OF assms(1,3,5,7,9) le r1(2) box, of L] obtain am2 rs2 msgs2 where
      r2: "runReqMonitor E L cfg decomp thr txn2 (am1, min cur L1, dbChangeWatcher ?rs) = Inr (am2, L2, rs2)" "run_ok cfg B L2 am2"
        "rs_ephemeralTracker rs2 = t" "\<forall>K. length (am_set am2 K) = length (am_set am1 K)" "websocket_out rs2 = websocket_out rs1 @ msgs2"
      and out: "\<forall>c s. sub_out c s msgs2 = event_texts decomp (view txn2) s (filter (\<lambda>ev. min cur L1 < fst ev \<and> due (am_conns am1) c s ev) (t_events (view txn2)))"
      by (auto simp: websocket_out_def)
    have "tracker_ok B' (am2\<lparr>ephemeralTracker := Some t\<rparr>)" using t r2(4) by (simp add: tracker_ok_def)
    then have "run_ok cfg B' L2 (am2\<lparr>ephemeralTracker := Some t\<rparr>)" by (rule run_ok_others [OF r2(2)])
    moreover have "sub_out (sub_connId sub) (sub_subId sub) msgs2 = event_texts decomp (view txn2) (sub_subId sub)
        (filter (\<lambda>ev. L1 < fst ev \<and> sub_matches sub ev) (t_events (view txn2)))"
      using out own by simp
    moreover have "\<forall>c s. (c, s) \<noteq> (sub_connId sub, sub_subId sub) \<longrightarrow> sub_out c s msgs2 = event_texts decomp (view txn2) s
        (filter (\<lambda>ev. min cur L1 < fst ev \<and> due (am_conns am) c s ev) (t_events (view txn2)))"
      using out due by simp
    ultimately show ?thesis using r2(1,3,5) by blast
  qed
  have own_tracker: "run_ok cfg B (min cur L1) (am1\<lparr>ephemeralTracker := Some (rs_ephemeralTracker rs1)\<rparr>)" unfolding r1(3) [symmetric] using r1(2) by simp
  have send: "sub_out c s (map (Send c) xs) = xs" for c s xs by (induction xs) (simp_all add: sub_out_def)
  show ?thesis
    by (intro exI [of _ am1] exI [of _ rs1] exI conjI) (rule r1(1), rule own_tracker, rule r1(5), rule send, intro allI impI, erule second)
qed

section \<open>Witness\<close>

definition mon_store :: "u64 list \<Rightarrow> tables" where
  "mon_store ls = \<lparr>t_events = map (\<lambda>l. (l, pack sample_event)) ls,
     t_payload = (\<lambda>l. if l \<in> set ls then Some (CHR 0x00 # ''{}'') else None), t_meta = None, t_negFilters = [], t_trees = (\<lambda>_. {})\<rparr>"

text \<open>A relay with three monitor threads, where another thread has a filter that matches every kind.\<close>

definition mon_others :: "lookup \<Rightarrow> nat" where
  "mon_others K = (if K = LOther then 1 else 0)"

definition mon_relay :: RelayServer where
  "mon_relay = \<lparr>rs_ephemeralTracker = \<lparr>kindRefcounts = Map.empty, catchAllCount = 1\<rparr>, tpWebsocket = \<lparr>numThreads = 1, inbox = (\<lambda>_. [])\<rparr>,
     tpIngester = \<lparr>numThreads = 1, inbox = (\<lambda>_. [])\<rparr>, tpWriter = \<lparr>numThreads = 1, inbox = (\<lambda>_. [])\<rparr>,
     tpReqWorker = \<lparr>numThreads = 1, inbox = (\<lambda>_. [])\<rparr>, tpReqMonitor = \<lparr>numThreads = 3, inbox = (\<lambda>_. [Monitor_NewSub sample_sub])\<rparr>,
     tpNegentropy = \<lparr>numThreads = 1, inbox = (\<lambda>_. [])\<rparr>\<rparr>"

lemma mon_store_ok:
  assumes "sorted_wrt (<) ls" and "0 \<notin> set ls"
  shows "wf_store (mon_store ls)" "payloads_ok (\<lambda>_. Inr) (mon_store ls)" "stored_json (\<lambda>_. Inr) (mon_store ls) l = (if l \<in> set ls then Some ''{}'' else None)"
proof -
  have "map fst (map (\<lambda>l. (l, pack sample_event)) ls) = ls" by (simp add: comp_def)
  then show "wf_store (mon_store ls)" using assms
    by (auto simp: wf_store_def tables_ok_def mon_store_def wf_packed_pack image_iff sorted_wrt_map)
  show "stored_json (\<lambda>_. Inr) (mon_store ls) l = (if l \<in> set ls then Some ''{}'' else None)" for l
    by (simp add: stored_json_def mon_store_def decodeEventPayload_def)
  then show "payloads_ok (\<lambda>_. Inr) (mon_store ls)" by (auto simp: payloads_ok_def mon_store_def image_image)
qed

lemma sample_sub_matches: "sub_matches sample_sub (l, pack sample_event)"
  by (simp add: sub_matches_def sub_filters_def sample_sub_def matches_def empty_filter_def unpack_pack) (simp add: sample_event_def)

theorem monitor_no_gap_witness:
  "\<exists>am1 rs1 am2 rs2 msgs1 msgs2.
    runReqMonitor mem_env sample_libs default_cfg (\<lambda>_. Inr) 0 (mon_store [3]) (new_ActiveMonitors (Some (rs_ephemeralTracker mon_relay)), 0, mon_relay) = Inr (am1, 0, rs1) \<and>
    runReqMonitor mem_env sample_libs default_cfg (\<lambda>_. Inr) 0 (mon_store [3, 5]) (am1, 0, dbChangeWatcher rs1) = Inr (am2, 5, rs2) \<and>
    websocket_out rs1 = msgs1 \<and> websocket_out rs2 = msgs1 @ msgs2 \<and>
    sub_out 1 (sub_subId sample_sub) msgs1 = [event_reply (sub_subId sample_sub) ''{}''] \<and>
    sub_out 1 (sub_subId sample_sub) msgs2 = [event_reply (sub_subId sample_sub) ''{}'']"
proof -
  let ?am = "new_ActiveMonitors (Some (rs_ephemeralTracker mon_relay))"
  have s: "sorted_wrt (<) [3 :: u64]" "0 \<notin> set [3 :: u64]" "sorted_wrt (<) [3, 5 :: u64]" "0 \<notin> set [3, 5 :: u64]" by simp_all
  note ok1 = mon_store_ok [OF s(1,2)] and ok2 = mon_store_ok [OF s(3,4)]
  note golpe = mem.golpe_env_axioms
  have ev: "t_events (mon_store [3]) = [(3, pack sample_event)]" "t_events (mon_store [3, 5]) = [(3, pack sample_event), (5, pack sample_event)]"
    by (simp_all add: mon_store_def)
  have L: "3 = getMostRecentLevId mem_env (mon_store [3])" "5 = getMostRecentLevId mem_env (mon_store [3, 5])"
    using golpe_env.getMostRecentLevId_ok [OF golpe] ok1(1) ok2(1) ev by simp_all
  have sub: "sub_connId sample_sub = 1" "sub_latestEventId sample_sub = 0" "length (sub_filters sample_sub) = 1"
    by (simp_all add: sample_sub_def sub_filters_def)
  have am: "?am\<lparr>ephemeralTracker := Some (rs_ephemeralTracker mon_relay)\<rparr> = ?am" by (simp add: new_ActiveMonitors_def)
  have "tracker_ok mon_others ?am" by (simp add: tracker_ok_def mon_relay_def mon_others_def counts_ok_def kind_cnt_def)
  then have run: "run_ok default_cfg mon_others (min 0 3) (?am\<lparr>ephemeralTracker := Some (rs_ephemeralTracker mon_relay)\<rparr>)"
    unfolding am using new_ok by simp
  have small: "\<forall>K. length (am_set (?am\<lparr>ephemeralTracker := Some (rs_ephemeralTracker mon_relay)\<rparr>) K) + mon_others K + length (sub_filters sample_sub) < 2 ^ 64"
    unfolding am by (simp add: sub mon_others_def)
  have room: "card {s. s \<noteq> sub_subId sample_sub \<and> findMonitor (am_conns ?am) (sub_connId sample_sub) s \<noteq> None} < unat (relay_maxSubsPerConnection default_cfg)"
    by (simp add: findMonitor_def new_ActiveMonitors_def default_cfg_def)
  have box: "inbox (tpReqMonitor mon_relay) 0 = [Monitor_NewSub sample_sub]" "0 < unat (numThreads (tpReqMonitor mon_relay))" by (simp_all add: mon_relay_def)
  have le: "(3 :: u64) \<le> 5" "(5 :: u64) \<noteq> MAX_U64" "sub_latestEventId sample_sub \<le> 3" by (simp_all add: sub)
  note res = monitor_no_gap [OF golpe ok1(1) ok2(1) ok1(2) ok2(2) L le(1,2) sample_filter_wf le(3) run small room box, of sample_libs]
  then obtain am1 rs1 msgs1 where
    r1: "runReqMonitor mem_env sample_libs default_cfg (\<lambda>_. Inr) 0 (mon_store [3]) (?am, 0, mon_relay) = Inr (am1, min 0 3, rs1)"
      "run_ok default_cfg mon_others (min 0 3) (am1\<lparr>ephemeralTracker := Some (rs_ephemeralTracker rs1)\<rparr>)" "websocket_out rs1 = websocket_out mon_relay @ msgs1"
      "sub_out (sub_connId sample_sub) (sub_subId sample_sub) msgs1 = event_texts (\<lambda>_. Inr) (mon_store [3]) (sub_subId sample_sub)
        (filter (\<lambda>ev. sub_latestEventId sample_sub < fst ev \<and> sub_matches sample_sub ev) (t_events (mon_store [3])))"
    and next_round: "\<forall>t B'. tracker_ok B' (am1\<lparr>ephemeralTracker := Some t\<rparr>) \<longrightarrow> (\<exists>am2 rs2 msgs2.
      runReqMonitor mem_env sample_libs default_cfg (\<lambda>_. Inr) 0 (mon_store [3, 5]) (am1, min 0 3, dbChangeWatcher (rs1\<lparr>rs_ephemeralTracker := t\<rparr>)) = Inr (am2, 5, rs2) \<and>
      run_ok default_cfg B' 5 (am2\<lparr>ephemeralTracker := Some (rs_ephemeralTracker rs2)\<rparr>) \<and> websocket_out rs2 = websocket_out rs1 @ msgs2 \<and>
      sub_out (sub_connId sample_sub) (sub_subId sample_sub) msgs2 = event_texts (\<lambda>_. Inr) (mon_store [3, 5]) (sub_subId sample_sub)
        (filter (\<lambda>ev. 3 < fst ev \<and> sub_matches sample_sub ev) (t_events (mon_store [3, 5]))) \<and>
      (\<forall>c s. (c, s) \<noteq> (sub_connId sample_sub, sub_subId sample_sub) \<longrightarrow> sub_out c s msgs2 = event_texts (\<lambda>_. Inr) (mon_store [3, 5]) s
        (filter (\<lambda>ev. min 0 3 < fst ev \<and> due (am_conns ?am) c s ev) (t_events (mon_store [3, 5])))))"
    by (elim exE conjE) rule
  have same: "rs1\<lparr>rs_ephemeralTracker := rs_ephemeralTracker rs1\<rparr> = rs1" by simp
  obtain am2 rs2 msgs2 where
    r2: "runReqMonitor mem_env sample_libs default_cfg (\<lambda>_. Inr) 0 (mon_store [3, 5]) (am1, min 0 3, dbChangeWatcher rs1) = Inr (am2, 5, rs2)"
      "websocket_out rs2 = websocket_out rs1 @ msgs2"
      "sub_out (sub_connId sample_sub) (sub_subId sample_sub) msgs2 = event_texts (\<lambda>_. Inr) (mon_store [3, 5]) (sub_subId sample_sub)
        (filter (\<lambda>ev. 3 < fst ev \<and> sub_matches sample_sub ev) (t_events (mon_store [3, 5])))"
    using next_round [rule_format, OF run_ok_tracker [OF r1(2)]] unfolding same by blast
  have out: "websocket_out mon_relay = []" by (simp add: mon_relay_def websocket_out_def)
  show ?thesis using r1(1,3,4) r2
    by (intro exI [of _ am1] exI [of _ rs1] exI [of _ am2] exI [of _ rs2] exI [of _ msgs1] exI [of _ msgs2])
      (simp add: out ev sub sample_sub_matches event_texts_def ok1(3) ok2(3))
qed

end
