(* ===== verification/RelayNegentropy.thy ===== *)
theory RelayNegentropy
  imports QuerySchedulerProof RelayServer
begin

text \<open>
  \<open>src/apps/relay/RelayNegentropy.cpp\<close>: the thread that reconciles sets of events with a client.  A view is a set
  that a query collects in memory, or one of the trees that the writer maintains.  The negentropy library is a
  parameter: its vector storage, its view of a range of a tree, and the reconciliation, which may throw.  The views
  live in a hash map; writing through a pointer to a view that was erased is the error \<open>UseAfterFree\<close>.  The time a view
  was made, which is only logged, is left out.
\<close>

section \<open>Views\<close>

record ('t, 'v, 'b) negentropy =
  vector_new :: 'v
  vector_insert :: "'v \<Rightarrow> u64 \<Rightarrow> bytes \<Rightarrow> 'v result"
  vector_seal :: "'v \<Rightarrow> 'v result"
  vector_sealed :: "'v \<Rightarrow> bool"
  vector_reconcile :: "'v \<Rightarrow> bytes \<Rightarrow> bytes result"
  tree_range :: "'t \<Rightarrow> u64 \<Rightarrow> u64 \<Rightarrow> u64 \<Rightarrow> 'b result"
  tree_reconcile :: "'b \<Rightarrow> bytes \<Rightarrow> bytes result"

record 'v MemoryView =
  initialMsg :: bytes
  storageVector :: 'v
  mv_levIds :: "u64 list"

datatype 'v UserView = MemoryView "'v MemoryView" | StatelessView Subscription u64

type_synonym 'v NegentropyViews = "u64 \<Rightarrow> (SubId \<times> 'v UserView) list option"

definition findView :: "'v NegentropyViews \<Rightarrow> u64 \<Rightarrow> SubId \<Rightarrow> 'v UserView option" where
  "findView views connId subId = (case views connId of None \<Rightarrow> None | Some m \<Rightarrow> map_of m subId)"

definition removeView :: "u64 \<Rightarrow> SubId \<Rightarrow> 'v NegentropyViews \<Rightarrow> 'v NegentropyViews" where
  "removeView connId subId views =
     (case findView views connId subId of
        None \<Rightarrow> views
      | Some view \<Rightarrow>
          let m = filter (\<lambda>x. fst x \<noteq> subId) (case views connId of None \<Rightarrow> [] | Some m \<Rightarrow> m) in
          views(connId := if m = [] then None else Some m))"

definition add_view :: "cfg \<Rightarrow> u64 \<Rightarrow> SubId \<Rightarrow> 'v UserView \<Rightarrow> 'v NegentropyViews \<Rightarrow> bool \<times> 'v NegentropyViews" where
  "add_view cfg connId subId view views =
     (let views = (if findView views connId subId \<noteq> None then removeView connId subId views else views);
          connViews = (case views connId of None \<Rightarrow> [] | Some m \<Rightarrow> m) in
      if length connViews \<ge> unat (relay_maxSubsPerConnection cfg) then (False, views(connId \<mapsto> connViews))
      else (True, views(connId \<mapsto> connViews @ [(subId, view)])))"

definition addMemoryView ::
  "('t, 'v, 'b) negentropy \<Rightarrow> cfg \<Rightarrow> u64 \<Rightarrow> SubId \<Rightarrow> bytes \<Rightarrow> 'v NegentropyViews \<Rightarrow> bool \<times> 'v NegentropyViews" where
  "addMemoryView N cfg connId subId msg views =
     add_view cfg connId subId (MemoryView \<lparr>initialMsg = msg, storageVector = vector_new N, mv_levIds = []\<rparr>) views"

definition addStatelessView ::
  "cfg \<Rightarrow> u64 \<Rightarrow> SubId \<Rightarrow> Subscription \<Rightarrow> u64 \<Rightarrow> 'v NegentropyViews \<Rightarrow> bool \<times> 'v NegentropyViews" where
  "addStatelessView cfg connId subId sub treeId views = add_view cfg connId subId (StatelessView sub treeId) views"

definition views_closeConn :: "u64 \<Rightarrow> 'v NegentropyViews \<Rightarrow> 'v NegentropyViews" where
  "views_closeConn connId views = views(connId := None)"

text \<open>Writing through the pointer that \<open>findView\<close> has returned.\<close>

definition set_view :: "u64 \<Rightarrow> SubId \<Rightarrow> 'v UserView \<Rightarrow> 'v NegentropyViews \<Rightarrow> 'v NegentropyViews result" where
  "set_view connId subId view views =
     (if findView views connId subId = None then Inl UseAfterFree
      else Inr (views(connId := map_option (map (\<lambda>x. if fst x = subId then (subId, view) else x)) (views connId))))"

section \<open>Replies and callbacks\<close>

type_synonym 'v neg_state = "'v NegentropyViews \<times> RelayServer"

definition neg_reply :: "libs \<Rightarrow> string \<Rightarrow> SubId \<Rightarrow> json list \<Rightarrow> string" where
  "neg_reply L cmd subId args = json_to_string L (JArray ([JString cmd, JString (subid_sv subId)] @ args))"

text \<open>The argument is what the library makes of the storage and the message.\<close>

definition handleReconcile :: "libs \<Rightarrow> u64 \<Rightarrow> SubId \<Rightarrow> bytes result \<Rightarrow> 'v neg_state \<Rightarrow> 'v neg_state" where
  "handleReconcile L connId subId r = (\<lambda>(views, rs).
     case r of
       Inl e \<Rightarrow> (removeView connId subId views, sendToConn connId (neg_reply L ''NEG-ERR'' subId [JString ''PROTOCOL-ERROR'']) rs)
     | Inr resp \<Rightarrow> (views, sendToConn connId (neg_reply L ''NEG-MSG'' subId [JString (to_hex L resp)]) rs))"

definition neg_onEventBatch :: "'t \<Rightarrow> Subscription \<Rightarrow> u64 list \<Rightarrow> 'v neg_state \<Rightarrow> 'v neg_state result" where
  "neg_onEventBatch txn sub levIds = (\<lambda>(views, rs).
     case findView views (sub_connId sub) (sub_subId sub) of
       None \<Rightarrow> Inr (views, rs)
     | Some (StatelessView _ _) \<Rightarrow> Inl (Herr ''bad variant, expected memory view'')
     | Some (MemoryView view) \<Rightarrow>
         rbind (set_view (sub_connId sub) (sub_subId sub) (MemoryView (view\<lparr>mv_levIds := mv_levIds view @ levIds\<rparr>)) views) (\<lambda>views.
           Inr (views, rs)))"

text \<open>An event that was deleted meanwhile, or that the vector refuses, is skipped.\<close>

definition insert_event :: "'t env \<Rightarrow> ('t, 'v, 'b) negentropy \<Rightarrow> 't \<Rightarrow> u64 \<Rightarrow> 'v \<Rightarrow> 'v" where
  "insert_event E N txn levId vec =
     (case rbind (lookupEventByLevId E txn levId) (\<lambda>(_, buf). rbind (PackedEventView buf) (\<lambda>packed.
         vector_insert N vec (pv_created_at packed) (pv_id packed))) of
        Inr vec \<Rightarrow> vec
      | Inl e \<Rightarrow> vec)"

definition neg_onComplete ::
  "'t env \<Rightarrow> libs \<Rightarrow> cfg \<Rightarrow> ('t, 'v, 'b) negentropy \<Rightarrow> 't \<Rightarrow> Subscription \<Rightarrow> u64 \<Rightarrow> 'v neg_state \<Rightarrow> 'v neg_state result" where
  "neg_onComplete E L cfg N txn sub tot = (\<lambda>(views, rs).
     let c = sub_connId sub; s = sub_subId sub in
     case findView views c s of
       None \<Rightarrow> Inr (views, rs)
     | Some (StatelessView _ _) \<Rightarrow> Inl (Herr ''bad variant, expected memory view'')
     | Some (MemoryView view) \<Rightarrow>
         if exceeds (length (mv_levIds view)) (relay_negentropy_maxSyncEvents cfg) then
           Inr (removeView c s views, sendToConn c (neg_reply L ''NEG-ERR'' s
             [JString ''blocked: too many query results'', JUnsigned (relay_negentropy_maxSyncEvents cfg)]) rs)
         else
           let vec = fold (insert_event E N txn) (sort (mv_levIds view)) (storageVector view) in
           rbind (vector_seal N vec) (\<lambda>vec.
           let view = view\<lparr>storageVector := vec, mv_levIds := []\<rparr> in
           rbind (set_view c s (MemoryView view) views) (\<lambda>views.
           let (views, rs) = handleReconcile L c s (vector_reconcile N vec (initialMsg view)) (views, rs) in
           rbind (set_view c s (MemoryView (view\<lparr>initialMsg := []\<rparr>)) views) (\<lambda>views. Inr (views, rs)))))"

definition neg_callbacks :: "'t env \<Rightarrow> libs \<Rightarrow> cfg \<Rightarrow> ('t, 'v, 'b) negentropy \<Rightarrow> ('t, 'v neg_state) callbacks" where
  "neg_callbacks E L cfg N = \<lparr>onEvent = None, onEventBatch = Some neg_onEventBatch, onComplete = Some (neg_onComplete E L cfg N)\<rparr>"

section \<open>The loop\<close>

type_synonym 'v neg_worker = "QueryScheduler \<times> nat \<times> 'v neg_state"

text \<open>The range of a tree that the first filter of a subscription asks for.\<close>

definition filter_range :: "('t, 'v, 'b) negentropy \<Rightarrow> 't \<Rightarrow> u64 \<Rightarrow> Subscription \<Rightarrow> 'b result" where
  "filter_range N txn treeId sub =
     (case fg_filters (sub_filterGroup sub) of
        [] \<Rightarrow> Inl OutOfRange
      | f # _ \<Rightarrow> tree_range N txn treeId (nf_since f) (if nf_until f = MAX_U64 then MAX_U64 else nf_until f + 1))"

definition neg_open ::
  "'t env \<Rightarrow> libs \<Rightarrow> cfg \<Rightarrow> ('t, 'v, 'b) negentropy \<Rightarrow> (nat \<Rightarrow> u64) \<Rightarrow> 't \<Rightarrow> Subscription \<Rightarrow> string \<Rightarrow> bytes \<Rightarrow> 'v neg_worker \<Rightarrow> 'v neg_worker result option" where
  "neg_open E L cfg N clock txn sub filterStr negPayload = (\<lambda>(queries, t, views, rs).
     let connId = sub_connId sub; subId = sub_subId sub in
     case find (\<lambda>(_, f). f = filterStr) (foreach_NegentropyFilter E txn) of
       Some (treeId, _) \<Rightarrow>
         Some (rbind (filter_range N txn treeId sub) (\<lambda>subStorage.
           let (views, rs) = handleReconcile L connId subId (tree_reconcile N subStorage negPayload) (views, rs);
               (ok, views) = addStatelessView cfg connId subId sub treeId views in
           if ok then Inr (queries, t, views, rs)
           else rbind (qs_removeSub connId subId queries) (\<lambda>queries.
             Inr (queries, t, views, sendNoticeError L connId ''too many concurrent NEG requests'' rs))))
     | None \<Rightarrow>
         (case rbind (qs_addSub E cfg txn sub queries) (\<lambda>(added, queries).
             let rs = (if \<not> added then sendNoticeError L connId ''too many concurrent REQs'' rs else rs);
                 (ok, views) = addMemoryView N cfg connId subId negPayload views in
             if ok then Inr (queries, t, views, rs)
             else rbind (qs_removeSub connId subId queries) (\<lambda>queries.
               Inr (queries, t, views, sendNoticeError L connId ''too many concurrent NEG requests'' rs))) of
            Inl e \<Rightarrow> Some (Inl e)
          | Inr w \<Rightarrow> qs_process E cfg clock txn (neg_callbacks E L cfg N) w))"

definition neg_msg ::
  "libs \<Rightarrow> ('t, 'v, 'b) negentropy \<Rightarrow> 't \<Rightarrow> u64 \<Rightarrow> SubId \<Rightarrow> bytes \<Rightarrow> 'v neg_state \<Rightarrow> 'v neg_state result" where
  "neg_msg L N txn connId subId negPayload = (\<lambda>(views, rs).
     case findView views connId subId of
       None \<Rightarrow> Inr (views, sendToConn connId (neg_reply L ''NEG-ERR'' subId [JString ''closed: unknown subscription handle'']) rs)
     | Some (MemoryView view) \<Rightarrow>
         if \<not> vector_sealed N (storageVector view) then
           Inr (views, sendNoticeError L connId ''negentropy error: got NEG-MSG before NEG-OPEN complete'' rs)
         else Inr (handleReconcile L connId subId (vector_reconcile N (storageVector view) negPayload) (views, rs))
     | Some (StatelessView sub treeId) \<Rightarrow>
         rbind (filter_range N txn treeId sub) (\<lambda>subStorage.
           Inr (handleReconcile L connId subId (tree_reconcile N subStorage negPayload) (views, rs))))"

definition negentropy_msg ::
  "'t env \<Rightarrow> libs \<Rightarrow> cfg \<Rightarrow> ('t, 'v, 'b) negentropy \<Rightarrow> (nat \<Rightarrow> u64) \<Rightarrow> 't \<Rightarrow> MsgNegentropy \<Rightarrow> 'v neg_worker \<Rightarrow> 'v neg_worker result option" where
  "negentropy_msg E L cfg N clock txn m = (\<lambda>(queries, t, views, rs).
     case m of
       NegOpen sub filterStr negPayload \<Rightarrow> neg_open E L cfg N clock txn sub filterStr negPayload (queries, t, views, rs)
     | NegMsg connId subId negPayload \<Rightarrow>
         Some (rbind (neg_msg L N txn connId subId negPayload (views, rs)) (\<lambda>(views, rs). Inr (queries, t, views, rs)))
     | NegClose connId subId \<Rightarrow>
         Some (rbind (qs_removeSub connId subId queries) (\<lambda>queries. Inr (queries, t, removeView connId subId views, rs)))
     | Neg_CloseConn connId \<Rightarrow>
         Some (rbind (qs_closeConn connId queries) (\<lambda>queries. Inr (queries, t, views_closeConn connId views, rs))))"

fun negentropy_msgs ::
  "'t env \<Rightarrow> libs \<Rightarrow> cfg \<Rightarrow> ('t, 'v, 'b) negentropy \<Rightarrow> (nat \<Rightarrow> u64) \<Rightarrow> 't \<Rightarrow> MsgNegentropy list \<Rightarrow> 'v neg_worker \<Rightarrow> 'v neg_worker result option" where
  "negentropy_msgs E L cfg N clock txn [] w = Some (Inr w)"
| "negentropy_msgs E L cfg N clock txn (m # ms) w =
     (case negentropy_msg E L cfg N clock txn m w of
        Some (Inr w) \<Rightarrow> negentropy_msgs E L cfg N clock txn ms w
      | x \<Rightarrow> x)"

definition runNegentropy ::
  "'t env \<Rightarrow> libs \<Rightarrow> cfg \<Rightarrow> ('t, 'v, 'b) negentropy \<Rightarrow> (nat \<Rightarrow> u64) \<Rightarrow> nat \<Rightarrow> 't \<Rightarrow> 'v neg_worker \<Rightarrow> 'v neg_worker result option" where
  "runNegentropy E L cfg N clock thr txn = (\<lambda>(queries, t, views, rs).
     let (newMsgs, pool) = pop_all thr (tpNegentropy rs) in
     case negentropy_msgs E L cfg N clock txn newMsgs (queries, t, views, rs\<lparr>tpNegentropy := pool\<rparr>) of
       Some (Inr w) \<Rightarrow> qs_process E cfg clock txn (neg_callbacks E L cfg N) w
     | x \<Rightarrow> x)"

section \<open>What a view contains\<close>

lemma findView_removeView: "findView (removeView c s views) c' s' = (if (c', s') = (c, s) then None else findView views c' s')"
proof (cases "findView views c s")
  case None
  then show ?thesis by (auto simp: removeView_def)
next
  case (Some v)
  then obtain m where m: "views c = Some m" by (auto simp: findView_def split: option.splits)
  let ?m = "filter (\<lambda>x. fst x \<noteq> s) m"
  have mo: "map_of ?m s' = (if s' = s then None else map_of m s')" by (rule map_of_filter_key)
  show ?thesis
  proof (cases "c' = c")
    case True
    have "findView (removeView c s views) c' s' = map_of ?m s'" using Some m True by (auto simp: removeView_def findView_def Let_def)
    then show ?thesis using mo m True by (simp add: findView_def)
  next
    case False
    then show ?thesis using Some m by (simp add: removeView_def findView_def Let_def)
  qed
qed

lemma findView_set_view:
  "findView views c s \<noteq> None \<Longrightarrow> \<exists>views'. set_view c s v views = Inr views' \<and>
    (\<forall>c' s'. findView views' c' s' = (if (c', s') = (c, s) then Some v else findView views c' s'))"
proof -
  assume ex: "findView views c s \<noteq> None"
  then obtain m where m: "views c = Some m" by (auto simp: findView_def split: option.splits)
  let ?f = "\<lambda>x. if fst x = s then (s, v) else x"
  have "map_of (map ?f m) s' = (if s' = s then if map_of m s = None then None else Some v else map_of m s')" for s' by (induction m) auto
  moreover have "map_of m s \<noteq> None" using ex m by (simp add: findView_def)
  ultimately show ?thesis using ex m by (auto simp: set_view_def findView_def)
qed

lemma findView_add_view:
  assumes "add_view cfg c s v views = (ok, views')"
  shows "findView views' c' s' = (if (c', s') = (c, s) then if ok then Some v else None else findView views c' s')"
proof -
  let ?views = "if findView views c s \<noteq> None then removeView c s views else views"
  let ?m = "case ?views c of None \<Rightarrow> [] | Some m \<Rightarrow> m"
  have f1: "findView ?views c' s' = (if (c', s') = (c, s) then None else findView views c' s')" for c' s'
    by (auto simp: findView_removeView)
  have mo: "map_of ?m s' = findView ?views c s'" for s' by (simp add: findView_def split: option.split)
  have none: "map_of ?m s = None" using mo [of s] f1 [of c s] by simp
  have app: "map_of (?m @ [(s, v)]) s' = (if s' = s then Some v else map_of ?m s')" for s'
    using none by (auto simp: map_add_def split: option.split)
  have views': "views' = ?views(c \<mapsto> if ok then ?m @ [(s, v)] else ?m)"
    using assms by (auto simp: add_view_def Let_def split: if_splits)
  show ?thesis
  proof (cases "c' = c")
    case True
    have "findView views' c' s' = map_of (if ok then ?m @ [(s, v)] else ?m) s'" unfolding views' by (simp add: findView_def True)
    also have "\<dots> = (if s' = s then if ok then Some v else None else map_of ?m s')" using app none by auto
    finally show ?thesis using mo [of s'] f1 [of c s'] True by auto
  next
    case False
    then have "findView views' c' s' = findView ?views c' s'" unfolding views' by (simp add: findView_def)
    then show ?thesis using f1 [of c' s'] False by auto
  qed
qed

text \<open>The items of the events that are still stored, in the order of a list of primary keys.\<close>

definition neg_items :: "tables \<Rightarrow> u64 list \<Rightarrow> (u64 \<times> bytes) list" where
  "neg_items T ls = map (\<lambda>e. (ev_created_at e, ev_id e)) (List.map_filter (map_of (events_of T)) ls)"

lemma insert_events:
  assumes E: "golpe_env E view" and T: "wf_store (view txn)"
    and ins: "\<And>vec t i. \<not> vector_sealed N vec \<Longrightarrow> length i = 32 \<Longrightarrow>
      vector_insert N vec t i = Inr (ins (t, i) vec) \<and> \<not> vector_sealed N (ins (t, i) vec)"
    and "\<not> vector_sealed N vec"
  shows "fold (insert_event E N txn) ls vec = fold ins (neg_items (view txn) ls) vec"
  using assms(4)
proof (induction ls arbitrary: vec)
  case Nil
  then show ?case by (simp add: neg_items_def List.map_filter_simps)
next
  case (Cons l ls)
  have tab: "tables_ok (view txn)" using T by simp
  note look = golpe_env.lookup_Event [OF E tab, of l]
  have mo: "map_of (events_of (view txn)) l = map_option unpack (map_of (t_events (view txn)) l)"
    by (simp add: events_of_def map_of_map)
  show ?case
  proof (cases "map_of (t_events (view txn)) l")
    case None
    then have "insert_event E N txn l vec = vec" by (simp add: insert_event_def lookupEventByLevId_def look)
    then show ?thesis using Cons None mo by (simp add: neg_items_def List.map_filter_simps)
  next
    case (Some p)
    then have e: "wf_event (unpack p)" "p = pack (unpack p)" using events_of_packed [OF T] map_of_SomeD by fast+
    have "PackedEventView p = Inr p" using PackedEventView_pack [OF e(1)] e(2) by simp
    moreover have "pv_created_at p = ev_created_at (unpack p)" "pv_id p = ev_id (unpack p)"
      using e by (metis pack_accessors(3), metis pack_accessors(1))
    moreover have "length (ev_id (unpack p)) = 32" using e(1) by (simp add: wf_event_def)
    note i = ins [OF Cons.prems this, of "ev_created_at (unpack p)"]
    ultimately have "insert_event E N txn l vec = ins (ev_created_at (unpack p), ev_id (unpack p)) vec"
      using Some by (simp add: insert_event_def lookupEventByLevId_def look)
    then show ?thesis using Cons.IH i Some mo by (simp add: neg_items_def List.map_filter_simps)
  qed
qed

section \<open>Properties\<close>

text \<open>C34: When the query of a negentropy session ends, the client is answered with what the library makes of its first message
  and of the events that were found and are still stored, handed to it in the order of their primary keys, and the view is
  ready for further messages; if more events were found than \<open>maxSyncEvents\<close>, it is sent an error and the view is gone.
  No other view changes.\<close>

theorem neg_complete:
  assumes "golpe_env E view" and "wf_store (view txn)" and "findView views (sub_connId sub) (sub_subId sub) = Some (MemoryView v)"
    and "\<forall>vec t i. \<not> vector_sealed N vec \<and> length i = 32 \<longrightarrow>
      vector_insert N vec t i = Inr (ins (t, i) vec) \<and> \<not> vector_sealed N (ins (t, i) vec)"
    and "\<not> vector_sealed N (storageVector v)"
    and "vector_seal N (fold ins (neg_items (view txn) (sort (mv_levIds v))) (storageVector v)) = Inr vec"
    and "vector_reconcile N vec (initialMsg v) = Inr resp"
  shows "\<exists>views'. neg_onComplete E L cfg N txn sub tot (views, rs) = Inr (views', sendToConn (sub_connId sub)
      (if exceeds (length (mv_levIds v)) (relay_negentropy_maxSyncEvents cfg)
       then neg_reply L ''NEG-ERR'' (sub_subId sub) [JString ''blocked: too many query results'', JUnsigned (relay_negentropy_maxSyncEvents cfg)]
       else neg_reply L ''NEG-MSG'' (sub_subId sub) [JString (to_hex L resp)]) rs) \<and>
    (\<forall>c s. findView views' c s = (if (c, s) = (sub_connId sub, sub_subId sub)
       then if exceeds (length (mv_levIds v)) (relay_negentropy_maxSyncEvents cfg) then None
         else Some (MemoryView \<lparr>initialMsg = [], storageVector = vec, mv_levIds = []\<rparr>)
       else findView views c s))"
proof (cases "exceeds (length (mv_levIds v)) (relay_negentropy_maxSyncEvents cfg)")
  case True
  then show ?thesis using assms(3) by (simp add: neg_onComplete_def findView_removeView Let_def)
next
  case False
  let ?c = "sub_connId sub" and ?s = "sub_subId sub"
  let ?v = "v\<lparr>storageVector := vec, mv_levIds := []\<rparr>"
  have vec: "vector_seal N (fold (insert_event E N txn) (sort (mv_levIds v)) (storageVector v)) = Inr vec"
    using insert_events [OF assms(1,2), of N ins "storageVector v"] assms(4-6) by simp
  have "findView views ?c ?s \<noteq> None" using assms(3) by simp
  then obtain views1 where v1: "set_view ?c ?s (MemoryView ?v) views = Inr views1"
    "\<forall>c' s'. findView views1 c' s' = (if (c', s') = (?c, ?s) then Some (MemoryView ?v) else findView views c' s')"
    using findView_set_view by blast
  have "findView views1 ?c ?s \<noteq> None" using v1(2) by simp
  then obtain views2 where v2: "set_view ?c ?s (MemoryView (?v\<lparr>initialMsg := []\<rparr>)) views1 = Inr views2"
    "\<forall>c' s'. findView views2 c' s' = (if (c', s') = (?c, ?s) then Some (MemoryView (?v\<lparr>initialMsg := []\<rparr>)) else findView views1 c' s')"
    using findView_set_view by blast
  have "neg_onComplete E L cfg N txn sub tot (views, rs) =
      Inr (views2, sendToConn ?c (neg_reply L ''NEG-MSG'' ?s [JString (to_hex L resp)]) rs)"
    using assms(3,7) False v1(1) v2(1) by (simp add: neg_onComplete_def handleReconcile_def Let_def vec)
  then show ?thesis using v1(2) v2(2) False by auto
qed

text \<open>C35: If the first message of such a session is malformed, the code that sends the error erases the view, and the
  assignment that follows writes through the pointer to it.\<close>

theorem neg_protocol_error_dangles:
  assumes "findView views (sub_connId sub) (sub_subId sub) = Some (MemoryView v)"
    and "\<not> exceeds (length (mv_levIds v)) (relay_negentropy_maxSyncEvents cfg)"
    and "vector_seal N (fold (insert_event E N txn) (sort (mv_levIds v)) (storageVector v)) = Inr vec"
    and "vector_reconcile N vec (initialMsg v) = Inl e"
  shows "neg_onComplete E L cfg N txn sub tot (views, rs) = Inl UseAfterFree"
proof -
  let ?c = "sub_connId sub" and ?s = "sub_subId sub"
  have "findView views ?c ?s \<noteq> None" using assms(1) by simp
  then obtain views1 where v1: "set_view ?c ?s (MemoryView (v\<lparr>storageVector := vec, mv_levIds := []\<rparr>)) views = Inr views1"
    using findView_set_view by blast
  have "findView (removeView ?c ?s views1) ?c ?s = None" by (simp add: findView_removeView)
  then have "set_view ?c ?s x (removeView ?c ?s views1) = Inl UseAfterFree" for x by (simp add: set_view_def)
  then show ?thesis using assms v1 by (simp add: neg_onComplete_def handleReconcile_def Let_def)
qed

lemma add_view_room:
  assumes "map_of m s = Some v" "views c = Some m \<and> length m \<le> unat (relay_maxSubsPerConnection cfg)"
    and "views1 = views \<or> views1 = removeView c s views" and "add_view cfg c s w views1 = (ok, views2)"
  shows ok
proof -
  let ?m = "filter (\<lambda>x. fst x \<noteq> s) m"
  have "length ?m < length m" using assms(1) by (metis (mono_tags, lifting) fst_conv length_filter_less map_of_SomeD)
  then have "length ?m < unat (relay_maxSubsPerConnection cfg)" using assms(2) by simp
  moreover have "(case removeView c s views c of None \<Rightarrow> [] | Some m \<Rightarrow> m) = ?m" using assms(1,2) by (simp add: removeView_def findView_def Let_def)
  moreover have "(if findView views1 c s \<noteq> None then removeView c s views1 else views1) = removeView c s views"
    using assms(1-3) findView_removeView [of c s views c s] by (auto simp: findView_def)
  ultimately show ?thesis using assms(4) by (simp add: add_view_def Let_def split: if_splits)
qed

lemma neg_slice_throws:
  assumes "qs_running queries = p # rest" and "qs_heap queries p = Some q" and "\<not> q_dead q"
    and view: "findView views (sub_connId (q_sub q)) (sub_subId (q_sub q)) = Some (StatelessView sub treeId)"
  shows "qs_process E cfg clock txn (neg_callbacks E L cfg N) (queries, t, views, rs) =
      map_option (\<lambda>r. rbind r (\<lambda>_. Inl (Herr ''bad variant, expected memory view'')))
        (query_process E clock txn (qs_event E (neg_callbacks E L cfg N) txn (ensureExists queries))
          (relay_queryTimesliceBudgetMicroseconds cfg) (q, t, (levIdBatch queries, (views, rs))))"
    (is "_ = map_option ?f ?call")
proof (cases ?call)
  case None
  then show ?thesis using assms(1-3) by (simp add: qs_process_def)
next
  case (Some r)
  show ?thesis
  proof (cases r)
    case (Inl e)
    then show ?thesis using Some assms(1-3) by (simp add: qs_process_def)
  next
    case (Inr y)
    obtain complete q1 t1 batch st1 where y: "y = (complete, q1, t1, batch, st1)" by (cases y)
    have "keeps (\<lambda>st. snd st = (views, rs)) (qs_event E (neg_callbacks E L cfg N) txn (ensureExists queries))"
      by (auto simp: keeps_def qs_event_def neg_callbacks_def split: option.splits)
    from query_process_kept [OF this Some [unfolded Inr y]] have "q_sub q1 = q_sub q" "st1 = (views, rs)"
      by (simp_all add: kept_def same_query_def)
    then show ?thesis using Some Inr y assms(1-3) view by (simp add: qs_process_def qs_after_def neg_callbacks_def neg_onEventBatch_def)
  qed
qed

text \<open>A client whose query for a memory view is still running can open a session of the same name whose filter has a
  tree: the view is replaced but the query goes on, and its next slice throws an exception that nothing catches.\<close>

theorem neg_reopen_throws:
  assumes "qs_running queries = p # rest" and "qs_heap queries p = Some q" and "\<not> q_dead q"
    and "sub_connId (q_sub q) = sub_connId sub" and "sub_subId (q_sub q) = sub_subId sub"
    and "findView views (sub_connId sub) (sub_subId sub) = Some (MemoryView v)"
    and "\<forall>m. views (sub_connId sub) = Some m \<longrightarrow> length m \<le> unat (relay_maxSubsPerConnection cfg)"
    and "find (\<lambda>(_, f). f = filterStr) (foreach_NegentropyFilter E txn) = Some (treeId, f)" and "filter_range N txn treeId sub = Inr b"
  shows "\<exists>views' rs'. neg_open E L cfg N clock txn sub filterStr negPayload (queries, t, views, rs) = Some (Inr (queries, t, views', rs')) \<and>
    findView views' (sub_connId sub) (sub_subId sub) = Some (StatelessView sub treeId) \<and>
    (\<forall>txn' t'. qs_process E cfg clock txn' (neg_callbacks E L cfg N) (queries, t', views', rs') =
      map_option (\<lambda>r. rbind r (\<lambda>_. Inl (Herr ''bad variant, expected memory view'')))
        (query_process E clock txn' (qs_event E (neg_callbacks E L cfg N) txn' (ensureExists queries))
          (relay_queryTimesliceBudgetMicroseconds cfg) (q, t', (levIdBatch queries, (views', rs')))))"
proof -
  let ?c = "sub_connId sub" and ?s = "sub_subId sub"
  obtain views1 rs1 where h: "handleReconcile L ?c ?s (tree_reconcile N b negPayload) (views, rs) = (views1, rs1)" by fastforce
  have v1: "views1 = views \<or> views1 = removeView ?c ?s views"
    using h by (auto simp: handleReconcile_def split: sum.splits)
  obtain ok views2 where add: "add_view cfg ?c ?s (StatelessView sub treeId) views1 = (ok, views2)" by fastforce
  have ok: ok
    using add_view_room [OF _ _ v1 add] assms(6,7) by (auto simp: findView_def split: option.splits)
  have f2: "findView views2 ?c ?s = Some (StatelessView sub treeId)" using findView_add_view [OF add, of ?c ?s] ok by simp
  have "neg_open E L cfg N clock txn sub filterStr negPayload (queries, t, views, rs) = Some (Inr (queries, t, views2, rs1))"
    using assms(8,9) h add ok by (simp add: neg_open_def addStatelessView_def Let_def)
  moreover have "qs_process E cfg clock txn' (neg_callbacks E L cfg N) (queries, t', views2, rs1) =
      map_option (\<lambda>r. rbind r (\<lambda>_. Inl (Herr ''bad variant, expected memory view'')))
        (query_process E clock txn' (qs_event E (neg_callbacks E L cfg N) txn' (ensureExists queries))
          (relay_queryTimesliceBudgetMicroseconds cfg) (q, t', (levIdBatch queries, (views2, rs1))))" for txn' t'
    by (rule neg_slice_throws [OF assms(1-3)]) (use f2 assms(4,5) in simp)
  ultimately show ?thesis using f2 by blast
qed

section \<open>Witnesses\<close>

text \<open>A small library: a vector is a list of items and a flag, a message is answered with the bytes of the identifiers,
  and an empty message is malformed.\<close>

definition sample_neg :: "(tables, bool \<times> (u64 \<times> bytes) list, unit) negentropy" where
  "sample_neg = \<lparr>vector_new = (False, []),
     vector_insert = (\<lambda>(b, xs) t i. if b \<or> length i \<noteq> 32 then Inl (Herr ''insert'') else Inr (b, xs @ [(t, i)])),
     vector_seal = (\<lambda>(b, xs). if b \<or> \<not> distinct xs then Inl (Herr ''seal'') else Inr (True, xs)), vector_sealed = fst,
     vector_reconcile = (\<lambda>(b, xs) m. if m = [] then Inl (Herr ''parse'') else Inr (concat (map snd xs))),
     tree_range = (\<lambda>_ _ _ _. Inr ()), tree_reconcile = (\<lambda>_ m. if m = [] then Inl (Herr ''parse'') else Inr m)\<rparr>"

definition sample_view :: "string \<Rightarrow> (bool \<times> (u64 \<times> bytes) list) NegentropyViews" where
  "sample_view m = [sub_connId sample_query \<mapsto> [(sub_subId sample_query,
     MemoryView \<lparr>initialMsg = m, storageVector = vector_new sample_neg, mv_levIds = [3]\<rparr>)]]"

definition neg_relay :: RelayServer where
  "neg_relay = \<lparr>rs_ephemeralTracker = new_EphemeralSubTracker, tpWebsocket = \<lparr>numThreads = 1, inbox = (\<lambda>_. [])\<rparr>,
     tpIngester = \<lparr>numThreads = 1, inbox = (\<lambda>_. [])\<rparr>, tpWriter = \<lparr>numThreads = 1, inbox = (\<lambda>_. [])\<rparr>,
     tpReqWorker = \<lparr>numThreads = 1, inbox = (\<lambda>_. [])\<rparr>,
     tpReqMonitor = \<lparr>numThreads = 1, inbox = (\<lambda>_. [])\<rparr>, tpNegentropy = \<lparr>numThreads = 1, inbox = (\<lambda>_. [])\<rparr>\<rparr>"

lemma sample_view_find:
  "findView (sample_view m) (sub_connId sample_query) (sub_subId sample_query) =
     Some (MemoryView \<lparr>initialMsg = m, storageVector = (False, []), mv_levIds = [3]\<rparr>)"
  by (simp add: sample_view_def findView_def sample_neg_def)

lemma sample_neg_limit: "\<not> exceeds (length ([3 :: u64])) (relay_negentropy_maxSyncEvents default_cfg)"
  by (simp add: default_cfg_def)

lemma sample_neg_item: "neg_items sample_store [3] = [(1000, ev_id sample_event)]"
  by (simp add: neg_items_def List.map_filter_simps sample_store_ok sample_event_def)

theorem neg_complete_witness:
  "\<exists>views. neg_onComplete mem_env sample_libs default_cfg sample_neg sample_store sample_query 1 (sample_view ''a'', neg_relay) =
      Inr (views, sendToConn 1 (neg_reply sample_libs ''NEG-MSG'' (sub_subId sample_query) [JString (to_hex sample_libs (ev_id sample_event))]) neg_relay) \<and>
    findView views 1 (sub_subId sample_query) = Some (MemoryView \<lparr>initialMsg = [], storageVector = (True, [(1000, ev_id sample_event)]), mv_levIds = []\<rparr>)"
proof -
  have c: "sub_connId sample_query = 1" by (simp add: sample_query_def)
  note * = neg_complete [where N = sample_neg and ins = "\<lambda>x (b, xs). (b, xs @ [x])" and vec = "(True, [(1000, ev_id sample_event)])" and resp = "ev_id sample_event",
      OF mem_golpe sample_store_ok(2) sample_view_find, where m1 = "''a''" and cfg = default_cfg and L = sample_libs and tot = 1 and rs = neg_relay]
  show ?thesis using * sample_neg_limit by (auto simp: sample_neg_item sample_neg_def c split: if_splits)
qed

theorem neg_protocol_error_dangles_witness:
  "neg_onComplete mem_env sample_libs default_cfg sample_neg sample_store sample_query 1 (sample_view [], neg_relay) = Inl UseAfterFree"
proof -
  have "fold (insert_event mem_env sample_neg sample_store) (sort [3]) (False, []) = fold (\<lambda>x (b, xs). (b, xs @ [x])) (neg_items sample_store (sort [3])) (False, [])"
    by (rule insert_events [OF mem_golpe sample_store_ok(2)]) (auto simp: sample_neg_def)
  then have "fold (insert_event mem_env sample_neg sample_store) (sort [3]) (False, []) = (False, [(1000, ev_id sample_event)])"
    by (simp add: sample_neg_item)
  then show ?thesis
    using neg_protocol_error_dangles [OF sample_view_find, where cfg = default_cfg and N = sample_neg and E = mem_env and txn = sample_store and vec = "(True, [(1000, ev_id sample_event)])" and m1 = "[]"] sample_neg_limit
    by (simp add: sample_neg_def)
qed

definition neg_scheduler :: QueryScheduler where
  "neg_scheduler = (new_QueryScheduler False)\<lparr>qs_heap := [0 \<mapsto> mkDBQuery sample_query], qs_next := 1,
     qs_conns := [sub_connId sample_query \<mapsto> [(sub_subId sample_query, 0)]], qs_running := [0]\<rparr>"

theorem neg_reopen_throws_witness:
  "\<exists>views rs. neg_open mem_env sample_libs default_cfg sample_neg (\<lambda>_. 0) (sample_store\<lparr>t_negFilters := [(1, ''{}'')]\<rparr>) sample_query ''{}'' ''a''
       (neg_scheduler, 0, sample_view ''a'', neg_relay) = Some (Inr (neg_scheduler, 0, views, rs)) \<and>
     qs_process mem_env default_cfg (\<lambda>_. 0) sample_store (neg_callbacks mem_env sample_libs default_cfg sample_neg) (neg_scheduler, 0, views, rs) =
       Some (Inl (Herr ''bad variant, expected memory view''))"
proof -
  let ?T = "sample_store\<lparr>t_negFilters := [(1, ''{}'')]\<rparr>"
  let ?cb = "qs_event mem_env (neg_callbacks mem_env sample_libs default_cfg sample_neg) sample_store False"
  have sched: "qs_running neg_scheduler = 0 # []" "qs_heap neg_scheduler 0 = Some (mkDBQuery sample_query)" "\<not> q_dead (mkDBQuery sample_query)"
    "q_sub (mkDBQuery sample_query) = sample_query" "\<not> ensureExists neg_scheduler"
    by (simp_all add: neg_scheduler_def mkDBQuery_def new_QueryScheduler_def)
  have room: "\<forall>m. sample_view ''a'' (sub_connId sample_query) = Some m \<longrightarrow> length m \<le> unat (relay_maxSubsPerConnection default_cfg)"
    by (simp add: sample_view_def default_cfg_def)
  have tree: "find (\<lambda>(_, f). f = ''{}'') (foreach_NegentropyFilter mem_env ?T) = Some (1, ''{}'')" by (simp add: mem_env_def)
  have range: "filter_range sample_neg ?T 1 sample_query = Inr ()" by (simp add: filter_range_def sample_neg_def sample_query_def)
  have fs: "\<forall>f \<in> set (fg_filters (sub_filterGroup sample_query)). scannable f" by (rule mkNostrFilterGroup_scannable [OF sample_query_ok])
  have cb: "?cb sub l st = Inr (fst st @ [l], snd st)" for sub l st by (simp add: qs_event_def neg_callbacks_def split: prod.split)
  have runs: "\<exists>x. query_process mem_env (\<lambda>_. 0) sample_store ?cb b (mkDBQuery sample_query, 0, st) = Some (Inr x)" for b st
    using golpe_env.query_slice_full [where cb = ?cb and g = "\<lambda>l st. (fst st @ [l], snd st)" and clock = "\<lambda>_. 0" and budget = b,
      OF mem_golpe sample_store_ok(2,3) fs refl cb golpe_env.query_start [OF mem_golpe, where t = 0 and ?st0.0 = st]] by blast
  show ?thesis
    using neg_reopen_throws [OF sched(1-3) _ _ sample_view_find room tree range, of sample_libs "\<lambda>_. 0" "''a''" 0 neg_relay] sched(4,5) runs
    by fastforce
qed

end
