(* ===== verification/WriterPipeline.thy ===== *)
theory WriterPipeline
  imports EventsWriteProof
begin

text \<open>
  \<open>src/WriterPipeline.h\<close>: the pipeline that the command line tools write through.  One thread verifies JSON events, a second
  writes them in batches, and a client thread feeds the first and at the end waits for the second.

  Each definition below is what a thread does between two points where the others can see a difference: taking the messages
  of an inbox, verifying one message, sorting out a batch, committing it.  The counters are atomics and the inboxes
  are locked queues, so that the operations of one such block on them commute with what the other threads do meanwhile.
  The delays (debouncing, back pressure) decide when a block runs and not what it does; the schedule is arbitrary.
  An exception that leaves a thread ends the process: such a block returns an error.  The log lines are left out, and
  the calls of \<open>onCommit\<close> are recorded.
\<close>

section \<open>State\<close>

datatype writer_pc =
    Waiting
  | Popped "EventToWrite list"
  | Collected "EventToWrite list"
  | Returned

record 't WriterPipeline =
  writeBatchSize :: u64
  verifyMsg :: bool
  verifyTime :: bool
  onCommit :: "u64 list"
  totalProcessed :: u64
  totalWritten :: u64
  totalRejected :: u64
  totalDups :: u64
  validatorInbox :: "json list"
  writerInbox :: "EventToWrite list"
  flushInbox :: "bool list"
  shutdownRequested :: bool
  shutdownComplete :: bool
  numLive :: u64
  validatorMsgs :: "json list"
  validatorRunning :: bool
  writerThread :: writer_pc
  neFilterCache :: NegentropyFilterCache
  wp_db :: 't

definition new_WriterPipeline :: "'t \<Rightarrow> 't WriterPipeline" where
  "new_WriterPipeline db =
     \<lparr>writeBatchSize = 1000, verifyMsg = True, verifyTime = True, onCommit = [],
      totalProcessed = 0, totalWritten = 0, totalRejected = 0, totalDups = 0,
      validatorInbox = [], writerInbox = [], flushInbox = [], shutdownRequested = False, shutdownComplete = False, numLive = 0,
      validatorMsgs = [], validatorRunning = True, writerThread = Waiting, neFilterCache = new_NegentropyFilterCache, wp_db = db\<rparr>"

text \<open>The default event that tells the writer to stop.\<close>

definition stop_event :: EventToWrite where
  "stop_event = mkEventToWrite [] [] 0 []"

section \<open>The client\<close>

definition pipeline_write :: "json \<Rightarrow> 't WriterPipeline \<Rightarrow> 't WriterPipeline" where
  "pipeline_write eventJson w =
     (if is_null eventJson then w
      else w\<lparr>totalProcessed := totalProcessed w + 1, numLive := numLive w + 1, validatorInbox := validatorInbox w @ [eventJson]\<rparr>)"

definition pipeline_write_event :: "EventToWrite \<Rightarrow> 't WriterPipeline \<Rightarrow> 't WriterPipeline" where
  "pipeline_write_event ev w =
     w\<lparr>totalProcessed := totalProcessed w + 1, numLive := numLive w + 1, writerInbox := writerInbox w @ [ev]\<rparr>"

text \<open>The message that \<open>flush\<close> posts, and whether it returns.\<close>

definition pipeline_flush :: "'t WriterPipeline \<Rightarrow> 't WriterPipeline" where
  "pipeline_flush w = w\<lparr>validatorInbox := validatorInbox w @ [JNull]\<rparr>"

definition flush_returns :: "'t WriterPipeline \<Rightarrow> bool" where
  "flush_returns w \<longleftrightarrow> flushInbox w \<noteq> []"

section \<open>The validator thread\<close>

definition validator_pop :: "'t WriterPipeline \<Rightarrow> 't WriterPipeline" where
  "validator_pop w = w\<lparr>validatorMsgs := validatorInbox w, validatorInbox := []\<rparr>"

definition validator_msg :: "libs \<Rightarrow> cfg \<Rightarrow> u64 \<Rightarrow> 't WriterPipeline \<Rightarrow> 't WriterPipeline" where
  "validator_msg L cfg now w =
     (case validatorMsgs w of
        [] \<Rightarrow> w
      | m # ms \<Rightarrow>
          let w = w\<lparr>validatorMsgs := ms\<rparr> in
          if is_null m then
            w\<lparr>shutdownRequested := True, writerInbox := writerInbox w @ [stop_event], validatorRunning := False, validatorMsgs := []\<rparr>
          else
            (case parseAndVerifyEvent L cfg now m (verifyMsg w) (verifyTime w) of
               Inl e \<Rightarrow> w\<lparr>numLive := numLive w - 1, totalRejected := totalRejected w + 1\<rparr>
             | Inr (packedStr, jsonStr) \<Rightarrow> w\<lparr>writerInbox := writerInbox w @ [mkEventToWrite packedStr jsonStr 0 []]\<rparr>))"

section \<open>The writer thread\<close>

definition writer_pop :: "'t WriterPipeline \<Rightarrow> 't WriterPipeline" where
  "writer_pop w = w\<lparr>writerThread := Popped (writerInbox w), writerInbox := []\<rparr>"

text \<open>The loop that fills a batch, leaves out the events that are stored already and puts the rest back.\<close>

fun collect_batch ::
  "'t env \<Rightarrow> EventToWrite list \<Rightarrow> EventToWrite list \<times> 't WriterPipeline \<Rightarrow> (EventToWrite list \<times> 't WriterPipeline) result" where
  "collect_batch E [] (newEventsToProc, w) = Inr (newEventsToProc, w)"
| "collect_batch E (event # newEvents) (newEventsToProc, w) =
     (if length newEventsToProc \<ge> unat (writeBatchSize w) then
        Inr (newEventsToProc, w\<lparr>writerInbox := (event # newEvents) @ writerInbox w\<rparr>)
      else if length (ew_packedStr event) = 0 then
        Inr (newEventsToProc, w\<lparr>shutdownComplete := True\<rparr>)
      else
        let w = w\<lparr>numLive := numLive w - 1\<rparr> in
        rbind (PackedEventView (ew_packedStr event)) (\<lambda>packed.
          if eventExistsById E (wp_db w) (pv_id packed) then
            collect_batch E newEvents (newEventsToProc, w\<lparr>totalDups := totalDups w + 1\<rparr>)
          else collect_batch E newEvents (newEventsToProc @ [event], w)))"

definition writer_collect :: "'t env \<Rightarrow> EventToWrite list \<Rightarrow> 't WriterPipeline \<Rightarrow> 't WriterPipeline result" where
  "writer_collect E newEvents w =
     rbind (collect_batch E newEvents ([], w)) (\<lambda>(newEventsToProc, w). Inr (w\<lparr>writerThread := Collected newEventsToProc\<rparr>))"

fun count_statuses :: "EventToWrite list \<Rightarrow> u64 \<times> 't WriterPipeline \<Rightarrow> u64 \<times> 't WriterPipeline" where
  "count_statuses [] (written, w) = (written, w)"
| "count_statuses (ev # evs) (written, w) =
     (if ew_status ev = Written then count_statuses evs (written + 1, w\<lparr>totalWritten := totalWritten w + 1\<rparr>)
      else count_statuses evs (written, w\<lparr>totalDups := totalDups w + 1\<rparr>))"

definition pipeline_commit ::
  "'t env \<Rightarrow> libs \<Rightarrow> ('t \<Rightarrow> 't result) \<Rightarrow> ('t \<Rightarrow> 't result) \<Rightarrow> EventToWrite list \<Rightarrow> 't WriterPipeline \<Rightarrow> 't WriterPipeline result" where
  "pipeline_commit E L txn_rw commit newEventsToProc w =
     (if length newEventsToProc \<noteq> 0 then
        rbind (txn_rw (wp_db w)) (\<lambda>txn.
        rbind (writeEvents E L txn (neFilterCache w) newEventsToProc) (\<lambda>(cache, evs, txn).
        rbind (commit txn) (\<lambda>db.
          let (written, w) = count_statuses evs (0, w\<lparr>wp_db := db, neFilterCache := cache\<rparr>) in
          Inr (w\<lparr>onCommit := onCommit w @ [written]\<rparr>))))
      else Inr w)"

text \<open>The end of a round: commit, and stop if the stop event has been seen.\<close>

definition writer_commit ::
  "'t env \<Rightarrow> libs \<Rightarrow> ('t \<Rightarrow> 't result) \<Rightarrow> ('t \<Rightarrow> 't result) \<Rightarrow> EventToWrite list \<Rightarrow> 't WriterPipeline \<Rightarrow> 't WriterPipeline result" where
  "writer_commit E L txn_rw commit newEventsToProc w =
     rbind (pipeline_commit E L txn_rw commit newEventsToProc w) (\<lambda>w.
       if shutdownComplete w then Inr (w\<lparr>flushInbox := flushInbox w @ [True], writerThread := Returned\<rparr>)
       else Inr (w\<lparr>writerThread := Waiting\<rparr>))"

section \<open>Schedules\<close>

text \<open>What the two threads can do next.  Taking the messages of an empty inbox blocks.\<close>

inductive pipeline_step ::
  "'t env \<Rightarrow> libs \<Rightarrow> cfg \<Rightarrow> ('t \<Rightarrow> 't result) \<Rightarrow> ('t \<Rightarrow> 't result) \<Rightarrow> 't WriterPipeline \<Rightarrow> 't WriterPipeline result \<Rightarrow> bool"
  for E L cfg txn_rw commit where
  vpop: "validatorRunning w \<Longrightarrow> validatorMsgs w = [] \<Longrightarrow> validatorInbox w \<noteq> [] \<Longrightarrow>
     pipeline_step E L cfg txn_rw commit w (Inr (validator_pop w))"
| vmsg: "validatorRunning w \<Longrightarrow> validatorMsgs w \<noteq> [] \<Longrightarrow>
     pipeline_step E L cfg txn_rw commit w (Inr (validator_msg L cfg now w))"
| wpop: "writerThread w = Waiting \<Longrightarrow> writerInbox w \<noteq> [] \<Longrightarrow>
     pipeline_step E L cfg txn_rw commit w (Inr (writer_pop w))"
| wcollect: "writerThread w = Popped evs \<Longrightarrow> pipeline_step E L cfg txn_rw commit w (writer_collect E evs w)"
| wcommit: "writerThread w = Collected evs \<Longrightarrow> pipeline_step E L cfg txn_rw commit w (writer_commit E L txn_rw commit evs w)"

inductive_cases pipeline_stepE: "pipeline_step E L cfg txn_rw commit w r"

text \<open>
  The states that the pipeline can get into.  The client writes before it calls \<open>flush\<close> and not afterwards (the flag says
  whether it has); an event that it hands over in packed form is one that the parser could have made.  Another
  process may change the database between two blocks, as long as it keeps the invariant.
\<close>

inductive pipeline_run ::
  "'t env \<Rightarrow> ('t \<Rightarrow> tables) \<Rightarrow> libs \<Rightarrow> cfg \<Rightarrow> ('t \<Rightarrow> 't result) \<Rightarrow> ('t \<Rightarrow> 't result) \<Rightarrow> bool \<Rightarrow> 't WriterPipeline \<Rightarrow> bool"
  for E view L cfg txn_rw commit where
  run_start: "store_inv L new_NegentropyFilterCache (view db) \<Longrightarrow> 0 < batch \<Longrightarrow>
     pipeline_run E view L cfg txn_rw commit False ((new_WriterPipeline db)\<lparr>writeBatchSize := batch, verifyMsg := vm, verifyTime := vt\<rparr>)"
| run_write: "pipeline_run E view L cfg txn_rw commit False w \<Longrightarrow>
     pipeline_run E view L cfg txn_rw commit False (pipeline_write v w)"
| run_write_event: "pipeline_run E view L cfg txn_rw commit False w \<Longrightarrow> pending ev \<Longrightarrow>
     pipeline_run E view L cfg txn_rw commit False (pipeline_write_event ev w)"
| run_flush: "pipeline_run E view L cfg txn_rw commit closed w \<Longrightarrow> pipeline_run E view L cfg txn_rw commit True (pipeline_flush w)"
| run_step: "pipeline_run E view L cfg txn_rw commit closed w \<Longrightarrow> pipeline_step E L cfg txn_rw commit w (Inr w') \<Longrightarrow>
     pipeline_run E view L cfg txn_rw commit closed w'"
| run_other: "pipeline_run E view L cfg txn_rw commit closed w \<Longrightarrow> store_inv L (neFilterCache w) (view db) \<Longrightarrow>
     pipeline_run E view L cfg txn_rw commit closed (w\<lparr>wp_db := db\<rparr>)"

section \<open>Nothing is lost\<close>

definition validator_queue :: "'t WriterPipeline \<Rightarrow> json list" where
  "validator_queue w = validatorMsgs w @ validatorInbox w"

definition waiting_events :: "'t WriterPipeline \<Rightarrow> EventToWrite list" where
  "waiting_events w = (case writerThread w of Popped evs \<Rightarrow> evs | _ \<Rightarrow> []) @ writerInbox w"

definition batch_of :: "'t WriterPipeline \<Rightarrow> EventToWrite list" where
  "batch_of w = (case writerThread w of Collected evs \<Rightarrow> evs | _ \<Rightarrow> [])"

text \<open>The events on their way to the writer.\<close>

definition live_events :: "'t WriterPipeline \<Rightarrow> nat" where
  "live_events w = length (filter (\<lambda>v. \<not> is_null v) (validator_queue w)) + length (filter (\<lambda>ev. ew_packedStr ev \<noteq> []) (waiting_events w))"

text \<open>
  The messages that stop the threads come last: the validator's queue ends with them once the client has called \<open>flush\<close>, and the
  stop event is the last of the writer's queue from when the validator returns until the writer sees it.
\<close>

definition queues_ok :: "bool \<Rightarrow> 't WriterPipeline \<Rightarrow> bool" where
  "queues_ok closed w \<longleftrightarrow>
     (\<exists>ms k. validator_queue w = ms @ replicate k JNull \<and> JNull \<notin> set ms \<and> (0 < k \<longrightarrow> closed) \<and>
        (if validatorRunning w then closed \<longrightarrow> 0 < k else ms = [] \<and> closed)) \<and>
     (\<exists>evs. waiting_events w = evs @ (if validatorRunning w \<or> shutdownComplete w then [] else [stop_event]) \<and> (\<forall>ev \<in> set evs. pending ev)) \<and>
     (\<forall>ev \<in> set (batch_of w). pending ev) \<and>
     (shutdownComplete w \<longrightarrow> \<not> validatorRunning w \<and> waiting_events w = [] \<and> writerThread w \<noteq> Waiting \<and> (\<forall>evs. writerThread w \<noteq> Popped evs)) \<and>
     (writerThread w = Returned \<longrightarrow> shutdownComplete w) \<and> writerThread w \<noteq> Popped [] \<and> (flushInbox w \<noteq> [] \<longleftrightarrow> writerThread w = Returned)"

definition counters_ok :: "'t WriterPipeline \<Rightarrow> bool" where
  "counters_ok w \<longleftrightarrow> numLive w = of_nat (live_events w) \<and>
     totalProcessed w = totalRejected w + totalWritten w + totalDups w + numLive w + of_nat (length (batch_of w)) \<and>
     sum_list (onCommit w) = totalWritten w"

lemma is_null_iff [simp]: "is_null v \<longleftrightarrow> v = JNull"
  by (cases v) auto

lemma pending_nonempty: "pending ev \<Longrightarrow> ew_packedStr ev \<noteq> []"
  using pending_packed [of ev] by (auto simp: pack_def wf_event_def)

lemma stop_event_simps [simp]: "ew_packedStr stop_event = []" "\<not> pending stop_event"
proof -
  show *: "ew_packedStr stop_event = []" by (simp add: stop_event_def mkEventToWrite_def)
  then show "\<not> pending stop_event" using pending_nonempty by blast
qed

lemma filter_pending: "\<forall>ev \<in> set evs. pending ev \<Longrightarrow> filter (\<lambda>ev. ew_packedStr ev \<noteq> []) evs = evs"
  using pending_nonempty by (simp add: filter_id_conv)

lemma collect_batch_ok:
  assumes "\<forall>ev \<in> set evs. pending ev" and "ends = [] \<or> ends = [stop_event]"
  shows "\<exists>evs1 evs2 d stop proc'. evs = evs1 @ evs2 \<and>
    collect_batch E (evs @ ends) (proc, w) = Inr (proc', w\<lparr>writerInbox := (if stop then [] else evs2 @ ends) @ writerInbox w,
      numLive := numLive w - of_nat (length evs1), totalDups := totalDups w + of_nat d, shutdownComplete := shutdownComplete w \<or> stop\<rparr>) \<and>
    length proc' + d = length proc + length evs1 \<and> set proc' \<subseteq> set proc \<union> set evs \<and>
    (stop \<longrightarrow> evs2 = [] \<and> ends = [stop_event]) \<and> (length proc < unat (writeBatchSize w) \<longrightarrow> evs1 \<noteq> [] \<or> stop \<or> evs @ ends = [])"
  using assms(1)
proof (induction evs arbitrary: proc w)
  case Nil
  show ?case
  proof (cases "ends = [] \<or> unat (writeBatchSize w) \<le> length proc")
    case True
    then show ?thesis using assms(2)
      by (intro exI [of _ "[]"] exI [of _ "[]"] exI [of _ 0] exI [of _ False] exI [of _ proc]) auto
  next
    case False
    then show ?thesis using assms(2)
      by (intro exI [of _ "[]"] exI [of _ "[]"] exI [of _ 0] exI [of _ True] exI [of _ proc]) auto
  qed
next
  case (Cons ev evs)
  show ?case
  proof (cases "unat (writeBatchSize w) \<le> length proc")
    case True
    then show ?thesis
      by (intro exI [of _ "[]"] exI [of _ "ev # evs"] exI [of _ 0] exI [of _ False] exI [of _ proc]) auto
  next
    case False
    have p: "PackedEventView (ew_packedStr ev) = Inr (ew_packedStr ev)" "ew_packedStr ev \<noteq> []"
      using Cons.prems pending_packed [of ev] pending_nonempty [of ev] PackedEventView_pack by auto
    define dup where "dup = eventExistsById E (wp_db w) (pv_id (ew_packedStr ev))"
    define proc1 where "proc1 = (if dup then proc else proc @ [ev])"
    define w1 where "w1 = w\<lparr>numLive := numLive w - 1, totalDups := totalDups w + (if dup then 1 else 0)\<rparr>"
    have step: "collect_batch E ((ev # evs) @ ends) (proc, w) = collect_batch E (evs @ ends) (proc1, w1)"
      using False p by (simp add: Let_def dup_def proc1_def w1_def)
    have "\<forall>ev \<in> set evs. pending ev" using Cons.prems by simp
    then obtain evs1 evs2 d stop proc' where ih: "evs = evs1 @ evs2"
      "collect_batch E (evs @ ends) (proc1, w1) = Inr (proc', w1\<lparr>writerInbox := (if stop then [] else evs2 @ ends) @ writerInbox w1,
        numLive := numLive w1 - of_nat (length evs1), totalDups := totalDups w1 + of_nat d, shutdownComplete := shutdownComplete w1 \<or> stop\<rparr>)"
      "length proc' + d = length proc1 + length evs1" "set proc' \<subseteq> set proc1 \<union> set evs" "stop \<longrightarrow> evs2 = [] \<and> ends = [stop_event]"
      using Cons.IH [of proc1 w1] by blast
    let ?d = "if dup then Suc d else d"
    have "w1\<lparr>writerInbox := (if stop then [] else evs2 @ ends) @ writerInbox w1, numLive := numLive w1 - of_nat (length evs1),
        totalDups := totalDups w1 + of_nat d, shutdownComplete := shutdownComplete w1 \<or> stop\<rparr> =
      w\<lparr>writerInbox := (if stop then [] else evs2 @ ends) @ writerInbox w, numLive := numLive w - of_nat (length (ev # evs1)),
        totalDups := totalDups w + of_nat ?d, shutdownComplete := shutdownComplete w \<or> stop\<rparr>"
      by (simp add: w1_def algebra_simps)
    moreover have "length proc' + ?d = length proc + length (ev # evs1)" using ih(3) by (simp add: proc1_def)
    moreover have "set proc' \<subseteq> set proc \<union> set (ev # evs)" using ih(4) by (auto simp: proc1_def split: if_splits)
    ultimately show ?thesis using ih(1,2,5) step
      by (intro exI [of _ "ev # evs1"] exI [of _ evs2] exI [of _ ?d] exI [of _ stop] exI [of _ proc']) simp
  qed
qed

lemma count_statuses_ok:
  "count_statuses evs (n, w) = (n + of_nat (length (filter (\<lambda>ev. ew_status ev = Written) evs)),
     w\<lparr>totalWritten := totalWritten w + of_nat (length (filter (\<lambda>ev. ew_status ev = Written) evs)),
       totalDups := totalDups w + of_nat (length (filter (\<lambda>ev. ew_status ev \<noteq> Written) evs))\<rparr>)"
  by (induction evs arbitrary: n w) (simp_all add: algebra_simps)

definition pipeline_inv :: "libs \<Rightarrow> ('t \<Rightarrow> tables) \<Rightarrow> bool \<Rightarrow> 't WriterPipeline \<Rightarrow> bool" where
  "pipeline_inv L view closed w \<longleftrightarrow> queues_ok closed w \<and> counters_ok w \<and> store_inv L (neFilterCache w) (view (wp_db w)) \<and> 0 < writeBatchSize w"

lemmas queue_defs = validator_queue_def waiting_events_def batch_of_def live_events_def

lemma inv_write: "pipeline_inv L view False w \<Longrightarrow> pipeline_inv L view False (pipeline_write v w)"
proof (cases "v = JNull")
  case False
  assume inv: "pipeline_inv L view False w"
  then obtain ms where "validator_queue w = ms" "JNull \<notin> set ms" "validatorRunning w"
    by (auto simp: pipeline_inv_def queues_ok_def split: if_splits)
  then have "\<exists>ms k. validator_queue w @ [v] = ms @ replicate k JNull \<and> JNull \<notin> set ms \<and> k = 0"
    using False by (intro exI [of _ "ms @ [v]"] exI [of _ 0]) auto
  then show ?thesis using inv False
    by (auto simp: pipeline_inv_def queues_ok_def counters_ok_def pipeline_write_def queue_defs)
qed (simp add: pipeline_write_def)

lemma inv_write_event: "pipeline_inv L view False w \<Longrightarrow> pending ev \<Longrightarrow> pipeline_inv L view False (pipeline_write_event ev w)"
proof -
  assume inv: "pipeline_inv L view False w" and ev: "pending ev"
  then have run: "validatorRunning w" "\<not> shutdownComplete w" by (auto simp: pipeline_inv_def queues_ok_def split: if_splits)
  then obtain evs where "waiting_events w = evs" "\<forall>ev \<in> set evs. pending ev" using inv by (auto simp: pipeline_inv_def queues_ok_def)
  then have "\<forall>ev \<in> set (waiting_events (pipeline_write_event ev w)). pending ev"
    using ev by (auto simp: pipeline_write_event_def waiting_events_def)
  then show ?thesis using inv run pending_nonempty [OF ev]
    by (auto simp: pipeline_inv_def queues_ok_def counters_ok_def pipeline_write_event_def queue_defs)
qed

lemma inv_flush: "pipeline_inv L view closed w \<Longrightarrow> pipeline_inv L view True (pipeline_flush w)"
proof -
  assume inv: "pipeline_inv L view closed w"
  then obtain ms k where q: "validator_queue w = ms @ replicate k JNull" "JNull \<notin> set ms" "validatorRunning w \<or> ms = []"
    by (auto simp: pipeline_inv_def queues_ok_def split: if_splits)
  then have "validator_queue (pipeline_flush w) = ms @ replicate (Suc k) JNull"
    by (simp add: pipeline_flush_def validator_queue_def replicate_append_same flip: append_assoc) (simp add: replicate_append_same)
  then have "\<exists>ms k. validator_queue (pipeline_flush w) = ms @ replicate k JNull \<and> JNull \<notin> set ms \<and> 0 < k \<and> (validatorRunning w \<or> ms = [])"
    using q by blast
  then show ?thesis using inv
    by (auto simp: pipeline_inv_def queues_ok_def counters_ok_def pipeline_flush_def queue_defs)
qed

lemma inv_vpop: "pipeline_inv L view closed w \<Longrightarrow> validatorMsgs w = [] \<Longrightarrow> pipeline_inv L view closed (validator_pop w)"
  by (auto simp: pipeline_inv_def queues_ok_def counters_ok_def validator_pop_def queue_defs)

lemma inv_wpop:
  "pipeline_inv L view closed w \<Longrightarrow> writerThread w = Waiting \<Longrightarrow> writerInbox w \<noteq> [] \<Longrightarrow> pipeline_inv L view closed (writer_pop w)"
  by (auto simp: pipeline_inv_def queues_ok_def counters_ok_def writer_pop_def queue_defs)

lemma inv_other: "pipeline_inv L view closed w \<Longrightarrow> store_inv L (neFilterCache w) (view db) \<Longrightarrow> pipeline_inv L view closed (w\<lparr>wp_db := db\<rparr>)"
  by (auto simp: pipeline_inv_def queues_ok_def counters_ok_def queue_defs)

lemma inv_start:
  "store_inv L new_NegentropyFilterCache (view db) \<Longrightarrow> 0 < batch \<Longrightarrow>
   pipeline_inv L view False ((new_WriterPipeline db)\<lparr>writeBatchSize := batch, verifyMsg := vm, verifyTime := vt\<rparr>)"
  by (auto simp: pipeline_inv_def queues_ok_def counters_ok_def new_WriterPipeline_def queue_defs)

lemma replicate_split: "m # xs = ms @ replicate k a \<Longrightarrow> a \<notin> set ms \<Longrightarrow> m = a \<Longrightarrow> ms = [] \<and> xs = replicate (k - 1) a"
  by (cases ms; cases k) auto

lemma inv_vmsg:
  assumes "hex_ok L" and inv: "pipeline_inv L view closed w" and run: "validatorRunning w" and msgs: "validatorMsgs w = m # ms"
  shows "pipeline_inv L view closed (validator_msg L cfg now w)"
proof -
  obtain xs k where q: "validator_queue w = xs @ replicate k JNull" "JNull \<notin> set xs" "0 < k \<longleftrightarrow> closed"
    using inv run by (auto simp: pipeline_inv_def queues_ok_def)
  have vq: "validator_queue w = m # ms @ validatorInbox w" using msgs by (simp add: validator_queue_def)
  have sc: "\<not> shutdownComplete w" using inv run by (auto simp: pipeline_inv_def queues_ok_def)
  obtain evs where we: "waiting_events w = evs" "\<forall>ev \<in> set evs. pending ev" using inv run by (auto simp: pipeline_inv_def queues_ok_def)
  show ?thesis
  proof (cases "m = JNull")
    case True
    have "xs = []" "ms @ validatorInbox w = replicate (k - 1) JNull" using replicate_split [of m _ xs k JNull] q vq True by auto
    moreover have "0 < k" using q(1) vq calculation(1) by (cases k) auto
    ultimately obtain n where n: "validatorInbox w = replicate n JNull" "ms = replicate (length ms) JNull" and closed
      using q(3) by (metis append_eq_conv_conj drop_replicate replicate_add length_replicate take_replicate append_eq_append_conv length_append)
    have "\<not> is_null v \<Longrightarrow> v \<notin> set (m # ms @ validatorInbox w)" for v using n True by (metis Un_iff in_set_replicate is_null.simps(1) set_ConsD set_append)
    then have "filter (\<lambda>v. \<not> is_null v) (validator_queue w) = []" unfolding vq filter_empty_conv by auto
    then show ?thesis using inv run msgs True sc we n(1) \<open>closed\<close>
      by (auto simp: pipeline_inv_def queues_ok_def counters_ok_def validator_msg_def queue_defs Let_def)
  next
    case False
    then obtain ys where ys: "xs = m # ys" using q(1) vq by (cases xs; cases k) auto
    then have q': "ms @ validatorInbox w = ys @ replicate k JNull" "JNull \<notin> set ys" using q vq by auto
    have rest: "\<exists>xs k. ms @ validatorInbox w = xs @ replicate k JNull \<and> JNull \<notin> set xs \<and> (0 < k \<longrightarrow> closed) \<and> (closed \<longrightarrow> 0 < k)"
      using q' q(3) by blast
    show ?thesis
    proof (cases "parseAndVerifyEvent L cfg now m (verifyMsg w) (verifyTime w)")
      case (Inl e)
      then show ?thesis using inv run msgs False rest
        by (auto simp: pipeline_inv_def queues_ok_def counters_ok_def validator_msg_def queue_defs Let_def)
    next
      case (Inr x)
      then obtain p j where x: "x = (p, j)" by (cases x)
      have p: "pending (mkEventToWrite p j 0 [])" using parsed_pending [OF assms(1)] Inr x by blast
      have "\<exists>evs. waiting_events w @ [mkEventToWrite p j 0 []] = evs \<and> (\<forall>ev \<in> set evs. pending ev)" using we p by simp
      then show ?thesis using inv run msgs False rest Inr x sc pending_nonempty [OF p]
        by (auto simp: pipeline_inv_def queues_ok_def counters_ok_def validator_msg_def queue_defs Let_def)
    qed
  qed
qed

text \<open>The events a round has taken, when the whole queue ends with the stop event or not at all.\<close>

lemma queue_split:
  assumes "evs @ ys = all @ st" and "\<forall>ev \<in> set all. pending ev" and "st = [] \<or> st = [stop_event]"
  obtains good ends more where "evs = good @ ends" "\<forall>ev \<in> set (good @ more). pending ev" "ends @ ys = more @ st"
    "ends = [] \<or> ends = [stop_event] \<and> ys = [] \<and> st = [stop_event]"
  using assms(1)
proof (elim append_eq_append_conv2 [THEN iffD1, elim_format] exE disjE conjE)
  fix us assume us: "evs @ us = all" "ys = us @ st"
  show thesis by (rule that [of evs "[]" us]) (use us assms(2) in auto)
next
  fix us assume us: "evs = all @ us" "us @ ys = st"
  show thesis by (rule that [of all us "[]"]) (use us assms(2,3) in \<open>auto simp: append_eq_Cons_conv\<close>)
qed

lemma inv_collect:
  assumes inv: "pipeline_inv L view closed w" and pc: "writerThread w = Popped evs"
  shows "\<exists>w'. writer_collect E evs w = Inr w' \<and> pipeline_inv L view closed w' \<and> length (waiting_events w') < length (waiting_events w) \<and>
    validator_queue w' = validator_queue w"
proof -
  have sc: "\<not> shutdownComplete w" "evs \<noteq> []" using inv pc by (auto simp: pipeline_inv_def queues_ok_def)
  have we: "waiting_events w = evs @ writerInbox w" using pc by (simp add: waiting_events_def)
  let ?st = "if validatorRunning w then [] else [stop_event]"
  obtain all where all: "evs @ writerInbox w = all @ ?st" "\<forall>ev \<in> set all. pending ev"
    using inv sc we by (auto simp: pipeline_inv_def queues_ok_def)
  have st: "?st = [] \<or> ?st = [stop_event]" by simp
  obtain good ends more where g: "evs = good @ ends" "\<forall>ev \<in> set (good @ more). pending ev" "ends @ writerInbox w = more @ ?st"
    "ends = [] \<or> ends = [stop_event] \<and> writerInbox w = [] \<and> ?st = [stop_event]"
    by (rule queue_split [OF all st])
  have g2: "\<forall>ev \<in> set good. pending ev" "ends = [] \<or> ends = [stop_event]" using g(2,4) by auto
  obtain evs1 evs2 d stop proc where c: "good = evs1 @ evs2"
    "collect_batch E (good @ ends) ([], w) = Inr (proc, w\<lparr>writerInbox := (if stop then [] else evs2 @ ends) @ writerInbox w,
      numLive := numLive w - of_nat (length evs1), totalDups := totalDups w + of_nat d, shutdownComplete := shutdownComplete w \<or> stop\<rparr>)"
    "length proc + d = length ([] :: EventToWrite list) + length evs1" "set proc \<subseteq> set [] \<union> set good" "stop \<longrightarrow> evs2 = [] \<and> ends = [stop_event]"
    "length ([] :: EventToWrite list) < unat (writeBatchSize w) \<longrightarrow> evs1 \<noteq> [] \<or> stop \<or> good @ ends = []"
    using collect_batch_ok [OF g2, of E "[]" w] by blast
  let ?w = "w\<lparr>writerInbox := (if stop then [] else evs2 @ ends) @ writerInbox w,
      numLive := numLive w - of_nat (length evs1), totalDups := totalDups w + of_nat d, shutdownComplete := stop, writerThread := Collected proc\<rparr>"
  have run: "writer_collect E evs w = Inr ?w" using c(2) sc(1) g(1) by (simp add: writer_collect_def)
  have prog: "evs1 \<noteq> [] \<or> stop" using c(6) inv sc(2) g(1) by (auto simp: pipeline_inv_def unat_gt_0)
  have we': "waiting_events ?w = (if stop then [] else evs2 @ ends @ writerInbox w)" and run': "stop \<longrightarrow> \<not> validatorRunning w \<and> writerInbox w = []"
    using c(5) g(4) by (auto simp: waiting_events_def split: if_splits)
  have split: "waiting_events w = evs1 @ evs2 @ ends @ writerInbox w" using we g(1) c(1) by simp
  have less: "length (waiting_events ?w) < length (waiting_events w)" using prog c(5) by (auto simp: we' split)
  have p1: "\<forall>ev \<in> set evs1. pending ev" using c(1) g2 by simp
  have live: "live_events w = length evs1 + live_events ?w"
    unfolding live_events_def we' split using filter_pending [OF p1] c(5) run' by (auto simp: validator_queue_def)
  have q: "\<exists>evs. waiting_events ?w = evs @ (if validatorRunning w \<or> stop then [] else [stop_event]) \<and> (\<forall>ev \<in> set evs. pending ev)"
    using g(2,3) c(1) by (intro exI [of _ "if stop then [] else evs2 @ more"]) (simp add: we')
  have b: "\<forall>ev \<in> set proc. pending ev" using c(4) g2 by auto
  have "queues_ok closed ?w"
    using inv q b pc run' we' by (auto simp: pipeline_inv_def queues_ok_def validator_queue_def batch_of_def)
  moreover have "counters_ok ?w"
  proof -
    have "of_nat (length proc) + of_nat d = (of_nat (length evs1) :: u64)" using arg_cong [OF c(3), of "of_nat :: nat \<Rightarrow> u64"] by simp
    then have "(of_nat (length evs1) :: u64) = of_nat (length proc) + of_nat d" by simp
    then show ?thesis using inv live pc by (simp add: pipeline_inv_def counters_ok_def batch_of_def algebra_simps)
  qed
  ultimately have "pipeline_inv L view closed ?w" using inv by (simp add: pipeline_inv_def)
  then show ?thesis using run less by (intro exI [of _ ?w]) (simp add: validator_queue_def)
qed

lemma inv_commit:
  assumes E: "golpe_env E view" and L: "json_ok L" and txn: "txn_ok view txn_rw" "txn_ok view commit"
    and inv: "pipeline_inv L view closed w" and pc: "writerThread w = Collected evs" and r: "writer_commit E L txn_rw commit evs w = Inr w'"
  shows "pipeline_inv L view closed w'" and "waiting_events w' = waiting_events w" and "validator_queue w' = validator_queue w"
    and "validatorInbox w' = validatorInbox w" and "writerInbox w' = writerInbox w" and "batch_of w' = []" and "\<forall>evs. writerThread w' \<noteq> Collected evs"
proof -
  obtain w1 where c: "pipeline_commit E L txn_rw commit evs w = Inr w1"
    and w': "w' = (if shutdownComplete w1 then w1\<lparr>flushInbox := flushInbox w1 @ [True], writerThread := Returned\<rparr> else w1\<lparr>writerThread := Waiting\<rparr>)"
    using r by (auto simp: writer_commit_def split: if_splits)
  have evs: "\<forall>ev \<in> set evs. pending ev" using inv pc by (simp add: pipeline_inv_def queues_ok_def batch_of_def)
  obtain db cache oc a b where w1: "w1 = w\<lparr>wp_db := db, neFilterCache := cache, totalWritten := totalWritten w + of_nat a,
      totalDups := totalDups w + of_nat b, onCommit := onCommit w @ oc\<rparr>"
    and s: "store_inv L cache (view db)" and n: "a + b = length evs" "sum_list oc = of_nat a"
  proof (cases "evs = []")
    case True
    then show thesis using that [where db = "wp_db w" and cache = "neFilterCache w" and oc = "[]" and a = 0 and b = 0] c inv by (simp add: pipeline_commit_def pipeline_inv_def)
  next
    case False
    obtain t cache evs' t' db where x: "txn_rw (wp_db w) = Inr t" "writeEvents E L t (neFilterCache w) evs = Inr (cache, evs', t')" "commit t' = Inr db"
      "w1 = (let (written, w) = count_statuses evs' (0, w\<lparr>wp_db := db, neFilterCache := cache\<rparr>) in w\<lparr>onCommit := onCommit w @ [written]\<rparr>)"
      using c False by (auto simp: pipeline_commit_def count_statuses_ok)
    have v: "view t = view (wp_db w)" "view db = view t'" using txn x by (auto simp: txn_ok_def)
    have si: "store_inv L (neFilterCache w) (view t)" using inv v by (simp add: pipeline_inv_def)
    note ok = golpe_env.writeEvents_ok [OF E L si evs x(2)]
    let ?a = "length (filter (\<lambda>ev. ew_status ev = Written) evs')" and ?b = "length (filter (\<lambda>ev. ew_status ev \<noteq> Written) evs')"
    have "length evs' = length evs" using list_all2_lengthD [OF ok(2)] by simp
    then have "?a + ?b = length evs" using sum_length_filter_compl [of "\<lambda>ev. ew_status ev = Written" evs'] by simp
    then show thesis using that [where db = db and cache = cache and oc = "[of_nat ?a]" and a = ?a and b = ?b] ok(1) v(2) x(4) by (simp add: count_statuses_ok)
  qed
  show e: "waiting_events w' = waiting_events w" "validator_queue w' = validator_queue w" "validatorInbox w' = validatorInbox w"
    "writerInbox w' = writerInbox w" "batch_of w' = []" "\<forall>evs. writerThread w' \<noteq> Collected evs"
    using pc by (simp_all add: w' w1 waiting_events_def validator_queue_def batch_of_def)
  have "queues_ok closed w'" using inv pc e
    by (auto simp: pipeline_inv_def queues_ok_def w' w1)
  moreover have "counters_ok w'"
  proof -
    have "(of_nat (length evs) :: u64) = of_nat a + of_nat b" using n(1) by (metis of_nat_add)
    moreover have "live_events w' = live_events w" by (simp add: live_events_def e)
    ultimately show ?thesis using inv pc n(2) e(5)
      by (simp add: pipeline_inv_def counters_ok_def w' w1 batch_of_def algebra_simps)
  qed
  ultimately show "pipeline_inv L view closed w'" using s inv by (simp add: pipeline_inv_def w' w1)
qed

lemma step_inv:
  assumes "golpe_env E view" and "json_ok L" and "txn_ok view txn_rw" and "txn_ok view commit" and hex: "hex_ok L"
    and inv: "pipeline_inv L view closed w" and step: "pipeline_step E L cfg txn_rw commit w (Inr w')"
  shows "pipeline_inv L view closed w'"
  using step
proof (cases rule: pipeline_step.cases)
  case vpop
  then show ?thesis using inv_vpop inv by blast
next
  case (vmsg now)
  then show ?thesis using inv_vmsg [OF hex inv] by (auto simp: neq_Nil_conv)
next
  case wpop
  then show ?thesis using inv_wpop inv by blast
next
  case (wcollect evs)
  then obtain w1 where "writer_collect E evs w = Inr w1" "pipeline_inv L view closed w1" using inv_collect [OF inv] by blast
  then show ?thesis using wcollect(1) by simp
next
  case (wcommit evs)
  have "writer_commit E L txn_rw commit evs w = Inr w'" using wcommit(1) by simp
  then show ?thesis using inv_commit(1) [OF assms(1-4) inv wcommit(2)] by blast
qed

lemma run_inv:
  assumes "golpe_env E view" and "json_ok L" and "txn_ok view txn_rw" and "txn_ok view commit" and "hex_ok L"
    and "pipeline_run E view L cfg txn_rw commit closed w"
  shows "pipeline_inv L view closed w"
  using assms(6)
proof induction
  case (run_step closed w w')
  then show ?case using step_inv [OF assms(1-5)] by blast
qed (auto intro: inv_start inv_write inv_write_event inv_flush inv_other)

section \<open>Every schedule drains the pipeline\<close>

definition pipeline_rank :: "'t WriterPipeline \<Rightarrow> nat \<times> nat" where
  "pipeline_rank w = (2 * length (validator_queue w) + length (waiting_events w),
     length (validatorInbox w) + length (writerInbox w) + (case writerThread w of Collected _ \<Rightarrow> 1 | _ \<Rightarrow> 0))"

text \<open>
  Whatever the order in which the threads run and whatever other processes write meanwhile, the call of \<open>flush\<close> returns, unless a
  commit throws.
\<close>

inductive flush_inevitable ::
  "'t env \<Rightarrow> ('t \<Rightarrow> tables) \<Rightarrow> libs \<Rightarrow> cfg \<Rightarrow> ('t \<Rightarrow> 't result) \<Rightarrow> ('t \<Rightarrow> 't result) \<Rightarrow> 't WriterPipeline \<Rightarrow> bool"
  for E view L cfg txn_rw commit where
  returns: "flush_returns w \<Longrightarrow> flush_inevitable E view L cfg txn_rw commit w"
| goes_on: "\<exists>r. pipeline_step E L cfg txn_rw commit w r \<Longrightarrow>
    \<forall>db e. store_inv L (neFilterCache w) (view db) \<and> pipeline_step E L cfg txn_rw commit (w\<lparr>wp_db := db\<rparr>) (Inl e) \<longrightarrow>
      (\<exists>evs. writerThread w = Collected evs) \<Longrightarrow>
    \<forall>db w'. store_inv L (neFilterCache w) (view db) \<and> pipeline_step E L cfg txn_rw commit (w\<lparr>wp_db := db\<rparr>) (Inr w') \<longrightarrow>
      flush_inevitable E view L cfg txn_rw commit w' \<Longrightarrow>
    flush_inevitable E view L cfg txn_rw commit w"

lemma step_enabled:
  assumes inv: "pipeline_inv L view True w" and "\<not> flush_returns w"
  shows "\<exists>r. pipeline_step E L cfg txn_rw commit w r"
proof (cases "writerThread w")
  case Waiting
  show ?thesis
  proof (cases "writerInbox w = []")
    case True
    have sc: "\<not> shutdownComplete w" using inv Waiting by (auto simp: pipeline_inv_def queues_ok_def)
    have "waiting_events w = []" using True Waiting by (simp add: waiting_events_def)
    then have "validatorRunning w" "validator_queue w \<noteq> []" using inv sc by (auto simp: pipeline_inv_def queues_ok_def split: if_splits)
    then show ?thesis using vpop vmsg by (cases "validatorMsgs w = []") (fastforce simp: validator_queue_def)+
  qed (use Waiting wpop in blast)
next
  case Returned
  then show ?thesis using assms by (auto simp: pipeline_inv_def queues_ok_def flush_returns_def)
qed (use wcollect wcommit in blast)+

lemma vmsg_rank: "validatorMsgs w \<noteq> [] \<Longrightarrow> (pipeline_rank (validator_msg L cfg now w), pipeline_rank w) \<in> less_than <*lex*> less_than"
proof -
  assume "validatorMsgs w \<noteq> []"
  then obtain m ms where m: "validatorMsgs w = m # ms" by (auto simp: neq_Nil_conv)
  have w: "writerThread (validator_msg L cfg now w) = writerThread w" "validatorInbox (validator_msg L cfg now w) = validatorInbox w"
    "length (validatorMsgs (validator_msg L cfg now w)) \<le> length ms" "length (writerInbox (validator_msg L cfg now w)) \<le> Suc (length (writerInbox w))"
    using m by (cases "m = JNull"; cases "parseAndVerifyEvent L cfg now m (verifyMsg w) (verifyTime w)"; auto simp: validator_msg_def Let_def)+
  then show ?thesis using m by (auto simp: pipeline_rank_def validator_queue_def waiting_events_def)
qed

lemma step_rank:
  assumes "golpe_env E view" and "json_ok L" and "txn_ok view txn_rw" and "txn_ok view commit" and inv: "pipeline_inv L view closed w"
    and step: "pipeline_step E L cfg txn_rw commit w (Inr w')"
  shows "(pipeline_rank w', pipeline_rank w) \<in> less_than <*lex*> less_than"
  using step
proof (cases rule: pipeline_step.cases)
  case vpop
  then show ?thesis by (simp add: pipeline_rank_def validator_pop_def validator_queue_def waiting_events_def)
next
  case (vmsg now)
  then show ?thesis using vmsg_rank by blast
next
  case wpop
  then show ?thesis by (simp add: pipeline_rank_def writer_pop_def validator_queue_def waiting_events_def)
next
  case (wcollect evs)
  then show ?thesis using inv_collect [OF inv wcollect(2), of E] by (auto simp: pipeline_rank_def)
next
  case (wcommit evs)
  have r: "writer_commit E L txn_rw commit evs w = Inr w'" using wcommit by simp
  show ?thesis using inv_commit [OF assms(1-4) inv wcommit(2) r] wcommit(2) by (auto simp: pipeline_rank_def split: writer_pc.split)
qed

lemma step_throws:
  assumes "pipeline_inv L view closed w" and "pipeline_step E L cfg txn_rw commit w (Inl e)"
  shows "\<exists>evs. writerThread w = Collected evs"
  using assms(2) by (elim pipeline_stepE) (use inv_collect [OF assms(1), where E = E] in fastforce)+

section \<open>Properties\<close>

text \<open>C12: Once the client has called \<open>flush\<close> the call returns: in whatever order the two threads run, whatever other processes
  write meanwhile and however the clock goes, finitely many steps later the writer has reported back, unless a commit
  throws.  In particular no schedule deadlocks.\<close>

theorem pipeline_flushes:
  assumes "golpe_env E view" and "json_ok L" and "hex_ok L" and "txn_ok view txn_rw" and "txn_ok view commit"
    and "pipeline_run E view L cfg txn_rw commit True w"
  shows "flush_inevitable E view L cfg txn_rw commit w"
proof -
  have "pipeline_inv L view True w \<Longrightarrow> ?thesis"
  proof (induction "pipeline_rank w" arbitrary: w rule: wf_induct_rule [OF wf_lex_prod [OF wf_less_than wf_less_than]])
    case 1
    show ?case
    proof (cases "flush_returns w")
      case False
      have other: "pipeline_inv L view True (w\<lparr>wp_db := db\<rparr>)" "pipeline_rank (w\<lparr>wp_db := db\<rparr>) = pipeline_rank w"
        if "store_inv L (neFilterCache w) (view db)" for db
        using inv_other [OF 1(2) that] by (simp_all add: pipeline_rank_def validator_queue_def waiting_events_def)
      have err: "\<exists>evs. writerThread w = Collected evs"
        if "store_inv L (neFilterCache w) (view db)" "pipeline_step E L cfg txn_rw commit (w\<lparr>wp_db := db\<rparr>) (Inl e)" for db e
        using step_throws [OF other(1) [OF that(1)] that(2)] by simp
      have ok: "flush_inevitable E view L cfg txn_rw commit w'"
        if "store_inv L (neFilterCache w) (view db)" "pipeline_step E L cfg txn_rw commit (w\<lparr>wp_db := db\<rparr>) (Inr w')" for db w'
        using 1(1) step_rank [OF assms(1,2,4,5) other(1) that(2)] other(2) step_inv [OF assms(1,2,4,5,3) other(1) that(2)] that(1) by simp
      show ?thesis using step_enabled [OF 1(2) False] err ok by (blast intro: goes_on)
    qed (rule returns)
  qed
  then show ?thesis using run_inv [OF assms(1,2,4,5,3,6)] by blast
qed

text \<open>C13: At every moment each event that was handed to the pipeline is counted once: as rejected, written, duplicate, on its
  way, or in the batch that is being committed; the numbers reported to \<open>onCommit\<close> add up to what was written, and the database keeps its
  invariant.  When \<open>flush\<close> returns nothing is on its way any more and the three totals add up to the number of events handed over.\<close>

theorem pipeline_accounts:
  assumes "golpe_env E view" and "json_ok L" and "hex_ok L" and "txn_ok view txn_rw" and "txn_ok view commit"
    and "pipeline_run E view L cfg txn_rw commit closed w"
  shows "totalProcessed w = totalRejected w + totalWritten w + totalDups w + numLive w + of_nat (length (batch_of w)) \<and>
    numLive w = of_nat (live_events w) \<and> sum_list (onCommit w) = totalWritten w \<and> store_inv L (neFilterCache w) (view (wp_db w)) \<and>
    (flush_returns w \<longrightarrow> live_events w = 0 \<and> batch_of w = [] \<and> totalProcessed w = totalRejected w + totalWritten w + totalDups w)"
proof -
  have inv: "pipeline_inv L view closed w" by (rule run_inv [OF assms(1,2,4,5,3,6)])
  then have *: "totalProcessed w = totalRejected w + totalWritten w + totalDups w + numLive w + of_nat (length (batch_of w))"
    "numLive w = of_nat (live_events w)" "sum_list (onCommit w) = totalWritten w" "store_inv L (neFilterCache w) (view (wp_db w))"
    by (simp_all add: pipeline_inv_def counters_ok_def)
  have "live_events w = 0 \<and> batch_of w = []" if "flush_returns w"
  proof -
    have pc: "writerThread w = Returned" "shutdownComplete w" using inv that by (auto simp: pipeline_inv_def queues_ok_def flush_returns_def)
    then have "waiting_events w = []" "\<not> validatorRunning w" using inv by (auto simp: pipeline_inv_def queues_ok_def)
    moreover obtain k where "validator_queue w = replicate k JNull" using inv calculation(2) by (auto simp: pipeline_inv_def queues_ok_def)
    ultimately show ?thesis using pc by (simp add: live_events_def batch_of_def)
  qed
  then show ?thesis using * by simp
qed

section \<open>Witnesses\<close>

text \<open>A client that hands over one value and calls \<open>flush\<close>.\<close>

definition sample_pipeline :: "json \<Rightarrow> tables WriterPipeline" where
  "sample_pipeline v = pipeline_flush (pipeline_write v ((new_WriterPipeline sample_tables)\<lparr>writeBatchSize := 10, verifyMsg := True, verifyTime := False\<rparr>))"

lemma sample_pipeline_run: "pipeline_run mem_env (\<lambda>T. T) sample_libs default_cfg Inr Inr True (sample_pipeline v)"
  unfolding sample_pipeline_def by (rule run_flush [OF run_write [OF run_start]]) simp_all

lemma txn_ok_Inr: "txn_ok view Inr"
  by (simp add: txn_ok_def)

theorem pipeline_flushes_witness: "flush_inevitable mem_env (\<lambda>T. T) sample_libs default_cfg Inr Inr (sample_pipeline sample_json)"
  by (rule pipeline_flushes [OF mem.golpe_env_axioms json_ok_sample hex_ok_sample txn_ok_Inr txn_ok_Inr sample_pipeline_run])

theorem pipeline_accounts_witness:
  "\<exists>w. pipeline_run mem_env (\<lambda>T. T) sample_libs default_cfg Inr Inr True w \<and> flush_returns w \<and> totalRejected w = 1 \<and>
     totalProcessed w = totalRejected w + totalWritten w + totalDups w"
proof -
  let ?run = "pipeline_run mem_env (\<lambda>T. T) sample_libs default_cfg Inr Inr True"
  let ?step = "pipeline_step mem_env sample_libs default_cfg Inr Inr"
  define w1 where "w1 = validator_pop (sample_pipeline (JBool True))"
  define w2 where "w2 = validator_msg sample_libs default_cfg 0 w1"
  define w3 where "w3 = validator_msg sample_libs default_cfg 0 w2"
  define w4 where "w4 = writer_pop w3"
  define w5 where "w5 = w4\<lparr>shutdownComplete := True, writerThread := Collected []\<rparr>"
  define w6 where "w6 = w5\<lparr>flushInbox := [True], writerThread := Returned\<rparr>"
  note defs = sample_pipeline_def new_WriterPipeline_def pipeline_write_def pipeline_flush_def w1_def w2_def w3_def w4_def w5_def w6_def
    validator_pop_def validator_msg_def writer_pop_def parseAndVerifyEvent_def
  have r1: "?run w1" unfolding w1_def by (rule run_step [OF sample_pipeline_run vpop]) (simp_all add: defs)
  have r2: "?run w2" unfolding w2_def by (rule run_step [OF r1 vmsg]) (simp_all add: defs)
  have r3: "?run w3" unfolding w3_def by (rule run_step [OF r2 vmsg]) (simp_all add: defs)
  have r4: "?run w4" unfolding w4_def by (rule run_step [OF r3 wpop]) (simp_all add: defs)
  have "writerThread w4 = Popped [stop_event]" "writer_collect mem_env [stop_event] w4 = Inr w5" by (simp_all add: defs writer_collect_def)
  then have "?step w4 (Inr w5)" by (metis wcollect)
  then have r5: "?run w5" by (rule run_step [OF r4])
  have "writerThread w5 = Collected []" "writer_commit mem_env sample_libs Inr Inr [] w5 = Inr w6" by (simp_all add: defs writer_commit_def pipeline_commit_def)
  then have "?step w5 (Inr w6)" by (metis wcommit)
  then have r6: "?run w6" by (rule run_step [OF r5])
  have "flush_returns w6" "totalRejected w6 = 1" by (simp_all add: defs flush_returns_def)
  then show ?thesis
    using r6 pipeline_accounts [OF mem.golpe_env_axioms json_ok_sample hex_ok_sample txn_ok_Inr txn_ok_Inr r6] by blast
qed

end
