(* ===== verification/ExportImport.thy ===== *)
theory ExportImport
  imports WriterPipeline
begin

text \<open>
  The commands \<open>info\<close>, \<open>export\<close> and \<open>import\<close> (\<open>src/apps/dbutils/cmd_info.cpp\<close>, \<open>cmd_export.cpp\<close>, \<open>cmd_import.cpp\<close>, and \<open>getDBVersion\<close> of
  \<open>src/misc.cpp\<close>).  A command is a function of its parsed arguments.  What it prints is the list of lines it returns; lines that are
  printed before an exception are not visible in the model.  A line comes without its newline; that the last character of a file that does not end
  with one is cut is outside the model.  The CPU is little-endian, so that the check for it, with which the fried variants of \<open>export\<close> and \<open>import\<close> begin, passes.
\<close>

section \<open>Export\<close>

definition getDBVersion :: "'t env \<Rightarrow> 't \<Rightarrow> u64" where
  "getDBVersion E txn = (case lookup_Meta E txn of Some s \<Rightarrow> dbVersion s | None \<Rightarrow> 0)"

definition fried_sep :: string where
  "fried_sep = '',\"fried\":\"''"

text \<open>The line of one event.  Shortening an empty string by one throws.\<close>

definition export_line :: "'t env \<Rightarrow> libs \<Rightarrow> (u32 \<Rightarrow> bytes \<Rightarrow> bytes result) \<Rightarrow> bool \<Rightarrow> 't \<Rightarrow> u64 \<Rightarrow> string result" where
  "export_line E L decomp fried txn levId =
     rbind (getEventJson E decomp txn levId) (\<lambda>json.
       if fried then
         rbind (lookupEventByLevId E txn levId) (\<lambda>(_, buf).
           if json = [] then Inl OutOfRange
           else Inr (butlast json @ fried_sep @ to_hex L buf @ ''\"}''))
       else Inr json)"

definition cmd_export ::
  "'t env \<Rightarrow> libs \<Rightarrow> (u32 \<Rightarrow> bytes \<Rightarrow> bytes result) \<Rightarrow> 't \<Rightarrow> u64 \<Rightarrow> u64 \<Rightarrow> bool \<Rightarrow> bool \<Rightarrow> string list result" where
  "cmd_export E L decomp txn since until reverse fried =
     (let dbVersion = getDBVersion E txn in
      if dbVersion = 0 then Inl (Herr ''migration from DB version 0 not supported by this version of strfry'')
      else if fried \<and> dbVersion < 3 then Inl (Herr ''can't export old DB version with --fried: please downgrade to 0.9.7'')
      else
        let start = (if reverse then until else since); startDup = (if reverse then MAX_U64 else 0) in
        rmap (\<lambda>(k, v). export_line E L decomp fried txn v)
          (takeWhile (\<lambda>(k, v). if reverse then \<not> from_sv64 k < since else \<not> from_sv64 k > until)
            (generic_foreachFull E txn Event_created_at (to_sv64 start) startDup reverse)))"

section \<open>Import\<close>

definition ends_with :: "string \<Rightarrow> string \<Rightarrow> bool" where
  "ends_with s t \<longleftrightarrow> length t \<le> length s \<and> drop (length s - length t) s = t"

text \<open>The loop that looks for the quote before the last word of the line.\<close>

fun fried_quote :: "string \<Rightarrow> nat \<Rightarrow> nat" where
  "fried_quote line 0 = 0"
| "fried_quote line (Suc i) = (if line ! Suc i = CHR 0x22 then Suc i else fried_quote line i)"

definition parseFried :: "libs \<Rightarrow> string \<Rightarrow> EventToWrite result" where
  "parseFried L line =
     (if length line < 64 then Inl (Herr ''fried too small'')
      else if \<not> ends_with line ''\"}'' then Inl (Herr ''fried parse error'')
      else
        let i = fried_quote line (length line - 3) in
        if \<not> ends_with (take (i + 1) line) fried_sep then Inl (Herr ''fried parse error'')
        else
          rbind (from_hex L (take (length line - i - 3) (drop (i + 1) line))) (\<lambda>packed.
            Inr (mkEventToWrite packed (take (i - 8) (line[i - 9 := CHR ''}''])) 0 [])))"

text \<open>One line of the input.  A line that does not parse is skipped.\<close>

definition import_line :: "libs \<Rightarrow> bool \<Rightarrow> string \<Rightarrow> 't WriterPipeline \<Rightarrow> 't WriterPipeline" where
  "import_line L fried line w =
     (if fried then
        (case parseFried L line of
           Inl e \<Rightarrow> w
         | Inr ev \<Rightarrow> pipeline_write_event ev w)
      else
        (case json_from_string L line of
           Inl e \<Rightarrow> w
         | Inr evJson \<Rightarrow> pipeline_write evJson w))"

definition import_start :: "bool \<Rightarrow> bool \<Rightarrow> u64 option \<Rightarrow> 't \<Rightarrow> 't WriterPipeline" where
  "import_start noVerify fried writeBatch db =
     (new_WriterPipeline db)\<lparr>writeBatchSize := (case writeBatch of Some n \<Rightarrow> n | None \<Rightarrow> if fried then 100000 else 10000),
       verifyMsg := \<not> noVerify, verifyTime := False\<rparr>"

section \<open>Lines that can be read back\<close>

lemma fried_quote_eq:
  "0 < j \<Longrightarrow> j \<le> n \<Longrightarrow> line ! j = CHR 0x22 \<Longrightarrow> \<forall>k. j < k \<and> k \<le> n \<longrightarrow> line ! k \<noteq> CHR 0x22 \<Longrightarrow> fried_quote line n = j"
proof (induction n)
  case (Suc n)
  then show ?case by (cases "j = Suc n") auto
qed simp

lemma parseFried_line:
  assumes line: "line = body @ fried_sep @ hex @ ''\"}''" and quote: "CHR 0x22 \<notin> set hex" and len: "64 \<le> length line"
  shows "parseFried L line = rbind (from_hex L hex) (\<lambda>packed. Inr (mkEventToWrite packed (body @ ''}'') 0 []))"
proof -
  let ?i = "length body + 9"
  have sep: "length fried_sep = 10" "fried_sep ! 9 = CHR 0x22" by (simp_all add: fried_sep_def)
  have n: "length line = length body + length hex + 12" using line sep by simp
  have pre: "take (?i + 1) line = body @ fried_sep" "drop (?i + 1) line = hex @ ''\"}''" using line sep by simp_all
  have ends: "ends_with line ''\"}''" "ends_with (body @ fried_sep) fried_sep" using line by (simp_all add: ends_with_def)
  have "fried_quote line (length line - 3) = ?i"
  proof (rule fried_quote_eq)
    show "line ! ?i = CHR 0x22" using sep by (simp add: line nth_append)
    show "\<forall>k. ?i < k \<and> k \<le> length line - 3 \<longrightarrow> line ! k \<noteq> CHR 0x22"
    proof (intro allI impI)
      fix k assume "?i < k \<and> k \<le> length line - 3"
      then obtain m where k: "k = length (body @ fried_sep) + m" "m < length hex" using n sep less_iff_Suc_add [of ?i k] by auto
      then have "line ! k = hex ! m" using nth_append_length_plus [of "body @ fried_sep" "hex @ ''\"}''" m] by (simp add: line nth_append)
      then show "line ! k \<noteq> CHR 0x22" using quote nth_mem [OF k(2)] by auto
    qed
  qed (use n in simp_all)
  moreover have "take (length line - ?i - 3) (drop (?i + 1) line) = hex" using n pre(2) by simp
  moreover have "take (?i - 8) (line[?i - 9 := CHR ''}'']) = body @ ''}''"
    using sep by (simp add: line list_update_append take_Suc_conv_app_nth fried_sep_def)
  ultimately show ?thesis using len ends pre(1) by (simp add: parseFried_def Let_def)
qed

text \<open>What the library's hex coding promises.\<close>

definition hex_inverse :: "libs \<Rightarrow> bool" where
  "hex_inverse L \<longleftrightarrow> (\<forall>b. from_hex L (to_hex L b) = Inr b \<and> length (to_hex L b) = 2 * length b \<and> CHR 0x22 \<notin> set (to_hex L b))"

section \<open>Properties\<close>

text \<open>C36: What \<open>export --fried\<close> prints for a stored event \<open>import --fried\<close> reads back: the same packed event with the same JSON text, if
  the text ends with a brace.\<close>

theorem fried_roundtrip:
  assumes "golpe_env E view" and "wf_store (view txn)" and "(levId, e) \<in> set (events_of (view txn))"
    and "stored_json decomp (view txn) levId = Some (body @ ''}'')" and "hex_inverse L"
  shows "\<exists>line. export_line E L decomp True txn levId = Inr line \<and> parseFried L line = Inr (mkEventToWrite (pack e) (body @ ''}'') 0 [])"
proof -
  have wf: "wf_event e" and p: "(levId, pack e) \<in> set (t_events (view txn))" using events_of_packed [OF assms(2)] assms(3) by (auto simp: events_of_def)
  have tab: "tables_ok (view txn)" using assms(2) by simp
  have "lookup_Event E txn levId = Some (pack e)" using golpe_env.lookup_Event [OF assms(1) tab] map_of_events [OF tab] p by simp
  then have look: "lookupEventByLevId E txn levId = Inr (levId, pack e)" by (simp add: lookupEventByLevId_def)
  have json: "getEventJson E decomp txn levId = Inr (body @ ''}'')"
    using assms(4) golpe_env.payload_get [OF assms(1)] by (auto simp: getEventJson_def stored_json_def split: option.splits sum.splits)
  let ?line = "body @ fried_sep @ to_hex L (pack e) @ ''\"}''"
  have line: "export_line E L decomp True txn levId = Inr ?line" using look json by (simp add: export_line_def)
  have "88 \<le> length (pack e)" using wf by (simp add: pack_def wf_event_def)
  then have "64 \<le> length ?line" using assms(5) by (simp add: hex_inverse_def)
  then have "parseFried L ?line = Inr (mkEventToWrite (pack e) (body @ ''}'') 0 [])"
    using parseFried_line [of ?line body "to_hex L (pack e)" L] assms(5) by (simp add: hex_inverse_def)
  then show ?thesis using line by blast
qed

text \<open>A line whose packed event is empty is taken for the event that stops the writer: what follows it in the inbox is dropped.\<close>

lemma empty_fried_stops:
  assumes "line = body @ fried_sep @ ''\"}''" and "64 \<le> length line" and "from_hex L [] = Inr []" and "0 < writeBatchSize w"
  shows "\<exists>ev. parseFried L line = Inr ev \<and> collect_batch E (ev # newEvents) ([], w) = Inr ([], w\<lparr>shutdownComplete := True\<rparr>)"
  using parseFried_line [of line body "[]" L] assms by (simp add: mkEventToWrite_def unat_eq_zero)

text \<open>An import is a client of the pipeline.\<close>

lemma import_line_run:
  assumes "pipeline_run E view L cfg txn_rw commit False w" and "fried \<Longrightarrow> \<forall>ev. parseFried L line = Inr ev \<longrightarrow> pending ev"
  shows "pipeline_run E view L cfg txn_rw commit False (import_line L fried line w)"
  using assms by (auto simp: import_line_def intro: run_write run_write_event split: sum.split)

section \<open>Witness\<close>

definition fried_store :: tables where
  "fried_store = \<lparr>t_events = [(3, pack sample_event)], t_payload = [3 \<mapsto> CHR 0x00 # ''{}''], t_meta = None, t_negFilters = [], t_trees = (\<lambda>_. {})\<rparr>"

lemma hex_digits: "n < 16 \<Longrightarrow> hex_digit (hex_char n) = Inr n \<and> hex_char n \<noteq> CHR 0x22"
proof -
  assume n: "n < 16"
  have "of_char (hex_char n) = (if n < 10 then 48 + n else 87 + n :: nat)" using n by (simp add: hex_char_def)
  moreover have "hex_char n = c \<longleftrightarrow> of_char (hex_char n) = (of_char c :: nat)" for c by (metis of_char_eq_iff)
  ultimately show ?thesis using n by (simp add: hex_digit_def less_eq_char_def)
qed

lemma hex_inverse_sample: "hex_inverse sample_libs"
proof -
  note d = hex_digits
  have "hex_decode (hex_encode b) = Inr b \<and> length (hex_encode b) = 2 * length b \<and> CHR 0x22 \<notin> set (hex_encode b)" for b
  proof (induction b)
    case (Cons c b)
    have c: "of_char c div 16 < (16 :: nat)" "of_char c mod 16 < (16 :: nat)" using nat_of_char_less_256 [of c] by linarith+
    have "16 * (of_char c div 16) + of_char c mod 16 = (of_char c :: nat)" by simp
    then show ?case using Cons d [OF c(1)] d [OF c(2)] by (auto simp: hex_encode_def)
  qed (simp add: hex_encode_def)
  then show ?thesis by (simp add: hex_inverse_def sample_libs_def)
qed

theorem fried_roundtrip_witness:
  "\<exists>line. export_line mem_env sample_libs (\<lambda>_. Inr) True fried_store 3 = Inr line \<and>
     parseFried sample_libs line = Inr (mkEventToWrite (pack sample_event) ''{}'' 0 [])"
proof -
  have st: "wf_store fried_store" "(3, sample_event) \<in> set (events_of fried_store)"
    by (simp_all add: wf_store_def tables_ok_def fried_store_def wf_packed_pack events_of_def)
  have "stored_json (\<lambda>_. Inr) fried_store 3 = Some (''{'' @ ''}'')" by (simp add: stored_json_def fried_store_def decodeEventPayload_def)
  from fried_roundtrip [OF mem.golpe_env_axioms st this hex_inverse_sample] show ?thesis by simp
qed

end
