(* ===== verification/FilterCommands.thy ===== *)
theory FilterCommands
  imports DBQueryRun EventsWriteProof
begin

text \<open>
  The commands \<open>delete\<close> and \<open>scan\<close> (\<open>src/apps/dbutils/cmd_delete.cpp\<close>, \<open>cmd_scan.cpp\<close>): a query that is driven to its end, and what is done with the
  events it finds.  A command is a function of its parsed arguments.  \<open>None\<close> is a loop that does not end.
\<close>

section \<open>The loop around a query\<close>

definition query_loop ::
  "'t env \<Rightarrow> (nat \<Rightarrow> u64) \<Rightarrow> 't \<Rightarrow> (Subscription \<Rightarrow> u64 \<Rightarrow> 's \<Rightarrow> 's result) \<Rightarrow> u64 \<Rightarrow> 's running \<Rightarrow> 's running result option" where
  "query_loop E clock txn cb budget =
     while_flow (\<lambda>r.
       case query_process E clock txn cb budget r of
         None \<Rightarrow> None
       | Some (Inl e) \<Rightarrow> Some (Done (Inl e))
       | Some (Inr (complete, r)) \<Rightarrow> if complete then Some (Done (Inr r)) else Some (Next r))"

section \<open>Delete\<close>

text \<open>Setting the member \<open>until\<close> of an object that has none.  Reading it as a number throws if it is something else.\<close>

definition until_error :: exn where
  "until_error = Herr (''--age is not compatible with filter containing '' @ [CHR 0x27] @ ''until'' @ [CHR 0x27])"

definition set_until :: "u64 \<Rightarrow> json \<Rightarrow> json result" where
  "set_until n filter0 =
     rbind (get_object filter0) (\<lambda>ms.
       case map_of ms ''until'' of
         Some v \<Rightarrow>
           (case v of
              JUnsigned _ \<Rightarrow> Inl until_error
            | JSigned _ \<Rightarrow> Inl until_error
            | JDouble _ \<Rightarrow> Inl until_error
            | _ \<Rightarrow> Inl BadVariant)
       | None \<Rightarrow> Inr (JObject (takeWhile (\<lambda>m. fst m < ''until'') ms @ [(''until'', JUnsigned n)] @ dropWhile (\<lambda>m. fst m < ''until'') ms)))"

definition delete_filter :: "libs \<Rightarrow> u64 \<Rightarrow> u64 option \<Rightarrow> string option \<Rightarrow> json result" where
  "delete_filter L now ageArg filterArg =
     (let age = (case ageArg of Some n \<Rightarrow> n | None \<Rightarrow> MAX_U64);
          filterStr = (case filterArg of Some s \<Rightarrow> s | None \<Rightarrow> '''') in
      if length filterStr = 0 \<and> age = MAX_U64 then Inl (Herr ''must specify --age and/or --filter'')
      else
        rbind (json_from_string L (if length filterStr = 0 then ''{}'' else filterStr)) (\<lambda>filter0.
          if age \<noteq> MAX_U64 then set_until (now - (if age > now then now else age)) filter0
          else Inr filter0))"

definition cmd_delete ::
  "'t env \<Rightarrow> libs \<Rightarrow> (nat \<Rightarrow> u64) \<Rightarrow> ('t \<Rightarrow> 't result) \<Rightarrow> ('t \<Rightarrow> 't result) \<Rightarrow> u64 \<Rightarrow> u64 option \<Rightarrow> string option \<Rightarrow> bool \<Rightarrow> 't \<Rightarrow> 't result option" where
  "cmd_delete E L clock txn_rw commit now ageArg filterArg dryRun db =
     (case rbind (delete_filter L now ageArg filterArg) (\<lambda>filter0. mkDBQuery_filter (from_hex L) filter0 MAX_U64) of
        Inl e \<Rightarrow> Some (Inl e)
      | Inr query \<Rightarrow>
          map_option (\<lambda>r. rbind r (\<lambda>(_, _, levIds).
              if dryRun then Inr db
              else
                rbind (txn_rw db) (\<lambda>txn.
                rbind (deleteEvents E L txn new_NegentropyFilterCache levIds) (\<lambda>(_, _, txn). commit txn))))
            (query_loop E clock db (\<lambda>sub levId levIds. Inr (insort_insert levId levIds)) MAX_U64 (query, 0, [])))"

section \<open>Scan\<close>

text \<open>The lines that are printed, or the number of events.\<close>

definition cmd_scan ::
  "'t env \<Rightarrow> libs \<Rightarrow> (u32 \<Rightarrow> bytes \<Rightarrow> bytes result) \<Rightarrow> (nat \<Rightarrow> u64) \<Rightarrow> u64 \<Rightarrow> bool \<Rightarrow> string \<Rightarrow> 't \<Rightarrow> (string list \<times> u64 option) result option" where
  "cmd_scan E L decomp clock pause count_only filterStr txn =
     (case rbind (json_from_string L filterStr) (\<lambda>filter0. mkDBQuery_filter (from_hex L) filter0 MAX_U64) of
        Inl e \<Rightarrow> Some (Inl e)
      | Inr query \<Rightarrow>
          map_option (\<lambda>r. rbind r (\<lambda>(_, _, printed, numEvents). Inr (printed, if count_only then Some numEvents else None)))
            (query_loop E clock txn
              (\<lambda>sub levId (printed, numEvents).
                 if count_only then Inr (printed, numEvents + 1)
                 else rbind (getEventJson E decomp txn levId) (\<lambda>json. Inr (printed @ [json], numEvents)))
              (if pause \<noteq> 0 then pause else MAX_U64) (query, 0, ([], 0))))"

section \<open>What a loop finds\<close>

lemma query_loop_slices: "query_slices E clock txn cb budget n r = Some (Inr (True, r')) \<Longrightarrow> query_loop E clock txn cb budget r = Some (Inr r')"
proof (induction n arbitrary: r)
  case (Suc n)
  then show ?case
    by (cases "query_process E clock txn cb budget r" rule: option.exhaust) (auto simp: query_loop_def while_flow.simps [of _ r] split: sum.splits prod.splits bool.splits if_splits)
qed simp

context golpe_env
begin

lemma query_loop_ends:
  assumes T: "wf_store (view txn)" and small: "small_times (view txn)"
    and fs: "\<forall>f \<in> set (fg_filters (sub_filterGroup sub)). scannable f" and cb: "\<And>l st. cb sub l st = Inr (g l st)"
  shows "\<exists>q t. query_loop E clock txn cb budget (mkDBQuery sub, 0, st0) =
    Some (Inr (q, t, fold g (query_result (view txn) (sub_latestEventId sub) (fg_filters (sub_filterGroup sub))) st0))"
proof -
  let ?fs = "fg_filters (sub_filterGroup sub)"
  have I: "query_inv (view txn) ?fs sub g st0 0 (mkDBQuery sub, 0, st0)" by (rule query_start)
  obtain n r' where r: "query_slices E clock txn cb budget n (mkDBQuery sub, 0, st0) = Some (Inr (True, r'))"
    using query_slices_live [where cb = cb and g = g and sub = sub, OF T small fs refl cb I] by blast
  have "\<exists>b r'. query_slices E clock txn cb budget n (mkDBQuery sub, 0, st0) = Some (Inr (b, r')) \<and>
    (if b then snd (snd r') = fold g (query_result (view txn) (sub_latestEventId sub) ?fs) st0 else \<exists>k. query_inv (view txn) ?fs sub g st0 k r')"
    by (rule query_slices_safe [where cb = cb and g = g and sub = sub, OF T small fs refl cb I])
  then have "snd (snd r') = fold g (query_result (view txn) (sub_latestEventId sub) ?fs) st0" using r by auto
  then show ?thesis using query_loop_slices [OF r] by (cases r') auto
qed

lemma deleteEvents_storage_only:
  assumes L: "json_ok L" and inv: "store_inv L c (view t)"
  shows "storage_only (deleteEvents E L t c ls)"
proof -
  obtain c' where fr: "freshenCache E L t c = Inr c'" using freshenCache_total [OF inv] by blast
  have c': "wf_cache c'" "set (nc_filters c') = neg_infos L (view t)" using freshenCache_wf [OF _ L fr] inv by (auto simp: store_inv_def)
  let ?f = "\<lambda>levId (numDeleted, txn). rbind (delete_lev E (updateNegentropy E c') txn levId) (\<lambda>(deleted, txn).
       Inr (if deleted then numDeleted + 1 else numDeleted, txn))"
  have "storage_only (rfold ?f ls (0 :: u64, t))"
  proof (rule storage_only_rfold [where P = "\<lambda>(n, t). base_ok (set (nc_filters c')) (view t)"])
    show "case (0 :: u64, t) of (n, t) \<Rightarrow> base_ok (set (nc_filters c')) (view t)" using inv c' by (simp add: store_inv_def)
  next
    fix l and s :: "u64 \<times> 't" assume s: "case s of (n, t) \<Rightarrow> base_ok (set (nc_filters c')) (view t)"
    obtain n t where "s = (n, t)" by (cases s)
    then show "storage_only (?f l s)" using delete_lev_storage_only [OF c'(1) base_okD(1)] s by auto
  next
    fix l and s s' :: "u64 \<times> 't" assume s: "case s of (n, t) \<Rightarrow> base_ok (set (nc_filters c')) (view t)" and f: "?f l s = Inr s'"
    obtain n t where "s = (n, t)" by (cases s)
    then show "case s' of (n, t) \<Rightarrow> base_ok (set (nc_filters c')) (view t)" using delete_lev_ok(1) [OF c'(1)] s f by auto
  qed
  then show ?thesis using fr by (simp add: deleteEvents_def ctx_def)
qed

end

lemma insort_all: "set (fold (\<lambda>l ls. insort_insert l ls) xs ys) = set xs \<union> set ys"
  by (induction xs arbitrary: ys) (auto simp: set_insort_insert)

text \<open>The events that a call of \<open>delete\<close> is meant to remove.\<close>

definition to_delete :: "libs \<Rightarrow> u64 \<Rightarrow> u64 option \<Rightarrow> json \<Rightarrow> event \<Rightarrow> bool" where
  "to_delete L now ageArg v e \<longleftrightarrow> some_json_matches (from_hex L) (filter_values v) e \<and>
     (\<forall>age. ageArg = Some age \<and> age \<noteq> MAX_U64 \<longrightarrow> ev_created_at e \<le> now - min age now)"

lemma set_until_Inr:
  assumes "set_until n v = Inr w" and "json_wf v"
  shows "\<forall>x \<in> set (filter_values w). obj_distinct x" and "some_json_matches fh (filter_values w) e \<longleftrightarrow> some_json_matches fh (filter_values v) e \<and> ev_created_at e \<le> n"
proof -
  obtain ms where v: "v = JObject ms" and none: "map_of ms ''until'' = None"
    and w: "w = JObject (takeWhile (\<lambda>m. fst m < ''until'') ms @ [(''until'', JUnsigned n)] @ dropWhile (\<lambda>m. fst m < ''until'') ms)"
    using assms(1) by (cases v) (auto simp: set_until_def split: option.splits json.splits)
  let ?t = "takeWhile (\<lambda>m. fst m < ''until'') ms" and ?d = "dropWhile (\<lambda>m. fst m < ''until'') ms"
  have td: "map fst ?t @ map fst ?d = map fst ms" by (metis map_append takeWhile_dropWhile_id)
  have "distinct (map fst ms)" "''until'' \<notin> set (map fst ms)" using assms(2) v none by (simp_all add: map_of_eq_None_iff)
  then have "distinct (map fst ?t @ ''until'' # map fst ?d)" unfolding td [symmetric] by auto
  then show "\<forall>x \<in> set (filter_values w). obj_distinct x" by (simp add: w filter_values_def obj_distinct_def)
  have "set ms = set ?t \<union> set ?d" by (metis set_append takeWhile_dropWhile_id)
  moreover have "member_matches fh e (''until'', JUnsigned n) \<longleftrightarrow> ev_created_at e \<le> n" by (simp add: member_matches_def starts_with_def)
  ultimately show "some_json_matches fh (filter_values w) e \<longleftrightarrow> some_json_matches fh (filter_values v) e \<and> ev_created_at e \<le> n"
    by (auto simp: some_json_matches_def json_matches_def v w filter_values_def)
qed

section \<open>Properties\<close>

lemma json_wf_values: "json_wf v \<Longrightarrow> \<forall>x \<in> set (filter_values v). obj_distinct x"
  by (cases v) (auto simp: filter_values_def obj_distinct_def split: json.split)

lemma delete_filter_spec:
  assumes "json_ok L" and "delete_filter L now ageArg filterArg = Inr filter0"
  obtains v where "json_from_string L (case filterArg of Some s \<Rightarrow> if s = [] then ''{}'' else s | None \<Rightarrow> ''{}'') = Inr v"
    "\<forall>x \<in> set (filter_values filter0). obj_distinct x"
    "\<And>e. some_json_matches (from_hex L) (filter_values filter0) e \<longleftrightarrow> to_delete L now ageArg v e"
proof -
  let ?s = "case filterArg of Some s \<Rightarrow> if s = [] then ''{}'' else s | None \<Rightarrow> ''{}''"
  let ?age = "case ageArg of Some n \<Rightarrow> n | None \<Rightarrow> MAX_U64"
  obtain v where v: "json_from_string L ?s = Inr v"
    "(if ?age \<noteq> MAX_U64 then set_until (now - (if ?age > now then now else ?age)) v else Inr v) = Inr filter0"
    using assms(2) by (cases filterArg) (auto simp: delete_filter_def Let_def split: if_splits)
  have wf: "json_wf v" using assms(1) v(1) by (auto simp: json_ok_def)
  show thesis
  proof (cases "?age = MAX_U64")
    case True
    then have "filter0 = v" "\<forall>age. ageArg = Some age \<longrightarrow> age = MAX_U64" using v(2) by auto
    then show thesis using json_wf_values [OF wf] by (intro that [OF v(1)]) (auto simp: to_delete_def)
  next
    case False
    then obtain age where age: "ageArg = Some age" "age \<noteq> MAX_U64" by (cases ageArg) auto
    have "set_until (now - min age now) v = Inr filter0" using v(2) age(2) unfolding age(1) option.case by (cases "now < age") (auto simp: min_def dest: leD)
    from set_until_Inr [OF this wf] show thesis using age by (intro that [OF v(1)]) (auto simp: to_delete_def)
  qed
qed

text \<open>C37: \<open>strfry delete\<close> always ends.  It removes exactly the events that the filter matches and that are at least as old as \<open>--age\<close> says,
  if no limit of a filter is below the number of stored events, and the database keeps its invariant; the only errors are those of the storage engine, and a dry run changes nothing.\<close>

theorem cmd_delete_exact:
  assumes "golpe_env E view" and "json_ok L" and "store_inv L new_NegentropyFilterCache (view db)" and "small_times (view db)"
    and "txn_ok view txn_rw" and "txn_ok view commit" and "\<forall>t. storage_only (txn_rw t) \<and> storage_only (commit t)"
    and "json_from_string L (case filterArg of Some s \<Rightarrow> if s = [] then ''{}'' else s | None \<Rightarrow> ''{}'') = Inr v"
    and "delete_filter L now ageArg filterArg = Inr filter0" and "fg_unwrapped (from_hex L) filter0 MAX_U64 = Inr g" and "few_kinds g"
    and "\<forall>f \<in> set (fg_filters g). length (events_of (view db)) \<le> unat (nf_limit f)"
  shows "\<exists>r. cmd_delete E L clock txn_rw commit now ageArg filterArg False db = Some r \<and> storage_only r \<and>
    (\<forall>db'. r = Inr db' \<longrightarrow> events_of (view db') = filter (\<lambda>(l, e). \<not> to_delete L now ageArg v e) (events_of (view db)) \<and>
      (\<exists>cache. store_inv L cache (view db'))) \<and>
    cmd_delete E L clock txn_rw commit now ageArg filterArg True db = Some (Inr db)"
proof -
  let ?T = "view db"
  have wf: "wf_store ?T" using assms(3) base_okD(1) by (auto simp: store_inv_def)
  obtain obj: "\<forall>x \<in> set (filter_values filter0). obj_distinct x"
    and del: "\<And>e. some_json_matches (from_hex L) (filter_values filter0) e \<longleftrightarrow> to_delete L now ageArg v e"
    using delete_filter_spec [OF assms(2,9)] assms(8) by (metis Inr_inject)
  obtain sub ls where q: "mkDBQuery_filter (from_hex L) filter0 MAX_U64 = Inr (mkDBQuery sub)"
    "\<forall>f \<in> set (fg_filters (sub_filterGroup sub)). scannable f"
    "query_result ?T (sub_latestEventId sub) (fg_filters (sub_filterGroup sub)) = ls" "distinct ls"
    "set ls = {l. \<exists>e. (l, e) \<in> set (events_of ?T) \<and> some_json_matches (from_hex L) (filter_values filter0) e}"
    by (rule unwrapped_query [OF wf assms(10) obj assms(11,12)])
  define levs where "levs = fold insort_insert ls []"
  obtain q' t' where loop: "query_loop E clock db (\<lambda>sub levId levIds. Inr (insort_insert levId levIds)) MAX_U64 (mkDBQuery sub, 0, []) = Some (Inr (q', t', levs))"
    using golpe_env.query_loop_ends [where cb = "\<lambda>sub levId levIds. Inr (insort_insert levId levIds)" and g = insort_insert, OF assms(1) wf assms(4) q(2) refl]
    unfolding q(3) levs_def by blast
  let ?r = "rbind (txn_rw db) (\<lambda>txn. rbind (deleteEvents E L txn new_NegentropyFilterCache levs) (\<lambda>(_, _, txn). commit txn))"
  have run: "cmd_delete E L clock txn_rw commit now ageArg filterArg False db = Some ?r"
    "cmd_delete E L clock txn_rw commit now ageArg filterArg True db = Some (Inr db)"
    using assms(9) q(1) loop by (simp_all add: cmd_delete_def)
  have st: "store_inv L new_NegentropyFilterCache (view txn)" "view txn = ?T" if "txn_rw db = Inr txn" for txn
    using that assms(3,5) by (auto simp: txn_ok_def)
  have "storage_only ?r"
    using assms(7) golpe_env.deleteEvents_storage_only [OF assms(1,2) st(1)] by auto
  moreover have "events_of (view db') = filter (\<lambda>(l, e). \<not> to_delete L now ageArg v e) (events_of ?T) \<and> (\<exists>cache. store_inv L cache (view db'))"
    if r: "?r = Inr db'" for db'
  proof -
    obtain txn cache n txn' where x: "txn_rw db = Inr txn" "deleteEvents E L txn new_NegentropyFilterCache levs = Inr (cache, n, txn')" "commit txn' = Inr db'"
      using r by auto
    have v': "view db' = view txn'" using x(3) assms(6) by (auto simp: txn_ok_def)
    note d = golpe_env.deleteEvents_inv [OF assms(1,2) st(1) [OF x(1)] x(2)]
    have levs: "set levs = {l. \<exists>e. (l, e) \<in> set (events_of ?T) \<and> to_delete L now ageArg v e}" by (simp add: levs_def insort_all q(5) del)
    have "fst x \<notin> set levs \<longleftrightarrow> (case x of (l, e) \<Rightarrow> \<not> to_delete L now ageArg v e)" if "x \<in> set (events_of ?T)" for x
    proof (cases x)
      case (Pair l e)
      then have "e' = e" if "(l, e') \<in> set (events_of ?T)" for e'
        using events_of_same_levId [OF wf_store_ok [OF wf] that] \<open>x \<in> set (events_of ?T)\<close> by simp
      then show ?thesis using that unfolding Pair levs prod.case fst_conv mem_Collect_eq by blast
    qed
    then have "filter (\<lambda>x. fst x \<notin> set levs) (events_of ?T) = filter (\<lambda>(l, e). \<not> to_delete L now ageArg v e) (events_of ?T)" by (intro filter_cong) auto
    then show ?thesis using d(1,2) v' st(2) [OF x(1)] by auto
  qed
  ultimately show ?thesis using run by blast
qed

section \<open>Witness\<close>

theorem cmd_delete_exact_witness:
  "\<exists>r. cmd_delete mem_env sample_libs (\<lambda>_. 0) Inr Inr 1950 (Some 1000) None False cron_tables = Some r \<and> storage_only r \<and>
     (\<forall>T'. r = Inr T' \<longrightarrow> events_of T' = [(2, sample_event)])"
proof -
  have f: "delete_filter sample_libs 1950 (Some 1000) None = Inr (JObject [(''until'', JUnsigned 950)])"
    by (simp add: delete_filter_def sample_libs_def set_until_def)
  have g: "fg_unwrapped (from_hex sample_libs) (JObject [(''until'', JUnsigned 950)]) MAX_U64 = Inr \<lparr>fg_filters = [empty_filter\<lparr>nf_until := 950, nf_indexOnlyScans := True\<rparr>]\<rparr>"
    by (simp add: fg_unwrapped_def mkNostrFilterGroup_def mkNostrFilter_def empty_filter_def nf_member_def starts_with_def Let_def)
  have js: "json_from_string sample_libs (case None of Some s \<Rightarrow> if s = [] then ''{}'' else s | None \<Rightarrow> ''{}'') = Inr (JObject [])"
    by (simp add: sample_libs_def)
  have t: "txn_ok (\<lambda>T. T) Inr" by (simp add: txn_ok_def)
  have small: "small_times cron_tables" by (simp add: small_times_def cron_events sample_event_def)
  have "to_delete sample_libs 1950 (Some 1000) (JObject []) e \<longleftrightarrow> ev_created_at e \<le> 950" for e
    by (simp add: to_delete_def some_json_matches_def json_matches_def filter_values_def min_def)
  then have kept: "filter (\<lambda>(l, e). \<not> to_delete sample_libs 1950 (Some 1000) (JObject []) e) (events_of cron_tables) = [(2, sample_event)]"
    by (simp add: cron_events) (simp add: sample_event_def)
  have few: "few_kinds \<lparr>fg_filters = [empty_filter\<lparr>nf_until := 950, nf_indexOnlyScans := True\<rparr>]\<rparr>"
    "\<forall>f \<in> set (fg_filters \<lparr>fg_filters = [empty_filter\<lparr>nf_until := 950, nf_indexOnlyScans := True\<rparr>]\<rparr>). length (events_of cron_tables) \<le> unat (nf_limit f)"
    by (simp_all add: few_kinds_def empty_filter_def cron_events unsigned_minus_1_eq_mask mask_eq_exp_minus_1)
  from cmd_delete_exact [OF mem.golpe_env_axioms json_ok_sample cron_store_inv small t t _ js f g few, of "\<lambda>_. 0"]
  show ?thesis unfolding kept by auto
qed

end
