(* ===== verification/NegentropyTrees.thy ===== *)
theory NegentropyTrees
  imports FilterCommands
begin

text \<open>
  How a database starts and how its negentropy trees come about: \<open>dbCheck\<close> of \<open>src/onAppStartup.cpp\<close> and the command \<open>negentropy\<close>
  (\<open>src/apps/dbutils/cmd_negentropy.cpp\<close>).  The further accessors that are generated for the tables \<open>Meta\<close> and \<open>NegentropyFilter\<close> are a second record of
  operations with laws of its own.  The sub-command \<open>list\<close> only prints.
\<close>

section \<open>Accessors\<close>

record 't schema =
  insert_Meta :: "'t \<Rightarrow> Meta \<Rightarrow> 't result"
  update_Meta_counter :: "'t \<Rightarrow> u64 \<Rightarrow> 't result"
  insert_NegentropyFilter :: "'t \<Rightarrow> string \<Rightarrow> (u64 \<times> 't) result"
  lookup_NegentropyFilter :: "'t \<Rightarrow> u64 \<Rightarrow> string option"

locale golpe_schema = golpe_env E view for E :: "'t env" and view :: "'t \<Rightarrow> tables" +
  fixes S :: "'t schema"
  assumes insert_Meta: "insert_Meta S t m = Inr t' \<Longrightarrow> view t' = (view t)\<lparr>t_meta := Some m\<rparr>"
    and update_Meta: "t_meta (view t) = Some m \<Longrightarrow> update_Meta_counter S t n = Inr t' \<Longrightarrow>
      view t' = (view t)\<lparr>t_meta := Some (m\<lparr>negentropyModificationCounter := n\<rparr>)\<rparr>"
    and insert_NegentropyFilter: "insert_NegentropyFilter S t s = Inr (treeId, t') \<Longrightarrow>
      view t' = (view t)\<lparr>t_negFilters := t_negFilters (view t) @ [(treeId, s)]\<rparr> \<and> treeId \<notin> fst ` set (t_negFilters (view t))"
    and lookup_NegentropyFilter: "lookup_NegentropyFilter S t treeId = map_of (t_negFilters (view t)) treeId"

section \<open>Starting up\<close>

definition CURR_DB_VERSION :: u64 where
  "CURR_DB_VERSION = 3"

definition dbCheck :: "'t env \<Rightarrow> 't schema \<Rightarrow> string \<Rightarrow> 't \<Rightarrow> 't result" where
  "dbCheck E S cmd txn =
     (case lookup_Meta E txn of
        None \<Rightarrow>
          rbind (insert_Meta S txn \<lparr>dbVersion = CURR_DB_VERSION, endianness = 1, negentropyModificationCounter = 1\<rparr>) (\<lambda>txn.
          rbind (insert_NegentropyFilter S txn ''{}'') (\<lambda>(_, txn). Inr txn))
      | Some s \<Rightarrow>
          if endianness s \<noteq> 1 then Inl (Herr ''DB was created on a machine with different endianness'')
          else if dbVersion s < CURR_DB_VERSION then
            (if cmd = ''export'' \<or> cmd = ''info'' then Inr txn else Inl (Herr ''aborting: DB too old''))
          else if dbVersion s > CURR_DB_VERSION then Inl (Herr ''aborting: DB too new'')
          else Inr txn)"

section \<open>Trees\<close>

definition increaseModCounter :: "'t env \<Rightarrow> 't schema \<Rightarrow> 't \<Rightarrow> 't result" where
  "increaseModCounter E S txn =
     (case lookup_Meta E txn of
        None \<Rightarrow> Inl (Herr ''no Meta entry?'')
      | Some m \<Rightarrow> update_Meta_counter S txn (negentropyModificationCounter m + 1))"

definition negentropy_add ::
  "'t env \<Rightarrow> 't schema \<Rightarrow> libs \<Rightarrow> cfg \<Rightarrow> ('t \<Rightarrow> 't result) \<Rightarrow> ('t \<Rightarrow> 't result) \<Rightarrow> string \<Rightarrow> 't \<Rightarrow> (u64 \<times> 't) result" where
  "negentropy_add E S L cfg txn_rw commit filterArg db =
     rbind (json_from_string L filterArg) (\<lambda>filterJson.
     rbind (fg_unwrapped (from_hex L) filterJson (relay_maxFilterLimit cfg)) (\<lambda>compiledFilter.
     if length (fg_filters compiledFilter) = 1 \<and>
        (nf_since (fg_filters compiledFilter ! 0) \<noteq> 0 \<or> nf_until (fg_filters compiledFilter ! 0) \<noteq> MAX_U64)
     then Inl (Herr ''single filters should not have since/until'')
     else if length (fg_filters compiledFilter) = 0 then Inl (Herr ''filter will never match'')
     else
       let filterStr = json_to_string L filterJson in
       rbind (txn_rw db) (\<lambda>txn.
       rbind (increaseModCounter E S txn) (\<lambda>txn.
       if filterStr \<in> snd ` set (foreach_NegentropyFilter E txn) then Inl (Herr ''filter already exists as tree'')
       else
         rbind (insert_NegentropyFilter S txn filterStr) (\<lambda>(treeId, txn).
         rbind (commit txn) (\<lambda>db. Inr (treeId, db)))))))"

definition build_record :: "'t env \<Rightarrow> 't \<Rightarrow> u64 \<Rightarrow> (u64 \<times> bytes) list \<Rightarrow> (u64 \<times> bytes) list result" where
  "build_record E txn levId recs =
     rbind (lookupEventByLevId E txn levId) (\<lambda>(_, buf).
     rbind (PackedEventView buf) (\<lambda>packed. Inr (recs @ [(pv_created_at packed, pv_id packed)])))"

definition negentropy_build ::
  "'t env \<Rightarrow> 't schema \<Rightarrow> libs \<Rightarrow> (nat \<Rightarrow> u64) \<Rightarrow> ('t \<Rightarrow> 't result) \<Rightarrow> ('t \<Rightarrow> 't result) \<Rightarrow> u64 \<Rightarrow> 't \<Rightarrow> 't result option" where
  "negentropy_build E S L clock txn_rw commit treeId db =
     (case rbind (txn_rw db) (\<lambda>txn. rbind (increaseModCounter E S txn) (\<lambda>txn.
         case lookup_NegentropyFilter S txn treeId of
           None \<Rightarrow> Inl (Herr ''couldn't find treeId'')
         | Some filterStr \<Rightarrow>
             rbind (json_from_string L filterStr) (\<lambda>filterJson.
             rbind (mkDBQuery_filter (from_hex L) filterJson MAX_U64) (\<lambda>query. Inr (txn, query))))) of
        Inl e \<Rightarrow> Some (Inl e)
      | Inr (txn, query) \<Rightarrow>
          map_option (\<lambda>r. rbind r (\<lambda>(_, _, recs).
              rbind (rfold (\<lambda>(created_at, id) txn. BTree_insert E txn treeId created_at id) recs txn) (\<lambda>txn. commit txn)))
            (query_loop E clock txn (\<lambda>sub. build_record E txn) MAX_U64 (query, 0, [])))"

context golpe_schema
begin

lemma dbCheck_fresh:
  assumes "view txn = \<lparr>t_events = [], t_payload = Map.empty, t_meta = None, t_negFilters = [], t_trees = (\<lambda>_. {})\<rparr>"
    and "dbCheck E S cmd txn = Inr txn'"
  shows "\<exists>treeId. view txn' = \<lparr>t_events = [], t_payload = Map.empty,
    t_meta = Some \<lparr>dbVersion = 3, endianness = 1, negentropyModificationCounter = 1\<rparr>, t_negFilters = [(treeId, ''{}'')], t_trees = (\<lambda>_. {})\<rparr>"
  using assms insert_Meta insert_NegentropyFilter
  by (auto simp: dbCheck_def lookup_Meta CURR_DB_VERSION_def split: option.splits)

lemma increaseModCounter_view:
  assumes "increaseModCounter E S txn = Inr txn'"
  shows "\<exists>m. t_meta (view txn) = Some m \<and>
    view txn' = (view txn)\<lparr>t_meta := Some (m\<lparr>negentropyModificationCounter := negentropyModificationCounter m + 1\<rparr>)\<rparr>"
  using assms update_Meta by (auto simp: increaseModCounter_def lookup_Meta split: option.splits)

lemma negentropy_add_view:
  assumes "negentropy_add E S L cfg txn_rw commit filterArg db = Inr (treeId, db')" and "txn_ok view txn_rw" and "txn_ok view commit"
    and "json_from_string L filterArg = Inr v"
  shows "\<exists>m. t_meta (view db) = Some m \<and>
    view db' = (view db)\<lparr>t_meta := Some (m\<lparr>negentropyModificationCounter := negentropyModificationCounter m + 1\<rparr>),
      t_negFilters := t_negFilters (view db) @ [(treeId, json_to_string L v)]\<rparr>"
proof -
  obtain txn txn1 txn2 where x: "txn_rw db = Inr txn" "increaseModCounter E S txn = Inr txn1"
    "insert_NegentropyFilter S txn1 (json_to_string L v) = Inr (treeId, txn2)" "commit txn2 = Inr db'"
    using assms(1,4) by (auto simp: negentropy_add_def Let_def split: if_splits)
  have v: "view txn = view db" "view db' = view txn2" using assms(2,3) x by (auto simp: txn_ok_def)
  show ?thesis using increaseModCounter_view [OF x(2)] insert_NegentropyFilter [OF x(3)] v by auto
qed

end

section \<open>Properties\<close>

text \<open>A database satisfies the invariant of the writes from its first start on.\<close>

theorem fresh_database:
  assumes "golpe_schema E view S" and "json_from_string L ''{}'' = Inr (JObject [])"
    and "view txn = \<lparr>t_events = [], t_payload = Map.empty, t_meta = None, t_negFilters = [], t_trees = (\<lambda>_. {})\<rparr>"
    and "dbCheck E S cmd txn = Inr txn'"
  shows "store_inv L new_NegentropyFilterCache (view txn')"
proof -
  obtain treeId where v: "view txn' = \<lparr>t_events = [], t_payload = Map.empty,
    t_meta = Some \<lparr>dbVersion = 3, endianness = 1, negentropyModificationCounter = 1\<rparr>, t_negFilters = [(treeId, ''{}'')], t_trees = (\<lambda>_. {})\<rparr>"
    using golpe_schema.dbCheck_fresh [OF assms(1,3,4)] by blast
  have ev: "events_of (view txn') = []" by (simp add: v events_of_def)
  have f: "\<exists>f. mkNostrFilter (from_hex L) (JObject []) MAX_U64 = Inr f" by (simp add: mkNostrFilter_def empty_filter_def)
  have infos: "neg_infos L (view txn') = {\<lparr>fi_f = f, fi_treeId = treeId\<rparr> | f. mkNostrFilter (from_hex L) (JObject []) MAX_U64 = Inr f}"
    by (auto simp: neg_infos_def v assms(2))
  have "trees_ok (neg_infos L (view txn')) (view txn')"
    unfolding trees_ok_def infos using f by (auto simp: items_def events_of_def inj_on_def v)
  then have "base_ok (neg_infos L (view txn')) (view txn')"
    by (simp add: base_ok_def wf_store_def tables_ok_def unique_ids_def ev) (simp add: v)
  moreover have "db_ok (events_of (view txn'))" by (simp add: ev db_ok_def unique_ids_def)
  moreover have "cache_inv L new_NegentropyFilterCache (view txn')" by (simp add: cache_inv_def) (simp add: v new_NegentropyFilterCache_def)
  moreover have "neg_parse_ok L (view txn')" using f assms(2) by (auto simp: neg_parse_ok_def v)
  ultimately show ?thesis by (simp add: store_inv_def) (simp add: v)
qed

lemma freshenCache_bad_filter:
  assumes "golpe_env E view" and "t_meta (view txn) = Some m" and "negentropyModificationCounter m \<noteq> modificationCounter cache"
    and "t_negFilters (view txn) = fs @ [(treeId, s)]" and "json_from_string L s = Inr v" and "\<not> is_object v"
    and "\<forall>(treeId, s) \<in> set fs. \<exists>v f. json_from_string L s = Inr v \<and> mkNostrFilter (from_hex L) v MAX_U64 = Inr f"
  shows "freshenCache E L txn cache = Inl (Herr ''provided filter is not an object'')"
proof -
  let ?p = "\<lambda>(treeId, filter). rbind (json_from_string L filter) (\<lambda>v.
     rbind (mkNostrFilter (from_hex L) v MAX_U64) (\<lambda>f. Inr \<lparr>fi_f = f, fi_treeId = treeId\<rparr>))"
  have "rmap ?p (fs @ [(treeId, s)]) = Inl (Herr ''provided filter is not an object'')"
    using assms(7) by (induction fs) (auto simp: assms(5,6) mkNostrFilter_def [of _ v])
  then show ?thesis
    using assms(2-4) by (simp add: freshenCache_def golpe_env.lookup_Meta [OF assms(1)] golpe_env.foreach_NegentropyFilter [OF assms(1)] Let_def)
qed

text \<open>C38: \<open>strfry negentropy add\<close> accepts an array of filters, but the code that maintains the trees does not: after such a call every write
  and every deletion of any process fails, until the tree is removed by hand.\<close>

theorem negentropy_add_blocks_writes:
  assumes "golpe_schema E view S" and "store_inv L new_NegentropyFilterCache (view db)" and "txn_ok view txn_rw" and "txn_ok view commit"
    and "json_from_string L filterArg = Inr (JArray vs)" and "json_from_string L (json_to_string L (JArray vs)) = Inr (JArray vs)"
    and "negentropy_add E S L cfg txn_rw commit filterArg db = Inr (treeId, db')"
  shows "\<exists>m. t_meta (view db') = Some m \<and>
    (\<forall>cache. modificationCounter cache \<noteq> negentropyModificationCounter m \<longrightarrow>
      (\<forall>evs. (\<forall>ev \<in> set evs. pending ev) \<longrightarrow> writeEvents E L db' cache evs = Inl (Herr ''provided filter is not an object'')) \<and>
      (\<forall>levIds. deleteEvents E L db' cache levIds = Inl (Herr ''provided filter is not an object'')))"
proof -
  have E: "golpe_env E view" using assms(1) by (simp add: golpe_schema_def)
  obtain m where m: "t_meta (view db) = Some m" and v: "view db' = (view db)\<lparr>t_meta := Some (m\<lparr>negentropyModificationCounter := negentropyModificationCounter m + 1\<rparr>),
      t_negFilters := t_negFilters (view db) @ [(treeId, json_to_string L (JArray vs))]\<rparr>"
    using golpe_schema.negentropy_add_view [OF assms(1,7,3,4,5)] by blast
  let ?m = "m\<lparr>negentropyModificationCounter := negentropyModificationCounter m + 1\<rparr>"
  have "freshenCache E L db' cache = Inl (Herr ''provided filter is not an object'')"
    if "modificationCounter cache \<noteq> negentropyModificationCounter ?m" for cache
    by (rule freshenCache_bad_filter [OF E, where m = ?m and fs = "t_negFilters (view db)" and s = "json_to_string L (JArray vs)" and v = "JArray vs"])
      (use assms(2,6) that v in \<open>auto simp: store_inv_def neg_parse_ok_def\<close>)
  then show ?thesis using v by (intro exI [of _ ?m]) (auto simp: writeEvents_def sort_events_ok deleteEvents_def ctx_def)
qed

section \<open>Witnesses\<close>

definition mem_schema :: "tables schema" where
  "mem_schema = \<lparr>insert_Meta = (\<lambda>T m. Inr (T\<lparr>t_meta := Some m\<rparr>)),
     update_Meta_counter = (\<lambda>T n. Inr (T\<lparr>t_meta := map_option (negentropyModificationCounter_update (\<lambda>_. n)) (t_meta T)\<rparr>)),
     insert_NegentropyFilter = (\<lambda>T s. let treeId = of_nat (length (t_negFilters T)) + 1 in
       if treeId \<in> fst ` set (t_negFilters T) then Inl (StorageError ''tree exists'') else Inr (treeId, T\<lparr>t_negFilters := t_negFilters T @ [(treeId, s)]\<rparr>)),
     lookup_NegentropyFilter = (\<lambda>T treeId. map_of (t_negFilters T) treeId)\<rparr>"

interpretation mem_schema: golpe_schema mem_env "\<lambda>T. T" mem_schema
  by unfold_locales (auto simp: mem_schema_def Let_def split: if_splits)

definition array_libs :: libs where
  "array_libs = sample_libs\<lparr>json_from_string := (\<lambda>s. if s = ''{}'' then Inr (JObject []) else if s = ''[{}]'' then Inr (JArray [JObject []]) else Inl (Herr ''parse error'')),
     json_to_string := (\<lambda>v. if is_array v then ''[{}]'' else ''{}'')\<rparr>"

theorem negentropy_add_blocks_writes_witness:
  "\<exists>treeId T'. negentropy_add mem_env mem_schema array_libs default_cfg Inr Inr ''[{}]'' sample_tables = Inr (treeId, T') \<and>
     writeEvents mem_env array_libs T' new_NegentropyFilterCache [sample_write] = Inl (Herr ''provided filter is not an object'')"
proof -
  have "dbCheck mem_env mem_schema ''relay'' (sample_tables\<lparr>t_meta := None, t_negFilters := []\<rparr>) = Inr sample_tables"
    by (simp add: dbCheck_def mem_env_def mem_schema_def sample_tables_def CURR_DB_VERSION_def)
  then have inv: "store_inv array_libs new_NegentropyFilterCache sample_tables"
    by (rule fresh_database [OF mem_schema.golpe_schema_axioms, rotated 2]) (simp_all add: array_libs_def sample_tables_def)
  have t: "txn_ok (\<lambda>T. T) Inr" by (simp add: txn_ok_def)
  let ?T = "sample_tables\<lparr>t_meta := Some \<lparr>dbVersion = 3, endianness = 1, negentropyModificationCounter = 2\<rparr>, t_negFilters := [(1, ''{}''), (2, ''[{}]'')]\<rparr>"
  have g: "fg_unwrapped (from_hex array_libs) (JArray [JObject []]) (relay_maxFilterLimit default_cfg) = Inr \<lparr>fg_filters = [empty_filter\<lparr>nf_limit := 500, nf_indexOnlyScans := True\<rparr>]\<rparr>"
    by (simp add: fg_unwrapped_def mkNostrFilterGroup_def mkNostrFilter_def empty_filter_def default_cfg_def Let_def)
  have js: "json_from_string array_libs ''[{}]'' = Inr (JArray [JObject []])" "json_to_string array_libs (JArray [JObject []]) = ''[{}]''"
    by (simp_all add: array_libs_def)
  have add: "negentropy_add mem_env mem_schema array_libs default_cfg Inr Inr ''[{}]'' sample_tables = Inr (2, ?T)"
    by (simp add: negentropy_add_def js g empty_filter_def increaseModCounter_def mem_env_def mem_schema_def sample_tables_def Let_def)
  have "json_from_string array_libs (json_to_string array_libs (JArray [JObject []])) = Inr (JArray [JObject []])" by (simp add: js)
  from negentropy_add_blocks_writes [OF mem_schema.golpe_schema_axioms inv t t js(1) this add]
  have "writeEvents mem_env array_libs ?T new_NegentropyFilterCache [sample_write] = Inl (Herr ''provided filter is not an object'')"
    by (auto simp: new_NegentropyFilterCache_def)
  then show ?thesis using add by blast
qed

end
