(* ===== verification/Dictionaries.thy ===== *)
theory Dictionaries
  imports FilterCommands
begin

text \<open>
  Compressed payloads: \<open>src/Decompressor.h\<close> with its two levels of cached dictionaries, and the sub-commands \<open>compress\<close> and \<open>decompress\<close> of
  \<open>src/apps/dbutils/cmd_dict.cpp\<close>.  The zstd library is a parameter: a prepared dictionary for decompression, one for compression, and the two
  functions, which get the size of the output buffer and may fail.  The dictionaries in the database are a parameter too.  The sub-commands \<open>stats\<close>, which prints, and
  \<open>train\<close>, which is zstd's, are left out, and so are the sizes that are logged.
\<close>

section \<open>Decompression\<close>

record ('d, 'c) zstd =
  createDDict :: "bytes \<Rightarrow> 'd"
  decompress_usingDDict :: "nat \<Rightarrow> bytes \<Rightarrow> 'd \<Rightarrow> bytes result"
  createCDict :: "bytes \<Rightarrow> int \<Rightarrow> 'c"
  compress_usingCDict :: "nat \<Rightarrow> bytes \<Rightarrow> 'c \<Rightarrow> bytes result"

type_synonym 'd dict_cache = "u32 \<Rightarrow> 'd option"

text \<open>The broker is shared by all threads and locks itself.\<close>

definition getDict :: "('d, 'c) zstd \<Rightarrow> (u32 \<Rightarrow> bytes option) \<Rightarrow> u32 \<Rightarrow> 'd dict_cache \<Rightarrow> ('d \<times> 'd dict_cache) result" where
  "getDict Z lookup_CompressionDictionary dictId dicts =
     (case dicts dictId of
        Some d \<Rightarrow> Inr (d, dicts)
      | None \<Rightarrow>
          (case lookup_CompressionDictionary dictId of
             None \<Rightarrow> Inl (Herr ''couldn't find dictId'')
           | Some dictBuffer \<Rightarrow> let d = createDDict Z dictBuffer in Inr (d, dicts(dictId \<mapsto> d))))"

text \<open>One call: the caches of the thread and of the broker, and the size that was reserved.\<close>

definition decompress ::
  "('d, 'c) zstd \<Rightarrow> (u32 \<Rightarrow> bytes option) \<Rightarrow> nat \<Rightarrow> u32 \<Rightarrow> bytes \<Rightarrow> 'd dict_cache \<times> 'd dict_cache \<Rightarrow> (bytes result) \<times> 'd dict_cache \<times> 'd dict_cache" where
  "decompress Z lookup_CompressionDictionary reserved dictId src = (\<lambda>(dicts, broker).
     case dicts dictId of
       Some d \<Rightarrow> (decompress_usingDDict Z reserved src d, dicts, broker)
     | None \<Rightarrow>
         (case getDict Z lookup_CompressionDictionary dictId broker of
            Inl e \<Rightarrow> (Inl e, dicts, broker)
          | Inr (d, broker) \<Rightarrow> (decompress_usingDDict Z reserved src d, dicts(dictId \<mapsto> d), broker)))"

section \<open>Rewriting payloads\<close>

definition compress_payload :: "('d, 'c) zstd \<Rightarrow> 'c \<Rightarrow> u64 \<Rightarrow> bytes \<Rightarrow> bytes result" where
  "compress_payload Z cdict dictId orig =
     rbind (compress_usingCDict Z 500000 orig cdict) (\<lambda>compressed.
       Inr (if length compressed + 4 < length orig then CHR 0x01 # le_bytes 4 (unat (ucast dictId :: u32)) @ compressed
            else CHR 0x00 # orig))"

text \<open>The loop over the events: those that cannot be read are skipped, and the transaction is committed now and then.\<close>

fun rewrite_payloads ::
  "'t env \<Rightarrow> (u32 \<Rightarrow> bytes \<Rightarrow> bytes result) \<Rightarrow> ('t \<Rightarrow> 't result) \<Rightarrow> ('t \<Rightarrow> 't result) \<Rightarrow> (bytes \<Rightarrow> bytes result) \<Rightarrow> u64 list \<Rightarrow> 't \<times> nat \<Rightarrow> 't result" where
  "rewrite_payloads E decomp txn_rw commit f [] (txn, pendingFlush) = commit txn"
| "rewrite_payloads E decomp txn_rw commit f (levId # levIds) (txn, pendingFlush) =
     (case getEventJson E decomp txn levId of
        Inl e \<Rightarrow> rewrite_payloads E decomp txn_rw commit f levIds (txn, pendingFlush)
      | Inr orig \<Rightarrow>
          rbind (f orig) (\<lambda>newVal.
          rbind (EventPayload_put E txn levId newVal) (\<lambda>txn.
            if pendingFlush + 1 > 10000 then
              rbind (commit txn) (\<lambda>db. rbind (txn_rw db) (\<lambda>txn. rewrite_payloads E decomp txn_rw commit f levIds (txn, 0)))
            else rewrite_payloads E decomp txn_rw commit f levIds (txn, pendingFlush + 1))))"

definition dict_levIds :: "'t env \<Rightarrow> libs \<Rightarrow> (nat \<Rightarrow> u64) \<Rightarrow> string \<Rightarrow> 't \<Rightarrow> u64 list result option" where
  "dict_levIds E L clock filterStr txn =
     (case rbind (json_from_string L filterStr) (\<lambda>filter0. mkDBQuery_filter (from_hex L) filter0 MAX_U64) of
        Inl e \<Rightarrow> Some (Inl e)
      | Inr query \<Rightarrow>
          map_option (\<lambda>r. rbind r (\<lambda>(_, _, levIds). Inr levIds))
            (query_loop E clock txn (\<lambda>sub levId levIds. Inr (levIds @ [levId])) MAX_U64 (query, 0, [])))"

definition dict_compress ::
  "'t env \<Rightarrow> libs \<Rightarrow> ('d, 'c) zstd \<Rightarrow> (u64 \<Rightarrow> bytes option) \<Rightarrow> (u32 \<Rightarrow> bytes \<Rightarrow> bytes result) \<Rightarrow> (nat \<Rightarrow> u64) \<Rightarrow>
   ('t \<Rightarrow> 't result) \<Rightarrow> ('t \<Rightarrow> 't result) \<Rightarrow> string \<Rightarrow> u64 \<Rightarrow> int \<Rightarrow> 't \<Rightarrow> 't result option" where
  "dict_compress E L Z lookup_CompressionDictionary decomp clock txn_rw commit filterStr dictId level db =
     map_option (\<lambda>r. rbind r (\<lambda>levIds.
         if dictId = 0 then Inl (Herr ''specify --dictId or --decompress'')
         else
           rbind (txn_rw db) (\<lambda>txn.
             case lookup_CompressionDictionary dictId of
               None \<Rightarrow> Inl (Herr ''couldn't find dictId'')
             | Some dict \<Rightarrow> rewrite_payloads E decomp txn_rw commit (compress_payload Z (createCDict Z dict level) dictId) levIds (txn, 0))))
       (dict_levIds E L clock filterStr db)"

definition dict_decompress ::
  "'t env \<Rightarrow> libs \<Rightarrow> (u32 \<Rightarrow> bytes \<Rightarrow> bytes result) \<Rightarrow> (nat \<Rightarrow> u64) \<Rightarrow> ('t \<Rightarrow> 't result) \<Rightarrow> ('t \<Rightarrow> 't result) \<Rightarrow> string \<Rightarrow> 't \<Rightarrow> 't result option" where
  "dict_decompress E L decomp clock txn_rw commit filterStr db =
     map_option (\<lambda>r. rbind r (\<lambda>levIds.
         rbind (txn_rw db) (\<lambda>txn. rewrite_payloads E decomp txn_rw commit (\<lambda>orig. Inr (CHR 0x00 # orig)) levIds (txn, 0))))
       (dict_levIds E L clock filterStr db)"

section \<open>The caches do not show\<close>

definition dict_decomp :: "('d, 'c) zstd \<Rightarrow> (u32 \<Rightarrow> bytes option) \<Rightarrow> nat \<Rightarrow> u32 \<Rightarrow> bytes \<Rightarrow> bytes result" where
  "dict_decomp Z dicts reserved dictId src =
     (case dicts dictId of
        None \<Rightarrow> Inl (Herr ''couldn't find dictId'')
      | Some dict \<Rightarrow> decompress_usingDDict Z reserved src (createDDict Z dict))"

definition cache_of :: "('d, 'c) zstd \<Rightarrow> (u32 \<Rightarrow> bytes option) \<Rightarrow> 'd dict_cache \<Rightarrow> bool" where
  "cache_of Z dicts cache \<longleftrightarrow> (\<forall>i d. cache i = Some d \<longrightarrow> (\<exists>dict. dicts i = Some dict \<and> d = createDDict Z dict))"

lemma decompress_cached:
  assumes "cache_of Z dicts cache" and "cache_of Z dicts broker"
  shows "\<exists>cache' broker'. decompress Z dicts reserved dictId src (cache, broker) = (dict_decomp Z dicts reserved dictId src, cache', broker') \<and>
    cache_of Z dicts cache' \<and> cache_of Z dicts broker'"
proof (cases "cache dictId")
  case (Some d)
  then show ?thesis using assms by (fastforce simp: decompress_def dict_decomp_def cache_of_def)
next
  case None
  show ?thesis
  proof (cases "broker dictId")
    case (Some d)
    then show ?thesis using None assms by (fastforce simp: decompress_def dict_decomp_def getDict_def cache_of_def)
  next
    case b: None
    then show ?thesis using None assms by (cases "dicts dictId") (auto simp: decompress_def dict_decomp_def getDict_def cache_of_def Let_def)
  qed
qed

section \<open>Every event keeps its text\<close>

lemma decode_compressed:
  assumes "decomp (ucast dictId) data = Inr j"
  shows "decodeEventPayload decomp (CHR 0x01 # le_bytes 4 (unat (ucast dictId :: u32)) @ data) = Inr (j, ucast dictId, Some (length data))"
proof -
  have "unat (ucast dictId :: u32) < 256 ^ 4" using unsigned_less [of "ucast dictId :: u32"] by simp
  then have "le_value (le_bytes 4 (unat (ucast dictId :: u32))) = unat (ucast dictId :: u32)" by (simp add: le_value_le_bytes)
  then show ?thesis using assms by (simp add: decodeEventPayload_def Let_def)
qed

definition keeps_text :: "(u32 \<Rightarrow> bytes \<Rightarrow> bytes result) \<Rightarrow> tables \<Rightarrow> tables \<Rightarrow> bool" where
  "keeps_text decomp T T' \<longleftrightarrow> stored_json decomp T' = stored_json decomp T \<and> dom (t_payload T') = dom (t_payload T) \<and> T' = T\<lparr>t_payload := t_payload T'\<rparr>"

lemma keeps_text_refl: "keeps_text decomp T T"
  by (simp add: keeps_text_def)

lemma keeps_text_trans: "keeps_text decomp T T' \<Longrightarrow> keeps_text decomp T' T'' \<Longrightarrow> keeps_text decomp T T''"
  by (auto simp: keeps_text_def) (metis tables.surjective tables.update_convs(2))

context golpe_env
begin

lemma put_keeps_text:
  assumes "stored_json decomp (view t) l = Some j" and "EventPayload_put E t l newVal = Inr t'" and "decodeEventPayload decomp newVal = Inr (j, x)"
  shows "keeps_text decomp (view t) (view t')"
  using assms payload_put [OF assms(2)] by (auto simp: keeps_text_def stored_json_def fun_eq_iff split: option.splits)

lemma getEventJson_stored: "getEventJson E decomp t l = Inr j \<longleftrightarrow> stored_json decomp (view t) l = Some j"
  by (auto simp: getEventJson_def stored_json_def payload_get split: option.splits sum.splits)

lemma rewrite_payloads_ok:
  assumes txn: "txn_ok view txn_rw" "txn_ok view commit"
    and f: "\<And>l j newVal. stored_json decomp T l = Some j \<Longrightarrow> f j = Inr newVal \<Longrightarrow> \<exists>x. decodeEventPayload decomp newVal = Inr (j, x)"
  shows "keeps_text decomp T (view t) \<Longrightarrow> rewrite_payloads E decomp txn_rw commit f ls (t, n) = Inr t' \<Longrightarrow> keeps_text decomp T (view t')"
proof (induction ls arbitrary: t n)
  case Nil
  then show ?case using txn(2) by (auto simp: txn_ok_def)
next
  case (Cons l ls)
  show ?case
  proof (cases "getEventJson E decomp t l")
    case (Inl e)
    then show ?thesis using Cons by simp
  next
    case (Inr j)
    then have j: "stored_json decomp (view t) l = Some j" by (simp add: getEventJson_stored)
    obtain newVal t1 where x: "f j = Inr newVal" "EventPayload_put E t l newVal = Inr t1"
      using Cons.prems(2) Inr by (auto split: if_splits)
    have "stored_json decomp T l = Some j" using j Cons.prems(1) by (simp add: keeps_text_def)
    then obtain y where "decodeEventPayload decomp newVal = Inr (j, y)" using f x(1) by blast
    then have k: "keeps_text decomp T (view t1)" using put_keeps_text [OF j x(2)] keeps_text_trans Cons.prems(1) by blast
    show ?thesis
    proof (cases "n + 1 > 10000")
      case True
      then obtain db t2 where "commit t1 = Inr db" "txn_rw db = Inr t2" "rewrite_payloads E decomp txn_rw commit f ls (t2, 0) = Inr t'"
        using Cons.prems(2) Inr x by auto
      then show ?thesis using Cons.IH k txn by (metis txn_ok_def)
    next
      case False
      then have "rewrite_payloads E decomp txn_rw commit f ls (t1, n + 1) = Inr t'" using Cons.prems(2) Inr x by simp
      then show ?thesis using Cons.IH k by blast
    qed
  qed
qed

end

text \<open>What zstd promises: what was compressed with a dictionary can be decompressed with it, if the buffer is large enough.\<close>

definition zstd_ok :: "('d, 'c) zstd \<Rightarrow> bool" where
  "zstd_ok Z \<longleftrightarrow> (\<forall>dict level n m s c. compress_usingCDict Z n s (createCDict Z dict level) = Inr c \<and> length s \<le> m \<longrightarrow>
     decompress_usingDDict Z m c (createDDict Z dict) = Inr s)"

lemma compress_payload_text:
  assumes "zstd_ok Z" and "dicts dictId = Some dict" and "dictId < 2 ^ 32" and "length j \<le> reserved"
    and "compress_payload Z (createCDict Z dict level) dictId j = Inr newVal"
  shows "\<exists>x. decodeEventPayload (dict_decomp Z (\<lambda>i. dicts (ucast i)) reserved) newVal = Inr (j, x)"
proof -
  obtain c where c: "compress_usingCDict Z 500000 j (createCDict Z dict level) = Inr c"
    "newVal = (if length c + 4 < length j then CHR 0x01 # le_bytes 4 (unat (ucast dictId :: u32)) @ c else CHR 0x00 # j)"
    using assms(5) by (auto simp: compress_payload_def)
  have "ucast (ucast dictId :: u32) = dictId" using assms(3) by (simp add: word_uint_eq_iff unsigned_ucast_eq unsigned_take_bit_eq take_bit_int_eq_self word_less_def)
  then have "dict_decomp Z (\<lambda>i. dicts (ucast i)) reserved (ucast dictId) c = Inr j"
    using assms(1,2,4) c(1) by (auto simp: dict_decomp_def zstd_ok_def)
  from decode_compressed [where decomp = "dict_decomp Z (\<lambda>i. dicts (ucast i)) reserved" and dictId = dictId, OF this] show ?thesis unfolding c(2) by (simp add: decodeEventPayload_def)
qed

section \<open>Properties\<close>

text \<open>C39: Compressing stored events with a dictionary, and decompressing them, always ends and changes the text of no event and nothing else in the
  database, if no stored text is longer than the buffer that is reserved for reading it and the id of the dictionary is below
  \<open>2 ^ 32\<close>, as the payload has room for.\<close>

theorem dict_keeps_text:
  assumes "golpe_env E view" and "json_ok L" and "wf_store (view db)" and "small_times (view db)" and "txn_ok view txn_rw" and "txn_ok view commit"
    and "json_from_string L filterStr = Inr v" and "fg_unwrapped (from_hex L) v MAX_U64 = Inr g" and "few_kinds g"
    and "zstd_ok Z" and "dicts dictId = Some dict" and "dictId < 2 ^ 32" and "decomp = dict_decomp Z (\<lambda>i. dicts (ucast i)) reserved"
    and "\<forall>l j. stored_json decomp (view db) l = Some j \<longrightarrow> length j \<le> reserved"
  shows "(\<exists>r. dict_compress E L Z dicts decomp clock txn_rw commit filterStr dictId level db = Some r \<and>
      (\<forall>db'. r = Inr db' \<longrightarrow> keeps_text decomp (view db) (view db'))) \<and>
    (\<exists>r. dict_decompress E L decomp clock txn_rw commit filterStr db = Some r \<and>
      (\<forall>db'. r = Inr db' \<longrightarrow> keeps_text decomp (view db) (view db')))"
proof -
  have "json_wf v" using assms(2,7) by (auto simp: json_ok_def)
  then obtain sub where q: "mkDBQuery_filter (from_hex L) v MAX_U64 = Inr (mkDBQuery sub)" "sub_filterGroup sub = g" "\<forall>f \<in> set (fg_filters g). scannable f"
    using unwrapped_scannable [OF assms(8) json_wf_values assms(9)] by metis
  obtain ls where ls: "dict_levIds E L clock filterStr db = Some (Inr ls)"
    using golpe_env.query_loop_ends [where cb = "\<lambda>sub levId levIds. Inr (levIds @ [levId])" and g = "\<lambda>levId levIds. levIds @ [levId]" and sub = sub, OF assms(1,3,4) _ refl]
      q assms(7) by (fastforce simp: dict_levIds_def)
  have keep: "keeps_text decomp (view db) (view db')"
    if run: "rbind (txn_rw db) (\<lambda>txn. rewrite_payloads E decomp txn_rw commit f ls (txn, 0)) = Inr db'"
      and dec: "\<And>l j newVal. stored_json decomp (view db) l = Some j \<Longrightarrow> f j = Inr newVal \<Longrightarrow> \<exists>x. decodeEventPayload decomp newVal = Inr (j, x)" for f db'
  proof -
    obtain txn where t: "txn_rw db = Inr txn" "rewrite_payloads E decomp txn_rw commit f ls (txn, 0) = Inr db'" using run by auto
    have k: "keeps_text decomp (view db) (view txn)" using assms(5) t(1) keeps_text_refl by (metis txn_ok_def)
    show ?thesis by (rule golpe_env.rewrite_payloads_ok [where f = f, OF assms(1,5,6) _ k t(2)]) (rule dec)
  qed
  have "dict_compress E L Z dicts decomp clock txn_rw commit filterStr dictId level db = Some (if dictId = 0 then Inl (Herr ''specify --dictId or --decompress'')
      else rbind (txn_rw db) (\<lambda>txn. rewrite_payloads E decomp txn_rw commit (compress_payload Z (createCDict Z dict level) dictId) ls (txn, 0)))"
    using ls assms(11) by (simp add: dict_compress_def)
  moreover have "dict_decompress E L decomp clock txn_rw commit filterStr db =
      Some (rbind (txn_rw db) (\<lambda>txn. rewrite_payloads E decomp txn_rw commit (\<lambda>orig. Inr (CHR 0x00 # orig)) ls (txn, 0)))"
    using ls by (simp add: dict_decompress_def)
  moreover have "keeps_text decomp (view db) (view db')" if "rbind (txn_rw db) (\<lambda>txn. rewrite_payloads E decomp txn_rw commit
      (compress_payload Z (createCDict Z dict level) dictId) ls (txn, 0)) = Inr db'" for db'
    by (rule keep [OF that]) (use compress_payload_text [where dicts = dicts and dictId = dictId, OF assms(10-12)] assms(13,14) in blast)
  moreover have "keeps_text decomp (view db) (view db')" if "rbind (txn_rw db) (\<lambda>txn. rewrite_payloads E decomp txn_rw commit
      (\<lambda>orig. Inr (CHR 0x00 # orig)) ls (txn, 0)) = Inr db'" for db'
    by (rule keep [OF that]) (auto simp: decodeEventPayload_def)
  ultimately show ?thesis by (auto split: if_splits)
qed

section \<open>Witness\<close>

text \<open>A zstd that copies, and refuses when the buffer is too small.\<close>

definition copy_zstd :: "(unit, unit) zstd" where
  "copy_zstd = \<lparr>createDDict = (\<lambda>_. ()), decompress_usingDDict = (\<lambda>n s _. if length s \<le> n then Inr s else Inl (Herr ''buffer too small'')),
     createCDict = (\<lambda>_ _. ()), compress_usingCDict = (\<lambda>n s _. if length s \<le> n then Inr s else Inl (Herr ''buffer too small''))\<rparr>"

definition dict_store :: tables where
  "dict_store = sample_store\<lparr>t_payload := [3 \<mapsto> CHR 0x00 # ''{}'']\<rparr>"

lemma dict_store_ok: "wf_store dict_store" "small_times dict_store" "stored_json decomp dict_store = [3 \<mapsto> ''{}'']"
proof -
  have ev: "t_events dict_store = t_events sample_store" "events_of dict_store = events_of sample_store"
    by (simp_all add: dict_store_def events_of_def)
  show "wf_store dict_store" using sample_store_ok(2) by (simp add: wf_store_def tables_ok_def ev)
  show "small_times dict_store" using sample_store_ok(3) by (simp add: small_times_def ev)
  show "stored_json decomp dict_store = [3 \<mapsto> ''{}'']" by (auto simp: stored_json_def dict_store_def decodeEventPayload_def fun_eq_iff)
qed

theorem dict_keeps_text_witness:
  "\<exists>r. dict_compress mem_env sample_libs copy_zstd [7 :: u64 \<mapsto> ''d''] (dict_decomp copy_zstd (\<lambda>i. [7 :: u64 \<mapsto> ''d''] (ucast i)) 65536) (\<lambda>_. 0) Inr Inr ''{}'' 7 3 dict_store = Some r \<and>
     (\<forall>T. r = Inr T \<longrightarrow> keeps_text (dict_decomp copy_zstd (\<lambda>i. [7 :: u64 \<mapsto> ''d''] (ucast i)) 65536) dict_store T)"
proof -
  have js: "json_from_string sample_libs ''{}'' = Inr (JObject [])" by (simp add: sample_libs_def)
  have g: "fg_unwrapped (from_hex sample_libs) (JObject []) MAX_U64 = Inr \<lparr>fg_filters = [empty_filter\<lparr>nf_indexOnlyScans := True\<rparr>]\<rparr>"
    by (simp add: fg_unwrapped_def mkNostrFilterGroup_def mkNostrFilter_def empty_filter_def Let_def)
  have k: "few_kinds \<lparr>fg_filters = [empty_filter\<lparr>nf_indexOnlyScans := True\<rparr>]\<rparr>" by (simp add: few_kinds_def empty_filter_def)
  have z: "zstd_ok copy_zstd" by (simp add: zstd_ok_def copy_zstd_def)
  have t: "txn_ok (\<lambda>T. T) Inr" by (simp add: txn_ok_def)
  have d: "[7 :: u64 \<mapsto> ''d''] 7 = Some ''d''" "(7 :: u64) < 2 ^ 32" by simp_all
  have len: "\<forall>l j. stored_json decomp dict_store l = Some j \<longrightarrow> length j \<le> 65536" for decomp
    by (auto simp: dict_store_ok(3) split: if_splits)
  show ?thesis
    by (rule dict_keeps_text [where dicts = "[7 :: u64 \<mapsto> ''d'']" and view = "\<lambda>T. T" and reserved = 65536,
        OF mem_golpe json_ok_sample dict_store_ok(1,2) t t js g k z d refl len, THEN conjunct1])
qed

end
