(* ===== verification/RelayWebsocket.thy ===== *)
theory RelayWebsocket
  imports RelayServer
begin

text \<open>
  \<open>src/apps/relay/RelayWebsocket.cpp\<close>: the thread that owns the connections.  The websocket library calls it on a new connection, a message and a
  disconnection, and the other threads wake it to send.  What it hands to the library is recorded in order.  A connection is allocated when it is made and freed when it ends;
  a callback for one that has ended is the error \<open>UseAfterFree\<close>.  The size after compression is what the library reports.  The pages that are served
  over HTTP, the TCP options and the log lines are left out.
\<close>

section \<open>Connections\<close>

record Stats =
  bytesUp :: u64
  bytesUpCompressed :: u64
  bytesDown :: u64
  bytesDownCompressed :: u64

record Connection =
  websocket :: nat
  c_connId :: u64
  c_ipAddr :: string
  stats :: Stats

datatype OpCode = TEXT | BINARY

record Websocket =
  connIdToConnection :: "(u64 \<times> Connection) list"
  nextConnectionId :: u64
  gracefulShutdown :: bool
  tempBuf :: bytes
  sent :: "(nat \<times> string \<times> OpCode) list"

text \<open>\<open>inet_pton\<close> is a parameter: the bytes of an address of the family, if the text is one.\<close>

definition parseIP :: "(bool \<Rightarrow> string \<Rightarrow> bytes option) \<Rightarrow> string \<Rightarrow> bytes" where
  "parseIP inet_pton ip =
     (let ip6 = (CHR '':'' \<in> set ip) in
      case inet_pton ip6 (takeWhile (\<lambda>c. c \<noteq> CHR 0x00) ip) of
        None \<Rightarrow> []
      | Some buf \<Rightarrow> take (if ip6 then 16 else 4) buf)"

text \<open>The header is given if the configuration names one.\<close>

definition client_ip :: "(bool \<Rightarrow> string \<Rightarrow> bytes option) \<Rightarrow> string option \<Rightarrow> bytes \<Rightarrow> bytes" where
  "client_ip inet_pton header addressBytes =
     (let ip = (case header of
          None \<Rightarrow> []
        | Some h \<Rightarrow>
            let ip = parseIP inet_pton h;
                ip = (if ip = [] then parseIP inet_pton (''::'' @ h) else ip) in
            if ip = [] then parseIP inet_pton ('':'' @ h) else ip) in
      if length ip = 0 then addressBytes else ip)"

definition onConnection :: "(bool \<Rightarrow> string \<Rightarrow> bytes option) \<Rightarrow> nat \<Rightarrow> string option \<Rightarrow> bytes \<Rightarrow> Websocket \<Rightarrow> Websocket" where
  "onConnection inet_pton ws header addressBytes W =
     (let connId = nextConnectionId W;
          c = \<lparr>websocket = ws, c_connId = connId, c_ipAddr = client_ip inet_pton header addressBytes,
               stats = \<lparr>bytesUp = 0, bytesUpCompressed = 0, bytesDown = 0, bytesDownCompressed = 0\<rparr>\<rparr>;
          W = W\<lparr>nextConnectionId := connId + 1\<rparr> in
      if connId \<in> fst ` set (connIdToConnection W) then W
      else W\<lparr>connIdToConnection := connIdToConnection W @ [(connId, c)]\<rparr>)"

text \<open>The flag says whether the process exits.\<close>

definition onDisconnection :: "u64 \<Rightarrow> RelayServer \<times> Websocket \<Rightarrow> (bool \<times> RelayServer \<times> Websocket) result" where
  "onDisconnection connId = (\<lambda>(rs, W).
     case map_of (connIdToConnection W) connId of
       None \<Rightarrow> Inl UseAfterFree
     | Some c \<Rightarrow>
         let rs = rs\<lparr>tpIngester := dispatch connId (Ingester_CloseConn connId) (tpIngester rs)\<rparr>;
             W = W\<lparr>connIdToConnection := filter (\<lambda>x. fst x \<noteq> connId) (connIdToConnection W)\<rparr> in
         Inr (gracefulShutdown W \<and> length (connIdToConnection W) = 0, rs, W))"

definition update_conn :: "u64 \<Rightarrow> Connection \<Rightarrow> Websocket \<Rightarrow> Websocket" where
  "update_conn connId c W = W\<lparr>connIdToConnection := map (\<lambda>x. if fst x = connId then (connId, c) else x) (connIdToConnection W)\<rparr>"

definition onMessage2 :: "u64 \<Rightarrow> string \<Rightarrow> u64 \<Rightarrow> RelayServer \<times> Websocket \<Rightarrow> (RelayServer \<times> Websocket) result" where
  "onMessage2 connId message compressedSize = (\<lambda>(rs, W).
     case map_of (connIdToConnection W) connId of
       None \<Rightarrow> Inl UseAfterFree
     | Some c \<Rightarrow>
         let c = c\<lparr>stats := (stats c)\<lparr>bytesDown := bytesDown (stats c) + of_nat (length message),
               bytesDownCompressed := bytesDownCompressed (stats c) + compressedSize\<rparr>\<rparr> in
         Inr (rs\<lparr>tpIngester := dispatch (c_connId c) (ClientMessage (c_connId c) (c_ipAddr c) message) (tpIngester rs)\<rparr>, update_conn connId c W))"

section \<open>Sending\<close>

definition ws_send :: "(nat \<Rightarrow> string \<Rightarrow> u64) \<Rightarrow> u64 \<Rightarrow> string \<Rightarrow> OpCode \<Rightarrow> Websocket \<Rightarrow> Websocket" where
  "ws_send zip_size connId payload opCode W =
     (case map_of (connIdToConnection W) connId of
        None \<Rightarrow> W
      | Some c \<Rightarrow>
          let c' = c\<lparr>stats := (stats c)\<lparr>bytesUp := bytesUp (stats c) + of_nat (length payload),
                bytesUpCompressed := bytesUpCompressed (stats c) + zip_size (websocket c) payload\<rparr>\<rparr> in
          update_conn connId c' (W\<lparr>sent := sent W @ [(websocket c, payload, opCode)]\<rparr>))"

text \<open>Memory: a copy outside of the buffer is an error.\<close>

definition memcpy :: "bytes \<Rightarrow> int \<Rightarrow> bytes \<Rightarrow> bytes result" where
  "memcpy buf off src =
     (if 0 \<le> off \<and> nat off + length src \<le> length buf then Inr (take (nat off) buf @ src @ drop (nat off + length src) buf)
      else Inl OutOfRange)"

definition resize :: "bytes \<Rightarrow> nat \<Rightarrow> bytes" where
  "resize buf n = take n buf @ replicate (n - length buf) (CHR 0x00)"

text \<open>
  The message for many subscriptions: the common end is written once, and for each recipient the beginning is copied in front of it, so that
  the message starts where the length of the identifier requires.
\<close>

fun send_batch :: "(nat \<Rightarrow> string \<Rightarrow> u64) \<Rightarrow> nat \<Rightarrow> RecipientList \<Rightarrow> Websocket \<Rightarrow> Websocket result" where
  "send_batch zip_size jsonSize [] W = Inr W"
| "send_batch zip_size jsonSize ((connId, subId) # rcpts) W =
     (let subIdSv = subid_sv subId; p = int MAX_SUBID_SIZE - int (length subIdSv) in
      rbind (memcpy (tempBuf W) p ''[\"EVENT\",\"'') (\<lambda>buf.
      rbind (memcpy buf (p + 10) subIdSv) (\<lambda>buf.
        send_batch zip_size jsonSize rcpts
          (ws_send zip_size connId (take (13 + length subIdSv + jsonSize) (drop (nat p) buf)) TEXT (W\<lparr>tempBuf := buf\<rparr>)))))"

definition websocket_msg :: "(nat \<Rightarrow> string \<Rightarrow> u64) \<Rightarrow> MsgWebsocket \<Rightarrow> Websocket \<Rightarrow> Websocket result" where
  "websocket_msg zip_size m W =
     (case m of
        Send connId payload \<Rightarrow> Inr (ws_send zip_size connId payload TEXT W)
      | SendBinary connId payload \<Rightarrow> Inr (ws_send zip_size connId payload BINARY W)
      | SendEventToBatch list0 evJson \<Rightarrow>
          let buf = resize (tempBuf W) (10 + MAX_SUBID_SIZE) @ ''\",'' @ evJson @ '']'' in
          send_batch zip_size (length evJson) list0 (W\<lparr>tempBuf := buf\<rparr>)
      | GracefulShutdown \<Rightarrow> Inr (W\<lparr>gracefulShutdown := True\<rparr>))"

definition asyncCb :: "(nat \<Rightarrow> string \<Rightarrow> u64) \<Rightarrow> RelayServer \<times> Websocket \<Rightarrow> (RelayServer \<times> Websocket) result" where
  "asyncCb zip_size = (\<lambda>(rs, W).
     let (newMsgs, pool) = pop_all 0 (tpWebsocket rs) in
     rbind (rfold (websocket_msg zip_size) newMsgs W) (\<lambda>W. Inr (rs\<lparr>tpWebsocket := pool\<rparr>, W)))"

section \<open>What the clients get\<close>

text \<open>The websockets of the connections that are open.\<close>

definition socket_of :: "Websocket \<Rightarrow> u64 \<Rightarrow> nat option" where
  "socket_of W connId = map_option websocket (map_of (connIdToConnection W) connId)"

definition deliver :: "(u64 \<Rightarrow> nat option) \<Rightarrow> u64 \<Rightarrow> string \<Rightarrow> OpCode \<Rightarrow> (nat \<times> string \<times> OpCode) list" where
  "deliver sock connId payload op = (case sock connId of None \<Rightarrow> [] | Some ws \<Rightarrow> [(ws, payload, op)])"

fun delivered :: "(u64 \<Rightarrow> nat option) \<Rightarrow> MsgWebsocket \<Rightarrow> (nat \<times> string \<times> OpCode) list" where
  "delivered sock (Send c s) = deliver sock c s TEXT"
| "delivered sock (SendBinary c s) = deliver sock c s BINARY"
| "delivered sock (SendEventToBatch rcpts json) = concat (map (\<lambda>(c, subId). deliver sock c (event_reply subId json) TEXT) rcpts)"
| "delivered sock GracefulShutdown = []"

lemma map_of_update: "map_of (map (\<lambda>x. if fst x = k then (k, v) else x) xs) k' = (if k' = k then map_option (\<lambda>_. v) (map_of xs k) else map_of xs k')"
  by (induction xs) auto

lemma ws_send_sent [simp]:
  "sent (ws_send zip_size c s op W) = sent W @ deliver (socket_of W) c s op" "socket_of (ws_send zip_size c s op W) = socket_of W"
  "tempBuf (ws_send zip_size c s op W) = tempBuf W"
  by (auto simp: ws_send_def deliver_def socket_of_def update_conn_def map_of_update fun_eq_iff Let_def split: option.split)

lemma socket_of_frame [simp]: "socket_of (W\<lparr>tempBuf := b\<rparr>) = socket_of W" "socket_of (W\<lparr>gracefulShutdown := g\<rparr>) = socket_of W"
  by (simp_all add: socket_of_def fun_eq_iff)

lemma memcpy_at: "length P = k \<Longrightarrow> length M = length src \<Longrightarrow> memcpy (P @ M @ R) (int k) src = Inr (P @ src @ R)"
  by (simp add: memcpy_def)

text \<open>Copying an identifier and what precedes it in front of the common end.\<close>

lemma memcpy_front:
  assumes "length P = 74" and "length s \<le> 64"
  shows "\<exists>P'. length P' = 74 \<and> rbind (memcpy (P @ tail) (64 - int (length s)) ''[\"EVENT\",\"'') (\<lambda>buf. memcpy buf (64 - int (length s) + 10) s) = Inr (P' @ tail) \<and>
    drop (64 - length s) (P' @ tail) = ''[\"EVENT\",\"'' @ s @ tail"
proof -
  let ?k = "64 - length s" and ?h = "''[\"EVENT\",\"''"
  have k: "64 - int (length s) = int ?k" "64 - int (length s) + 10 = int (?k + 10)" using assms(2) by linarith+
  define A M B where "A = take ?k P" and "M = take 10 (drop ?k P)" and "B = drop 10 (drop ?k P)"
  have "P = A @ M @ B" by (simp only: A_def M_def B_def append_take_drop_id)
  moreover have "length A = ?k" "length M = length ?h" "length B = length s" using assms by (simp_all add: A_def M_def B_def)
  ultimately have P: "P = A @ M @ B" "length A = ?k" "length M = length ?h" "length B = length s" by simp_all
  have "memcpy (P @ tail) (int ?k) ?h = Inr (A @ ?h @ B @ tail)" using memcpy_at [of A ?k M ?h "B @ tail"] P by simp
  moreover have "memcpy ((A @ ?h) @ B @ tail) (int (?k + 10)) s = Inr ((A @ ?h) @ s @ tail)" by (rule memcpy_at) (use P in simp_all)
  ultimately have "rbind (memcpy (P @ tail) (int ?k) ?h) (\<lambda>buf. memcpy buf (int (?k + 10)) s) = Inr ((A @ ?h @ s) @ tail)" by simp
  then show ?thesis unfolding k using P(2) assms(2) by (intro exI [of _ "A @ ?h @ s"]) simp
qed

lemma send_batch_ok:
  assumes "\<forall>(c, subId) \<in> set rcpts. length (subid_sv subId) \<le> 64" and "\<exists>P. length P = 74 \<and> tempBuf W = P @ ''\",'' @ json @ '']''"
  shows "\<exists>W'. send_batch zip_size (length json) rcpts W = Inr W' \<and> socket_of W' = socket_of W \<and> sent W' = sent W @ delivered (socket_of W) (SendEventToBatch rcpts json)"
  using assms
proof (induction rcpts arbitrary: W)
  case (Cons x rcpts)
  obtain c subId where x: "x = (c, subId)" by (cases x)
  let ?s = "subid_sv subId" and ?tail = "''\",'' @ json @ '']''"
  obtain P where P: "length P = 74" "tempBuf W = P @ ?tail" using Cons.prems(2) by blast
  have len: "length ?s \<le> 64" using Cons.prems(1) x by simp
  obtain P' where P': "length P' = 74" "rbind (memcpy (P @ ?tail) (64 - int (length ?s)) ''[\"EVENT\",\"'') (\<lambda>buf. memcpy buf (64 - int (length ?s) + 10) ?s) = Inr (P' @ ?tail)"
    "drop (64 - length ?s) (P' @ ?tail) = ''[\"EVENT\",\"'' @ ?s @ ?tail"
    using memcpy_front [OF P(1) len] by blast
  obtain b where b: "memcpy (P @ ?tail) (64 - int (length ?s)) ''[\"EVENT\",\"'' = Inr b" "memcpy b (64 - int (length ?s) + 10) ?s = Inr (P' @ ?tail)"
    using P'(2) by auto
  have k: "nat (64 - int (length ?s)) = 64 - length ?s" by linarith
  let ?W = "ws_send zip_size c (event_reply subId json) TEXT (W\<lparr>tempBuf := P' @ ?tail\<rparr>)"
  have step: "send_batch zip_size (length json) (x # rcpts) W = send_batch zip_size (length json) rcpts ?W"
    using b P'(3) by (simp add: x P(2) MAX_SUBID_SIZE_def Let_def k event_reply_def)
  have "\<exists>P. length P = 74 \<and> tempBuf ?W = P @ ?tail" using P'(1) by simp
  then obtain W' where "send_batch zip_size (length json) rcpts ?W = Inr W'" "socket_of W' = socket_of ?W" "sent W' = sent ?W @ delivered (socket_of ?W) (SendEventToBatch rcpts json)"
    using Cons.IH [of ?W] Cons.prems(1) by auto
  then show ?case using step by (simp add: x)
qed simp

lemma websocket_msg_ok:
  assumes "\<forall>rcpts json. m = SendEventToBatch rcpts json \<longrightarrow> (\<forall>(c, subId) \<in> set rcpts. length (subid_sv subId) \<le> 64)"
  shows "\<exists>W'. websocket_msg zip_size m W = Inr W' \<and> socket_of W' = socket_of W \<and> sent W' = sent W @ delivered (socket_of W) m"
proof (cases m)
  case (SendEventToBatch rcpts json)
  let ?W = "W\<lparr>tempBuf := resize (tempBuf W) (10 + MAX_SUBID_SIZE) @ ''\",'' @ json @ '']''\<rparr>"
  have "length (resize (tempBuf W) (10 + MAX_SUBID_SIZE)) = 74" by (simp add: resize_def MAX_SUBID_SIZE_def)
  then have "\<exists>P. length P = 74 \<and> tempBuf ?W = P @ ''\",'' @ json @ '']''" by auto
  from send_batch_ok [OF _ this, of rcpts] show ?thesis using assms SendEventToBatch by (auto simp: websocket_msg_def)
qed (simp_all add: websocket_msg_def)

section \<open>Properties\<close>

text \<open>C17: When the thread is woken, every message that is waiting for it is handed to the library once and in order, to the socket of its connection if that
  is still open.  A message for many subscriptions, which is assembled in one buffer that is overwritten for each of them, reaches each with its own
  subscription identifier and the whole event, and no copy leaves the buffer.\<close>

theorem websocket_delivers:
  assumes "\<forall>rcpts json. SendEventToBatch rcpts json \<in> set (websocket_out rs) \<longrightarrow> (\<forall>(c, subId) \<in> set rcpts. length (subid_sv subId) \<le> 64)"
  shows "\<exists>W'. asyncCb zip_size (rs, W) = Inr (rs\<lparr>tpWebsocket := snd (pop_all 0 (tpWebsocket rs))\<rparr>, W') \<and> socket_of W' = socket_of W \<and>
    sent W' = sent W @ concat (map (delivered (socket_of W)) (websocket_out rs))"
proof -
  have "\<exists>W'. rfold (websocket_msg zip_size) ms W = Inr W' \<and> socket_of W' = socket_of W \<and> sent W' = sent W @ concat (map (delivered (socket_of W)) ms)"
    if "set ms \<subseteq> set (websocket_out rs)" for ms
    using that
  proof (induction ms arbitrary: W)
    case (Cons m ms)
    have "\<forall>rcpts json. m = SendEventToBatch rcpts json \<longrightarrow> (\<forall>(c, subId) \<in> set rcpts. length (subid_sv subId) \<le> 64)"
      using assms Cons.prems by auto
    then obtain W1 where W1: "websocket_msg zip_size m W = Inr W1" "socket_of W1 = socket_of W" "sent W1 = sent W @ delivered (socket_of W) m"
      using websocket_msg_ok by blast
    moreover obtain W' where "rfold (websocket_msg zip_size) ms W1 = Inr W'" "socket_of W' = socket_of W1"
      "sent W' = sent W1 @ concat (map (delivered (socket_of W1)) ms)" using Cons.IH [of W1] Cons.prems by auto
    ultimately show ?case by simp
  qed simp
  from this [of "websocket_out rs"] show ?thesis by (auto simp: asyncCb_def pop_all_def websocket_out_def)
qed

theorem websocket_delivers_witness:
  "\<exists>rs' W'. asyncCb (\<lambda>_ _. 0)
     (\<lparr>rs_ephemeralTracker = new_EphemeralSubTracker, tpWebsocket = \<lparr>numThreads = 1, inbox = (\<lambda>_. [SendEventToBatch [(1, SubId [CHR 0x03, CHR ''a'', CHR ''b'', CHR ''c'']), (1, SubId [CHR 0x01, CHR ''s'']), (2, SubId [CHR 0x01, CHR ''t''])] ''{}''])\<rparr>,
       tpIngester = \<lparr>numThreads = 1, inbox = (\<lambda>_. [])\<rparr>, tpWriter = \<lparr>numThreads = 1, inbox = (\<lambda>_. [])\<rparr>, tpReqWorker = \<lparr>numThreads = 1, inbox = (\<lambda>_. [])\<rparr>,
       tpReqMonitor = \<lparr>numThreads = 1, inbox = (\<lambda>_. [])\<rparr>, tpNegentropy = \<lparr>numThreads = 1, inbox = (\<lambda>_. [])\<rparr>\<rparr>,
      onConnection (\<lambda>_ _. None) 5 None ''abcd'' \<lparr>connIdToConnection = [], nextConnectionId = 1, gracefulShutdown = False, tempBuf = [], sent = []\<rparr>) = Inr (rs', W') \<and>
     sent W' = [(5, ''[\"EVENT\",\"abc\",{}]'', TEXT), (5, ''[\"EVENT\",\"s\",{}]'', TEXT)]"
proof -
  let ?rs = "\<lparr>rs_ephemeralTracker = new_EphemeralSubTracker, tpWebsocket = \<lparr>numThreads = 1, inbox = (\<lambda>_. [SendEventToBatch [(1, SubId [CHR 0x03, CHR ''a'', CHR ''b'', CHR ''c'']), (1, SubId [CHR 0x01, CHR ''s'']), (2, SubId [CHR 0x01, CHR ''t''])] ''{}''])\<rparr>,
       tpIngester = \<lparr>numThreads = 1, inbox = (\<lambda>_. [])\<rparr>, tpWriter = \<lparr>numThreads = 1, inbox = (\<lambda>_. [])\<rparr>, tpReqWorker = \<lparr>numThreads = 1, inbox = (\<lambda>_. [])\<rparr>,
       tpReqMonitor = \<lparr>numThreads = 1, inbox = (\<lambda>_. [])\<rparr>, tpNegentropy = \<lparr>numThreads = 1, inbox = (\<lambda>_. [])\<rparr>\<rparr>"
  let ?W = "onConnection (\<lambda>_ _. None) 5 None ''abcd'' \<lparr>connIdToConnection = [], nextConnectionId = 1, gracefulShutdown = False, tempBuf = [], sent = []\<rparr>"
  have sv: "subid_sv (SubId [CHR 0x03, CHR ''a'', CHR ''b'', CHR ''c'']) = ''abc''" "subid_sv (SubId [CHR 0x01, CHR ''s'']) = ''s''" "subid_sv (SubId [CHR 0x01, CHR ''t'']) = ''t''"
    by (simp_all add: subid_sv_def)
  have sock: "socket_of ?W c = (if c = 1 then Some 5 else None)" "sent ?W = []" for c by (simp_all add: onConnection_def socket_of_def Let_def)
  have "\<exists>W'. asyncCb (\<lambda>_ _. 0) (?rs, ?W) = Inr (?rs\<lparr>tpWebsocket := snd (pop_all 0 (tpWebsocket ?rs))\<rparr>, W') \<and> socket_of W' = socket_of ?W \<and>
    sent W' = sent ?W @ concat (map (delivered (socket_of ?W)) (websocket_out ?rs))"
    by (rule websocket_delivers) (simp add: websocket_out_def sv)
  then show ?thesis by (auto simp: websocket_out_def sock deliver_def event_reply_def sv)
qed

end
