(* ===== verification/WSConnection.thy ===== *)
theory WSConnection
  imports Prelude
begin

text \<open>
  \<open>src/WSConnection.h\<close>: the connection of a command to another relay.  The websocket library calls the handlers below in one thread; what they ask of
  it is recorded in order.  A command gives its callbacks.  A callback that throws keeps what it has done, it may end the process, and a plugin that it asks may
  keep it waiting forever; these are the values of \<open>outcome\<close>.  The delay before a new attempt, the TCP options and the log lines are left out.
\<close>

section \<open>What a callback comes to\<close>

datatype 's outcome = Ok 's | Throw exn 's | Exit int 's | Hang

fun obind :: "'s outcome \<Rightarrow> ('s \<Rightarrow> 's outcome) \<Rightarrow> 's outcome" where
  "obind (Ok s) f = f s"
| "obind m f = m"

definition olift :: "'a result \<Rightarrow> 's \<Rightarrow> ('a \<Rightarrow> 's outcome) \<Rightarrow> 's outcome" where
  "olift r s f = (case r of Inl e \<Rightarrow> Throw e s | Inr x \<Rightarrow> f x)"

fun ofold :: "('a \<Rightarrow> 's \<Rightarrow> 's outcome) \<Rightarrow> 'a list \<Rightarrow> 's \<Rightarrow> 's outcome" where
  "ofold f [] s = Ok s"
| "ofold f (x # xs) s = obind (f x s) (ofold f xs)"

text \<open>\<open>catch (std::exception &e)\<close> with a handler that only logs.\<close>

fun catch_log :: "'s outcome \<Rightarrow> 's outcome" where
  "catch_log (Throw e s) = Ok s"
| "catch_log m = m"

lemma olift_simps [simp]: "olift (Inr x) s f = f x" "olift (Inl e) s f = Throw e s"
  by (simp_all add: olift_def)

lemma olift_cong [fundef_cong]: "r = r' \<Longrightarrow> s = s' \<Longrightarrow> (\<And>x. r' = Inr x \<Longrightarrow> f x = f' x) \<Longrightarrow> olift r s f = olift r' s' f'"
  by (cases r') auto

lemma obind_assoc: "obind (obind m f) g = obind m (\<lambda>s. obind (f s) g)"
  by (cases m) auto

lemma ofold_append: "ofold f (xs @ ys) s = obind (ofold f xs s) (ofold f ys)"
proof (induction xs arbitrary: s)
  case (Cons x xs)
  then show ?case by (cases "f x s") auto
qed simp

lemma catch_log_Throw [simp]: "catch_log m \<noteq> Throw e s"
  by (cases m) auto

section \<open>The connection\<close>

datatype hub_call = HubConnect | WsSend nat string | WsClose nat | WsTerminate nat | GroupClose | TriggerSend | TriggerClose

record WSConnection =
  hubGroup :: bool
  hubTrigger :: bool
  currWs :: "nat option"
  reconnect :: bool
  shutdown :: bool
  hub :: "hub_call list"

definition new_WSConnection :: WSConnection where
  "new_WSConnection = \<lparr>hubGroup = False, hubTrigger = False, currWs = None, reconnect = True, shutdown = False, hub = []\<rparr>"

definition hub_do :: "hub_call \<Rightarrow> WSConnection \<Rightarrow> WSConnection" where
  "hub_do x c = c\<lparr>hub := hub c @ [x]\<rparr>"

lemma hub_do_simps [simp]:
  "hub (hub_do x c) = hub c @ [x]" "currWs (hub_do x c) = currWs c" "reconnect (hub_do x c) = reconnect c" "shutdown (hub_do x c) = shutdown c"
  "hubTrigger (hub_do x c) = hubTrigger c" "hubGroup (hub_do x c) = hubGroup c"
  by (simp_all add: hub_do_def)

definition wsc_send :: "string \<Rightarrow> WSConnection \<Rightarrow> WSConnection" where
  "wsc_send msg c = (case currWs c of Some ws \<Rightarrow> hub_do (WsSend ws msg) c | None \<Rightarrow> c)"

definition wsc_trigger :: "WSConnection \<Rightarrow> WSConnection" where
  "wsc_trigger c = (if hubTrigger c then hub_do TriggerSend c else c)"

definition wsc_close :: "WSConnection \<Rightarrow> WSConnection" where
  "wsc_close c = wsc_trigger (c\<lparr>shutdown := True\<rparr>)"

definition doConnect :: "WSConnection \<Rightarrow> WSConnection" where
  "doConnect c = (if shutdown c then c else hub_do HubConnect c)"

definition terminate :: "WSConnection \<Rightarrow> WSConnection" where
  "terminate c =
     (let c = (if hubGroup c then (hub_do GroupClose c)\<lparr>hubGroup := False\<rparr> else c);
          c = (if hubTrigger c then (hub_do TriggerClose c)\<lparr>hubTrigger := False\<rparr> else c) in
      case currWs c of Some ws \<Rightarrow> (hub_do (WsTerminate ws) c)\<lparr>currWs := None\<rparr> | None \<Rightarrow> c)"

text \<open>The start of \<open>run\<close>, up to the event loop.\<close>

definition wsc_run :: "WSConnection \<Rightarrow> WSConnection" where
  "wsc_run c = doConnect (c\<lparr>hubGroup := True, hubTrigger := True\<rparr>)"

section \<open>The handlers\<close>

type_synonym 's callback = "WSConnection \<times> 's \<Rightarrow> (WSConnection \<times> 's) outcome"

record 's ws_callbacks =
  onConnect :: "'s callback option"
  onMessage :: "(string \<Rightarrow> 's callback) option"
  onTrigger :: "'s callback option"
  onDisconnect :: "'s callback option"
  onError :: "'s callback option"

definition call :: "'s callback option \<Rightarrow> 's callback" where
  "call cb s = (case cb of None \<Rightarrow> Ok s | Some f \<Rightarrow> f s)"

lemma call_simps [simp]: "call None s = Ok s" "call (Some f) s = f s"
  by (simp_all add: call_def)

definition wsc_onConnection :: "'s ws_callbacks \<Rightarrow> nat \<Rightarrow> 's callback" where
  "wsc_onConnection cb ws = (\<lambda>(c, s).
     if shutdown c then Ok (c, s)
     else
       let c = (case currWs c of Some old \<Rightarrow> (hub_do (WsTerminate old) c)\<lparr>currWs := None\<rparr> | None \<Rightarrow> c) in
       catch_log (call (onConnect cb) (c\<lparr>currWs := Some ws\<rparr>, s)))"

definition wsc_onDisconnection :: "'s ws_callbacks \<Rightarrow> nat \<Rightarrow> 's callback" where
  "wsc_onDisconnection cb ws = (\<lambda>(c, s).
     if shutdown c then Ok (c, s)
     else if Some ws = currWs c then
       obind (call (onDisconnect cb) (c\<lparr>currWs := None\<rparr>, s)) (\<lambda>(c, s). Ok (if reconnect c then doConnect c else c, s))
     else Ok (c, s))"

definition wsc_onError :: "'s ws_callbacks \<Rightarrow> 's callback" where
  "wsc_onError cb s = obind (call (onError cb) s) (\<lambda>(c, s). Ok (if reconnect c then doConnect c else c, s))"

definition wsc_onMessage2 :: "'s ws_callbacks \<Rightarrow> string \<Rightarrow> 's callback" where
  "wsc_onMessage2 cb msg s = catch_log (call (map_option (\<lambda>f. f msg) (onMessage cb)) s)"

definition wsc_asyncCb :: "'s ws_callbacks \<Rightarrow> 's callback" where
  "wsc_asyncCb cb = (\<lambda>(c, s). if shutdown c then Ok (terminate c, s) else catch_log (call (onTrigger cb) (c, s)))"

section \<open>Sending\<close>

lemma wsc_send_simps [simp]:
  "currWs (wsc_send msg c) = currWs c" "shutdown (wsc_send msg c) = shutdown c" "reconnect (wsc_send msg c) = reconnect c"
  "currWs c = Some ws \<Longrightarrow> hub (wsc_send msg c) = hub c @ [WsSend ws msg]"
  by (auto simp: wsc_send_def split: option.split)

definition sent_msgs :: "nat \<Rightarrow> hub_call list \<Rightarrow> string list" where
  "sent_msgs ws calls = concat (map (\<lambda>x. case x of WsSend ws' msg \<Rightarrow> if ws' = ws then [msg] else [] | _ \<Rightarrow> []) calls)"

lemma sent_msgs_simps [simp]:
  "sent_msgs ws [] = []" "sent_msgs ws (xs @ ys) = sent_msgs ws xs @ sent_msgs ws ys"
  "sent_msgs ws (x # xs) = (case x of WsSend ws' msg \<Rightarrow> if ws' = ws then [msg] else [] | _ \<Rightarrow> []) @ sent_msgs ws xs"
  by (simp_all add: sent_msgs_def)

end
