(* ===== verification/MeshStream.thy ===== *)
theory MeshStream
  imports WSConnection WriterPipeline PluginEventSifter
begin

text \<open>
  \<open>src/apps/mesh/cmd_stream.cpp\<close>: the command that copies new events from another relay, to it, or both ways.  Its state is the set of events that came from
  the relay and that are not to be sent back, the pipeline it writes through, the write policy plugin and the last event it has sent.
\<close>

section \<open>The command\<close>

record ('t, 'w) Stream =
  downloadedIds :: "Bytes32 set"
  st_writer :: "'t WriterPipeline"
  st_plugin :: "'w sifter"
  st_currEventId :: u64

definition new_Stream :: "'t env \<Rightarrow> 't \<Rightarrow> 'w \<Rightarrow> ('t, 'w) Stream" where
  "new_Stream E db w =
     \<lparr>downloadedIds = {}, st_writer = new_WriterPipeline db, st_plugin = (None, w), st_currEventId = getMostRecentLevId E db\<rparr>"

definition stream_dir :: "string option \<Rightarrow> string result" where
  "stream_dir arg =
     (let dir = (case arg of Some d \<Rightarrow> d | None \<Rightarrow> ''down'') in
      if dir \<noteq> ''up'' \<and> dir \<noteq> ''down'' \<and> dir \<noteq> ''both'' then Inl (Herr ''invalid direction'') else Inr dir)"

definition stream_onConnect :: "libs \<Rightarrow> string \<Rightarrow> ('t, 'w) Stream callback" where
  "stream_onConnect L dir = (\<lambda>(c, s).
     if dir = ''down'' \<or> dir = ''both'' then
       Ok (wsc_send (json_to_string L (JArray [JString ''REQ'', JString ''sub'', JObject [(''limit'', JSigned 0)]])) c, s)
     else Ok (c, s))"

text \<open>The identifier of an event is read only to remember or to log it.\<close>

definition json_id :: "json \<Rightarrow> string result" where
  "json_id evJson = rbind (json_at evJson ''id'') get_string"

definition json_eid :: "libs \<Rightarrow> json \<Rightarrow> Bytes32 result" where
  "json_eid L evJson = rbind (json_id evJson) (\<lambda>i. rbind (from_hex L i) mkBytes32)"

definition stream_event :: "libs \<Rightarrow> cfg \<Rightarrow> 'w plugin_io \<Rightarrow> string \<Rightarrow> json \<Rightarrow> ('t, 'w) Stream callback" where
  "stream_event L cfg io url evJson = (\<lambda>(c, s).
     case acceptEvent L io (relay_writePolicy_plugin cfg) evJson EventSourceType.Stream url (st_plugin s) of
       None \<Rightarrow> Hang
     | Some (res, okMsg, plugin) \<Rightarrow>
         let s = s\<lparr>st_plugin := plugin\<rparr> in
         if res = Accept then
           olift (json_eid L evJson) (c, s) (\<lambda>eid.
             Ok (c, s\<lparr>downloadedIds := insert eid (downloadedIds s), st_writer := pipeline_write evJson (st_writer s)\<rparr>))
         else if okMsg \<noteq> [] then olift (json_id evJson) (c, s) (\<lambda>_. Ok (c, s))
         else Ok (c, s))"

definition stream_onMessage :: "libs \<Rightarrow> cfg \<Rightarrow> 'w plugin_io \<Rightarrow> string \<Rightarrow> string \<Rightarrow> string \<Rightarrow> ('t, 'w) Stream callback" where
  "stream_onMessage L cfg io dir url msg = (\<lambda>(c, s).
     olift (json_from_string L msg) (c, s) (\<lambda>origJson.
       case origJson of
         JArray arr \<Rightarrow>
           if length arr < 2 then Throw (Herr ''array too short'') (c, s)
           else
             let msgType = arr ! 0 in
             if msgType = JString ''EOSE'' then Ok (c, s)
             else if msgType = JString ''NOTICE'' then Ok (c, s)
             else if msgType = JString ''OK'' then olift (rbind (arr_at arr 2) get_boolean) (c, s) (\<lambda>_. Ok (c, s))
             else if msgType = JString ''EVENT'' then
               (if dir = ''down'' \<or> dir = ''both'' then
                  (if length arr < 3 then Throw (Herr ''array too short'') (c, s)
                   else stream_event L cfg io url (arr ! 2) (c, s))
                else Ok (c, s))
             else Throw (Herr ''unexpected first element'') (c, s)
       | _ \<Rightarrow> Throw (Herr ''unexpected message'') (c, s)))"

definition upload_msg :: "string \<Rightarrow> string" where
  "upload_msg json = ''[\"EVENT\",'' @ json @ '']''"

definition stream_up :: "'t env \<Rightarrow> (u32 \<Rightarrow> bytes \<Rightarrow> bytes result) \<Rightarrow> 't \<Rightarrow> View_Event \<Rightarrow> ('t, 'w) Stream callback" where
  "stream_up E decomp txn ev = (\<lambda>(c, s).
     let s = s\<lparr>st_currEventId := fst ev\<rparr> in
     olift (rbind (PackedEventView (snd ev)) (\<lambda>packed. mkBytes32 (pv_id packed))) (c, s) (\<lambda>eid.
       if eid \<in> downloadedIds s then Ok (c, s\<lparr>downloadedIds := downloadedIds s - {eid}\<rparr>)
       else olift (getEventJson E decomp txn (fst ev)) (c, s) (\<lambda>json. Ok (wsc_send (upload_msg json) c, s))))"

definition stream_onTrigger :: "'t env \<Rightarrow> (u32 \<Rightarrow> bytes \<Rightarrow> bytes result) \<Rightarrow> string \<Rightarrow> 't \<Rightarrow> ('t, 'w) Stream callback" where
  "stream_onTrigger E decomp dir txn = (\<lambda>(c, s).
     if dir = ''down'' then Ok (c, s)
     else ofold (stream_up E decomp txn) (foreach_Event E txn False (Some (st_currEventId s + 1))) (c, s))"

text \<open>The callbacks while the database is in a given state.\<close>

definition stream_callbacks ::
  "'t env \<Rightarrow> libs \<Rightarrow> cfg \<Rightarrow> 'w plugin_io \<Rightarrow> (u32 \<Rightarrow> bytes \<Rightarrow> bytes result) \<Rightarrow> string \<Rightarrow> string \<Rightarrow> 't \<Rightarrow> ('t, 'w) Stream ws_callbacks" where
  "stream_callbacks E L cfg io decomp dir url txn =
     \<lparr>onConnect = Some (stream_onConnect L dir), onMessage = Some (stream_onMessage L cfg io dir url),
      onTrigger = Some (stream_onTrigger E decomp dir txn), onDisconnect = None, onError = None\<rparr>"

section \<open>What goes up\<close>

definition view_eid :: "View_Event \<Rightarrow> Bytes32" where
  "view_eid ev = Bytes32 (pv_id (snd ev))"

lemma view_eids_distinct:
  assumes "wf_store T" and "unique_ids (events_of T)"
  shows "distinct (map view_eid (t_events T))"
proof -
  have "map view_eid (t_events T) = map Bytes32 (map (\<lambda>(l, e). ev_id e) (events_of T))"
    using events_of_packed [OF assms(1)] by (auto simp: events_of_def view_eid_def) (metis pack_accessors(1))
  then show ?thesis using assms(2) by (simp add: unique_ids_def distinct_map inj_on_def)
qed

context golpe_env
begin

lemma stream_up_loop:
  assumes T: "wf_store (view txn)" and pay: "payloads_ok decomp (view txn)" and ws: "currWs c = Some ws"
    and evs: "set evs \<subseteq> set (t_events (view txn))" and ids: "distinct (map view_eid evs)"
  shows "\<exists>c'. ofold (stream_up E decomp txn) evs (c, s) =
      Ok (c', s\<lparr>downloadedIds := downloadedIds s - view_eid ` set evs, st_currEventId := (if evs = [] then st_currEventId s else fst (last evs))\<rparr>) \<and>
    hub c' = hub c @ map (\<lambda>ev. WsSend ws (upload_msg (the (stored_json decomp (view txn) (fst ev))))) (filter (\<lambda>ev. view_eid ev \<notin> downloadedIds s) evs) \<and>
    currWs c' = Some ws"
  using ws evs ids
proof (induction evs arbitrary: c s)
  case (Cons ev evs)
  obtain l p where ev: "ev = (l, p)" by (cases ev)
  have mem: "(l, p) \<in> set (t_events (view txn))" using Cons.prems ev by auto
  then have e: "wf_event (unpack p)" "p = pack (unpack p)" using events_of_packed [OF T] by blast+
  have "PackedEventView p = Inr p" "mkBytes32 (pv_id p) = Inr (view_eid ev)"
    using PackedEventView_pack [OF e(1)] e(2) e(1) pack_accessors(1) [OF e(1)] by (simp_all add: view_eid_def ev wf_event_def)
  moreover have "getEventJson E decomp txn l = Inr (the (stored_json decomp (view txn) l))"
    by (rule getEventJson_stored [OF pay]) (use mem in force)
  ultimately have step: "stream_up E decomp txn ev (c, s) = Ok
      (if view_eid ev \<in> downloadedIds s then c else wsc_send (upload_msg (the (stored_json decomp (view txn) l))) c,
       s\<lparr>downloadedIds := downloadedIds s - {view_eid ev}, st_currEventId := l\<rparr>)"
    by (cases s) (auto simp: stream_up_def ev Let_def mkBytes32_def)
  have same: "filter (\<lambda>x. view_eid x \<notin> downloadedIds s - {view_eid ev}) evs = filter (\<lambda>x. view_eid x \<notin> downloadedIds s) evs"
  proof (intro filter_cong refl)
    fix x assume "x \<in> set evs"
    then have "view_eid x \<noteq> view_eid ev" using Cons.prems(3) by (metis distinct.simps(2) image_eqI list.set_map list.simps(9))
    then show "(view_eid x \<notin> downloadedIds s - {view_eid ev}) = (view_eid x \<notin> downloadedIds s)" by simp
  qed
  let ?c = "if view_eid ev \<in> downloadedIds s then c else wsc_send (upload_msg (the (stored_json decomp (view txn) l))) c"
  have ws': "currWs ?c = Some ws" using Cons.prems(1) by simp
  let ?s = "s\<lparr>downloadedIds := downloadedIds s - {view_eid ev}, st_currEventId := l\<rparr>"
  obtain c' where c': "ofold (stream_up E decomp txn) evs (?c, ?s) =
      Ok (c', ?s\<lparr>downloadedIds := downloadedIds ?s - view_eid ` set evs, st_currEventId := (if evs = [] then l else fst (last evs))\<rparr>)"
    "hub c' = hub ?c @ map (\<lambda>ev. WsSend ws (upload_msg (the (stored_json decomp (view txn) (fst ev))))) (filter (\<lambda>x. view_eid x \<notin> downloadedIds s - {view_eid ev}) evs)"
    "currWs c' = Some ws" using Cons.IH [OF ws', of ?s] Cons.prems(2,3) by auto
  have "downloadedIds s - {view_eid ev} - view_eid ` set evs = downloadedIds s - view_eid ` set (ev # evs)" by auto
  then have "ofold (stream_up E decomp txn) (ev # evs) (c, s) = Ok (c', s\<lparr>downloadedIds := downloadedIds s - view_eid ` set (ev # evs),
      st_currEventId := (if ev # evs = [] then st_currEventId s else fst (last (ev # evs)))\<rparr>)"
    using c'(1) step ev by (simp del: set_simps)
  moreover have "hub c' = hub c @ map (\<lambda>ev. WsSend ws (upload_msg (the (stored_json decomp (view txn) (fst ev))))) (filter (\<lambda>x. view_eid x \<notin> downloadedIds s) (ev # evs))"
    using c'(2) Cons.prems(1) ev unfolding same by simp
  ultimately show ?case using c'(3) by blast
qed simp

end

section \<open>What comes down\<close>

lemma pipeline_write_input: "json_eid L v = Inr eid \<Longrightarrow> validatorInbox (pipeline_write v w) = validatorInbox w @ [v]"
  by (cases v) (auto simp: json_eid_def json_id_def pipeline_write_def)

text \<open>A message leaves the connection alone and hands at most one event to the writer, whose identifier is remembered.\<close>

lemma stream_message:
  assumes "wsc_onMessage2 (stream_callbacks E L cfg io decomp dir url txn) msg (c, s) = Ok (c', s')"
  shows "c' = c \<and> st_currEventId s' = st_currEventId s \<and> (\<exists>vs. validatorInbox (st_writer s') = validatorInbox (st_writer s) @ vs \<and>
    downloadedIds s' = downloadedIds s \<union> {eid. \<exists>v \<in> set vs. json_eid L v = Inr eid})"
  (is "?P c' s'")
proof -
  have ev: "?P c1 s1" if "catch_log (stream_event L cfg io url v (c, s)) = Ok (c1, s1)" for v c1 s1
    using that by (auto simp: stream_event_def olift_def Let_def split: option.splits if_splits sum.splits prod.splits)
      (rule exI [of _ "[v]"], simp add: pipeline_write_input)+
  show ?thesis using assms ev
    by (auto simp: wsc_onMessage2_def stream_callbacks_def stream_onMessage_def olift_def Let_def split: sum.splits json.splits if_splits)
qed

lemma stream_messages:
  assumes "ofold (wsc_onMessage2 (stream_callbacks E L cfg io decomp dir url txn)) msgs (c, s) = Ok (c', s')"
  shows "c' = c \<and> st_currEventId s' = st_currEventId s \<and> (\<exists>vs. validatorInbox (st_writer s') = validatorInbox (st_writer s) @ vs \<and>
    downloadedIds s' = downloadedIds s \<union> {eid. \<exists>v \<in> set vs. json_eid L v = Inr eid})"
  using assms
proof (induction msgs arbitrary: s)
  case Nil
  then show ?case by auto
next
  case (Cons m msgs)
  let ?cb = "stream_callbacks E L cfg io decomp dir url txn"
  from Cons.prems obtain c1 s1 where 1: "wsc_onMessage2 ?cb m (c, s) = Ok (c1, s1)" and 2: "ofold (wsc_onMessage2 ?cb) msgs (c1, s1) = Ok (c', s')"
    by (cases "wsc_onMessage2 ?cb m (c, s)") auto
  from stream_message [OF 1] obtain vs where "c1 = c" "st_currEventId s1 = st_currEventId s" "validatorInbox (st_writer s1) = validatorInbox (st_writer s) @ vs"
    "downloadedIds s1 = downloadedIds s \<union> {eid. \<exists>v \<in> set vs. json_eid L v = Inr eid}" by blast
  moreover from Cons.IH [of s1] 2 \<open>c1 = c\<close> obtain vs' where "c' = c" "st_currEventId s' = st_currEventId s1"
    "validatorInbox (st_writer s') = validatorInbox (st_writer s1) @ vs'"
    "downloadedIds s' = downloadedIds s1 \<union> {eid. \<exists>v \<in> set vs'. json_eid L v = Inr eid}" by blast
  ultimately show ?case by (intro conjI exI [of _ "vs @ vs'"]) auto
qed

section \<open>Properties\<close>

text \<open>C15: Streaming in both directions does not echo.  After any messages of the other relay, a change of the database makes the command send exactly the events that are new
  in the database, once each and in order, except those that it had itself received from that relay and handed to the writer.\<close>

theorem stream_no_echo:
  assumes "golpe_env E view" and "wf_store (view txn)" and "unique_ids (events_of (view txn))" and "payloads_ok decomp (view txn)"
    and "currWs c = Some ws" and "\<not> shutdown c" and "dir \<noteq> ''down''" and "st_currEventId s \<noteq> MAX_U64"
    and "ofold (wsc_onMessage2 (stream_callbacks E L cfg io decomp dir url txn)) msgs (c, s) = Ok (c1, s1)"
  shows "\<exists>received c' s'. validatorInbox (st_writer s1) = validatorInbox (st_writer s) @ received \<and>
    wsc_asyncCb (stream_callbacks E L cfg io decomp dir url txn) (c1, s1) = Ok (c', s') \<and>
    hub c' = hub c @ map (\<lambda>ev. WsSend ws (upload_msg (the (stored_json decomp (view txn) (fst ev)))))
      (filter (\<lambda>ev. st_currEventId s < fst ev \<and> view_eid ev \<notin> downloadedIds s \<and> (\<forall>v \<in> set received. json_eid L v \<noteq> Inr (view_eid ev)))
        (t_events (view txn)))"
proof -
  let ?evs = "filter (\<lambda>ev. st_currEventId s < fst ev) (t_events (view txn))"
  obtain vs where m: "c1 = c" "st_currEventId s1 = st_currEventId s" "validatorInbox (st_writer s1) = validatorInbox (st_writer s) @ vs"
    "downloadedIds s1 = downloadedIds s \<union> {eid. \<exists>v \<in> set vs. json_eid L v = Inr eid}" using stream_messages [OF assms(9)] by blast
  have "foreach_Event E txn False (Some (st_currEventId s + 1)) = ?evs"
    by (rule golpe_env.newer_events [OF assms(1,2,8)])
  moreover have "distinct (map view_eid ?evs)" using view_eids_distinct [OF assms(2,3)] by (simp add: distinct_map_filter)
  ultimately obtain c' s' where "stream_onTrigger E decomp dir txn (c1, s1) = Ok (c', s')"
    "hub c' = hub c @ map (\<lambda>ev. WsSend ws (upload_msg (the (stored_json decomp (view txn) (fst ev))))) (filter (\<lambda>ev. view_eid ev \<notin> downloadedIds s1) ?evs)"
    using golpe_env.stream_up_loop [OF assms(1,2,4,5), of ?evs s1] assms(7) m(1,2) by (auto simp: stream_onTrigger_def)
  moreover have "filter (\<lambda>ev. view_eid ev \<notin> downloadedIds s1) ?evs =
      filter (\<lambda>ev. st_currEventId s < fst ev \<and> view_eid ev \<notin> downloadedIds s \<and> (\<forall>v \<in> set vs. json_eid L v \<noteq> Inr (view_eid ev))) (t_events (view txn))"
    using m(4) by (auto simp: filter_filter intro: filter_cong)
  ultimately show ?thesis using m(1,3) assms(6) by (intro exI [of _ vs] exI [of _ c'] exI [of _ s']) (simp add: wsc_asyncCb_def stream_callbacks_def)
qed

definition mesh_store :: tables where
  "mesh_store = \<lparr>t_events = [(1, pack (sample_event\<lparr>ev_id := replicate 32 (CHR ''z'')\<rparr>)), (2, pack sample_event)],
     t_payload = [1 \<mapsto> CHR 0x00 # ''{1}'', 2 \<mapsto> CHR 0x00 # ''{2}''], t_meta = None, t_negFilters = [], t_trees = (\<lambda>_. {})\<rparr>"

lemma mesh_event_wf [simp]: "wf_event (sample_event\<lparr>ev_id := replicate 32 (CHR ''z'')\<rparr>)"
  by (simp add: wf_event_def sample_event_def)

lemma mesh_events: "events_of mesh_store = [(1, sample_event\<lparr>ev_id := replicate 32 (CHR ''z'')\<rparr>), (2, sample_event)]"
  by (simp add: events_of_def mesh_store_def)

lemma mesh_store_ok:
  "wf_store mesh_store" "unique_ids (events_of mesh_store)" "payloads_ok (\<lambda>_. Inr) mesh_store"
  "stored_json (\<lambda>_. Inr) mesh_store 1 = Some ''{1}''" "stored_json (\<lambda>_. Inr) mesh_store 2 = Some ''{2}''"
proof -
  show "wf_store mesh_store" by (simp add: wf_store_def tables_ok_def mesh_store_def wf_packed_pack)
  show "unique_ids (events_of mesh_store)" by (simp add: unique_ids_def mesh_events sample_event_def)
  show json: "stored_json (\<lambda>_. Inr) mesh_store 1 = Some ''{1}''" "stored_json (\<lambda>_. Inr) mesh_store 2 = Some ''{2}''"
    by (simp_all add: stored_json_def mesh_store_def decodeEventPayload_def)
  have "stored_json (\<lambda>_. Inr) mesh_store l \<noteq> None" if "l = 1 \<or> l = 2" for l using that json by auto
  then show "payloads_ok (\<lambda>_. Inr) mesh_store" unfolding payloads_ok_def by (auto simp: mesh_store_def)
qed

definition stream_libs :: libs where
  "stream_libs = sample_libs\<lparr>from_hex := Inr,
     json_from_string := (\<lambda>_. Inr (JArray [JString ''EVENT'', JString ''sub'', JObject [(''id'', JString (ev_id sample_event))]]))\<rparr>"

theorem stream_no_echo_witness:
  "\<exists>c1 s1 c' s'.
     ofold (wsc_onMessage2 (stream_callbacks mem_env stream_libs default_cfg sample_io (\<lambda>_. Inr) ''both'' ''ws://a'' mesh_store)) [''m'']
       (new_WSConnection\<lparr>currWs := Some 5\<rparr>, (new_Stream mem_env mesh_store ())\<lparr>st_currEventId := 0\<rparr>) = Ok (c1, s1) \<and>
     wsc_asyncCb (stream_callbacks mem_env stream_libs default_cfg sample_io (\<lambda>_. Inr) ''both'' ''ws://a'' mesh_store) (c1, s1) = Ok (c', s') \<and>
     hub c' = [WsSend 5 ''[\"EVENT\",{1}]'']"
proof -
  let ?cb = "stream_callbacks mem_env stream_libs default_cfg sample_io (\<lambda>_. Inr) ''both'' ''ws://a'' mesh_store"
  let ?c = "new_WSConnection\<lparr>currWs := Some 5\<rparr>" and ?s = "(new_Stream mem_env mesh_store ())\<lparr>st_currEventId := 0\<rparr>"
  let ?v = "JObject [(''id'', JString (ev_id sample_event))]"
  have eid: "json_eid stream_libs ?v = Inr (Bytes32 (ev_id sample_event))"
    by (simp add: json_eid_def json_id_def stream_libs_def mkBytes32_def sample_event_def)
  have parse: "json_from_string stream_libs msg = Inr (JArray [JString ''EVENT'', JString ''sub'', ?v])" for msg by (simp add: stream_libs_def)
  have plugin: "acceptEvent stream_libs sample_io (relay_writePolicy_plugin default_cfg) ?v EventSourceType.Stream ''ws://a'' p = Some (Accept, [], reset_plugin sample_io p)" for p
    by (simp add: acceptEvent_def default_cfg_def)
  have "\<exists>s1. ofold (wsc_onMessage2 ?cb) [''m''] (?c, ?s) = Ok (?c, s1) \<and> validatorInbox (st_writer s1) = [?v]"
    by (simp add: wsc_onMessage2_def stream_callbacks_def stream_onMessage_def parse stream_event_def plugin eid Let_def new_Stream_def new_WriterPipeline_def pipeline_write_def)
  then obtain s1 where m: "ofold (wsc_onMessage2 ?cb) [''m''] (?c, ?s) = Ok (?c, s1)" "validatorInbox (st_writer s1) = [?v]" by blast
  have "\<exists>received c' s'. validatorInbox (st_writer s1) = validatorInbox (st_writer ?s) @ received \<and> wsc_asyncCb ?cb (?c, s1) = Ok (c', s') \<and>
    hub c' = hub ?c @ map (\<lambda>ev. WsSend 5 (upload_msg (the (stored_json (\<lambda>_. Inr) mesh_store (fst ev)))))
      (filter (\<lambda>ev. st_currEventId ?s < fst ev \<and> view_eid ev \<notin> downloadedIds ?s \<and> (\<forall>v \<in> set received. json_eid stream_libs v \<noteq> Inr (view_eid ev)))
        (t_events mesh_store))"
    by (rule stream_no_echo [OF mem.golpe_env_axioms mesh_store_ok(1-3) _ _ _ _ m(1)]) (simp_all add: new_WSConnection_def)
  moreover have "validatorInbox (st_writer ?s) = []" "hub ?c = []" "downloadedIds ?s = {}" "st_currEventId ?s = 0"
    by (simp_all add: new_Stream_def new_WriterPipeline_def new_WSConnection_def)
  moreover have "view_eid (1, pack (sample_event\<lparr>ev_id := replicate 32 (CHR ''z'')\<rparr>)) = Bytes32 (replicate 32 (CHR ''z''))"
    "view_eid (2, pack sample_event) = Bytes32 (ev_id sample_event)" "ev_id sample_event \<noteq> replicate 32 (CHR ''z'')"
    using pack_accessors(1) [OF mesh_event_wf] pack_accessors(1) [OF wf_sample_event] by (simp_all add: view_eid_def) (simp_all add: sample_event_def)
  ultimately obtain c' s' where "wsc_asyncCb ?cb (?c, s1) = Ok (c', s')" "hub c' = [WsSend 5 ''[\"EVENT\",{1}]'']"
    using m(2) eid mesh_store_ok(4) by (auto simp: mesh_store_def [THEN arg_cong, of t_events, simplified] upload_msg_def)
  then show ?thesis using m(1) by blast
qed

end
