(* ===== verification/MeshSync.thy ===== *)
theory MeshSync
  imports MeshStream RelayNegentropy FilterCommands
begin

text \<open>
  \<open>src/apps/mesh/cmd_sync.cpp\<close>: the command that reconciles the database with another relay and then uploads the events that the relay lacks
  and asks for those that are missing here.  The client side of the negentropy library extends the parameter that the relay's side uses.  An exit first posts the message
  that flushes the writer (that the wait for it ends is shown for the pipeline); \<open>None\<close> is a loop that does not end.
\<close>

section \<open>Set-up\<close>

record ('t, 'v, 'b) negentropy_client = "('t, 'v, 'b) negentropy" +
  vector_initiate :: "'v \<Rightarrow> u64 \<Rightarrow> bytes result"
  vector_reconcile_ids :: "'v \<Rightarrow> u64 \<Rightarrow> bytes \<Rightarrow> (bytes option \<times> bytes list \<times> bytes list) result"
  tree_initiate :: "'b \<Rightarrow> u64 \<Rightarrow> bytes result"
  tree_reconcile_ids :: "'b \<Rightarrow> u64 \<Rightarrow> bytes \<Rightarrow> (bytes option \<times> bytes list \<times> bytes list) result"

datatype 'v sync_storage = SyncTree u64 | SyncVector 'v

record 'v sync_args =
  sa_url :: string
  doUp :: bool
  doDown :: bool
  frameSizeLimit :: u64
  filterJson :: json
  filterCompiled :: NostrFilterGroup
  sa_storage :: "'v sync_storage"

definition no_times :: "json \<Rightarrow> json" where
  "no_times v = (case v of JObject ms \<Rightarrow> JObject (filter (\<lambda>m. fst m \<noteq> ''since'' \<and> fst m \<noteq> ''until'') ms) | _ \<Rightarrow> v)"

definition sync_insert :: "'t env \<Rightarrow> ('t, 'v, 'b) negentropy_client \<Rightarrow> 't \<Rightarrow> u64 \<Rightarrow> 'v \<Rightarrow> 'v result" where
  "sync_insert E N txn levId vec =
     rbind (lookupEventByLevId E txn levId) (\<lambda>(_, buf).
     rbind (PackedEventView buf) (\<lambda>packed. vector_insert N vec (pv_created_at packed) (pv_id packed)))"

definition sync_vector :: "'t env \<Rightarrow> libs \<Rightarrow> ('t, 'v, 'b) negentropy_client \<Rightarrow> (nat \<Rightarrow> u64) \<Rightarrow> json \<Rightarrow> 't \<Rightarrow> 'v result option" where
  "sync_vector E L N clock filter0 txn =
     (case mkDBQuery_filter (from_hex L) filter0 MAX_U64 of
        Inl e \<Rightarrow> Some (Inl e)
      | Inr query \<Rightarrow>
          map_option (\<lambda>r. rbind r (\<lambda>(_, _, levIds). rbind (rfold (sync_insert E N txn) (sort levIds) (vector_new N)) (vector_seal N)))
            (query_loop E clock txn (\<lambda>sub levId levIds. Inr (levIds @ [levId])) MAX_U64 (query, 0, [])))"

definition sync_setup ::
  "'t env \<Rightarrow> libs \<Rightarrow> cfg \<Rightarrow> ('t, 'v, 'b) negentropy_client \<Rightarrow> (nat \<Rightarrow> u64) \<Rightarrow> string \<Rightarrow> string option \<Rightarrow> string option \<Rightarrow> u64 option \<Rightarrow> 't \<Rightarrow>
   'v sync_args result option" where
  "sync_setup E L cfg N clock url filterArg dirArg frameArg txn =
     (let filterStr = (case filterArg of Some f \<Rightarrow> f | None \<Rightarrow> ''{}''); dir = (case dirArg of Some d \<Rightarrow> d | None \<Rightarrow> ''both'') in
      if dir \<noteq> ''both'' \<and> dir \<noteq> ''up'' \<and> dir \<noteq> ''down'' \<and> dir \<noteq> ''none'' then Some (Inl (Herr ''invalid direction''))
      else
        case rbind (json_from_string L filterStr) (\<lambda>v. rbind (fg_unwrapped (from_hex L) v (relay_maxFilterLimit cfg)) (\<lambda>g. Inr (v, g))) of
          Inl e \<Rightarrow> Some (Inl e)
        | Inr (v, g) \<Rightarrow>
            map_option (\<lambda>r. rbind r (\<lambda>storage.
                Inr \<lparr>sa_url = url, doUp = (dir = ''both'' \<or> dir = ''up''), doDown = (dir = ''both'' \<or> dir = ''down''),
                  frameSizeLimit = (case frameArg of Some n \<Rightarrow> n | None \<Rightarrow> 60000), filterJson = v, filterCompiled = g, sa_storage = storage\<rparr>))
              (case find (\<lambda>(_, f). f = json_to_string L (no_times v)) (foreach_NegentropyFilter E txn) of
                 Some (treeId, _) \<Rightarrow> Some (Inr (SyncTree treeId))
               | None \<Rightarrow> map_option (\<lambda>r. rbind r (\<lambda>vec. Inr (SyncVector vec))) (sync_vector E L N clock v txn)))"

text \<open>The range of the tree that the first filter asks for.\<close>

definition sync_range :: "('t, 'v, 'b) negentropy_client \<Rightarrow> 'v sync_args \<Rightarrow> 't \<Rightarrow> u64 \<Rightarrow> 'b result" where
  "sync_range N A txn treeId =
     rbind (arr_at (fg_filters (filterCompiled A)) 0) (\<lambda>f.
       tree_range N txn treeId (nf_since f) (if nf_until f = MAX_U64 then MAX_U64 else nf_until f + 1))"

definition sync_initiate :: "('t, 'v, 'b) negentropy_client \<Rightarrow> 'v sync_args \<Rightarrow> 't \<Rightarrow> bytes result" where
  "sync_initiate N A txn =
     (case sa_storage A of
        SyncTree treeId \<Rightarrow> rbind (sync_range N A txn treeId) (\<lambda>b. tree_initiate N b (frameSizeLimit A))
      | SyncVector vec \<Rightarrow> vector_initiate N vec (frameSizeLimit A))"

definition sync_reconcile :: "('t, 'v, 'b) negentropy_client \<Rightarrow> 'v sync_args \<Rightarrow> 't \<Rightarrow> bytes \<Rightarrow> (bytes option \<times> bytes list \<times> bytes list) result" where
  "sync_reconcile N A txn inputMsg =
     (case sa_storage A of
        SyncTree treeId \<Rightarrow> rbind (sync_range N A txn treeId) (\<lambda>b. tree_reconcile_ids N b (frameSizeLimit A) inputMsg)
      | SyncVector vec \<Rightarrow> vector_reconcile_ids N vec (frameSizeLimit A) inputMsg)"

section \<open>Messages\<close>

record ('t, 'w) Sync =
  inFlightUp :: u64
  inFlightDown :: bool
  haves :: "Bytes32 list"
  needs :: "Bytes32 list"
  seenHave :: "Bytes32 set"
  seenNeed :: "Bytes32 set"
  syncDone :: bool
  totalHaves :: u64
  totalNeeds :: u64
  sy_writer :: "'t WriterPipeline"
  sy_plugin :: "'w sifter"

definition new_Sync :: "'t \<Rightarrow> 'w \<Rightarrow> ('t, 'w) Sync" where
  "new_Sync db w = \<lparr>inFlightUp = 0, inFlightDown = False, haves = [], needs = [], seenHave = {}, seenNeed = {}, syncDone = False,
     totalHaves = 0, totalNeeds = 0, sy_writer = new_WriterPipeline db, sy_plugin = (None, w)\<rparr>"

definition doExit :: "'v sync_args \<Rightarrow> int \<Rightarrow> ('t, 'w) Sync callback" where
  "doExit A status = (\<lambda>(c, s). Exit status (c, if doDown A then s\<lparr>sy_writer := pipeline_flush (sy_writer s)\<rparr> else s))"

definition sync_onConnect :: "libs \<Rightarrow> ('t, 'v, 'b) negentropy_client \<Rightarrow> 'v sync_args \<Rightarrow> 't \<Rightarrow> ('t, 'w) Sync callback" where
  "sync_onConnect L N A txn = (\<lambda>(c, s).
     olift (sync_initiate N A txn) (c, s) (\<lambda>neMsg.
       Ok (wsc_send (json_to_string L (JArray [JString ''NEG-OPEN'', JString ''N'', filterJson A, JString (to_hex L neMsg)])) c, s)))"

definition add_have :: "bytes \<Rightarrow> ('t, 'w) Sync callback" where
  "add_have idStr = (\<lambda>(c, s). olift (mkBytes32 idStr) (c, s) (\<lambda>eid.
     Ok (c, if eid \<in> seenHave s then s else s\<lparr>seenHave := insert eid (seenHave s), haves := haves s @ [eid]\<rparr>)))"

definition add_need :: "bytes \<Rightarrow> ('t, 'w) Sync callback" where
  "add_need idStr = (\<lambda>(c, s). olift (mkBytes32 idStr) (c, s) (\<lambda>eid.
     Ok (c, if eid \<in> seenNeed s then s else s\<lparr>seenNeed := insert eid (seenNeed s), needs := needs s @ [eid]\<rparr>)))"

text \<open>What follows the reconciliation: the lists of a direction that is not wanted are cleared, and the answer is sent.\<close>

definition sync_answer :: "libs \<Rightarrow> 'v sync_args \<Rightarrow> nat \<Rightarrow> nat \<Rightarrow> bytes option \<Rightarrow> ('t, 'w) Sync callback" where
  "sync_answer L A origHaves origNeeds neMsg = (\<lambda>(c, s).
     let s = s\<lparr>totalHaves := totalHaves s + of_nat (length (haves s) - origHaves), totalNeeds := totalNeeds s + of_nat (length (needs s) - origNeeds),
           haves := (if \<not> doUp A then [] else haves s), needs := (if \<not> doDown A then [] else needs s)\<rparr> in
     case neMsg of
       Some m \<Rightarrow> Ok (wsc_send (json_to_string L (JArray [JString ''NEG-MSG'', JString ''N'', JString (to_hex L m)])) c, s)
     | None \<Rightarrow> Ok (wsc_send (json_to_string L (JArray [JString ''NEG-CLOSE'', JString ''N''])) c, s\<lparr>syncDone := True\<rparr>))"

definition sync_negMsg :: "libs \<Rightarrow> ('t, 'v, 'b) negentropy_client \<Rightarrow> 'v sync_args \<Rightarrow> 't \<Rightarrow> json list \<Rightarrow> ('t, 'w) Sync callback" where
  "sync_negMsg L N A txn arr = (\<lambda>(c, s).
     case rbind (arr_at arr 2) (\<lambda>v. rbind (get_string v) (\<lambda>h. rbind (from_hex L h) (sync_reconcile N A txn))) of
       Inl e \<Rightarrow> doExit A 1 (c, s)
     | Inr (neMsg, currHave, currNeed) \<Rightarrow>
         (case obind (ofold add_have currHave (c, s)) (ofold add_need currNeed) of
            Throw e cs \<Rightarrow> doExit A 1 cs
          | Ok cs \<Rightarrow> sync_answer L A (length (haves s)) (length (needs s)) neMsg cs
          | r \<Rightarrow> r))"

definition sync_event :: "libs \<Rightarrow> cfg \<Rightarrow> 'w plugin_io \<Rightarrow> string \<Rightarrow> json \<Rightarrow> ('t, 'w) Sync callback" where
  "sync_event L cfg io url evJson = (\<lambda>(c, s).
     case acceptEvent L io (relay_writePolicy_plugin cfg) evJson EventSourceType.Sync url (sy_plugin s) of
       None \<Rightarrow> Hang
     | Some (res, okMsg, plugin) \<Rightarrow>
         let s = s\<lparr>sy_plugin := plugin\<rparr> in
         if res = Accept then Ok (c, s\<lparr>sy_writer := pipeline_write evJson (sy_writer s)\<rparr>)
         else if okMsg \<noteq> [] then olift (json_id evJson) (c, s) (\<lambda>_. Ok (c, s))
         else Ok (c, s))"

text \<open>An \<open>OK\<close> counts down before its text is looked at.\<close>

definition sync_ok_msg :: "json list \<Rightarrow> ('t, 'w) Sync callback" where
  "sync_ok_msg arr = (\<lambda>(c, s).
     let s = s\<lparr>inFlightUp := inFlightUp s - 1\<rparr> in
     olift (rbind (arr_at arr 2) get_boolean) (c, s) (\<lambda>accepted.
       if \<not> accepted then
         olift (rbind (rbind (arr_at arr 1) get_string) (\<lambda>_. rbind (arr_at arr 3) get_string)) (c, s) (\<lambda>_. Ok (c, s))
       else Ok (c, s)))"

definition sync_message ::
  "libs \<Rightarrow> cfg \<Rightarrow> 'w plugin_io \<Rightarrow> ('t, 'v, 'b) negentropy_client \<Rightarrow> 'v sync_args \<Rightarrow> 't \<Rightarrow> string \<Rightarrow> ('t, 'w) Sync callback" where
  "sync_message L cfg io N A txn msgStr = (\<lambda>(c, s).
     olift (rbind (json_from_string L msgStr) (\<lambda>msg. rbind (get_array msg) (\<lambda>arr. rbind (arr_at arr 0) (\<lambda>cmd. Inr (cmd, arr))))) (c, s) (\<lambda>(cmd, arr).
       if cmd = JString ''NEG-MSG'' then sync_negMsg L N A txn arr (c, s)
       else if cmd = JString ''OK'' then sync_ok_msg arr (c, s)
       else if cmd = JString ''EVENT'' then
         (if length arr < 3 then Throw (Herr ''array too short'') (c, s) else sync_event L cfg io (sa_url A) (arr ! 2) (c, s))
       else if cmd = JString ''EOSE'' then Ok (c, s\<lparr>inFlightDown := False\<rparr>)
       else if cmd = JString ''NEG-ERR'' then doExit A 1 (c, s)
       else Ok (c, s)))"

section \<open>Transfers\<close>

function sync_upload :: "'t env \<Rightarrow> (u32 \<Rightarrow> bytes \<Rightarrow> bytes result) \<Rightarrow> 't \<Rightarrow> WSConnection \<Rightarrow> ('t, 'w) Sync \<Rightarrow> (WSConnection \<times> ('t, 'w) Sync) outcome" where
  "sync_upload E decomp txn c s =
     (if haves s \<noteq> [] \<and> inFlightUp s < 100 then
        let eid = last (haves s); s' = s\<lparr>haves := butlast (haves s)\<rparr> in
        case lookupEventById E txn (sv eid) of
          None \<Rightarrow> sync_upload E decomp txn c s'
        | Some ev \<Rightarrow>
            olift (getEventJson E decomp txn (fst ev)) (c, s') (\<lambda>json.
              sync_upload E decomp txn (wsc_send (upload_msg json) c) (s'\<lparr>inFlightUp := inFlightUp s' + 1\<rparr>))
      else Ok (c, s))"
  by pat_completeness auto
termination by (relation "measure (\<lambda>(E, decomp, txn, c, s). length (haves s))") auto

declare sync_upload.simps [simp del]

text \<open>The request for the last fifty of the events that are needed.\<close>

definition req_msg :: "libs \<Rightarrow> Bytes32 list \<Rightarrow> string" where
  "req_msg L eids = json_to_string L (JArray [JString ''REQ'', JString ''R'', JObject [(''ids'', JArray (map (\<lambda>eid. JString (to_hex L (sv eid))) eids))]])"

definition sync_request :: "libs \<Rightarrow> ('t, 'w) Sync callback" where
  "sync_request L = (\<lambda>(c, s).
     Ok (wsc_send (req_msg L (take 50 (rev (needs s)))) c, s\<lparr>needs := rev (drop 50 (rev (needs s))), inFlightDown := True\<rparr>))"

text \<open>The reconciliation and the upload open a transaction each.\<close>

definition sync_onMessage ::
  "'t env \<Rightarrow> libs \<Rightarrow> cfg \<Rightarrow> 'w plugin_io \<Rightarrow> (u32 \<Rightarrow> bytes \<Rightarrow> bytes result) \<Rightarrow> ('t, 'v, 'b) negentropy_client \<Rightarrow> 'v sync_args \<Rightarrow> 't \<Rightarrow> 't \<Rightarrow> string \<Rightarrow>
   ('t, 'w) Sync callback" where
  "sync_onMessage E L cfg io decomp N A txn txn' msgStr cs =
     obind (obind (obind (catch_log (sync_message L cfg io N A txn msgStr cs))
       (\<lambda>(c, s). if doUp A \<and> haves s \<noteq> [] \<and> inFlightUp s \<le> 50 then sync_upload E decomp txn' c s else Ok (c, s)))
       (\<lambda>(c, s). if doDown A \<and> needs s \<noteq> [] \<and> \<not> inFlightDown s then sync_request L (c, s) else Ok (c, s)))
       (\<lambda>(c, s). if syncDone s \<and> haves s = [] \<and> needs s = [] \<and> inFlightUp s = 0 \<and> \<not> inFlightDown s then doExit A 0 (c, s) else Ok (c, s))"

definition sync_callbacks ::
  "'t env \<Rightarrow> libs \<Rightarrow> cfg \<Rightarrow> 'w plugin_io \<Rightarrow> (u32 \<Rightarrow> bytes \<Rightarrow> bytes result) \<Rightarrow> ('t, 'v, 'b) negentropy_client \<Rightarrow> 'v sync_args \<Rightarrow> 't \<Rightarrow> 't \<Rightarrow>
   ('t, 'w) Sync ws_callbacks" where
  "sync_callbacks E L cfg io decomp N A txn txn' =
     \<lparr>onConnect = Some (sync_onConnect L N A txn), onMessage = Some (sync_onMessage E L cfg io decomp N A txn txn'),
      onTrigger = None, onDisconnect = Some (doExit A 1), onError = Some (doExit A 1)\<rparr>"

section \<open>Nothing is forgotten\<close>

text \<open>
  What the library reports when a message of the other relay is a \<open>NEG-MSG\<close> that it can reconcile: the identifiers of the events that
  the relay lacks, and of those that are missing here.
\<close>

definition reported :: "libs \<Rightarrow> ('t, 'v, 'b) negentropy_client \<Rightarrow> 'v sync_args \<Rightarrow> 't \<Rightarrow> string \<Rightarrow> bytes list \<times> bytes list" where
  "reported L N A txn msg =
     (case rbind (json_from_string L msg) (\<lambda>v. rbind (get_array v) (\<lambda>arr. rbind (arr_at arr 0) (\<lambda>cmd. rbind (arr_at arr 2) (\<lambda>h.
             rbind (get_string h) (\<lambda>h. rbind (from_hex L h) (\<lambda>p.
               if cmd = JString ''NEG-MSG'' then sync_reconcile N A txn p else Inl BadVariant)))))) of
        Inr (_, have_ids, need_ids) \<Rightarrow> (have_ids, need_ids)
      | Inl _ \<Rightarrow> ([], []))"

text \<open>If the database has the event of that identifier, it has been sent since the connection was as in \<open>c0\<close>.\<close>

definition sent_since :: "(u32 \<Rightarrow> bytes \<Rightarrow> bytes result) \<Rightarrow> tables \<Rightarrow> WSConnection \<Rightarrow> WSConnection \<Rightarrow> Bytes32 \<Rightarrow> bool" where
  "sent_since decomp T c0 c eid \<longleftrightarrow> (\<forall>(l, e) \<in> set (events_of T). ev_id e = sv eid \<longrightarrow>
     (\<exists>ws. WsSend ws (upload_msg (the (stored_json decomp T l))) \<in> set (drop (length (hub c0)) (hub c))))"

text \<open>An event that is missing here has been asked for.\<close>

definition asked :: "libs \<Rightarrow> WSConnection \<Rightarrow> Bytes32 \<Rightarrow> bool" where
  "asked L c eid \<longleftrightarrow> (\<exists>ws eids. WsSend ws (req_msg L eids) \<in> set (hub c) \<and> eid \<in> set eids \<and> length eids \<le> 50)"

text \<open>
  Inside the handling of one message: \<open>P\<close> are the identifiers whose turn has come before, \<open>c0\<close> is the connection at the start, \<open>T\<close> the database of the upload, and
  \<open>SH\<close> and \<open>SN\<close> have been reported.
\<close>

definition sync_inv ::
  "(u32 \<Rightarrow> bytes \<Rightarrow> bytes result) \<Rightarrow> libs \<Rightarrow> 'v sync_args \<Rightarrow> (Bytes32 \<Rightarrow> bool) \<Rightarrow> WSConnection \<Rightarrow> tables \<Rightarrow> Bytes32 set \<Rightarrow> Bytes32 set \<Rightarrow>
   WSConnection \<times> ('t, 'w) Sync \<Rightarrow> bool" where
  "sync_inv decomp L A P c0 T SH SN = (\<lambda>(c, s). currWs c \<noteq> None \<and> (\<exists>ys. hub c = hub c0 @ ys) \<and> (\<forall>eid \<in> set (haves s). length (sv eid) = 32) \<and>
     SH \<subseteq> seenHave s \<and> SN \<subseteq> seenNeed s \<and>
     (doUp A \<longrightarrow> (\<forall>eid \<in> seenHave s. eid \<in> set (haves s) \<or> P eid \<or> sent_since decomp T c0 c eid)) \<and>
     (doDown A \<longrightarrow> (\<forall>eid \<in> seenNeed s. eid \<in> set (needs s) \<or> asked L c eid)))"

text \<open>The invariant holds wherever a callback ends, and the command exits with status 0 only when nothing is left to do.\<close>

definition sync_post :: "(WSConnection \<times> ('t, 'w) Sync \<Rightarrow> bool) \<Rightarrow> (WSConnection \<times> ('t, 'w) Sync) outcome \<Rightarrow> bool" where
  "sync_post I m = (case m of Ok cs \<Rightarrow> I cs | Throw e cs \<Rightarrow> I cs | Exit n cs \<Rightarrow> n = 0 \<longrightarrow> I cs \<and> haves (snd cs) = [] \<and> needs (snd cs) = [] | Hang \<Rightarrow> True)"

lemma sync_post_simps [simp]:
  "sync_post I (Ok cs) = I cs" "sync_post I (Throw e cs) = I cs" "sync_post I Hang"
  "sync_post I (doExit A 1 cs)"
  by (simp_all add: sync_post_def doExit_def split: prod.split)

lemma sync_post_obind: "sync_post I m \<Longrightarrow> (\<And>cs. I cs \<Longrightarrow> sync_post I (f cs)) \<Longrightarrow> sync_post I (obind m f)"
  by (cases m) (auto simp: sync_post_def)

lemma sync_post_catch: "sync_post I m \<Longrightarrow> sync_post I (catch_log m)"
  by (cases m) (auto simp: sync_post_def)

lemma sync_post_olift: "I cs \<Longrightarrow> (\<And>x. r = Inr x \<Longrightarrow> sync_post I (f x)) \<Longrightarrow> sync_post I (olift r cs f)"
  by (cases r) auto

lemma sync_post_ofold: "I cs \<Longrightarrow> (\<And>x cs. I cs \<Longrightarrow> sync_post I (f x cs)) \<Longrightarrow> sync_post I (ofold f xs cs)"
  by (induction xs arbitrary: cs) (auto intro: sync_post_obind)

lemma sent_since_more: "sent_since decomp T c0 c eid \<Longrightarrow> hub c = hub c0 @ ys \<Longrightarrow> hub c' = hub c @ zs \<Longrightarrow> sent_since decomp T c0 c' eid"
  unfolding sent_since_def by fastforce

lemma asked_more: "asked L c eid \<Longrightarrow> set (hub c) \<subseteq> set (hub c') \<Longrightarrow> asked L c' eid"
  unfolding asked_def by fast

lemma sync_inv_sent:
  assumes "sync_inv decomp L A P c0 T SH SN (c, s)" and "hub c' = hub c @ zs" and "currWs c' \<noteq> None"
  shows "sync_inv decomp L A P c0 T SH SN (c', s)"
proof -
  obtain ys where ys: "hub c = hub c0 @ ys" using assms(1) by (auto simp: sync_inv_def)
  have "asked L c eid \<Longrightarrow> asked L c' eid" for eid using asked_more assms(2) by fastforce
  then show ?thesis using assms ys sent_since_more [OF _ ys assms(2)] unfolding sync_inv_def by fastforce
qed

lemma hub_wsc_send: "\<exists>zs. hub (wsc_send m c) = hub c @ zs"
  by (auto simp: wsc_send_def split: option.split)

lemma sync_inv_send:
  assumes "sync_inv decomp L A P c0 T SH SN (c, s)"
  shows "sync_inv decomp L A P c0 T SH SN (wsc_send m c, s)"
proof -
  obtain zs where "hub (wsc_send m c) = hub c @ zs" using hub_wsc_send by blast
  then show ?thesis by (rule sync_inv_sent [OF assms]) (use assms in \<open>auto simp: sync_inv_def\<close>)
qed

text \<open>Only the lists of identifiers matter.\<close>

lemma sync_inv_frame [simp]:
  "sync_inv decomp L A P c0 T SH SN (c, s\<lparr>inFlightUp := i\<rparr>) = sync_inv decomp L A P c0 T SH SN (c, s)" "sync_inv decomp L A P c0 T SH SN (c, s\<lparr>inFlightDown := b\<rparr>) = sync_inv decomp L A P c0 T SH SN (c, s)"
  "sync_inv decomp L A P c0 T SH SN (c, s\<lparr>syncDone := b\<rparr>) = sync_inv decomp L A P c0 T SH SN (c, s)" "sync_inv decomp L A P c0 T SH SN (c, s\<lparr>sy_writer := w\<rparr>) = sync_inv decomp L A P c0 T SH SN (c, s)"
  "sync_inv decomp L A P c0 T SH SN (c, s\<lparr>sy_plugin := p\<rparr>) = sync_inv decomp L A P c0 T SH SN (c, s)"
  by (simp_all add: sync_inv_def)

text \<open>The identifiers are taken over one by one, up to the first that has not 32 bytes.\<close>

lemma add_have_loop:
  "sync_inv decomp L A P c0 T SH SN cs \<Longrightarrow>
   (\<exists>cs'. ofold add_have hs cs = Ok cs' \<and> sync_inv decomp L A P c0 T (SH \<union> Bytes32 ` set hs) SN cs') \<or> (\<exists>e cs'. ofold add_have hs cs = Throw e cs')"
proof (induction hs arbitrary: cs SH)
  case (Cons h hs)
  obtain c s where cs: "cs = (c, s)" by (cases cs)
  show ?case
  proof (cases "mkBytes32 h")
    case (Inr eid)
    then have eid: "eid = Bytes32 h" "length h = 32" by (auto simp: mkBytes32_def split: if_splits)
    let ?s = "if eid \<in> seenHave s then s else s\<lparr>seenHave := insert eid (seenHave s), haves := haves s @ [eid]\<rparr>"
    have "sync_inv decomp L A P c0 T (insert eid SH) SN (c, ?s)"
      using Cons.prems eid by (auto simp: sync_inv_def cs)
    from Cons.IH [OF this] have "(\<exists>cs'. ofold add_have hs (c, ?s) = Ok cs' \<and> sync_inv decomp L A P c0 T (insert eid SH \<union> Bytes32 ` set hs) SN cs') \<or>
      (\<exists>e cs'. ofold add_have hs (c, ?s) = Throw e cs')" .
    moreover have "ofold add_have (h # hs) cs = ofold add_have hs (c, ?s)" by (simp add: cs add_have_def [of h] Inr)
    moreover have "insert eid SH \<union> Bytes32 ` set hs = SH \<union> Bytes32 ` set (h # hs)" using eid by auto
    ultimately show ?thesis by simp
  qed (simp add: cs add_have_def)
qed simp

lemma add_need_loop:
  "sync_inv decomp L A P c0 T SH SN cs \<Longrightarrow>
   (\<exists>cs'. ofold add_need ns cs = Ok cs' \<and> sync_inv decomp L A P c0 T SH (SN \<union> Bytes32 ` set ns) cs') \<or> (\<exists>e cs'. ofold add_need ns cs = Throw e cs')"
proof (induction ns arbitrary: cs SN)
  case (Cons n ns)
  obtain c s where cs: "cs = (c, s)" by (cases cs)
  show ?case
  proof (cases "mkBytes32 n")
    case (Inr eid)
    then have eid: "eid = Bytes32 n" by (auto simp: mkBytes32_def split: if_splits)
    let ?s = "if eid \<in> seenNeed s then s else s\<lparr>seenNeed := insert eid (seenNeed s), needs := needs s @ [eid]\<rparr>"
    have "sync_inv decomp L A P c0 T SH (insert eid SN) (c, ?s)"
      using Cons.prems by (auto simp: sync_inv_def cs)
    from Cons.IH [OF this] have "(\<exists>cs'. ofold add_need ns (c, ?s) = Ok cs' \<and> sync_inv decomp L A P c0 T SH (insert eid SN \<union> Bytes32 ` set ns) cs') \<or>
      (\<exists>e cs'. ofold add_need ns (c, ?s) = Throw e cs')" .
    moreover have "ofold add_need (n # ns) cs = ofold add_need ns (c, ?s)" by (simp add: cs add_need_def [of n] Inr)
    moreover have "insert eid SN \<union> Bytes32 ` set ns = SN \<union> Bytes32 ` set (n # ns)" using eid by auto
    ultimately show ?thesis by simp
  qed (simp add: cs add_need_def)
qed simp

lemma sync_answer_inv:
  assumes "sync_inv decomp L A P c0 T SH SN cs"
  shows "sync_post (sync_inv decomp L A P c0 T SH SN) (sync_answer L A h n neMsg cs)"
proof -
  obtain c s where cs: "cs = (c, s)" by (cases cs)
  let ?s = "s\<lparr>totalHaves := totalHaves s + of_nat (length (haves s) - h), totalNeeds := totalNeeds s + of_nat (length (needs s) - n),
    haves := (if \<not> doUp A then [] else haves s), needs := (if \<not> doDown A then [] else needs s)\<rparr>"
  have "sync_inv decomp L A P c0 T SH SN (c, ?s)" using assms by (auto simp: sync_inv_def cs)
  then have "sync_inv decomp L A P c0 T SH SN (wsc_send m c, ?s)" for m by (rule sync_inv_send)
  then show ?thesis by (cases neMsg) (simp_all add: sync_answer_def cs Let_def)
qed

lemma sync_negMsg_inv:
  assumes "sync_inv decomp L A P c0 T SH SN cs" and "json_from_string L msg = Inr (JArray arr)" and "arr_at arr 0 = Inr (JString ''NEG-MSG'')"
  shows "sync_post (sync_inv decomp L A P c0 T (SH \<union> Bytes32 ` set (fst (reported L N A txn msg))) (SN \<union> Bytes32 ` set (snd (reported L N A txn msg))))
    (sync_negMsg L N A txn arr cs)"
proof -
  obtain c s where cs: "cs = (c, s)" by (cases cs)
  show ?thesis
  proof (cases "rbind (arr_at arr 2) (\<lambda>v. rbind (get_string v) (\<lambda>h. rbind (from_hex L h) (sync_reconcile N A txn)))")
    case (Inr r)
    obtain neMsg hs ns where r: "r = (neMsg, hs, ns)" by (cases r)
    have rep: "reported L N A txn msg = (hs, ns)" using Inr by (simp add: reported_def assms(2,3) r del: rbind_eq_Inr)
    consider (thrown) e cs' where "obind (ofold add_have hs cs) (ofold add_need ns) = Throw e cs'"
      | (added) cs' where "obind (ofold add_have hs cs) (ofold add_need ns) = Ok cs'"
          "sync_inv decomp L A P c0 T (SH \<union> Bytes32 ` set hs) (SN \<union> Bytes32 ` set ns) cs'"
    proof (cases "\<exists>cs'. ofold add_have hs cs = Ok cs' \<and> sync_inv decomp L A P c0 T (SH \<union> Bytes32 ` set hs) SN cs'")
      case True
      then obtain cs' where h: "ofold add_have hs cs = Ok cs'" "sync_inv decomp L A P c0 T (SH \<union> Bytes32 ` set hs) SN cs'" by blast
      show thesis using add_need_loop [OF h(2), of ns] h(1) that by auto
    next
      case False
      then obtain e cs' where "ofold add_have hs cs = Throw e cs'" using add_have_loop [OF assms(1), of hs] by blast
      then show thesis using that(1) by simp
    qed
    then show ?thesis
      by cases (auto simp: sync_negMsg_def cs Inr [unfolded r] rep intro: sync_answer_inv)
  qed (simp add: sync_negMsg_def cs)
qed

lemma reported_none:
  assumes "\<nexists>arr. json_from_string L msg = Inr (JArray arr) \<and> arr_at arr 0 = Inr (JString ''NEG-MSG'')"
  shows "reported L N A txn msg = ([], [])"
proof -
  let ?r = "rbind (json_from_string L msg) (\<lambda>v. rbind (get_array v) (\<lambda>arr. rbind (arr_at arr 0) (\<lambda>cmd. rbind (arr_at arr 2) (\<lambda>h.
      rbind (get_string h) (\<lambda>h. rbind (from_hex L h) (\<lambda>p.
        if cmd = JString ''NEG-MSG'' then sync_reconcile N A txn p else Inl BadVariant))))))"
  have "?r \<noteq> Inr x" for x
  proof
    assume "?r = Inr x"
    then obtain arr cmd where "json_from_string L msg = Inr (JArray arr)" "arr_at arr 0 = Inr cmd" "cmd = JString ''NEG-MSG''"
      by (auto split: if_split_asm)
    then show False using assms by blast
  qed
  then show ?thesis unfolding reported_def by (cases ?r) auto
qed

lemma sync_message_inv:
  assumes "sync_inv decomp L A P c0 T SH SN cs"
  shows "sync_post (sync_inv decomp L A P c0 T (SH \<union> Bytes32 ` set (fst (reported L N A txn msgStr))) (SN \<union> Bytes32 ` set (snd (reported L N A txn msgStr))))
    (sync_message L cfg io N A txn msgStr cs)"
proof -
  obtain c s where cs: "cs = (c, s)" by (cases cs)
  note inv = assms [unfolded cs]
  let ?r = "rbind (json_from_string L msgStr) (\<lambda>msg. rbind (get_array msg) (\<lambda>arr. rbind (arr_at arr 0) (\<lambda>cmd. Inr (cmd, arr))))"
  show ?thesis
  proof (cases "\<exists>arr. json_from_string L msgStr = Inr (JArray arr) \<and> arr_at arr 0 = Inr (JString ''NEG-MSG'')")
    case True
    then obtain arr where arr: "json_from_string L msgStr = Inr (JArray arr)" "arr_at arr 0 = Inr (JString ''NEG-MSG'')" by blast
    then show ?thesis using sync_negMsg_inv [OF inv arr] by (simp add: sync_message_def cs)
  next
    case False
    then have rep: "reported L N A txn msgStr = ([], [])" by (rule reported_none)
    have "sync_post (sync_inv decomp L A P c0 T SH SN) (sync_event L cfg io url v (c, s))" for url v
      using inv by (auto simp: sync_event_def Let_def intro!: sync_post_olift split: option.split)
    moreover have "sync_post (sync_inv decomp L A P c0 T SH SN) (sync_ok_msg arr (c, s))" for arr
      using inv by (auto simp: sync_ok_msg_def Let_def intro!: sync_post_olift)
    moreover have "cmd \<noteq> JString ''NEG-MSG''" if "?r = Inr (cmd, arr)" for cmd arr using that False by auto
    ultimately have "sync_post (sync_inv decomp L A P c0 T SH SN) (case x of (cmd, arr) \<Rightarrow>
       if cmd = JString ''NEG-MSG'' then sync_negMsg L N A txn arr (c, s)
       else if cmd = JString ''OK'' then sync_ok_msg arr (c, s)
       else if cmd = JString ''EVENT'' then
         (if length arr < 3 then Throw (Herr ''array too short'') (c, s) else sync_event L cfg io (sa_url A) (arr ! 2) (c, s))
       else if cmd = JString ''EOSE'' then Ok (c, s\<lparr>inFlightDown := False\<rparr>)
       else if cmd = JString ''NEG-ERR'' then doExit A 1 (c, s)
       else Ok (c, s))" if "?r = Inr x" for x
      using inv that by (cases x) auto
    then have "sync_post (sync_inv decomp L A P c0 T SH SN) (sync_message L cfg io N A txn msgStr cs)"
      unfolding sync_message_def cs prod.case by (rule sync_post_olift [where I = "sync_inv decomp L A P c0 T SH SN", OF inv])
    then show ?thesis by (simp add: rep)
  qed
qed

lemma sync_request_inv:
  assumes "sync_inv decomp L A P c0 T SH SN (c, s)"
  shows "sync_inv decomp L A P c0 T SH SN (wsc_send (req_msg L (take 50 (rev (needs s)))) c, s\<lparr>needs := rev (drop 50 (rev (needs s))), inFlightDown := b\<rparr>)"
proof -
  obtain ws where ws: "currWs c = Some ws" using assms by (auto simp: sync_inv_def)
  let ?c = "wsc_send (req_msg L (take 50 (rev (needs s)))) c"
  have "eid \<in> set (rev (drop 50 (rev (needs s)))) \<or> asked L ?c eid" if "eid \<in> set (needs s)" for eid
  proof -
    have "eid \<in> set (take 50 (rev (needs s))) \<or> eid \<in> set (drop 50 (rev (needs s)))"
      using that by (metis append_take_drop_id set_rev set_append Un_iff)
    moreover have "WsSend ws (req_msg L (take 50 (rev (needs s)))) \<in> set (hub ?c)" using ws by simp
    ultimately show ?thesis unfolding asked_def by fastforce
  qed
  then show ?thesis using sync_inv_send [OF assms, of "req_msg L (take 50 (rev (needs s)))"] unfolding sync_inv_def by fastforce
qed

lemma sync_inv_pop:
  assumes "sync_inv decomp L A P c0 T SH SN (c, s)" and "haves s = xs @ [eid]" and "sent_since decomp T c0 (wsc_send m c) eid \<and> c' = wsc_send m c \<or> sent_since decomp T c0 c eid \<and> c' = c"
  shows "sync_inv decomp L A P c0 T SH SN (c', s\<lparr>haves := xs\<rparr>)"
proof -
  have "sync_inv decomp L A P c0 T SH SN (c', s)" using assms(1,3) sync_inv_send [OF assms(1)] by blast
  moreover have "sent_since decomp T c0 c' eid" using assms(3) by blast
  ultimately show ?thesis using assms(2) unfolding sync_inv_def by auto
qed

context golpe_env
begin

lemma uploaded_missing:
  assumes "wf_store (view txn)" and "length (sv eid) = 32" and "lookupEventById E txn (sv eid) = None"
  shows "sent_since decomp (view txn) c0 c eid"
  using lookupEventById_exists [OF assms(1,2)] assms(3) unfolding sent_since_def by fastforce

lemma uploaded_sent:
  assumes "wf_store (view txn)" and "unique_ids (events_of (view txn))" and "length (sv eid) = 32" and "lookupEventById E txn (sv eid) = Some (l, p)"
    and "WsSend ws (upload_msg (the (stored_json decomp (view txn) l))) \<in> set (drop (length (hub c0)) (hub c))"
  shows "sent_since decomp (view txn) c0 c eid"
proof -
  have "l' = l" if "(l', e') \<in> set (events_of (view txn))" "ev_id e' = sv eid" for l' e'
    using lookupEventById_wf [OF assms(1,3,2), of l' "pack e'"] that assms(4) by auto
  then show ?thesis using assms(5) unfolding sent_since_def by blast
qed

lemma sync_upload_inv:
  assumes T: "wf_store (view txn)" "unique_ids (events_of (view txn))" "payloads_ok decomp (view txn)"
  shows "sync_inv decomp L A P c0 (view txn) SH SN (c, s) \<Longrightarrow> sync_post (sync_inv decomp L A P c0 (view txn) SH SN) (sync_upload E decomp txn c s)"
proof (induction "haves s" arbitrary: c s rule: rev_induct)
  case Nil
  then show ?case by (simp add: sync_upload.simps)
next
  case (snoc eid xs)
  note hs = snoc.hyps(2) [symmetric]
  have len: "length (sv eid) = 32" and "currWs c \<noteq> None" using snoc.prems hs by (auto simp: sync_inv_def)
  then obtain ws where ws: "currWs c = Some ws" by blast
  show ?case
  proof (cases "lookupEventById E txn (sv eid)")
    case None
    have "sync_inv decomp L A P c0 (view txn) SH SN (c, s\<lparr>haves := xs\<rparr>)"
      using sync_inv_pop [OF snoc.prems hs] uploaded_missing [OF T(1) len None] by blast
    then show ?thesis using snoc.hyps(1) [of "s\<lparr>haves := xs\<rparr>" c] snoc.prems by (simp add: sync_upload.simps [of E decomp txn c s] hs None)
  next
    case (Some ev)
    obtain l p where ev: "ev = (l, p)" by (cases ev)
    obtain e where "(l, e) \<in> set (events_of (view txn))" using lookupEventById_Some [OF T(1) len] Some ev by blast
    then have "l \<in> fst ` set (t_events (view txn))" using events_of_levIds [of "view txn"] by (metis fst_conv image_eqI list.set_map)
    then have json: "getEventJson E decomp txn l = Inr (the (stored_json decomp (view txn) l))" by (rule getEventJson_stored [OF T(3)])
    let ?m = "upload_msg (the (stored_json decomp (view txn) l))"
    have "\<exists>ys. hub c = hub c0 @ ys" using snoc.prems by (auto simp: sync_inv_def)
    then have "sent_since decomp (view txn) c0 (wsc_send ?m c) eid"
      using uploaded_sent [OF T(1,2) len Some [unfolded ev], of ws decomp c0 "wsc_send ?m c"] ws by auto
    then have "sync_inv decomp L A P c0 (view txn) SH SN (wsc_send ?m c, s\<lparr>haves := xs\<rparr>)" using sync_inv_pop [OF snoc.prems hs] by blast
    then show ?thesis using snoc.hyps(1) [of "s\<lparr>haves := xs, inFlightUp := inFlightUp s + 1\<rparr>" "wsc_send ?m c"] snoc.prems
      by (simp add: sync_upload.simps [of E decomp txn c s] hs Some ev json)
  qed
qed

lemma sync_onMessage_inv:
  assumes T: "wf_store (view txn')" "unique_ids (events_of (view txn'))" "payloads_ok decomp (view txn')"
    and inv: "sync_inv decomp L A P c0 (view txn') SH SN cs"
  shows "sync_post (sync_inv decomp L A P c0 (view txn') (SH \<union> Bytes32 ` set (fst (reported L N A txn msg))) (SN \<union> Bytes32 ` set (snd (reported L N A txn msg))))
    (sync_onMessage E L cfg io decomp N A txn txn' msg cs)"
proof -
  let ?I = "sync_inv decomp L A P c0 (view txn') (SH \<union> Bytes32 ` set (fst (reported L N A txn msg))) (SN \<union> Bytes32 ` set (snd (reported L N A txn msg)))"
  have 1: "sync_post ?I (catch_log (sync_message L cfg io N A txn msg cs))" by (rule sync_post_catch [OF sync_message_inv [OF inv]])
  have 2: "sync_post ?I (case cs of (c, s) \<Rightarrow> if doUp A \<and> haves s \<noteq> [] \<and> inFlightUp s \<le> 50 then sync_upload E decomp txn' c s else Ok (c, s))" if "?I cs" for cs
    using that sync_upload_inv [OF T] by (auto split: prod.split)
  have 3: "sync_post ?I (case cs of (c, s) \<Rightarrow> if doDown A \<and> needs s \<noteq> [] \<and> \<not> inFlightDown s then sync_request L (c, s) else Ok (c, s))" if "?I cs" for cs
    using that sync_request_inv by (auto simp: sync_request_def split: prod.split)
  have 4: "sync_post ?I (case cs of (c, s) \<Rightarrow>
      if syncDone s \<and> haves s = [] \<and> needs s = [] \<and> inFlightUp s = 0 \<and> \<not> inFlightDown s then doExit A 0 (c, s) else Ok (c, s))" if "?I cs" for cs
    using that by (auto simp: doExit_def sync_post_def split: prod.split)
  show ?thesis unfolding sync_onMessage_def by (intro sync_post_obind 1 2 3 4)
qed

end

section \<open>Runs\<close>

text \<open>
  The messages that the other relay sends, whatever they are.  A step records the state before and after the message, and the two
  transactions in which it was handled, between which and between steps the database may change.
\<close>

record ('t, 'w) sync_step =
  st_before :: "WSConnection \<times> ('t, 'w) Sync"
  st_txn :: 't
  st_txn' :: 't
  st_msg :: string
  st_after :: "WSConnection \<times> ('t, 'w) Sync"

fun outcome_state :: "'s outcome \<Rightarrow> 's option" where
  "outcome_state (Ok s) = Some s"
| "outcome_state (Throw e s) = Some s"
| "outcome_state (Exit n s) = Some s"
| "outcome_state Hang = None"

inductive sync_run ::
  "'t env \<Rightarrow> ('t \<Rightarrow> tables) \<Rightarrow> libs \<Rightarrow> cfg \<Rightarrow> 'w plugin_io \<Rightarrow> (u32 \<Rightarrow> bytes \<Rightarrow> bytes result) \<Rightarrow> ('t, 'v, 'b) negentropy_client \<Rightarrow> 'v sync_args \<Rightarrow>
   ('t, 'w) sync_step list \<Rightarrow> (WSConnection \<times> ('t, 'w) Sync) outcome \<Rightarrow> bool"
  for E view L cfg io decomp N A where
  sync_connected: "wsc_onConnection (sync_callbacks E L cfg io decomp N A txn txn') ws (new_WSConnection\<lparr>reconnect := False\<rparr>, new_Sync db w) = r \<Longrightarrow>
     sync_run E view L cfg io decomp N A [] r"
| sync_received: "sync_run E view L cfg io decomp N A tr (Ok cs) \<Longrightarrow>
     wf_store (view txn') \<Longrightarrow> unique_ids (events_of (view txn')) \<Longrightarrow> payloads_ok decomp (view txn') \<Longrightarrow>
     wsc_onMessage2 (sync_callbacks E L cfg io decomp N A txn txn') msg cs = r \<Longrightarrow> outcome_state r = Some cs' \<Longrightarrow>
     sync_run E view L cfg io decomp N A (tr @ [\<lparr>st_before = cs, st_txn = txn, st_txn' = txn', st_msg = msg, st_after = cs'\<rparr>]) r"

text \<open>
  The turn of an identifier comes in the step before which it was waiting or not known, and after which it is known and no
  longer waiting; there is one such step at most.
\<close>

definition turn :: "Bytes32 \<Rightarrow> ('t, 'w) sync_step \<Rightarrow> bool" where
  "turn eid st \<longleftrightarrow> (eid \<in> set (haves (snd (st_before st))) \<or> eid \<notin> seenHave (snd (st_before st))) \<and>
     eid \<in> seenHave (snd (st_after st)) \<and> eid \<notin> set (haves (snd (st_after st)))"

definition sent_in :: "(u32 \<Rightarrow> bytes \<Rightarrow> bytes result) \<Rightarrow> ('t \<Rightarrow> tables) \<Rightarrow> ('t, 'w) sync_step \<Rightarrow> Bytes32 \<Rightarrow> bool" where
  "sent_in decomp view st eid \<longleftrightarrow> sent_since decomp (view (st_txn' st)) (fst (st_before st)) (fst (st_after st)) eid"

definition sync_ok ::
  "(u32 \<Rightarrow> bytes \<Rightarrow> bytes result) \<Rightarrow> ('t \<Rightarrow> tables) \<Rightarrow> libs \<Rightarrow> ('t, 'v, 'b) negentropy_client \<Rightarrow> 'v sync_args \<Rightarrow> ('t, 'w) sync_step list \<Rightarrow>
   WSConnection \<times> ('t, 'w) Sync \<Rightarrow> bool" where
  "sync_ok decomp view L N A tr = (\<lambda>(c, s). currWs c \<noteq> None \<and> (\<forall>eid \<in> set (haves s). length (sv eid) = 32) \<and>
     (doUp A \<longrightarrow> (\<forall>eid \<in> seenHave s. eid \<in> set (haves s) \<or> (\<exists>st \<in> set tr. turn eid st \<and> sent_in decomp view st eid))) \<and>
     (doDown A \<longrightarrow> (\<forall>eid \<in> seenNeed s. eid \<in> set (needs s) \<or> asked L c eid)) \<and>
     (\<forall>st \<in> set tr. Bytes32 ` set (fst (reported L N A (st_txn st) (st_msg st))) \<subseteq> seenHave s \<and>
       Bytes32 ` set (snd (reported L N A (st_txn st) (st_msg st))) \<subseteq> seenNeed s))"

lemma sync_ok_start:
  "sync_ok decomp view L N A tr (c, s) \<Longrightarrow>
   sync_inv decomp L A (\<lambda>eid. \<exists>st \<in> set tr. turn eid st \<and> sent_in decomp view st eid) c T (seenHave s) (seenNeed s) (c, s)"
  unfolding sync_ok_def sync_inv_def by auto

lemma sync_ok_end:
  assumes ok: "sync_ok decomp view L N A tr (c0, s0)"
    and inv: "sync_inv decomp L A (\<lambda>eid. \<exists>st \<in> set tr. turn eid st \<and> sent_in decomp view st eid) c0 (view txn')
      (seenHave s0 \<union> Bytes32 ` set (fst (reported L N A txn msg))) (seenNeed s0 \<union> Bytes32 ` set (snd (reported L N A txn msg))) (c, s)"
  shows "sync_ok decomp view L N A (tr @ [\<lparr>st_before = (c0, s0), st_txn = txn, st_txn' = txn', st_msg = msg, st_after = (c, s)\<rparr>]) (c, s)"
proof -
  let ?st = "\<lparr>st_before = (c0, s0), st_txn = txn, st_txn' = txn', st_msg = msg, st_after = (c, s)\<rparr>"
  have "eid \<in> set (haves s) \<or> (\<exists>st \<in> set (tr @ [?st]). turn eid st \<and> sent_in decomp view st eid)" if up: "doUp A" and eid: "eid \<in> seenHave s" for eid
  proof (rule ccontr)
    assume no: "\<not> ?thesis"
    then have "sent_in decomp view ?st eid" using inv up eid by (auto simp: sync_inv_def sent_in_def)
    then have "\<not> turn eid ?st" using no by auto
    then have "eid \<in> seenHave s0" "eid \<notin> set (haves s0)" using no eid by (auto simp: turn_def)
    then show False using ok up no by (auto simp: sync_ok_def)
  qed
  moreover have "seenHave s0 \<subseteq> seenHave s" "seenNeed s0 \<subseteq> seenNeed s" using inv by (auto simp: sync_inv_def)
  ultimately have up: "doUp A \<longrightarrow> (\<forall>eid \<in> seenHave s. eid \<in> set (haves s) \<or> (\<exists>st \<in> set (tr @ [?st]). turn eid st \<and> sent_in decomp view st eid))"
    and mono: "seenHave s0 \<subseteq> seenHave s" "seenNeed s0 \<subseteq> seenNeed s" by blast+
  have "\<forall>st \<in> set (tr @ [?st]). Bytes32 ` set (fst (reported L N A (st_txn st) (st_msg st))) \<subseteq> seenHave s \<and>
       Bytes32 ` set (snd (reported L N A (st_txn st) (st_msg st))) \<subseteq> seenNeed s"
  proof -
    have "Bytes32 ` set (fst (reported L N A txn msg)) \<subseteq> seenHave s \<and> Bytes32 ` set (snd (reported L N A txn msg)) \<subseteq> seenNeed s"
      using inv by (simp add: sync_inv_def)
    moreover have "\<forall>st \<in> set tr. Bytes32 ` set (fst (reported L N A (st_txn st) (st_msg st))) \<subseteq> seenHave s0 \<and>
       Bytes32 ` set (snd (reported L N A (st_txn st) (st_msg st))) \<subseteq> seenNeed s0"
      using ok by (simp add: sync_ok_def)
    ultimately show ?thesis using mono by (simp add: ball_Un) (meson order_trans)
  qed
  moreover have "currWs c \<noteq> None" "\<forall>eid \<in> set (haves s). length (sv eid) = 32"
    "doDown A \<longrightarrow> (\<forall>eid \<in> seenNeed s. eid \<in> set (needs s) \<or> asked L c eid)" using inv by (simp_all add: sync_inv_def)
  ultimately show ?thesis using up unfolding sync_ok_def by blast
qed

lemma sync_run_ok:
  assumes "golpe_env E view" and "sync_run E view L cfg io decomp N A tr r"
  shows "sync_post (sync_ok decomp view L N A tr) r"
  using assms(2)
proof induction
  case (sync_connected txn txn' ws db w r)
  let ?cs = "(new_WSConnection\<lparr>reconnect := False, currWs := Some ws\<rparr>, new_Sync db w)"
  have "sync_ok decomp view L N A [] (wsc_send m (fst ?cs), snd ?cs)" "sync_ok decomp view L N A [] ?cs" for m
    by (simp_all add: sync_ok_def new_Sync_def)
  then have "sync_post (sync_ok decomp view L N A []) (sync_onConnect L N A txn ?cs)"
    by (auto simp: sync_onConnect_def intro!: sync_post_olift)
  from sync_post_catch [OF this] sync_connected show ?case
    by (auto simp: wsc_onConnection_def sync_callbacks_def new_WSConnection_def)
next
  case (sync_received tr cs txn' txn msg r cs')
  obtain c0 s0 where cs: "cs = (c0, s0)" by (cases cs)
  obtain c s where cs': "cs' = (c, s)" by (cases cs')
  have ok: "sync_ok decomp view L N A tr (c0, s0)" using sync_received.IH by (simp add: cs)
  let ?I = "sync_inv decomp L A (\<lambda>eid. \<exists>st \<in> set tr. turn eid st \<and> sent_in decomp view st eid) c0 (view txn')
      (seenHave s0 \<union> Bytes32 ` set (fst (reported L N A txn msg))) (seenNeed s0 \<union> Bytes32 ` set (snd (reported L N A txn msg)))"
  have post: "sync_post ?I r"
    using golpe_env.sync_onMessage_inv [OF assms(1) sync_received.hyps(2-4) sync_ok_start [OF ok], of N txn msg cfg io] sync_received.hyps(5)
    by (auto simp: wsc_onMessage2_def sync_callbacks_def cs intro!: sync_post_catch)
  show ?case
    using post sync_received.hyps(6) sync_ok_end [OF ok, of txn' txn msg c s] by (cases r) (auto simp: sync_post_def cs cs')
qed

section \<open>Properties\<close>

text \<open>C14: A sync that exits with success has done its work, whatever messages the other relay has sent and however the database has changed meanwhile: every event that the reconciliation
  of any of its messages reported as missing there was uploaded in the step in which its turn came, unless the database of that step no longer had it, and every event that it reported as missing here
  has been asked for, in requests of at most fifty.\<close>

theorem sync_complete:
  assumes "golpe_env E view" and "sync_run E view L cfg io decomp N A tr (Exit 0 (c, s))" and "st \<in> set tr"
    and "reported L N A (st_txn st) (st_msg st) = (have_ids, need_ids)"
  shows "(doUp A \<longrightarrow> (\<forall>i \<in> set have_ids. \<exists>st' \<in> set tr. turn (Bytes32 i) st' \<and> sent_in decomp view st' (Bytes32 i))) \<and>
    (doDown A \<longrightarrow> (\<forall>i \<in> set need_ids. asked L c (Bytes32 i)))"
proof -
  have "sync_ok decomp view L N A tr (c, s)" "haves s = []" "needs s = []" using sync_run_ok [OF assms(1,2)] by (simp_all add: sync_post_def)
  then show ?thesis using assms(3,4) unfolding sync_ok_def by fastforce
qed

definition sync_libs :: libs where
  "sync_libs = sample_libs\<lparr>from_hex := Inr, to_hex := (\<lambda>s. s), json_to_string := (\<lambda>_. ''{}''),
     json_from_string := (\<lambda>m. Inr (JArray (if m = ''n'' then [JString ''NEG-MSG'', JString ''N'', JString ''x'']
       else if m = ''o'' then [JString ''OK'', JString ''a'', JBool True] else [JString ''EOSE'', JString ''R''])))\<rparr>"

definition sync_client :: "(tables, unit, unit) negentropy_client" where
  "sync_client = \<lparr>vector_new = (), vector_insert = (\<lambda>_ _ _. Inr ()), vector_seal = Inr, vector_sealed = (\<lambda>_. True), vector_reconcile = (\<lambda>_ _. Inr []),
     tree_range = (\<lambda>_ _ _ _. Inr ()), tree_reconcile = (\<lambda>_ _. Inr []), vector_initiate = (\<lambda>_ _. Inr []),
     vector_reconcile_ids = (\<lambda>_ _ _. Inr (None, [ev_id sample_event], [replicate 32 (CHR ''q'')])),
     tree_initiate = (\<lambda>_ _. Inr []), tree_reconcile_ids = (\<lambda>_ _ _. Inr (None, [], []))\<rparr>"

definition sync_sample :: "unit sync_args" where
  "sync_sample = \<lparr>sa_url = ''ws://a'', doUp = True, doDown = True, frameSizeLimit = 60000, filterJson = JObject [], filterCompiled = \<lparr>fg_filters = []\<rparr>, sa_storage = SyncVector ()\<rparr>"

lemma sync_sample_steps:
  fixes io :: "'w plugin_io" and w :: 'w
  defines "cb \<equiv> sync_callbacks mem_env sync_libs default_cfg io (\<lambda>_. Inr) sync_client sync_sample mesh_store mesh_store"
  obtains c s1 s2 s3 where
    "wsc_onConnection cb 5 (new_WSConnection\<lparr>reconnect := False\<rparr>, new_Sync mesh_store w) = Ok (c, new_Sync mesh_store w)"
    "wsc_onMessage2 cb ''n'' (c, new_Sync mesh_store w) = Ok s1" "wsc_onMessage2 cb ''o'' s1 = Ok s2" "wsc_onMessage2 cb ''e'' s2 = Exit 0 s3"
proof -
  let ?c = "wsc_send ''{}'' (new_WSConnection\<lparr>reconnect := False, currWs := Some 5\<rparr>)"
  have id32: "mkBytes32 (ev_id sample_event) = Inr (Bytes32 (ev_id sample_event))" by (simp add: mkBytes32_def sample_event_def)
  have look: "lookupEventById mem_env mesh_store (ev_id sample_event) = Some (2, pack sample_event)"
    by (subst mem.lookupEventById_wf [OF mesh_store_ok(1) _ mesh_store_ok(2)]) (auto simp: mesh_events, simp add: sample_event_def)
  have json: "getEventJson mem_env (\<lambda>_. Inr) mesh_store 2 = Inr ''{2}''"
    using mem.getEventJson_stored [OF mesh_store_ok(3), of 2] mesh_store_ok(5) by (simp add: mesh_store_def)
  have args: "doUp sync_sample" "doDown sync_sample" "sync_reconcile sync_client sync_sample txn m = Inr (None, [ev_id sample_event], [replicate 32 (CHR ''q'')])"
    "sync_initiate sync_client sync_sample txn = Inr []" for txn m
    by (simp_all add: sync_sample_def sync_reconcile_def sync_initiate_def sync_client_def)
  have libs: "from_hex sync_libs = Inr" "json_to_string sync_libs v = ''{}''" "to_hex sync_libs s = s" for v s by (simp_all add: sync_libs_def)
  have parse: "json_from_string sync_libs ''n'' = Inr (JArray [JString ''NEG-MSG'', JString ''N'', JString ''x''])"
    "json_from_string sync_libs ''o'' = Inr (JArray [JString ''OK'', JString ''a'', JBool True])"
    "json_from_string sync_libs ''e'' = Inr (JArray [JString ''EOSE'', JString ''R''])" by (simp_all add: sync_libs_def)
  have up: "sync_upload mem_env (\<lambda>_. Inr) mesh_store c s = Ok (wsc_send (upload_msg ''{2}'') c, s\<lparr>haves := [], inFlightUp := 1\<rparr>)"
    if "haves s = [Bytes32 (ev_id sample_event)]" "inFlightUp s = 0" for c and s :: "(tables, 'w) Sync"
    using that by (simp add: sync_upload.simps look json)
  let ?a = "Bytes32 (ev_id sample_event)" and ?q = "Bytes32 (replicate 32 (CHR ''q''))"
  let ?s = "(new_Sync mesh_store w)\<lparr>seenHave := {?a}, seenNeed := {?q}, totalHaves := 1, totalNeeds := 1, syncDone := True\<rparr>"
  let ?c1 = "wsc_send (req_msg sync_libs [?q]) (wsc_send (upload_msg ''{2}'') (wsc_send ''{}'' ?c))"
  have 0: "wsc_onConnection cb 5 (new_WSConnection\<lparr>reconnect := False\<rparr>, new_Sync mesh_store w) = Ok (?c, new_Sync mesh_store w)"
    by (simp add: cb_def wsc_onConnection_def sync_callbacks_def sync_onConnect_def args libs new_WSConnection_def)
  have 1: "wsc_onMessage2 cb ''n'' (?c, new_Sync mesh_store w) = Ok (?c1, ?s\<lparr>inFlightUp := 1, inFlightDown := True\<rparr>)"
    by (simp add: cb_def wsc_onMessage2_def sync_callbacks_def sync_onMessage_def sync_message_def parse arr_at_def sync_negMsg_def libs args
      add_have_def add_need_def id32 mkBytes32_def [of "replicate _ _"] new_Sync_def sync_answer_def up sync_request_def)
  have 2: "wsc_onMessage2 cb ''o'' (?c1, ?s\<lparr>inFlightUp := 1, inFlightDown := True\<rparr>) = Ok (?c1, ?s\<lparr>inFlightUp := 0, inFlightDown := True\<rparr>)"
    by (simp add: cb_def wsc_onMessage2_def sync_callbacks_def sync_onMessage_def sync_message_def parse arr_at_def sync_ok_msg_def new_Sync_def)
  have 3: "wsc_onMessage2 cb ''e'' (?c1, ?s\<lparr>inFlightUp := 0, inFlightDown := True\<rparr>) =
      Exit 0 (?c1, ?s\<lparr>inFlightUp := 0, inFlightDown := False, sy_writer := pipeline_flush (sy_writer ?s)\<rparr>)"
    by (simp add: cb_def wsc_onMessage2_def sync_callbacks_def sync_onMessage_def sync_message_def parse arr_at_def new_Sync_def doExit_def args)
  show ?thesis by (rule that [OF 0 1 2 3])
qed

theorem sync_complete_witness:
  "\<exists>tr c s. sync_run mem_env (\<lambda>T. T) sync_libs default_cfg sample_io (\<lambda>_. Inr) sync_client sync_sample tr (Exit 0 (c, s)) \<and>
     (\<exists>st' \<in> set tr. turn (Bytes32 (ev_id sample_event)) st' \<and> sent_in (\<lambda>_. Inr) (\<lambda>T. T) st' (Bytes32 (ev_id sample_event))) \<and>
     asked sync_libs c (Bytes32 (replicate 32 (CHR ''q'')))"
proof -
  let ?cb = "sync_callbacks mem_env sync_libs default_cfg sample_io (\<lambda>_. Inr) sync_client sync_sample mesh_store mesh_store"
  obtain c s1 s2 s3 where
    steps: "wsc_onConnection ?cb 5 (new_WSConnection\<lparr>reconnect := False\<rparr>, new_Sync mesh_store ()) = Ok (c, new_Sync mesh_store ())"
    "wsc_onMessage2 ?cb ''n'' (c, new_Sync mesh_store ()) = Ok s1" "wsc_onMessage2 ?cb ''o'' s1 = Ok s2" "wsc_onMessage2 ?cb ''e'' s2 = Exit 0 s3"
    by (rule sync_sample_steps [where io = sample_io and w = "()"])
  obtain c' s' where s3: "s3 = (c', s')" by (cases s3)
  let ?st = "\<lambda>cs msg cs'. \<lparr>st_before = cs, st_txn = mesh_store, st_txn' = mesh_store, st_msg = msg, st_after = cs'\<rparr>"
  let ?tr = "[?st (c, new_Sync mesh_store ()) ''n'' s1, ?st s1 ''o'' s2, ?st s2 ''e'' s3]"
  note received = sync_received [where view = "\<lambda>T. T" and txn' = mesh_store, OF _ mesh_store_ok(1-3)]
  have run: "sync_run mem_env (\<lambda>T. T) sync_libs default_cfg sample_io (\<lambda>_. Inr) sync_client sync_sample ?tr (Exit 0 (c', s'))"
    using received [OF received [OF received [OF sync_connected [OF steps(1), where view = "\<lambda>T. T"] steps(2)] steps(3)] steps(4)] s3 by simp
  have "reported sync_libs sync_client sync_sample mesh_store ''n'' = ([ev_id sample_event], [replicate 32 (CHR ''q'')])"
    by (simp add: reported_def sync_libs_def sync_sample_def sync_reconcile_def sync_client_def arr_at_def)
  from sync_complete [OF mem.golpe_env_axioms run, of "?st (c, new_Sync mesh_store ()) ''n'' s1"] this
  have "(\<exists>st' \<in> set ?tr. turn (Bytes32 (ev_id sample_event)) st' \<and> sent_in (\<lambda>_. Inr) (\<lambda>T. T) st' (Bytes32 (ev_id sample_event))) \<and>
     asked sync_libs c' (Bytes32 (replicate 32 (CHR ''q'')))" by (simp add: sync_sample_def)
  then show ?thesis using run by blast
qed

end
