(* ===== verification/MeshRouter.thy ===== *)
theory MeshRouter
  imports MeshStream
begin

text \<open>
  \<open>src/apps/mesh/cmd_router.cpp\<close>: the command that keeps connections to groups of relays and forwards events between them and the database.  A \<open>std::map\<close> is the list of its
  entries in the order of the keys.  What the router asks of the websocket library is recorded; closing a connection is such a call, and the destructor of a connection makes it
  as well.  The configuration file is read by the framework: the value it yields, or the exception, is a parameter.  The watchers and the timer only post messages; log lines are left out.
\<close>

section \<open>State\<close>

datatype RouterEvent = ConfigFileChange | DBChange | ReconnectCron

datatype router_call = Connect string string | Close nat | SendTo nat string

record Conn =
  conn_ws :: "nat option"
  started :: u64

record StreamGroup =
  sg_dir :: string
  filterStr :: string
  pluginDownCmd :: string
  pluginUpCmd :: string
  urls :: "string list"
  conns :: "(string \<times> Conn) list"
  sg_filter :: json
  sg_filterCompiled :: NostrFilterGroup
  pluginDown :: "RunningPlugin option"
  pluginUp :: "RunningPlugin option"

record ('t, 'w) Router =
  connectionTimeoutUs :: u64
  r_writer :: "'t WriterPipeline"
  r_inbox :: "RouterEvent list"
  streamGroups :: "(string \<times> StreamGroup) list"
  r_currEventId :: u64
  firstConfigLoadSuccess :: bool
  r_calls :: "router_call list"
  r_ticks :: nat
  r_world :: 'w

definition new_StreamGroup :: StreamGroup where
  "new_StreamGroup = \<lparr>sg_dir = [], filterStr = [], pluginDownCmd = [], pluginUpCmd = [], urls = [], conns = [], sg_filter = JNull,
     sg_filterCompiled = \<lparr>fg_filters = []\<rparr>, pluginDown = None, pluginUp = None\<rparr>"

fun map_set :: "string \<Rightarrow> 'a \<Rightarrow> (string \<times> 'a) list \<Rightarrow> (string \<times> 'a) list" where
  "map_set k v [] = [(k, v)]"
| "map_set k v ((k', v') # m) = (if k = k' then (k, v) # m else if k < k' then (k, v) # (k', v') # m else (k', v') # map_set k v m)"

definition router_do :: "router_call \<Rightarrow> ('t, 'w) Router \<Rightarrow> ('t, 'w) Router" where
  "router_do x R = R\<lparr>r_calls := r_calls R @ [x]\<rparr>"

text \<open>The clock, and the destructors of a connection and of a group.\<close>

definition curr_time_us :: "(nat \<Rightarrow> u64) \<Rightarrow> ('t, 'w) Router \<Rightarrow> u64 \<times> ('t, 'w) Router" where
  "curr_time_us clock R = (clock (r_ticks R), R\<lparr>r_ticks := r_ticks R + 1\<rparr>)"

definition close_conn :: "Conn \<Rightarrow> ('t, 'w) Router \<Rightarrow> ('t, 'w) Router" where
  "close_conn c R = (case conn_ws c of Some ws \<Rightarrow> router_do (Close ws) R | None \<Rightarrow> R)"

definition close_group :: "'w plugin_io \<Rightarrow> StreamGroup \<Rightarrow> ('t, 'w) Router \<Rightarrow> ('t, 'w) Router" where
  "close_group io g R =
     (let w = snd (reset_plugin io (pluginUp g, r_world R)); w = snd (reset_plugin io (pluginDown g, w)) in
      fold (\<lambda>x. close_conn (snd x)) (conns g) (R\<lparr>r_world := w\<rparr>))"

section \<open>Groups\<close>

type_synonym ('t, 'w) group_step = "StreamGroup \<times> ('t, 'w) Router \<Rightarrow> (StreamGroup \<times> ('t, 'w) Router) outcome"

definition try_connect :: "(nat \<Rightarrow> u64) \<Rightarrow> string \<Rightarrow> string \<Rightarrow> StreamGroup \<times> ('t, 'w) Router \<Rightarrow> StreamGroup \<times> ('t, 'w) Router" where
  "try_connect clock groupName url = (\<lambda>(g, R).
     let c = (case map_of (conns g) url of Some c \<Rightarrow> c | None \<Rightarrow> \<lparr>conn_ws = None, started = 0\<rparr>);
         g = (if map_of (conns g) url = None then g\<lparr>conns := map_set url c (conns g)\<rparr> else g) in
     if conn_ws c = None then
       let (now, R) = curr_time_us clock R in
       if started c + connectionTimeoutUs R * 2 < now then
         let R = router_do (Connect groupName url) R; (now, R) = curr_time_us clock R in
         (g\<lparr>conns := map_set url (c\<lparr>started := now\<rparr>) (conns g)\<rparr>, R)
       else (g, R)
     else (g, R))"

definition tryConnects :: "(nat \<Rightarrow> u64) \<Rightarrow> string \<Rightarrow> StreamGroup \<times> ('t, 'w) Router \<Rightarrow> StreamGroup \<times> ('t, 'w) Router" where
  "tryConnects clock groupName = (\<lambda>(g, R). fold (try_connect clock groupName) (urls g) (g, R))"

text \<open>The parts of \<open>configure\<close> in their order.  The flag says whether the connections have to be made again; what was assigned before an exception stays.\<close>

definition conf_dir :: "json \<Rightarrow> (bool \<Rightarrow> ('t, 'w) group_step) \<Rightarrow> ('t, 'w) group_step" where
  "conf_dir spec cont = (\<lambda>(g, R).
     case json_find spec ''dir'' of
       None \<Rightarrow> Throw (Herr ''no dir field'') (g, R)
     | Some v \<Rightarrow> olift (get_string v) (g, R) (\<lambda>newDir. cont (newDir \<noteq> sg_dir g) (g\<lparr>sg_dir := newDir\<rparr>, R)))"

definition conf_filter :: "libs \<Rightarrow> cfg \<Rightarrow> json \<Rightarrow> bool \<Rightarrow> (bool \<Rightarrow> ('t, 'w) group_step) \<Rightarrow> ('t, 'w) group_step" where
  "conf_filter L cfg spec needsReconnect cont = (\<lambda>(g, R).
     olift (case json_find spec ''filter'' of None \<Rightarrow> Inr (JObject []) | Some v \<Rightarrow> json_from_string L (json_to_string L v)) (g, R) (\<lambda>newFilter.
       let newFilterStr = json_to_string L newFilter; needsReconnect = (needsReconnect \<or> newFilterStr \<noteq> filterStr g); g = g\<lparr>filterStr := newFilterStr\<rparr> in
       olift (fg_unwrapped (from_hex L) newFilter (relay_maxFilterLimit cfg)) (g, R) (\<lambda>compiled.
         cont needsReconnect (g\<lparr>sg_filterCompiled := compiled, sg_filter := newFilter\<rparr>, R))))"

definition conf_plugins :: "json \<Rightarrow> ('t, 'w) group_step \<Rightarrow> ('t, 'w) group_step" where
  "conf_plugins spec cont = (\<lambda>(g, R).
     let g = g\<lparr>pluginDownCmd := [], pluginUpCmd := []\<rparr> in
     olift (case json_find spec ''pluginDown'' of None \<Rightarrow> Inr [] | Some v \<Rightarrow> get_string v) (g, R) (\<lambda>down.
     let g = g\<lparr>pluginDownCmd := down\<rparr> in
     olift (case json_find spec ''pluginUp'' of None \<Rightarrow> Inr [] | Some v \<Rightarrow> get_string v) (g, R) (\<lambda>up.
       cont (g\<lparr>pluginUpCmd := up\<rparr>, R))))"

definition conf_urls :: "json \<Rightarrow> ('t, 'w) group_step \<Rightarrow> ('t, 'w) group_step" where
  "conf_urls spec cont = (\<lambda>(g, R).
     case json_find spec ''urls'' of
       None \<Rightarrow> Throw (Herr ''no urls field'') (g, R)
     | Some v \<Rightarrow>
         let g = g\<lparr>urls := []\<rparr> in
         olift (get_array v) (g, R) (\<lambda>arr.
           obind (ofold (\<lambda>u (g, R). olift (get_string u) (g, R) (\<lambda>url. Ok (g\<lparr>urls := urls g @ [url]\<rparr>, R))) arr (g, R)) cont))"

definition drop_unneeded :: "StreamGroup \<times> ('t, 'w) Router \<Rightarrow> StreamGroup \<times> ('t, 'w) Router" where
  "drop_unneeded = (\<lambda>(g, R).
     (g\<lparr>conns := filter (\<lambda>x. fst x \<in> set (urls g)) (conns g)\<rparr>,
      fold (\<lambda>x. close_conn (snd x)) (filter (\<lambda>x. fst x \<notin> set (urls g)) (conns g)) R))"

text \<open>An open connection is closed here and once more by its destructor.\<close>

definition reconnect_all :: "StreamGroup \<times> ('t, 'w) Router \<Rightarrow> StreamGroup \<times> ('t, 'w) Router" where
  "reconnect_all = (\<lambda>(g, R).
     let R = fold (\<lambda>x. close_conn (snd x)) (conns g) R in
     (g\<lparr>conns := []\<rparr>, fold (\<lambda>x. close_conn (snd x)) (conns g) R))"

definition configure :: "libs \<Rightarrow> cfg \<Rightarrow> (nat \<Rightarrow> u64) \<Rightarrow> string \<Rightarrow> json \<Rightarrow> ('t, 'w) group_step" where
  "configure L cfg clock groupName spec =
     conf_dir spec (\<lambda>needsReconnect. conf_filter L cfg spec needsReconnect (\<lambda>needsReconnect. conf_plugins spec (conf_urls spec (\<lambda>gR.
       let gR = drop_unneeded gR; gR = (if needsReconnect then reconnect_all gR else gR) in
       Ok (tryConnects clock groupName gR)))))"

definition json_put :: "string \<Rightarrow> json \<Rightarrow> json \<Rightarrow> json result" where
  "json_put k x v = rbind (get_object v) (\<lambda>ms. Inr (JObject (map_set k x ms)))"

definition connOpen :: "libs \<Rightarrow> string \<Rightarrow> nat \<Rightarrow> ('t, 'w) group_step" where
  "connOpen L url ws = (\<lambda>(g, R).
     case map_of (conns g) url of
       None \<Rightarrow> Ok (g, R)
     | Some c \<Rightarrow>
         if conn_ws c \<noteq> None then Ok (g, router_do (Close ws) R)
         else
           let g = g\<lparr>conns := map_set url (c\<lparr>conn_ws := Some ws\<rparr>) (conns g)\<rparr> in
           if sg_dir g = ''down'' \<or> sg_dir g = ''both'' then
             olift (json_put ''limit'' (JSigned 0) (sg_filter g)) (g, R) (\<lambda>filterToSend.
               Ok (g, router_do (SendTo ws (json_to_string L (JArray [JString ''REQ'', JString ''X'', filterToSend]))) R))
           else Ok (g, R))"

definition connClose :: "string \<Rightarrow> nat \<Rightarrow> StreamGroup \<Rightarrow> StreamGroup" where
  "connClose url ws g =
     (case map_of (conns g) url of
        None \<Rightarrow> g
      | Some c \<Rightarrow> if conn_ws c = Some ws then g\<lparr>conns := map_set url \<lparr>conn_ws = None, started = 0\<rparr> (conns g)\<rparr> else g)"

definition incomingEvent :: "libs \<Rightarrow> 'w plugin_io \<Rightarrow> string \<Rightarrow> json \<Rightarrow> ('t, 'w) group_step" where
  "incomingEvent L io url evJson = (\<lambda>(g, R).
     if sg_dir g = ''up'' then Ok (g, R)
     else
       case acceptEvent L io (pluginDownCmd g) evJson EventSourceType.Stream url (pluginDown g, r_world R) of
         None \<Rightarrow> Hang
       | Some (res, okMsg, plugin, w) \<Rightarrow>
           let g = g\<lparr>pluginDown := plugin\<rparr>; R = R\<lparr>r_world := w\<rparr> in
           if res = Accept then Ok (g, R\<lparr>r_writer := pipeline_write evJson (r_writer R)\<rparr>)
           else if okMsg \<noteq> [] then olift (json_id evJson) (g, R) (\<lambda>_. Ok (g, R))
           else Ok (g, R))"

text \<open>The text of the event and its JSON are made by the first group that needs them.\<close>

type_synonym ('t, 'w) out_state = "StreamGroup \<times> ('t, 'w) Router \<times> string \<times> json"

definition send_all :: "string \<Rightarrow> StreamGroup \<Rightarrow> ('t, 'w) Router \<Rightarrow> ('t, 'w) Router" where
  "send_all responseStr g R = fold (\<lambda>(_, c) R. case conn_ws c of Some ws \<Rightarrow> router_do (SendTo ws responseStr) R | None \<Rightarrow> R) (conns g) R"

definition outgoingEvent ::
  "'t env \<Rightarrow> libs \<Rightarrow> 'w plugin_io \<Rightarrow> (u32 \<Rightarrow> bytes \<Rightarrow> bytes result) \<Rightarrow> 't \<Rightarrow> View_Event \<Rightarrow> ('t, 'w) out_state \<Rightarrow> ('t, 'w) out_state outcome" where
  "outgoingEvent E L io decomp txn ev = (\<lambda>(g, R, responseStr, evJson).
     if sg_dir g = ''down'' then Ok (g, R, responseStr, evJson)
     else
       olift (rbind (PackedEventView (snd ev)) (fg_doesMatch (sg_filterCompiled g))) (g, R, responseStr, evJson) (\<lambda>matched.
       if \<not> matched then Ok (g, R, responseStr, evJson)
       else
         olift (if responseStr = [] then rbind (getEventJson E decomp txn (fst ev)) (\<lambda>evStr. rbind (json_from_string L evStr) (\<lambda>v. Inr (upload_msg evStr, v)))
                else Inr (responseStr, evJson)) (g, R, responseStr, evJson) (\<lambda>(responseStr, evJson).
         case acceptEvent L io (pluginUpCmd g) evJson Stored [] (pluginUp g, r_world R) of
           None \<Rightarrow> Hang
         | Some (res, okMsg, plugin, w) \<Rightarrow>
             let g = g\<lparr>pluginUp := plugin\<rparr>; R = R\<lparr>r_world := w\<rparr> in
             if res = Accept then Ok (g, send_all responseStr g R, responseStr, evJson)
             else if okMsg \<noteq> [] then olift (json_id evJson) (g, R, responseStr, evJson) (\<lambda>_. Ok (g, R, responseStr, evJson))
             else Ok (g, R, responseStr, evJson))))"

section \<open>The router\<close>

text \<open>An operation on the group of a name, which throws if there is none.\<close>

definition set_group :: "string \<Rightarrow> StreamGroup \<Rightarrow> ('t, 'w) Router \<Rightarrow> ('t, 'w) Router" where
  "set_group groupName g R = R\<lparr>streamGroups := map (\<lambda>x. if fst x = groupName then (groupName, g) else x) (streamGroups R)\<rparr>"

fun put_back :: "string \<Rightarrow> (StreamGroup \<times> ('t, 'w) Router) outcome \<Rightarrow> ('t, 'w) Router outcome" where
  "put_back groupName (Ok (g, R)) = Ok (set_group groupName g R)"
| "put_back groupName (Throw e (g, R)) = Throw e (set_group groupName g R)"
| "put_back groupName (Exit n (g, R)) = Exit n (set_group groupName g R)"
| "put_back groupName Hang = Hang"

definition at_group :: "string \<Rightarrow> ('t, 'w) group_step \<Rightarrow> ('t, 'w) Router \<Rightarrow> ('t, 'w) Router outcome" where
  "at_group groupName f R =
     (case map_of (streamGroups R) groupName of
        None \<Rightarrow> Throw OutOfRange R
      | Some g \<Rightarrow> put_back groupName (f (g, R)))"

definition new_Router :: "'t env \<Rightarrow> 't \<Rightarrow> 'w \<Rightarrow> ('t, 'w) Router" where
  "new_Router E db w = \<lparr>connectionTimeoutUs = 0, r_writer = new_WriterPipeline db, r_inbox = [], streamGroups = [],
     r_currEventId = getMostRecentLevId E db, firstConfigLoadSuccess = False, r_calls = [], r_ticks = 0, r_world = w\<rparr>"

definition router_onConnection :: "libs \<Rightarrow> string \<times> string \<Rightarrow> nat \<Rightarrow> ('t, 'w) Router \<Rightarrow> ('t, 'w) Router outcome" where
  "router_onConnection L desig ws R =
     (if map_of (streamGroups R) (fst desig) = None then Ok (router_do (Close ws) R)
      else at_group (fst desig) (connOpen L (snd desig) ws) R)"

definition router_onDisconnection :: "string \<times> string \<Rightarrow> nat \<Rightarrow> ('t, 'w) Router \<Rightarrow> ('t, 'w) Router" where
  "router_onDisconnection desig ws R =
     (case map_of (streamGroups R) (fst desig) of
        None \<Rightarrow> R
      | Some g \<Rightarrow> set_group (fst desig) (connClose (snd desig) ws g) R)"

definition handleIncomingMessage :: "libs \<Rightarrow> 'w plugin_io \<Rightarrow> string \<times> string \<Rightarrow> string \<Rightarrow> ('t, 'w) Router \<Rightarrow> ('t, 'w) Router outcome" where
  "handleIncomingMessage L io desig msg R =
     olift (json_from_string L msg) R (\<lambda>origJson.
       case origJson of
         JArray arr \<Rightarrow>
           if length arr < 2 then Throw (Herr ''array too short'') R
           else
             let msgType = arr ! 0 in
             if msgType = JString ''EOSE'' then Ok R
             else if msgType = JString ''NOTICE'' then Ok R
             else if msgType = JString ''OK'' then olift (rbind (arr_at arr 2) get_boolean) R (\<lambda>_. Ok R)
             else if msgType = JString ''EVENT'' then
               (if length arr < 3 then Throw (Herr ''array too short'') R
                else at_group (fst desig) (incomingEvent L io (snd desig) (arr ! 2)) R)
             else Ok R
       | _ \<Rightarrow> Throw (Herr ''not an array'') R)"

definition router_onMessage2 :: "libs \<Rightarrow> 'w plugin_io \<Rightarrow> string \<times> string \<Rightarrow> nat \<Rightarrow> string \<Rightarrow> ('t, 'w) Router \<Rightarrow> ('t, 'w) Router outcome" where
  "router_onMessage2 L io desig ws msg R =
     (if map_of (streamGroups R) (fst desig) = None then Ok (router_do (Close ws) R)
      else catch_log (handleIncomingMessage L io desig msg R))"

definition set_timeout :: "json \<Rightarrow> ('t, 'w) Router \<Rightarrow> ('t, 'w) Router outcome" where
  "set_timeout config R =
     olift (rbind (get_object config) (\<lambda>ms.
         case map_of ms ''connectionTimeout'' of None \<Rightarrow> Inr 20000000 | Some v \<Rightarrow> rbind (get_unsigned v) (\<lambda>n. Inr (n * 1000000)))) R
       (\<lambda>newTimeoutUs. Ok (R\<lparr>connectionTimeoutUs := newTimeoutUs\<rparr>))"

definition load_group :: "libs \<Rightarrow> cfg \<Rightarrow> (nat \<Rightarrow> u64) \<Rightarrow> string \<times> json \<Rightarrow> ('t, 'w) Router \<Rightarrow> ('t, 'w) Router outcome" where
  "load_group L cfg clock = (\<lambda>(groupName, spec) R.
     let R = (if map_of (streamGroups R) groupName = None then R\<lparr>streamGroups := map_set groupName new_StreamGroup (streamGroups R)\<rparr> else R) in
     at_group groupName (configure L cfg clock groupName spec) R)"

definition drop_groups :: "'w plugin_io \<Rightarrow> string list \<Rightarrow> ('t, 'w) Router \<Rightarrow> ('t, 'w) Router" where
  "drop_groups io names R =
     fold (\<lambda>x. close_group io (snd x)) (filter (\<lambda>x. fst x \<notin> set names) (streamGroups R))
       (R\<lparr>streamGroups := filter (\<lambda>x. fst x \<in> set names) (streamGroups R)\<rparr>)"

text \<open>An error keeps what was loaded before it; it ends the process only at the start.\<close>

definition reconcileConfig ::
  "libs \<Rightarrow> cfg \<Rightarrow> 'w plugin_io \<Rightarrow> (nat \<Rightarrow> u64) \<Rightarrow> json result \<Rightarrow> ('t, 'w) Router \<Rightarrow> ('t, 'w) Router outcome" where
  "reconcileConfig L cfg io clock loaded R =
     (case olift loaded R (\<lambda>config.
         obind (set_timeout config R) (\<lambda>R.
         olift (rbind (json_at config ''streams'') get_object) R (\<lambda>streams.
         obind (ofold (load_group L cfg clock) streams R) (\<lambda>R. Ok (drop_groups io (map fst streams) R))))) of
        Throw e R \<Rightarrow> if \<not> firstConfigLoadSuccess R then Exit 1 R else Ok R
      | Ok R \<Rightarrow> Ok (R\<lparr>firstConfigLoadSuccess := True\<rparr>)
      | r \<Rightarrow> r)"

text \<open>One event for all groups.\<close>

fun out_group :: "string \<Rightarrow> ('t, 'w) out_state outcome \<Rightarrow> (('t, 'w) Router \<times> string \<times> json) outcome" where
  "out_group groupName (Ok (g, R, r)) = Ok (set_group groupName g R, r)"
| "out_group groupName (Throw e (g, R, r)) = Throw e (set_group groupName g R, r)"
| "out_group groupName (Exit n (g, R, r)) = Exit n (set_group groupName g R, r)"
| "out_group groupName Hang = Hang"

definition out_event ::
  "'t env \<Rightarrow> libs \<Rightarrow> 'w plugin_io \<Rightarrow> (u32 \<Rightarrow> bytes \<Rightarrow> bytes result) \<Rightarrow> 't \<Rightarrow> View_Event \<Rightarrow> string \<Rightarrow> ('t, 'w) Router \<times> string \<times> json \<Rightarrow>
   (('t, 'w) Router \<times> string \<times> json) outcome" where
  "out_event E L io decomp txn ev groupName = (\<lambda>(R, r).
     case map_of (streamGroups R) groupName of
       None \<Rightarrow> Ok (R, r)
     | Some g \<Rightarrow> out_group groupName (outgoingEvent E L io decomp txn ev (g, R, r)))"

fun drop_response :: "(('t, 'w) Router \<times> string \<times> json) outcome \<Rightarrow> ('t, 'w) Router outcome" where
  "drop_response (Ok (R, r)) = Ok R"
| "drop_response (Throw e (R, r)) = Throw e R"
| "drop_response (Exit n (R, r)) = Exit n R"
| "drop_response Hang = Hang"

definition router_event ::
  "'t env \<Rightarrow> libs \<Rightarrow> 'w plugin_io \<Rightarrow> (u32 \<Rightarrow> bytes \<Rightarrow> bytes result) \<Rightarrow> 't \<Rightarrow> View_Event \<Rightarrow> ('t, 'w) Router \<Rightarrow> ('t, 'w) Router outcome" where
  "router_event E L io decomp txn ev R =
     (let R = R\<lparr>r_currEventId := fst ev\<rparr> in
      drop_response (ofold (out_event E L io decomp txn ev) (map fst (streamGroups R)) (R, [], JNull)))"

definition handleDBChange ::
  "'t env \<Rightarrow> libs \<Rightarrow> 'w plugin_io \<Rightarrow> (u32 \<Rightarrow> bytes \<Rightarrow> bytes result) \<Rightarrow> 't \<Rightarrow> ('t, 'w) Router \<Rightarrow> ('t, 'w) Router outcome" where
  "handleDBChange E L io decomp txn R =
     ofold (router_event E L io decomp txn) (foreach_Event E txn False (Some (r_currEventId R + 1))) R"

definition router_cron :: "(nat \<Rightarrow> u64) \<Rightarrow> string \<Rightarrow> ('t, 'w) Router \<Rightarrow> ('t, 'w) Router outcome" where
  "router_cron clock groupName = at_group groupName (\<lambda>gR. Ok (tryConnects clock groupName gR))"

definition router_msg ::
  "'t env \<Rightarrow> libs \<Rightarrow> cfg \<Rightarrow> 'w plugin_io \<Rightarrow> (u32 \<Rightarrow> bytes \<Rightarrow> bytes result) \<Rightarrow> (nat \<Rightarrow> u64) \<Rightarrow> json result \<Rightarrow> 't \<Rightarrow> RouterEvent \<Rightarrow> ('t, 'w) Router \<Rightarrow>
   ('t, 'w) Router outcome" where
  "router_msg E L cfg io decomp clock loaded txn m R =
     (case m of
        ConfigFileChange \<Rightarrow> reconcileConfig L cfg io clock loaded R
      | DBChange \<Rightarrow> handleDBChange E L io decomp txn R
      | ReconnectCron \<Rightarrow> ofold (router_cron clock) (map fst (streamGroups R)) R)"

definition router_onTrigger ::
  "'t env \<Rightarrow> libs \<Rightarrow> cfg \<Rightarrow> 'w plugin_io \<Rightarrow> (u32 \<Rightarrow> bytes \<Rightarrow> bytes result) \<Rightarrow> (nat \<Rightarrow> u64) \<Rightarrow> json result \<Rightarrow> 't \<Rightarrow> ('t, 'w) Router \<Rightarrow> ('t, 'w) Router outcome" where
  "router_onTrigger E L cfg io decomp clock loaded txn R =
     ofold (router_msg E L cfg io decomp clock loaded txn) (r_inbox R) (R\<lparr>r_inbox := []\<rparr>)"

section \<open>Forwarding\<close>

text \<open>The sockets that an event goes to, and the groups without the state of their plugins.\<close>

definition open_sockets :: "StreamGroup \<Rightarrow> nat list" where
  "open_sockets g = concat (map (\<lambda>(_, c). case conn_ws c of Some ws \<Rightarrow> [ws] | None \<Rightarrow> []) (conns g))"

definition wants :: "View_Event \<Rightarrow> StreamGroup \<Rightarrow> bool" where
  "wants ev g \<longleftrightarrow> sg_dir g \<noteq> ''down'' \<and> (\<exists>f \<in> set (fg_filters (sg_filterCompiled g)). matches f (unpack (snd ev)))"

definition routes :: "(string \<times> StreamGroup) list \<Rightarrow> (string \<times> StreamGroup) list" where
  "routes gs = map (\<lambda>(n, g). (n, g\<lparr>pluginUp := None\<rparr>)) gs"

definition groups_ok :: "(string \<times> StreamGroup) list \<Rightarrow> bool" where
  "groups_ok gs \<longleftrightarrow> distinct (map fst gs) \<and> (\<forall>(n, g) \<in> set gs. wf_group (sg_filterCompiled g))"

definition send_calls :: "string \<Rightarrow> nat list \<Rightarrow> router_call list" where
  "send_calls msg wss = map (\<lambda>ws. SendTo ws msg) wss"

text \<open>The sockets that want an event, plugins apart.\<close>

definition event_targets :: "View_Event \<Rightarrow> (string \<times> StreamGroup) list \<Rightarrow> nat list" where
  "event_targets ev gs = concat (map (\<lambda>(_, g). if wants ev g then open_sockets g else []) gs)"

text \<open>
  The specification: for each event in turn, and for each group that wants it in the order of the groups, the group's plugin for sending is asked with the JSON of the event, and the event is sent to each
  open connection of the group exactly when the verdict is \<open>Accept\<close>.  \<open>None\<close> is a plugin that sends lines which are no JSON forever.
\<close>

fun forward_event ::
  "libs \<Rightarrow> 'w plugin_io \<Rightarrow> string \<Rightarrow> json \<Rightarrow> View_Event \<Rightarrow> (string \<times> StreamGroup) list \<Rightarrow> 'w \<Rightarrow>
   (router_call list \<times> (string \<times> StreamGroup) list \<times> 'w) option" where
  "forward_event L io j v ev [] w = Some ([], [], w)"
| "forward_event L io j v ev ((n, g) # gs) w =
     (if \<not> wants ev g then map_option (\<lambda>(cs, gs, w). (cs, (n, g) # gs, w)) (forward_event L io j v ev gs w)
      else
        case acceptEvent L io (pluginUpCmd g) v Stored [] (pluginUp g, w) of
          None \<Rightarrow> None
        | Some (verdict, okMsg, plugin, w) \<Rightarrow>
            map_option (\<lambda>(cs, gs, w). ((if verdict = Accept then send_calls (upload_msg j) (open_sockets g) else []) @ cs, (n, g\<lparr>pluginUp := plugin\<rparr>) # gs, w))
              (forward_event L io j v ev gs w))"

definition stored_value :: "libs \<Rightarrow> string \<Rightarrow> json" where
  "stored_value L j = (case json_from_string L j of Inr v \<Rightarrow> v | Inl _ \<Rightarrow> JNull)"

fun forward_all ::
  "libs \<Rightarrow> 'w plugin_io \<Rightarrow> (u32 \<Rightarrow> bytes \<Rightarrow> bytes result) \<Rightarrow> tables \<Rightarrow> View_Event list \<Rightarrow> (string \<times> StreamGroup) list \<Rightarrow> 'w \<Rightarrow>
   (router_call list \<times> (string \<times> StreamGroup) list \<times> 'w) option" where
  "forward_all L io decomp T [] gs w = Some ([], gs, w)"
| "forward_all L io decomp T (ev # evs) gs w =
     (let j = the (stored_json decomp T (fst ev)) in
      Option.bind (forward_event L io j (stored_value L j) ev gs w) (\<lambda>(cs, gs, w).
        map_option (\<lambda>(cs', gs, w). (cs @ cs', gs, w)) (forward_all L io decomp T evs gs w)))"

lemma send_calls_append [simp]: "send_calls m (xs @ ys) = send_calls m xs @ send_calls m ys" "send_calls m [] = []"
  by (simp_all add: send_calls_def)

lemma wants_plugin [simp]: "wants ev (g\<lparr>pluginUp := p\<rparr>) = wants ev g" "open_sockets (g\<lparr>pluginUp := p\<rparr>) = open_sockets g"
  by (simp_all add: wants_def open_sockets_def)

lemma send_all_eq: "send_all m g R = R\<lparr>r_calls := r_calls R @ send_calls m (open_sockets g)\<rparr>"
proof -
  have "fold (\<lambda>(_, c) R. case conn_ws c of Some ws \<Rightarrow> router_do (SendTo ws m) R | None \<Rightarrow> R) cs R =
      R\<lparr>r_calls := r_calls R @ send_calls m (concat (map (\<lambda>(_, c). case conn_ws c of Some ws \<Rightarrow> [ws] | None \<Rightarrow> []) cs))\<rparr>" for cs
    by (induction cs arbitrary: R) (auto simp: router_do_def send_calls_def split: option.split)
  then show ?thesis by (simp add: send_all_def open_sockets_def)
qed

text \<open>Forwarding changes nothing of the groups but the state of their plugins.\<close>

lemma forward_event_routes: "forward_event L io j v ev gs w = Some (cs, gs', w') \<Longrightarrow> routes gs' = routes gs"
  by (induction gs arbitrary: w cs gs' w') (auto simp: routes_def split: if_splits option.splits)

lemma forward_all_routes: "forward_all L io decomp T evs gs w = Some (cs, gs', w') \<Longrightarrow> routes gs' = routes gs"
  by (induction evs arbitrary: gs w cs gs' w') (auto simp: Let_def bind_eq_Some_conv dest!: forward_event_routes)

lemma groups_ok_routes: "groups_ok (routes gs) = groups_ok gs"
  by (auto simp: groups_ok_def routes_def comp_def case_prod_beta)

lemma event_targets_routes: "event_targets ev (routes gs) = event_targets ev gs"
  unfolding event_targets_def routes_def map_map by (rule arg_cong [where f = concat]) auto

lemma plugins_routes: "(\<forall>(n, g) \<in> set (routes gs). pluginUpCmd g = []) = (\<forall>(n, g) \<in> set gs. pluginUpCmd g = [])"
  by (auto simp: routes_def)

text \<open>Without plugins, every group that wants the event gets it.\<close>

lemma forward_event_plain:
  "\<forall>(n, g) \<in> set gs. pluginUpCmd g = [] \<Longrightarrow>
   \<exists>gs' w'. forward_event L io j v ev gs w = Some (send_calls (upload_msg j) (event_targets ev gs), gs', w')"
proof (induction gs arbitrary: w)
  case (Cons x gs)
  obtain n g where x: "x = (n, g)" by (cases x)
  have plain: "\<forall>(n, g) \<in> set gs. pluginUpCmd g = []" "pluginUpCmd g = []" using Cons.prems by (auto simp: x)
  obtain p1 w1 where "reset_plugin io (pluginUp g, w) = (p1, w1)" by fastforce
  then show ?case using Cons.IH [OF plain(1), of w] Cons.IH [OF plain(1), of w1] plain(2) by (auto simp: x acceptEvent_def event_targets_def)
qed (simp add: event_targets_def)

lemma forward_all_plain:
  "\<forall>(n, g) \<in> set gs. pluginUpCmd g = [] \<Longrightarrow> \<exists>gs' w'. forward_all L io decomp T evs gs w =
     Some (concat (map (\<lambda>ev. send_calls (upload_msg (the (stored_json decomp T (fst ev)))) (event_targets ev gs)) evs), gs', w')"
proof (induction evs arbitrary: gs w)
  case (Cons ev evs)
  let ?j = "the (stored_json decomp T (fst ev))"
  obtain gs1 w1 where ev: "forward_event L io ?j (stored_value L ?j) ev gs w = Some (send_calls (upload_msg ?j) (event_targets ev gs), gs1, w1)"
    using forward_event_plain [OF Cons.prems] by metis
  note same = forward_event_routes [OF ev]
  have "\<forall>(n, g) \<in> set gs1. pluginUpCmd g = []" using Cons.prems same by (metis plugins_routes)
  moreover have "event_targets e gs1 = event_targets e gs" for e using same by (metis event_targets_routes)
  ultimately show ?case using Cons.IH [of gs1 w1] ev by (auto simp: Let_def)
qed simp

lemma set_group_at:
  assumes "streamGroups R = pre @ (n, g) # gs" and "distinct (map fst (streamGroups R))"
  shows "map_of (streamGroups R) n = Some g" and "set_group n g' R = R\<lparr>streamGroups := pre @ (n, g') # gs\<rparr>"
proof -
  have notin: "n \<notin> fst ` set pre" "n \<notin> fst ` set gs" using assms by auto
  then have "map_of pre n = None" by (simp add: map_of_eq_None_iff)
  then show "map_of (streamGroups R) n = Some g" using assms(1) by (simp add: map_add_def)
  have "map (\<lambda>x. if fst x = n then (n, g') else x) xs = xs" if "n \<notin> fst ` set xs" for xs
    using that by (induction xs) auto
  then show "set_group n g' R = R\<lparr>streamGroups := pre @ (n, g') # gs\<rparr>" using notin assms(1) by (simp add: set_group_def)
qed

context golpe_env
begin

lemma outgoing_ok:
  assumes T: "wf_store (view txn)" and pay: "payloads_ok decomp (view txn)" and mem: "ev \<in> set (t_events (view txn))"
    and j: "j = the (stored_json decomp (view txn) (fst ev))" and parse: "json_from_string L j = Inr v" "json_id v = Inr i"
    and g: "wf_group (sg_filterCompiled g)" and resp: "resp = [] \<or> resp = upload_msg j \<and> v0 = v"
  shows "outgoingEvent E L io decomp txn ev (g, R, resp, v0) =
     (if \<not> wants ev g then Ok (g, R, resp, v0)
      else case acceptEvent L io (pluginUpCmd g) v Stored [] (pluginUp g, r_world R) of
        None \<Rightarrow> Hang
      | Some (verdict, okMsg, p, w) \<Rightarrow> Ok (g\<lparr>pluginUp := p\<rparr>,
          R\<lparr>r_world := w, r_calls := r_calls R @ (if verdict = Accept then send_calls (upload_msg j) (open_sockets g) else [])\<rparr>, upload_msg j, v))"
proof -
  obtain l p where ev: "ev = (l, p)" by (cases ev)
  have e: "wf_event (unpack p)" "p = pack (unpack p)" using events_of_packed [OF T] mem ev by blast+
  have m: "rbind (PackedEventView p) (fg_doesMatch (sg_filterCompiled g)) = Inr (\<exists>f \<in> set (fg_filters (sg_filterCompiled g)). matches f (unpack p))"
    using PackedEventView_pack [OF e(1)] fg_doesMatch_pack [OF g e(1)] e(2) by simp
  have json: "getEventJson E decomp txn l = Inr j" unfolding j ev fst_conv by (rule getEventJson_stored [OF pay]) (use mem ev in force)
  have made: "(if resp = [] then rbind (getEventJson E decomp txn l) (\<lambda>evStr. rbind (json_from_string L evStr) (\<lambda>v. Inr (upload_msg evStr, v))) else Inr (resp, v0)) =
      Inr (upload_msg j, v)"
    using resp json parse by auto
  show ?thesis
  proof (cases "wants ev g")
    case True
    then show ?thesis
      unfolding outgoingEvent_def ev prod.case fst_conv snd_conv m made
      by (auto simp: wants_def send_all_eq parse(2) Let_def split: option.split)
  next
    case False
    then show ?thesis using m by (auto simp: outgoingEvent_def ev wants_def)
  qed
qed

lemma out_events:
  assumes T: "wf_store (view txn)" and pay: "payloads_ok decomp (view txn)" and mem: "ev \<in> set (t_events (view txn))"
    and j: "j = the (stored_json decomp (view txn) (fst ev))" and parse: "json_from_string L j = Inr v" "json_id v = Inr i"
  shows "streamGroups R = pre @ gs \<Longrightarrow> groups_ok (pre @ gs) \<Longrightarrow> resp = [] \<or> resp = upload_msg j \<and> v0 = v \<Longrightarrow>
    (case forward_event L io j v ev gs (r_world R) of
       None \<Rightarrow> ofold (out_event E L io decomp txn ev) (map fst gs) (R, resp, v0) = Hang
     | Some (cs, gs', w') \<Rightarrow> \<exists>r. ofold (out_event E L io decomp txn ev) (map fst gs) (R, resp, v0) =
         Ok (R\<lparr>streamGroups := pre @ gs', r_world := w', r_calls := r_calls R @ cs\<rparr>, r))"
proof (induction gs arbitrary: R pre resp v0)
  case (Cons x gs)
  obtain n g where x: "x = (n, g)" by (cases x)
  have wf: "wf_group (sg_filterCompiled g)" and dist: "distinct (map fst (streamGroups R))" using Cons.prems(1,2) by (auto simp: groups_ok_def x)
  note at = set_group_at [OF Cons.prems(1) [unfolded x] dist]
  note out = outgoing_ok [OF T pay mem j parse wf Cons.prems(3), of io R]
  have step: "ofold (out_event E L io decomp txn ev) (map fst (x # gs)) (R, resp, v0) =
      obind (out_group n (outgoingEvent E L io decomp txn ev (g, R, resp, v0))) (ofold (out_event E L io decomp txn ev) (map fst gs))"
    using at(1) by (simp add: x out_event_def)
  show ?case
  proof (cases "wants ev g")
    case False
    let ?R = "R\<lparr>streamGroups := (pre @ [(n, g)]) @ gs\<rparr>"
    have R: "?R = R" using Cons.prems(1) by (simp add: x)
    have "streamGroups R = (pre @ [(n, g)]) @ gs" "groups_ok ((pre @ [(n, g)]) @ gs)" using Cons.prems(1,2) by (simp_all add: x)
    from Cons.IH [OF this Cons.prems(3)] show ?thesis
      unfolding step using False out at(2) [of g] R by (auto simp: x split: option.splits)
  next
    case True
    show ?thesis
    proof (cases "acceptEvent L io (pluginUpCmd g) v Stored [] (pluginUp g, r_world R)")
      case None
      then show ?thesis unfolding step using True out by (simp add: x)
    next
      case (Some a)
      obtain verdict okMsg p w where a: "a = (verdict, okMsg, p, w)" by (cases a)
      let ?cs = "if verdict = Accept then send_calls (upload_msg j) (open_sockets g) else []"
      let ?R = "R\<lparr>streamGroups := (pre @ [(n, g\<lparr>pluginUp := p\<rparr>)]) @ gs, r_world := w, r_calls := r_calls R @ ?cs\<rparr>"
      have "streamGroups (R\<lparr>r_world := w, r_calls := r_calls R @ ?cs\<rparr>) = pre @ (n, g) # gs" using Cons.prems(1) by (simp add: x)
      from set_group_at(2) [OF this] have put: "set_group n (g\<lparr>pluginUp := p\<rparr>) (R\<lparr>r_world := w, r_calls := r_calls R @ ?cs\<rparr>) = ?R"
        using dist Cons.prems(1) by simp
      have "groups_ok ((pre @ [(n, g\<lparr>pluginUp := p\<rparr>)]) @ gs)" using Cons.prems(2) by (simp add: groups_ok_def x)
      from Cons.IH [of ?R "pre @ [(n, g\<lparr>pluginUp := p\<rparr>)]" "upload_msg j" v, OF _ this] show ?thesis
        unfolding step using True out Some a put by (auto simp: x split: option.splits)
    qed
  qed
qed simp

end

text \<open>What is stored reads back as an event with an id, which the line of the log names.\<close>

definition texts_parse :: "libs \<Rightarrow> (u32 \<Rightarrow> bytes \<Rightarrow> bytes result) \<Rightarrow> tables \<Rightarrow> bool" where
  "texts_parse L decomp T \<longleftrightarrow> (\<forall>l j. stored_json decomp T l = Some j \<longrightarrow> (\<exists>v i. json_from_string L j = Inr v \<and> json_id v = Inr i))"

context golpe_env
begin

lemma router_event_ok:
  assumes T: "wf_store (view txn)" and pay: "payloads_ok decomp (view txn)" and mem: "ev \<in> set (t_events (view txn))"
    and parse: "texts_parse L decomp (view txn)" and gs: "groups_ok (streamGroups R)" and j: "j = the (stored_json decomp (view txn) (fst ev))"
  shows "router_event E L io decomp txn ev R =
     (case forward_event L io j (stored_value L j) ev (streamGroups R) (r_world R) of
        None \<Rightarrow> Hang
      | Some (cs, gs', w') \<Rightarrow> Ok (R\<lparr>r_currEventId := fst ev, streamGroups := gs', r_world := w', r_calls := r_calls R @ cs\<rparr>))"
proof -
  have "fst ev \<in> fst ` set (t_events (view txn))" using mem by simp
  then obtain v i where v: "json_from_string L j = Inr v" "json_id v = Inr i" using payloads_ok_json [OF pay] parse j unfolding texts_parse_def by force
  then have "stored_value L j = v" by (simp add: stored_value_def)
  then show ?thesis
    using out_events [OF T pay mem j v, of "R\<lparr>r_currEventId := fst ev\<rparr>" "[]" "streamGroups R" "[]" JNull io] gs
    by (auto simp: router_event_def Let_def split: option.splits)
qed

lemma router_events_ok:
  assumes T: "wf_store (view txn)" and pay: "payloads_ok decomp (view txn)" and parse: "texts_parse L decomp (view txn)"
  shows "set evs \<subseteq> set (t_events (view txn)) \<Longrightarrow> groups_ok (streamGroups R) \<Longrightarrow> ofold (router_event E L io decomp txn) evs R =
     (case forward_all L io decomp (view txn) evs (streamGroups R) (r_world R) of
        None \<Rightarrow> Hang
      | Some (cs, gs', w') \<Rightarrow> Ok (R\<lparr>r_currEventId := last (r_currEventId R # map fst evs), streamGroups := gs', r_world := w', r_calls := r_calls R @ cs\<rparr>))"
proof (induction evs arbitrary: R)
  case (Cons ev evs)
  let ?j = "the (stored_json decomp (view txn) (fst ev))"
  have "ev \<in> set (t_events (view txn))" using Cons.prems(1) by simp
  note step = router_event_ok [OF T pay this parse Cons.prems(2) refl, of io]
  show ?case
  proof (cases "forward_event L io ?j (stored_value L ?j) ev (streamGroups R) (r_world R)")
    case None
    then show ?thesis using step by (simp add: Let_def)
  next
    case (Some a)
    obtain cs gs' w' where a: "a = (cs, gs', w')" by (cases a)
    have "groups_ok gs'" using forward_event_routes [OF Some [unfolded a]] Cons.prems(2) groups_ok_routes by metis
    then show ?thesis using Cons.IH [of "R\<lparr>r_currEventId := fst ev, streamGroups := gs', r_world := w', r_calls := r_calls R @ cs\<rparr>"] Cons.prems(1) step Some a
      by (auto simp: Let_def split: option.splits)
  qed
qed simp

end

section \<open>Properties\<close>

text \<open>C16: When the database has changed, the router takes every event that is new since it last looked, in the order of their ids, and for each, in the order of the groups, every group that is configured
  to send and whose filter matches the event: the group's \<open>pluginUp\<close> is consulted first, and the event is sent once to each open connection of the group exactly when the verdict is \<open>Accept\<close>.  Nothing else is
  sent, the groups stay as they are but for the state of their plugins, and the router never throws; it hangs only in a plugin that sends lines which are no JSON forever.  If no group has a \<open>pluginUp\<close>, every
  new event goes to every open connection of every group that wants it.  The stored texts must be JSON objects with a string \<open>id\<close>.\<close>

theorem router_forwards:
  assumes "golpe_env E view" and "wf_store (view txn)" and "payloads_ok decomp (view txn)" and "texts_parse L decomp (view txn)"
    and "groups_ok (streamGroups R)" and "r_currEventId R \<noteq> MAX_U64" and "new = filter (\<lambda>ev. r_currEventId R < fst ev) (t_events (view txn))"
  shows "(case forward_all L io decomp (view txn) new (streamGroups R) (r_world R) of
      None \<Rightarrow> handleDBChange E L io decomp txn R = Hang
    | Some (cs, gs, w) \<Rightarrow> handleDBChange E L io decomp txn R =
        Ok (R\<lparr>r_currEventId := last (r_currEventId R # map fst new), streamGroups := gs, r_world := w, r_calls := r_calls R @ cs\<rparr>) \<and>
        routes gs = routes (streamGroups R)) \<and>
    ((\<forall>(n, g) \<in> set (streamGroups R). pluginUpCmd g = []) \<longrightarrow>
      (\<exists>gs w. forward_all L io decomp (view txn) new (streamGroups R) (r_world R) =
        Some (concat (map (\<lambda>ev. map (\<lambda>ws. SendTo ws (upload_msg (the (stored_json decomp (view txn) (fst ev))))) (event_targets ev (streamGroups R))) new), gs, w)))"
proof -
  have evs: "foreach_Event E txn False (Some (r_currEventId R + 1)) = new"
    unfolding assms(7) by (rule golpe_env.newer_events [OF assms(1,2,6)])
  have "set new \<subseteq> set (t_events (view txn))" using assms(7) by auto
  note run = golpe_env.router_events_ok [OF assms(1-4) this assms(5), of io]
  have "case forward_all L io decomp (view txn) new (streamGroups R) (r_world R) of
      None \<Rightarrow> handleDBChange E L io decomp txn R = Hang
    | Some (cs, gs, w) \<Rightarrow> handleDBChange E L io decomp txn R =
        Ok (R\<lparr>r_currEventId := last (r_currEventId R # map fst new), streamGroups := gs, r_world := w, r_calls := r_calls R @ cs\<rparr>) \<and>
        routes gs = routes (streamGroups R)"
    using forward_all_routes run by (auto simp: handleDBChange_def evs split: option.splits)
  moreover have "\<exists>gs w. forward_all L io decomp (view txn) new (streamGroups R) (r_world R) =
      Some (concat (map (\<lambda>ev. map (\<lambda>ws. SendTo ws (upload_msg (the (stored_json decomp (view txn) (fst ev))))) (event_targets ev (streamGroups R))) new), gs, w)"
    if "\<forall>(n, g) \<in> set (streamGroups R). pluginUpCmd g = []"
    using forward_all_plain [OF that] by (simp add: send_calls_def)
  ultimately show ?thesis by blast
qed

section \<open>Reloading the configuration\<close>

lemma conf_urls_strings:
  assumes "json_find spec ''urls'' = Some (JArray (map JString us))"
  shows "conf_urls spec cont (g, R) = cont (g\<lparr>urls := us\<rparr>, R)"
proof -
  have "ofold (\<lambda>u (g, R). olift (get_string u) (g, R) (\<lambda>url. Ok (g\<lparr>urls := urls g @ [url]\<rparr>, R))) (map JString us) (g, R) = Ok (g\<lparr>urls := urls g @ us\<rparr>, R)" for g
    by (induction us arbitrary: g) simp_all
  from this [of "g\<lparr>urls := []\<rparr>"] show ?thesis using assms by (simp add: conf_urls_def)
qed

lemma empty_filter_compiles: "\<exists>C. fg_unwrapped hex (JObject []) limit = Inr C"
  by (simp add: fg_unwrapped_def mkNostrFilterGroup_def mkNostrFilter_def empty_filter_def)

lemma tryConnects_open:
  assumes "\<forall>url \<in> set (urls g). \<exists>c ws. map_of (conns g) url = Some c \<and> conn_ws c = Some ws"
  shows "tryConnects clock n (g, R) = (g, R)"
proof -
  have "fold (try_connect clock n) us (g, R) = (g, R)" if "set us \<subseteq> set (urls g)" for us
    using assms that by (induction us) (auto simp: try_connect_def)
  then show ?thesis by (simp add: tryConnects_def)
qed

lemma drop_unneeded_none: "fst ` set (conns g) \<subseteq> set (urls g) \<Longrightarrow> drop_unneeded (g, R) = (g, R)"
proof -
  assume "fst ` set (conns g) \<subseteq> set (urls g)"
  then have "\<forall>x \<in> set (conns g). fst x \<in> set (urls g)" by auto
  then show ?thesis by (simp add: drop_unneeded_def)
qed

lemma fold_close_conn: "r_calls (fold (\<lambda>x. close_conn (snd x)) cs R) = r_calls R @ concat (map (\<lambda>(_, c). case conn_ws c of Some ws \<Rightarrow> [Close ws] | None \<Rightarrow> []) cs)"
  by (induction cs arbitrary: R) (auto simp: close_conn_def router_do_def split: option.split)

lemma reconnect_all_closes: "ws \<in> set (open_sockets g) \<Longrightarrow> Close ws \<in> set (r_calls (snd (reconnect_all (g, R))))"
  by (force simp: reconnect_all_def fold_close_conn open_sockets_def split: option.splits)

lemma tryConnects_calls: "set (r_calls R) \<subseteq> set (r_calls (snd (tryConnects clock n (g, R))))"
proof -
  have step: "set (r_calls (snd gR)) \<subseteq> set (r_calls (snd (try_connect clock n url gR)))" for url and gR :: "StreamGroup \<times> ('a, 'b) Router"
    by (cases gR) (auto simp: try_connect_def Let_def curr_time_us_def router_do_def)
  have "set (r_calls (snd gR)) \<subseteq> set (r_calls (snd (fold (try_connect clock n) us gR)))" for us and gR :: "StreamGroup \<times> ('a, 'b) Router"
  proof (induction us arbitrary: gR)
    case (Cons url us)
    show ?case using order_trans [OF step Cons.IH] by simp
  qed simp
  from this [of "(g, R)"] show ?thesis by (simp add: tryConnects_def)
qed

text \<open>C40: A reload of the configuration that fails half-way makes the router forget to reconnect.  The new direction of a group is stored before the rest of its entry is read; when the entry lacks its urls, the load
  fails, and the next load, with the entry completed, finds the direction unchanged and keeps every connection as it is, although a connection subscribes to the
  events of its relay only when it is opened.  Without the failed load, every connection would have been closed.\<close>

theorem router_stale_connections:
  assumes "filterStr g = json_to_string L (JObject [])" and "set us = fst ` set (conns g)"
    and "\<forall>url \<in> set us. \<exists>c ws. map_of (conns g) url = Some c \<and> conn_ws c = Some ws"
    and "sg_dir g \<noteq> d"
  shows "(\<exists>g1 g2. configure L cfg clock n (JObject [(''dir'', JString d)]) (g, R) = Throw (Herr ''no urls field'') (g1, R) \<and>
    configure L cfg clock n (JObject [(''dir'', JString d), (''urls'', JArray (map JString us))]) (g1, R) = Ok (g2, R) \<and>
    sg_dir g2 = d \<and> conns g2 = conns g) \<and>
    (\<exists>g3 R3. configure L cfg clock n (JObject [(''dir'', JString d), (''urls'', JArray (map JString us))]) (g, R) = Ok (g3, R3) \<and>
      (\<forall>ws \<in> set (open_sockets g). Close ws \<in> set (r_calls R3)))"
proof -
  obtain C where C: "fg_unwrapped (from_hex L) (JObject []) (relay_maxFilterLimit cfg) = Inr C" using empty_filter_compiles by blast
  let ?g1 = "g\<lparr>sg_dir := d, filterStr := json_to_string L (JObject []), sg_filterCompiled := C, sg_filter := JObject [], pluginDownCmd := [], pluginUpCmd := []\<rparr>"
  have 1: "configure L cfg clock n (JObject [(''dir'', JString d)]) (g, R) = Throw (Herr ''no urls field'') (?g1, R)"
    using assms(1) by (simp add: configure_def conf_dir_def conf_filter_def C conf_plugins_def conf_urls_def)
  let ?g2 = "?g1\<lparr>urls := us\<rparr>"
  have "tryConnects clock n (drop_unneeded (?g2, R)) = (?g2, R)"
    using assms(2,3) by (subst drop_unneeded_none) (simp_all add: tryConnects_open)
  then have "configure L cfg clock n (JObject [(''dir'', JString d), (''urls'', JArray (map JString us))]) (?g1, R) = Ok (?g2, R)"
    using assms(1) by (simp add: configure_def conf_dir_def conf_filter_def C conf_plugins_def conf_urls_strings [where us = us])
  moreover have "configure L cfg clock n (JObject [(''dir'', JString d), (''urls'', JArray (map JString us))]) (g, R) = Ok (tryConnects clock n (reconnect_all (?g2, R)))"
    using assms(1,2,4) by (simp add: configure_def conf_dir_def conf_filter_def C conf_plugins_def conf_urls_strings [where us = us] drop_unneeded_none)
  moreover have "Close ws \<in> set (r_calls (snd (tryConnects clock n (reconnect_all (?g2, R)))))" if "ws \<in> set (open_sockets g)" for ws
    using reconnect_all_closes [of ws ?g2 R] that tryConnects_calls [of "snd (reconnect_all (?g2, R))" clock n "fst (reconnect_all (?g2, R))"]
    by (auto simp: open_sockets_def)
  ultimately show ?thesis using 1 by (intro conjI exI [of _ ?g1] exI [of _ ?g2] exI [of _ "fst (tryConnects clock n (reconnect_all (?g2, R)))"]
    exI [of _ "snd (tryConnects clock n (reconnect_all (?g2, R)))"]) (simp_all only: prod.collapse, simp_all)
qed

text \<open>A filter that is an array of filters is accepted, but the first connection of a group that downloads throws out of the event loop.\<close>

lemma router_array_filter:
  assumes "map_of (conns g) url = Some c" and "conn_ws c = None" and "sg_dir g = ''down''" and "sg_filter g = JArray fs"
  shows "\<exists>g'. connOpen L url ws (g, R) = Throw BadVariant (g', R)"
  using assms by (simp add: connOpen_def json_put_def)

section \<open>Witnesses\<close>

definition router_group :: StreamGroup where
  "router_group = new_StreamGroup\<lparr>sg_dir := ''up'', filterStr := ''{}'', urls := [''u''], conns := [(''u'', \<lparr>conn_ws = Some 5, started = 0\<rparr>)],
     sg_filterCompiled := \<lparr>fg_filters = [empty_filter\<lparr>nf_limit := 500, nf_indexOnlyScans := True\<rparr>]\<rparr>\<rparr>"

text \<open>Four groups: one sends, one only receives, one has a plugin that cannot be started, and one has a plugin that accepts.\<close>

definition sample_router :: "(tables, unit) Router" where
  "sample_router = (new_Router mem_env mesh_store ())\<lparr>streamGroups := [(''a'', router_group), (''b'', router_group\<lparr>sg_dir := ''down''\<rparr>),
     (''c'', router_group\<lparr>pluginUpCmd := ''./p'', conns := [(''u'', \<lparr>conn_ws = Some 6, started = 0\<rparr>)]\<rparr>),
     (''d'', router_group\<lparr>pluginUpCmd := ''./p x'', conns := [(''u'', \<lparr>conn_ws = Some 7, started = 0\<rparr>)]\<rparr>)], r_currEventId := 1\<rparr>"

lemma sample_plugins:
  "acceptEvent plugin_libs sample_io ''./p'' v Stored [] (None, w) = Some (Reject, ''error: internal error'', None, w)"
  "json_id v = Inr ''a'' \<Longrightarrow> \<exists>p. acceptEvent plugin_libs sample_io ''./p x'' v Stored [] (None, w) = Some (Accept, [], p, w)"
proof -
  show "acceptEvent plugin_libs sample_io ''./p'' v Stored [] (None, w) = Some (Reject, ''error: internal error'', None, w)"
    by (simp add: acceptEvent_def ask_plugin_def check_plugin_def setupPlugin_def sample_io_def reset_plugin_def Let_def)
  show "\<exists>p. acceptEvent plugin_libs sample_io ''./p x'' v Stored [] (None, w) = Some (Accept, [], p, w)" if "json_id v = Inr ''a''"
    using that
    by (auto simp: acceptEvent_def ask_plugin_def check_plugin_def setupPlugin_def plugin_request_def read_response_def sample_io_def Let_def json_id_def)
      (subst while_flow.simps, simp add: read_body_def check_response_def plugin_verdict_def plugin_libs_def Let_def)
qed

theorem router_forwards_witness:
  "\<exists>R'. handleDBChange mem_env plugin_libs sample_io (\<lambda>_. Inr) mesh_store sample_router = Ok R' \<and>
     r_calls R' = [SendTo 5 ''[\"EVENT\",{2}]'', SendTo 7 ''[\"EVENT\",{2}]'']"
proof -
  let ?f = "empty_filter\<lparr>nf_limit := 500, nf_indexOnlyScans := True\<rparr>" and ?v = "JObject [(''action'', JString ''accept''), (''id'', JString ''a'')]"
  have wf: "wf_group \<lparr>fg_filters = [?f]\<rparr>" by (simp add: wf_group_def wf_filter_def empty_filter_def)
  have hit: "matches ?f e" for e by (simp add: matches_def empty_filter_def)
  have parse: "json_from_string plugin_libs m = Inr ?v" "json_id ?v = Inr ''a''" for m by (simp_all add: plugin_libs_def json_id_def)
  have ok: "groups_ok (streamGroups sample_router)" using wf by (simp add: groups_ok_def sample_router_def router_group_def new_StreamGroup_def)
  have texts: "texts_parse plugin_libs (\<lambda>_. Inr) mesh_store" by (simp add: texts_parse_def parse)
  have R: "r_currEventId sample_router = 1" "r_calls sample_router = []" by (simp_all add: sample_router_def new_Router_def)
  have new: "[(2, pack sample_event)] = filter (\<lambda>ev. r_currEventId sample_router < fst ev) (t_events mesh_store)" by (simp add: R mesh_store_def)
  have stored: "the (stored_json (\<lambda>_. Inr) mesh_store 2) = ''{2}''" using mesh_store_ok(5) by simp
  have val: "stored_value plugin_libs j = ?v" for j by (simp add: stored_value_def parse)
  obtain p where p: "acceptEvent plugin_libs sample_io ''./p x'' ?v Stored [] (None, w) = Some (Accept, [], p, w)" for w
    using sample_plugins(2) [OF parse(2), of "()"] by auto
  have plain: "acceptEvent plugin_libs sample_io [] ?v Stored [] (None, w) = Some (Accept, [], None, w)" for w
    by (simp add: acceptEvent_def reset_plugin_def)
  obtain gs w where "forward_all plugin_libs sample_io (\<lambda>_. Inr) mesh_store [(2, pack sample_event)] (streamGroups sample_router) (r_world sample_router) =
      Some ([SendTo 5 ''[\"EVENT\",{2}]'', SendTo 7 ''[\"EVENT\",{2}]''], gs, w)"
    using hit by (simp add: Let_def stored val sample_router_def router_group_def new_StreamGroup_def new_Router_def wants_def open_sockets_def
        p plain sample_plugins(1) send_calls_def upload_msg_def)
  then show ?thesis
    using router_forwards [where view = "\<lambda>T. T", OF mem.golpe_env_axioms mesh_store_ok(1,3) texts ok _ new, of sample_io] R by (auto simp: R)
qed

theorem router_stale_connections_witness:
  "\<exists>g1 g2. configure stream_libs default_cfg (\<lambda>_. 0) ''a'' (JObject [(''dir'', JString ''down'')]) (router_group, sample_router) = Throw (Herr ''no urls field'') (g1, sample_router) \<and>
    configure stream_libs default_cfg (\<lambda>_. 0) ''a'' (JObject [(''dir'', JString ''down''), (''urls'', JArray [JString ''u''])]) (g1, sample_router) = Ok (g2, sample_router) \<and>
    sg_dir g2 = ''down'' \<and> map (\<lambda>(u, c). conn_ws c) (conns g2) = [Some 5]"
proof -
  have g: "filterStr router_group = json_to_string stream_libs (JObject [])" "conns router_group = [(''u'', \<lparr>conn_ws = Some 5, started = 0\<rparr>)]" "sg_dir router_group \<noteq> ''down''"
    by (simp_all add: router_group_def stream_libs_def sample_libs_def)
  from router_stale_connections [OF g(1), of "[''u'']" "''down''" default_cfg "\<lambda>_. 0" "''a''" sample_router] show ?thesis by (auto simp: g)
qed

end
