(* ===== verification/Spec2Isabelle.thy ===== *)
theory Spec2Isabelle
  imports EventsWriteProof DBQueryRun RelayIngester RelayWriter RelayCron RelayReqWorker RelayReqMonitor RelayNegentropy ExportImport NegentropyTrees Dictionaries RelayWebsocket MeshSync MeshRouter
begin

text \<open>
  A verification development for strfry, a relay of the Nostr protocol.

  \<^bold>\<open>The program.\<close>  A relay stores signed events in an LMDB database and serves them to clients over websockets.  Its threads exchange messages through inboxes: the
  websocket thread owns the connections; the ingester parses what the clients send, verifies events and builds filters; the writer asks the write policy plugin and writes batches of events; the request workers answer
  a REQ or COUNT by scanning the database in time slices and then hand the subscription to the request monitors, which follow the database and send new events; the negentropy thread reconciles sets of events;
  a cron job deletes expired events.  Around the relay there are commands that work on the database (export, import, delete, scan, negentropy, dict) and on other relays (stream, sync, router), and a pipeline of two
  threads through which they write.

  \<^bold>\<open>The theories\<close>, each with the files under \<open>src/src\<close> that it models.

  \<^item> \<open>Prelude\<close>, \<open>Json\<close>, \<open>Config\<close>: words, byte strings, exceptions as values (\<open>'a result\<close>), loops that may throw (\<open>rfold\<close>, \<open>rmap\<close>) or not end (\<open>while_flow\<close>); JSON values and \<open>jsonParseUtils.h\<close>; configuration and
    third-party functions.
  \<^item> \<open>PackedEvent\<close> (\<open>PackedEvent.h\<close>, \<open>Bytes32.h\<close>), \<open>Filters\<close> and \<open>NostrFilter\<close> (\<open>filters.h\<close>), \<open>EventsParse\<close> (\<open>events_parse.cpp\<close>, \<open>events.h\<close>): events and filters.  Packing can be undone, a packed byte set is the set it was made from, a filter
    means what its JSON says, an event that passes verification is authentic.
  \<^item> \<open>Store\<close> (\<open>golpe.yaml\<close>), \<open>EventsDb\<close> (\<open>events_db.cpp\<close>), \<open>NegentropyFilterCache\<close>, \<open>EventsWrite\<close> and \<open>EventsWriteProof\<close> (\<open>events_write.cpp\<close>): the database.  Writing a batch refines a specification on sets of events and keeps the
    invariant of the database: unique identifiers, one event per replaceable address, no event that was deleted by its author, negentropy trees that hold exactly the events of their filters.
  \<^item> \<open>DBQuery\<close>, \<open>DBScanProof\<close>, \<open>DBQueryProof\<close>, \<open>DBQueryRun\<close> (\<open>DBQuery.h\<close>): queries.  However a query is cut into time slices, it ends and yields the newest matching events of each filter up to its limit, each once.
  \<^item> \<open>Subscription\<close> (\<open>Subscription.h\<close>, \<open>EphemeralSubTracker.h\<close>), \<open>ActiveMonitors\<close> and \<open>ActiveMonitorsProof\<close> (\<open>ActiveMonitors.h\<close>): live subscriptions.  The five lookup tables index exactly the live filters, and a new
    event reaches exactly the subscriptions it matches.  The tracker of ephemeral kinds is one object for all monitor threads: the invariant of a thread's monitors is relative to what the other threads
    have in it (\<open>B\<close>), and \<open>threads_run\<close> interleaves the operations of any number of threads.
  \<^item> \<open>RelayServer\<close> (\<open>ThreadPool.h\<close>, \<open>RelayMessages.h\<close>, \<open>RelaySender.h\<close>), \<open>RelayWebsocket\<close>, \<open>RelayIngester\<close>, \<open>PluginEventSifter\<close>, \<open>RelayWriter\<close>, \<open>QueryScheduler\<close> and \<open>QuerySchedulerProof\<close>, \<open>RelayReqWorker\<close>, \<open>RelayReqMonitor\<close>, \<open>RelayNegentropy\<close>, \<open>RelayCron\<close>
    (the files of the same names): a definition per handler, and a round of each thread's loop as a function on what the threads share, so that the messages it sends can be seen.
  \<^item> \<open>WriterPipeline\<close>, \<open>ExportImport\<close> (\<open>cmd_export.cpp\<close>, \<open>cmd_import.cpp\<close>, \<open>cmd_info.cpp\<close>), \<open>FilterCommands\<close> (\<open>cmd_delete.cpp\<close>, \<open>cmd_scan.cpp\<close>), \<open>NegentropyTrees\<close> (\<open>onAppStartup.cpp\<close>, \<open>cmd_negentropy.cpp\<close>), \<open>Dictionaries\<close> (\<open>Decompressor.h\<close>, \<open>cmd_dict.cpp\<close>): the
    commands.  The two threads of the pipeline are an \<open>inductive\<close> step relation under any schedule: it loses and miscounts no event, and a flush always returns.
  \<^item> \<open>WSConnection\<close>, \<open>MeshStream\<close> (\<open>cmd_stream.cpp\<close>), \<open>MeshSync\<close> (\<open>cmd_sync.cpp\<close>), \<open>MeshRouter\<close> (\<open>cmd_router.cpp\<close>): the commands that talk to other relays, as callbacks of the websocket library.  They send exactly what they should, whatever the other
    side sends: a stream echoes nothing, a successful sync has dealt with every identifier that a reconciliation reported, and the router obeys the verdicts of its plugins.
  \<^item> This theory composes ingester and writer: whatever the schedule, what waits for the writer was made by the parser, so that the hypotheses of the writer's theorems hold in the running relay.

  \<^bold>\<open>Parameters and contracts.\<close>  Code that is not part of the repository is a parameter.  The database accessors that a generator makes from \<open>golpe.yaml\<close> are the record \<open>env\<close>, over any type of transactions, with the laws of the locale
  \<open>golpe_env\<close> (what a lookup returns, what an update changes, the order in which an index is visited) and \<open>golpe_schema\<close> for the tables of the start-up; both are interpreted on executable implementations over the
  tables (\<open>mem_env\<close>, \<open>mem_schema\<close>), which the witnesses use.  Every operation that writes may throw.  Beginning and ending a write transaction are functions with the contract \<open>txn_ok\<close>.  Hex coding, JSON text, SHA-256 and Schnorr
  verification are the record \<open>libs\<close>; where a theorem needs a law of them it is a named hypothesis (\<open>hex_ok\<close>, \<open>hex_inverse\<close>, \<open>json_ok\<close>).  The plugin process is \<open>plugin_io\<close>, the negentropy library \<open>negentropy\<close> and \<open>negentropy_client\<close>, zstd is \<open>zstd\<close> with
  \<open>zstd_ok\<close>, and clocks are arbitrary functions.

  \<^bold>\<open>Effects.\<close>  Exceptions are values; undefined behaviour that the code could run into (an index out of range, a pointer to a freed object, a copy beyond a buffer, a division by zero) is an exception of its own, so that a theorem
  that excludes errors excludes it.  Machine integers are words, with their wrap-around.  The pointers of the query scheduler and of the monitors are explicit.  A callback of the mesh commands keeps what it did before an exception
  (\<open>outcome\<close>).

  \<^bold>\<open>Loops.\<close>  A loop that may run forever is \<open>while_flow\<close>, with \<open>None\<close> for a run that does not end; theorems about such loops show that the result is \<open>Some\<close>.  The counts of time slices and of worker rounds in \<open>query_slices\<close>
  and in the theorem on requests are not fuel of the model but numbers of calls; the theorems show that some number suffices.  Events have times below \<open>2 ^ 40\<close> where a query is concerned (\<open>small_times\<close>): the relay's own time window
  implies it, and for imports it is a finding that the code does not check it.

  \<^bold>\<open>Where the code does not do what it means to\<close> there are theorems too: an event of the far future makes a scan leave its cursors; a malformed first negentropy message, or a session that is opened again, breaks
  the negentropy thread; a tree for an array of filters blocks every write; a line with an empty packed event stops an import; a configuration that fails half-way leaves the router with stale connections.

  \<^bold>\<open>Not modelled\<close>: the start of the threads, signals, sockets and TCP options, the event loop and the delays; the pages that the relay serves over HTTP, its metrics and log lines; the command \<open>compact\<close> (one call of LMDB), the debugging command
  \<open>monitor\<close> (it drives the monitors, which are modelled, from standard input), and the check for a little-endian CPU; a write by another thread between the two transactions of the cron job; the sub-commands that only print (\<open>negentropy list\<close>, \<open>dict stats\<close>) or call zstd on a random selection (\<open>dict train\<close>).
\<close>

section \<open>From the clients to the database\<close>

text \<open>
  The threads between a client and the database, in any order: messages arrive, an ingester thread runs a round, a writer thread runs a
  round.  The clock and the schedule are arbitrary.  A round of the writer that throws ends the process.
\<close>

inductive relay_run ::
  "'t env \<Rightarrow> ('t \<Rightarrow> tables) \<Rightarrow> libs \<Rightarrow> cfg \<Rightarrow> 'w plugin_io \<Rightarrow> ('t \<Rightarrow> 't result) \<Rightarrow> ('t \<Rightarrow> 't result) \<Rightarrow>
   RelayServer \<times> 't \<times> NegentropyFilterCache \<times> 'w sifter \<Rightarrow> bool"
  for E view L cfg io txn_rw commit where
  relay_start: "store_inv L new_NegentropyFilterCache (view db) \<Longrightarrow> inbox (tpWriter rs) = (\<lambda>_. []) \<Longrightarrow>
     relay_run E view L cfg io txn_rw commit (rs, db, new_NegentropyFilterCache, s)"
| relay_message: "relay_run E view L cfg io txn_rw commit (rs, db, cache, s) \<Longrightarrow>
     relay_run E view L cfg io txn_rw commit (rs\<lparr>tpIngester := dispatch connId m (tpIngester rs)\<rparr>, db, cache, s)"
| relay_ingester: "relay_run E view L cfg io txn_rw commit (rs, db, cache, s) \<Longrightarrow>
     relay_run E view L cfg io txn_rw commit (runIngester E L cfg now db thr rs, db, cache, s)"
| relay_writer: "relay_run E view L cfg io txn_rw commit (rs, db, cache, s) \<Longrightarrow>
     runWriter E L cfg io txn_rw commit thr (rs, db, cache, s) = Some (Inr st) \<Longrightarrow> relay_run E view L cfg io txn_rw commit st"

definition writer_typed :: "MsgWriter list \<Rightarrow> bool" where
  "writer_typed ms \<longleftrightarrow> (\<forall>ev \<in> set (to_write ms). pending ev)"

lemma writer_typed_simps [simp]:
  "writer_typed []" "writer_typed (ms @ ns) \<longleftrightarrow> writer_typed ms \<and> writer_typed ns"
  "writer_typed [Writer_CloseConn c]" "writer_typed [AddEvent c ip p j] \<longleftrightarrow> pending (mkEventToWrite p j c ip)"
proof -
  have "to_write (ms @ ns) = to_write ms @ to_write ns" for ms ns by (induction ms rule: to_write.induct) auto
  then show "writer_typed (ms @ ns) \<longleftrightarrow> writer_typed ms \<and> writer_typed ns" by (auto simp: writer_typed_def)
qed (simp_all add: writer_typed_def)

text \<open>A message of a client leads to at most one message for the writer, and that is an event the parser has made.\<close>

lemma ingesterProcessEvent_typed:
  assumes "hex_ok L" and "ingesterProcessEvent E L cfg now txn c ip v (rs, out) = Inr (rs', out')"
  shows "tpWriter rs' = tpWriter rs \<and> (writer_typed out \<longrightarrow> writer_typed out')"
  using assms(2) parsed_pending [OF assms(1)]
  by (auto simp: ingesterProcessEvent_def send_defs split: option.splits if_splits)

lemma ingester_command_typed:
  assumes "hex_ok L" and "ingester_command E L cfg now txn c ip payload (rs, out) = Inr (rs', out')"
  shows "tpWriter rs' = tpWriter rs \<and> (writer_typed out \<longrightarrow> writer_typed out')"
proof -
  have ev: "tpWriter rs' = tpWriter rs \<and> (writer_typed out \<longrightarrow> writer_typed out')" if "ingester_event E L cfg now txn c ip arr (rs, out) = Inr (rs', out')" for arr
  proof (cases "ingesterProcessEvent E L cfg now txn c ip (arr ! 1) (rs, out)")
    case (Inl e)
    then show ?thesis using that by (auto simp: ingester_event_def send_defs split: if_splits)
  next
    case (Inr r)
    then have "ingesterProcessEvent E L cfg now txn c ip (arr ! 1) (rs, out) = Inr (rs', out')" using that by (simp add: ingester_event_def)
    then show ?thesis by (rule ingesterProcessEvent_typed [OF assms(1)])
  qed
  show ?thesis
  proof (cases "client_command L payload")
    case None
    then show ?thesis
      using ingester_command_None [OF None, where E = E and cfg = cfg and now = now and txn = txn and c = c and ip = ip and rs = rs and out = out] assms(2)
      by (auto split: if_splits)
  next
    case (Some m)
    obtain cmd arr where m: "m = (cmd, arr)" by fastforce
    note command = ingester_command_Some [OF Some [unfolded m]]
    have same: "tpWriter (ingester_req L cfg c arr (cmd = ''COUNT'') rs) = tpWriter rs" if "cmd = ''REQ'' \<or> cmd = ''COUNT''"
      by (rule answered_tpWriter [OF ingester_req_answered [OF that]])
    show ?thesis
      using assms(2) ev [of arr] same answered_tpWriter [OF ingester_close_answered] answered_tpWriter [OF ingester_negentropy_answered [OF _ _ command(1)]]
      by (auto simp: command(2) split: if_splits)
  qed
qed

definition writer_boxes :: "RelayServer \<Rightarrow> bool" where
  "writer_boxes rs \<longleftrightarrow> (\<forall>i. writer_typed (inbox (tpWriter rs) i))"

lemma ingester_msg_typed:
  assumes "hex_ok L" and "ingester_msg E L cfg now txn m (rs, out) = (rs', out')" and "writer_boxes rs" and "writer_typed out"
  shows "writer_boxes rs' \<and> writer_typed out'"
proof (cases m)
  case (ClientMessage c ip payload)
  show ?thesis
  proof (cases "ingester_command E L cfg now txn c ip payload (rs, out)")
    case (Inl e)
    then show ?thesis using assms(2-4) ClientMessage by (auto simp: ingester_msg_def writer_boxes_def send_defs)
  next
    case (Inr r)
    then show ?thesis using assms(2-4) ClientMessage ingester_command_typed [OF assms(1), of E cfg now txn c ip payload rs out rs' out']
      by (simp add: ingester_msg_def writer_boxes_def)
  qed
next
  case (Ingester_CloseConn c)
  then show ?thesis using assms(2-4) by (auto simp: ingester_msg_def writer_boxes_def dispatch_def Let_def)
qed

lemma runIngester_typed:
  assumes "hex_ok L" and "writer_boxes rs"
  shows "writer_boxes (runIngester E L cfg now txn thr rs)"
proof -
  have msgs: "writer_boxes (fst r) \<and> writer_typed (snd r) \<Longrightarrow>
      writer_boxes (fst (fold (ingester_msg E L cfg now txn) ms r)) \<and> writer_typed (snd (fold (ingester_msg E L cfg now txn) ms r))" for ms r
  proof (induction ms arbitrary: r)
    case (Cons m ms)
    obtain rs out where "r = (rs, out)" by (cases r)
    then show ?case using Cons ingester_msg_typed [OF assms(1), of E cfg now txn m rs out] by (cases "ingester_msg E L cfg now txn m r") auto
  qed simp
  obtain rs1 out where f: "fold (ingester_msg E L cfg now txn) (inbox (tpIngester rs) thr) (rs\<lparr>tpIngester := snd (pop_all thr (tpIngester rs))\<rparr>, []) = (rs1, out)"
    by fastforce
  have "writer_boxes rs1" "writer_typed out"
    using msgs [of "(rs\<lparr>tpIngester := snd (pop_all thr (tpIngester rs))\<rparr>, [])" "inbox (tpIngester rs) thr"] assms(2) f by (auto simp: writer_boxes_def)
  moreover have "runIngester E L cfg now txn thr rs = (if length out \<noteq> 0 then rs1\<lparr>tpWriter := dispatchMulti 0 out (tpWriter rs1)\<rparr> else rs1)"
    using f by (simp add: runIngester_def pop_all_def)
  ultimately show ?thesis by (auto simp: writer_boxes_def dispatchMulti_def Let_def)
qed

lemma writer_prepare_typed:
  "writer_prepare L io cmd ms (rs, evs, s) = Some (Inr (rs', evs', s')) \<Longrightarrow> writer_typed ms \<Longrightarrow> \<forall>ev \<in> set evs. pending ev \<Longrightarrow>
   tpWriter rs' = tpWriter rs \<and> (\<forall>ev \<in> set evs'. pending ev)"
proof (induction L io cmd ms "(rs, evs, s)" arbitrary: rs evs s rule: writer_prepare.induct)
  case (3 L io pluginCmd c ip p j ms rs newEvents s)
  have ty: "writer_typed ms" "pending (mkEventToWrite p j c ip)" using 3(5) by (simp_all add: writer_typed_def)
  show ?case
  proof (cases "pluginCmd = []")
    case True
    then show ?thesis using 3 ty by simp
  next
    case False
    obtain v res okMsg s1 where x: "json_from_string L j = Inr v" "acceptEvent L io pluginCmd v (if length ip = 4 then IP4 else IP6) ip s = Some (res, okMsg, s1)"
      using 3(4) False by (auto simp: Let_def split: sum.splits option.splits)
    show ?thesis
    proof (cases "res = Accept")
      case True
      then show ?thesis using 3 False x ty by (simp add: Let_def)
    next
      case no: False
      obtain pk where "PackedEventView p = Inr pk" using 3(4) False x no by (auto simp: Let_def split: sum.splits)
      then show ?thesis using 3 False x no ty by (simp add: Let_def sendOKResponse_def)
    qed
  qed
qed (auto simp: writer_typed_def)

lemma runWriter_typed:
  assumes "golpe_env E view" and "json_ok L" and "txn_ok view txn_rw" and "txn_ok view commit"
    and "writer_boxes rs" and "store_inv L cache (view db)" and "runWriter E L cfg io txn_rw commit thr (rs, db, cache, s) = Some (Inr (rs', db', cache', s'))"
  shows "writer_boxes rs' \<and> store_inv L cache' (view db')"
proof -
  let ?ms = "inbox (tpWriter rs) thr" and ?rs = "rs\<lparr>tpWriter := snd (pop_all thr (tpWriter rs))\<rparr>"
  obtain rs1 evs s1 where p: "writer_prepare L io (relay_writePolicy_plugin cfg) (filter_closed ?ms) (?rs, [], s) = Some (Inr (rs1, evs, s1))"
    using assms(7) by (auto simp: runWriter_def pop_all_def split: option.splits sum.splits)
  have "writer_typed (filter_closed ?ms)" using assms(5) by (auto simp: writer_boxes_def writer_typed_def to_write_filter_closed open_events_def)
  from writer_prepare_typed [OF p this] have w: "tpWriter rs1 = tpWriter ?rs" "\<forall>ev \<in> set evs. pending ev" by simp_all
  have boxes: "writer_boxes r" if "tpWriter r = tpWriter ?rs" for r using assms(5) that by (simp add: writer_boxes_def pop_all_def)
  show ?thesis
  proof (cases "length evs = 0")
    case True
    then have "rs' = rs1" "db' = db" "cache' = cache" using assms(7) p by (simp_all add: runWriter_def pop_all_def)
    then show ?thesis using boxes w(1) assms(6) by simp
  next
    case False
    from golpe_env.writer_write_ok [OF assms(1,2,6) w(2) assms(3,4), of rs1]
    obtain r d c where ok: "writer_write E L txn_rw commit evs (rs1, db, cache) = Inr (r, d, c)" "rest_of r = rest_of rs1" "store_inv L c (view d)" by blast
    then have "rs' = r" "db' = d" "cache' = c" using assms(7) p False by (simp_all add: runWriter_def pop_all_def)
    then show ?thesis using ok(2,3) boxes [of r] w(1) by (simp add: rest_of_def)
  qed
qed

lemma relay_inv:
  assumes "golpe_env E view" and "json_ok L" and "hex_ok L" and "txn_ok view txn_rw" and "txn_ok view commit"
  shows "relay_run E view L cfg io txn_rw commit st \<Longrightarrow> case st of (rs, db, cache, s) \<Rightarrow> writer_boxes rs \<and> store_inv L cache (view db)"
proof (induction rule: relay_run.induct)
  case (relay_ingester rs db cache s now thr)
  then show ?case using runIngester_typed [OF assms(3)] by auto
next
  case (relay_writer rs db cache s thr st)
  obtain rs' db' cache' s' where st: "st = (rs', db', cache', s')" by (cases st)
  have "writer_boxes rs \<and> store_inv L cache (view db)" using relay_writer.IH by simp
  then show ?case using runWriter_typed [OF assms(1,2,4,5), of rs cache db cfg io thr s rs' db' cache' s'] relay_writer.hyps(2) by (simp add: st)
qed (auto simp: writer_boxes_def)

section \<open>Properties of the relay\<close>

text \<open>C5: Whatever the clients send and however the threads take turns, every message that waits for the writer is one the writer
  can handle: a packed event in the form the parser makes, not written yet.  The database always satisfies its invariant, and
  without a write policy no round of the writer throws or hangs.  (The cron job, which also writes to the database, does not take part in these runs; that it keeps the
  invariant is shown with it.)\<close>

theorem relay_typed:
  assumes "golpe_env E view" and "json_ok L" and "hex_ok L" and "txn_ok view txn_rw" and "txn_ok view commit"
    and "relay_run E view L cfg io txn_rw commit (rs, db, cache, s)"
  shows "(\<forall>thr. \<forall>ev \<in> set (to_write (inbox (tpWriter rs) thr)). pending ev) \<and> store_inv L cache (view db) \<and>
    (relay_writePolicy_plugin cfg = [] \<longrightarrow> (\<forall>thr. \<exists>st. runWriter E L cfg io txn_rw commit thr (rs, db, cache, s) = Some (Inr st)))"
proof -
  have inv: "writer_boxes rs" "store_inv L cache (view db)" using relay_inv [OF assms] by simp_all
  have "\<exists>st. runWriter E L cfg io txn_rw commit thr (rs, db, cache, s) = Some (Inr st)" if "relay_writePolicy_plugin cfg = []" for thr
  proof -
    let ?ms = "inbox (tpWriter rs) thr" and ?rs = "rs\<lparr>tpWriter := snd (pop_all thr (tpWriter rs))\<rparr>"
    have "\<forall>ev \<in> set (open_events ?ms). pending ev" using inv(1) by (auto simp: writer_boxes_def writer_typed_def open_events_def)
    from golpe_env.writer_write_ok [OF assms(1,2) inv(2) this assms(4,5), of ?rs]
    obtain r where "writer_write E L txn_rw commit (open_events ?ms) (?rs, db, cache) = Inr r" by blast
    then show ?thesis using that by (cases r) (auto simp: runWriter_def pop_all_def writer_prepare_no_plugin to_write_filter_closed)
  qed
  then show ?thesis using inv by (simp add: writer_boxes_def writer_typed_def)
qed

definition relay_tables :: tables where
  "relay_tables = empty_tables\<lparr>t_meta := Some \<lparr>dbVersion = 3, endianness = 1, negentropyModificationCounter = 1\<rparr>\<rparr>"

lemma event_libs_ok: "json_ok event_libs" "hex_ok event_libs" "store_inv event_libs new_NegentropyFilterCache relay_tables"
proof -
  show "hex_ok event_libs" using hex_ok_sample by (simp add: hex_ok_def event_libs_def)
  show "json_ok event_libs" by (simp add: json_ok_def event_libs_def sample_json_def)
  have ev: "events_of relay_tables = []" and none: "neg_infos event_libs relay_tables = {}" by (simp_all add: events_of_def neg_infos_def relay_tables_def empty_tables_def)
  have "base_ok {} relay_tables"
    by (simp add: base_ok_def trees_ok_def ev unique_ids_def) (simp add: wf_store_def tables_ok_def relay_tables_def empty_tables_def)
  moreover have "cache_inv event_libs new_NegentropyFilterCache relay_tables"
    by (simp add: cache_inv_def) (simp add: relay_tables_def new_NegentropyFilterCache_def)
  moreover have "neg_parse_ok event_libs relay_tables" by (simp add: neg_parse_ok_def relay_tables_def empty_tables_def)
  ultimately show "store_inv event_libs new_NegentropyFilterCache relay_tables"
    by (simp add: store_inv_def none ev db_ok_def unique_ids_def) (simp add: relay_tables_def)
qed

theorem relay_typed_witness:
  "\<exists>rs st. inbox (tpWriter rs) 0 = [AddEvent 7 ''ip'' sample_packed ''{}''] \<and>
     relay_run mem_env (\<lambda>T. T) event_libs default_cfg sample_io Inr Inr (rs, relay_tables, new_NegentropyFilterCache, (None, ())) \<and>
     (\<forall>ev \<in> set (to_write (inbox (tpWriter rs) 0)). pending ev) \<and>
     runWriter mem_env event_libs default_cfg sample_io Inr Inr 0 (rs, relay_tables, new_NegentropyFilterCache, (None, ())) = Some (Inr st)"
proof -
  let ?rs0 = "sample_relay\<lparr>tpIngester := dispatch 7 (ClientMessage 7 ''ip'' ''[]'') (tpIngester sample_relay)\<rparr>"
  let ?rs = "runIngester mem_env event_libs default_cfg 1010 relay_tables 0 ?rs0"
  have t: "txn_ok (\<lambda>T. T) Inr" by (simp add: txn_ok_def)
  have p: "relay_writePolicy_plugin default_cfg = []" by (simp add: default_cfg_def)
  have run: "relay_run mem_env (\<lambda>T. T) event_libs default_cfg sample_io Inr Inr (?rs, relay_tables, new_NegentropyFilterCache, (None, ()))"
    by (intro relay_ingester relay_message relay_start) (simp_all add: sample_relay_def empty_pool_def event_libs_ok)
  have "t_events relay_tables = []" by (simp add: relay_tables_def empty_tables_def)
  from event_libs_command [OF this] have "inbox (tpWriter ?rs) 0 = [AddEvent 7 ''ip'' sample_packed ''{}'']"
    by (simp add: runIngester_def ingester_msg_def pop_all_def dispatch_def dispatchMulti_def sample_relay_def empty_pool_def Let_def)
  with relay_typed [OF mem.golpe_env_axioms event_libs_ok(1,2) t t run] p run show ?thesis by blast
qed

end
